(* ===== verification/Prelude.thy ===== *)
theory Prelude
  imports Main "HOL-Library.Multiset" "HOL-Library.Monad_Syntax"
begin

text \<open>
  Shared vocabulary of the development: the result type of code that may throw or may fail to
  return, and the list lemmas that the array-manipulating components use.  Arrays of the JavaScript
  sources are lists; writing an element in range is \<^term>\<open>xs[i := v]\<close>, and the lemmas below
  describe such writes on arrays that are given as a concatenation of segments.
\<close>

named_theorems seg_simps \<open>reads and writes on arrays written as concatenated segments\<close>

section \<open>Results of code that may throw\<close>

datatype js_error = Error | TypeError | ReferenceError

type_synonym 'a result = "js_error + 'a"

section \<open>Segments of arrays\<close>

lemma nth_seg [seg_simps]: "i = length p \<Longrightarrow> (p @ x # q) ! i = x"
  by simp

lemma update_seg [seg_simps]: "i = length p \<Longrightarrow> (p @ x # q)[i := y] = p @ y # q"
  by simp

lemma list_update_append_right: "(p @ q)[length p + i := v] = p @ q[i := v]"
  by (simp add: list_update_append)

lemma split_at_nth: "i < length xs \<Longrightarrow> xs = take i xs @ xs ! i # drop (Suc i) xs"
  by (rule id_take_nth_drop)

lemma length_Suc_snoc: "length xs = Suc n \<Longrightarrow> \<exists>ys y. xs = ys @ [y] \<and> length ys = n"
  by (cases xs rule: rev_cases) auto

lemma length_append_split:
  assumes "length zs = m + n"
  obtains xs ys where "zs = xs @ ys" "length xs = m" "length ys = n"
  using that [of "take m zs" "drop m zs"] assms by simp

lemma take_drop_eq_nth:
  "i < n \<Longrightarrow> c + n \<le> length xs \<Longrightarrow> take n (drop c xs) ! i = xs ! (c + i)"
  by simp

lemma sorted_wrt_take_nth:
  "sorted_wrt P xs \<Longrightarrow> i < j \<Longrightarrow> j < length xs \<Longrightarrow> P (xs ! i) (xs ! j)"
  by (simp add: sorted_wrt_iff_nth_less)

end
