(* ===== verification/TimSort.thy ===== *)
theory TimSort
  imports Prelude
begin

unbundle bit_operations_syntax

text \<open>
  The stable array sort that the chart library uses for its display list
  (\<^verbatim>\<open>src/html/js/echarts.js\<close>, lines 2253-2776): run detection, binary insertion sort, galloping
  search, the two galloping merges, the run stack and the driver.  Arrays are lists; every
  function that writes the array returns it.  Indices and lengths are exact integers, which agrees
  with the shifts \<^verbatim>\<open><<\<close>, \<^verbatim>\<open>>>>\<close> and \<^verbatim>\<open>>>\<close> of the source for
  arrays of fewer than \<open>2 ^ 30\<close> elements.  Loops whose termination depends on an invariant are
  \<^theory_text>\<open>partial_function (option)\<close>, so that not returning is \<^term>\<open>None\<close>; the
  \<^verbatim>\<open>throw\<close> of the source is \<^term>\<open>Inl Error\<close>.
\<close>

section \<open>Definitions\<close>

subsection \<open>Runs\<close>

definition DEFAULT_MIN_MERGE :: nat where "DEFAULT_MIN_MERGE = 32"

definition DEFAULT_MIN_GALLOPING :: nat where "DEFAULT_MIN_GALLOPING = 7"

function minRunLength_loop :: "nat \<Rightarrow> nat \<Rightarrow> nat" where
  "minRunLength_loop n r =
     (if n \<ge> DEFAULT_MIN_MERGE
      then minRunLength_loop (drop_bit 1 n) (r OR (n AND 1)) else n + r)"
  by pat_completeness auto
termination
  by (relation "measure fst") (auto simp: DEFAULT_MIN_MERGE_def drop_bit_eq_div)

declare minRunLength_loop.simps [simp del]

definition minRunLength :: "nat \<Rightarrow> nat" where
  "minRunLength n = minRunLength_loop n 0"

function reverseRun_loop :: "'a list \<Rightarrow> nat \<Rightarrow> nat \<Rightarrow> 'a list" where
  "reverseRun_loop array lo hi =
     (if lo < hi
      then let t = array ! lo; array = array[lo := array ! hi]; array = array[hi := t]
           in reverseRun_loop array (lo + 1) (hi - 1)
      else array)"
  by pat_completeness auto
termination
  by (relation "measure (\<lambda>(array, lo, hi). hi - lo)") auto

declare reverseRun_loop.simps [simp del]

definition reverseRun :: "'a list \<Rightarrow> nat \<Rightarrow> nat \<Rightarrow> 'a list" where
  "reverseRun array lo hi = reverseRun_loop array lo (hi - 1)"

function runEnd :: "('a \<Rightarrow> 'a \<Rightarrow> bool) \<Rightarrow> 'a list \<Rightarrow> nat \<Rightarrow> nat \<Rightarrow> nat" where
  "runEnd goOn array runHi hi =
     (if runHi < hi \<and> goOn (array ! runHi) (array ! (runHi - 1))
      then runEnd goOn array (runHi + 1) hi else runHi)"
  by pat_completeness auto
termination
  by (relation "measure (\<lambda>(goOn, array, runHi, hi). hi - runHi)") auto

declare runEnd.simps [simp del]

definition makeAscendingRun ::
  "'a list \<Rightarrow> nat \<Rightarrow> nat \<Rightarrow> ('a \<Rightarrow> 'a \<Rightarrow> int) \<Rightarrow> 'a list \<times> nat" where
  "makeAscendingRun array lo hi compare =
     (let runHi = lo + 1 in
      if runHi = hi then (array, 1)
      else if compare (array ! runHi) (array ! lo) < 0
        then let runHi = runEnd (\<lambda>x y. compare x y < 0) array (runHi + 1) hi
             in (reverseRun array lo runHi, runHi - lo)
        else let runHi = runEnd (\<lambda>x y. compare x y \<ge> 0) array (runHi + 1) hi
             in (array, runHi - lo))"

subsection \<open>Binary insertion sort\<close>

function insertionPoint ::
  "'a list \<Rightarrow> 'a \<Rightarrow> nat \<Rightarrow> nat \<Rightarrow> ('a \<Rightarrow> 'a \<Rightarrow> int) \<Rightarrow> nat" where
  "insertionPoint array pivot left right compare =
     (if left < right
      then let mid = (left + right) div 2
           in if compare pivot (array ! mid) < 0
              then insertionPoint array pivot left mid compare
              else insertionPoint array pivot (mid + 1) right compare
      else left)"
  by pat_completeness auto
termination
  by (relation "measure (\<lambda>(array, pivot, left, right, compare). right - left)") auto

declare insertionPoint.simps [simp del]

fun shiftRight_loop :: "'a list \<Rightarrow> nat \<Rightarrow> nat \<Rightarrow> 'a list" where
  "shiftRight_loop array left 0 = array"
| "shiftRight_loop array left (Suc n) =
     shiftRight_loop (array[left + Suc n := array ! (left + n)]) left n"

definition shiftRight :: "'a list \<Rightarrow> nat \<Rightarrow> nat \<Rightarrow> 'a list" where
  "shiftRight array left n =
     (if n = 3 then
        (let array = array[left + 3 := array ! (left + 2)];
             array = array[left + 2 := array ! (left + 1)]
         in array[left + 1 := array ! left])
      else if n = 2 then
        (let array = array[left + 2 := array ! (left + 1)]
         in array[left + 1 := array ! left])
      else if n = 1 then array[left + 1 := array ! left]
      else shiftRight_loop array left n)"

function binaryInsertionSort_loop ::
  "'a list \<Rightarrow> nat \<Rightarrow> nat \<Rightarrow> nat \<Rightarrow> ('a \<Rightarrow> 'a \<Rightarrow> int) \<Rightarrow> 'a list" where
  "binaryInsertionSort_loop array lo hi start compare =
     (if start < hi
      then let pivot = array ! start;
               left = insertionPoint array pivot lo start compare;
               array = shiftRight array left (start - left)
           in binaryInsertionSort_loop (array[left := pivot]) lo hi (start + 1) compare
      else array)"
  by pat_completeness auto
termination
  by (relation "measure (\<lambda>(array, lo, hi, start, compare). hi - start)") auto

declare binaryInsertionSort_loop.simps [simp del]

definition binaryInsertionSort ::
  "'a list \<Rightarrow> nat \<Rightarrow> nat \<Rightarrow> nat \<Rightarrow> ('a \<Rightarrow> 'a \<Rightarrow> int) \<Rightarrow> 'a list" where
  "binaryInsertionSort array lo hi start compare =
     binaryInsertionSort_loop array lo hi (if start = lo then start + 1 else start) compare"

subsection \<open>Galloping search\<close>

function gallopProbe :: "(int \<Rightarrow> bool) \<Rightarrow> int \<Rightarrow> int \<Rightarrow> int \<Rightarrow> int \<times> int" where
  "gallopProbe goOn maxOffset lastOffset offset =
     (if offset < maxOffset \<and> goOn offset
      then let lastOffset' = offset; offset' = 2 * offset + 1
           in gallopProbe goOn maxOffset lastOffset'
                (if offset' \<le> 0 then maxOffset else offset')
      else (lastOffset, if offset > maxOffset then maxOffset else offset))"
  by pat_completeness auto
termination
  by (relation "measure (\<lambda>(goOn, maxOffset, lastOffset, offset). nat (maxOffset - offset))")
    auto

declare gallopProbe.simps [simp del]

function gallopBisect :: "(int \<Rightarrow> bool) \<Rightarrow> int \<Rightarrow> int \<Rightarrow> int" where
  "gallopBisect goRight lastOffset offset =
     (if lastOffset < offset
      then let m = lastOffset + (offset - lastOffset) div 2
           in if goRight m then gallopBisect goRight (m + 1) offset
              else gallopBisect goRight lastOffset m
      else offset)"
  by pat_completeness auto
termination
  by (relation "measure (\<lambda>(goRight, lastOffset, offset). nat (offset - lastOffset))") auto

declare gallopBisect.simps [simp del]

definition gallopLeft ::
  "'a \<Rightarrow> 'a list \<Rightarrow> nat \<Rightarrow> nat \<Rightarrow> nat \<Rightarrow> ('a \<Rightarrow> 'a \<Rightarrow> int) \<Rightarrow> nat" where
  "gallopLeft value array start length' hint compare =
     (let at = (\<lambda>i. array ! nat (int start + i));
          (lastOffset, offset) =
            (if compare value (at (int hint)) > 0
             then let (lastOffset, offset) =
                        gallopProbe (\<lambda>offset. compare value (at (int hint + offset)) > 0)
                          (int length' - int hint) 0 1
                  in (lastOffset + int hint, offset + int hint)
             else let (lastOffset, offset) =
                        gallopProbe (\<lambda>offset. compare value (at (int hint - offset)) \<le> 0)
                          (int hint + 1) 0 1
                  in (int hint - offset, int hint - lastOffset))
      in nat (gallopBisect (\<lambda>m. compare value (at m) > 0) (lastOffset + 1) offset))"

definition gallopRight ::
  "'a \<Rightarrow> 'a list \<Rightarrow> nat \<Rightarrow> nat \<Rightarrow> nat \<Rightarrow> ('a \<Rightarrow> 'a \<Rightarrow> int) \<Rightarrow> nat" where
  "gallopRight value array start length' hint compare =
     (let at = (\<lambda>i. array ! nat (int start + i));
          (lastOffset, offset) =
            (if compare value (at (int hint)) < 0
             then let (lastOffset, offset) =
                        gallopProbe (\<lambda>offset. compare value (at (int hint - offset)) < 0)
                          (int hint + 1) 0 1
                  in (int hint - offset, int hint - lastOffset)
             else let (lastOffset, offset) =
                        gallopProbe (\<lambda>offset. compare value (at (int hint + offset)) \<ge> 0)
                          (int length' - int hint) 0 1
                  in (lastOffset + int hint, offset + int hint))
      in nat (gallopBisect (\<lambda>m. \<not> compare value (at m) < 0) (lastOffset + 1) offset))"

subsection \<open>Copying loops\<close>

fun copyUp :: "nat \<Rightarrow> nat \<Rightarrow> (nat \<Rightarrow> 'a) \<Rightarrow> 'a list \<Rightarrow> nat \<Rightarrow> 'a list" where
  "copyUp i 0 src array dest = array"
| "copyUp i (Suc n) src array dest = copyUp (i + 1) n src (array[dest + i := src i]) dest"

fun moveUp :: "nat \<Rightarrow> nat \<Rightarrow> 'a list \<Rightarrow> nat \<Rightarrow> nat \<Rightarrow> 'a list" where
  "moveUp i 0 array dest cursor = array"
| "moveUp i (Suc n) array dest cursor =
     moveUp (i + 1) n (array[dest + i := array ! (cursor + i)]) dest cursor"

fun moveDown :: "nat \<Rightarrow> 'a list \<Rightarrow> nat \<Rightarrow> nat \<Rightarrow> 'a list" where
  "moveDown 0 array dest cursor = array"
| "moveDown (Suc i) array dest cursor =
     moveDown i (array[dest + i := array ! (cursor + i)]) dest cursor"

definition js_set :: "'a list \<Rightarrow> nat \<Rightarrow> 'a \<Rightarrow> 'a list" where
  "js_set xs i v = (if i < length xs then xs[i := v] else xs @ [v])"

fun fillTmp :: "nat \<Rightarrow> nat \<Rightarrow> 'a list \<Rightarrow> 'a list \<Rightarrow> nat \<Rightarrow> 'a list" where
  "fillTmp i 0 tmp array start = tmp"
| "fillTmp i (Suc n) tmp array start =
     fillTmp (i + 1) n (js_set tmp i (array ! (start + i))) array start"

subsection \<open>The sorter's state\<close>

record 'a tim_sort =
  tsArray :: "'a list"
  tsTmp :: "'a list"
  tsMinGallop :: int
  tsRunStart :: "nat list"
  tsRunLength :: "nat list"
  tsStackSize :: nat

definition TimSort :: "'a list \<Rightarrow> 'a tim_sort" where
  "TimSort arr = \<lparr>tsArray = arr, tsTmp = [], tsMinGallop = int DEFAULT_MIN_GALLOPING,
                  tsRunStart = [], tsRunLength = [], tsStackSize = 0\<rparr>"

definition pushRun :: "'a tim_sort \<Rightarrow> nat \<Rightarrow> nat \<Rightarrow> 'a tim_sort" where
  "pushRun ts start len =
     ts\<lparr>tsRunStart := js_set (tsRunStart ts) (tsStackSize ts) start,
        tsRunLength := js_set (tsRunLength ts) (tsStackSize ts) len,
        tsStackSize := tsStackSize ts + 1\<rparr>"

subsection \<open>Merging with the shorter run on the left\<close>

record 'a low =
  lArray :: "'a list"
  lCursor1 :: nat
  lCursor2 :: nat
  lDest :: nat
  lLength1 :: nat
  lLength2 :: nat

definition lowTake2 :: "'a low \<Rightarrow> 'a low" where
  "lowTake2 s = s\<lparr>lArray := (lArray s)[lDest s := lArray s ! lCursor2 s], lDest := lDest s + 1,
                 lCursor2 := lCursor2 s + 1, lLength2 := lLength2 s - 1\<rparr>"

definition lowTake1 :: "'a list \<Rightarrow> 'a low \<Rightarrow> 'a low" where
  "lowTake1 tmp s = s\<lparr>lArray := (lArray s)[lDest s := tmp ! lCursor1 s], lDest := lDest s + 1,
                     lCursor1 := lCursor1 s + 1, lLength1 := lLength1 s - 1\<rparr>"

definition lowCopy1 :: "'a list \<Rightarrow> nat \<Rightarrow> 'a low \<Rightarrow> 'a low" where
  "lowCopy1 tmp count1 s =
     s\<lparr>lArray := copyUp 0 count1 (\<lambda>i. tmp ! (lCursor1 s + i)) (lArray s) (lDest s),
       lDest := lDest s + count1, lCursor1 := lCursor1 s + count1,
       lLength1 := lLength1 s - count1\<rparr>"

definition lowMove2 :: "nat \<Rightarrow> 'a low \<Rightarrow> 'a low" where
  "lowMove2 count2 s =
     s\<lparr>lArray := moveUp 0 count2 (lArray s) (lDest s) (lCursor2 s),
       lDest := lDest s + count2, lCursor2 := lCursor2 s + count2,
       lLength2 := lLength2 s - count2\<rparr>"

partial_function (option) lowPairs ::
  "('a \<Rightarrow> 'a \<Rightarrow> int) \<Rightarrow> 'a list \<Rightarrow> int \<Rightarrow> nat \<Rightarrow> nat \<Rightarrow> 'a low \<Rightarrow> ('a low \<times> bool) option" where
  "lowPairs compare tmp mg count1 count2 s =
     (if compare (lArray s ! lCursor2 s) (tmp ! lCursor1 s) < 0
      then (if lLength2 (lowTake2 s) = 0 then Some (lowTake2 s, True)
            else if int (0 OR (count2 + 1)) < mg
              then lowPairs compare tmp mg 0 (count2 + 1) (lowTake2 s)
              else Some (lowTake2 s, False))
      else (if lLength1 (lowTake1 tmp s) = 1 then Some (lowTake1 tmp s, True)
            else if int ((count1 + 1) OR 0) < mg
              then lowPairs compare tmp mg (count1 + 1) 0 (lowTake1 tmp s)
              else Some (lowTake1 tmp s, False)))"

partial_function (option) lowGallop ::
  "('a \<Rightarrow> 'a \<Rightarrow> int) \<Rightarrow> 'a list \<Rightarrow> int \<Rightarrow> 'a low \<Rightarrow> ('a low \<times> int \<times> bool) option" where
  "lowGallop compare tmp mg s =
     (let count1 = gallopRight (lArray s ! lCursor2 s) tmp (lCursor1 s) (lLength1 s) 0 compare;
          s1 = (if count1 \<noteq> 0 then lowCopy1 tmp count1 s else s)
      in if count1 \<noteq> 0 \<and> lLength1 s1 \<le> 1 then Some (s1, mg, True)
      else let s2 = lowTake2 s1 in
      if lLength2 s2 = 0 then Some (s2, mg, True)
      else let count2 = gallopLeft (tmp ! lCursor1 s2) (lArray s2) (lCursor2 s2) (lLength2 s2) 0
                          compare;
               s3 = (if count2 \<noteq> 0 then lowMove2 count2 s2 else s2)
      in if count2 \<noteq> 0 \<and> lLength2 s3 = 0 then Some (s3, mg, True)
      else let s4 = lowTake1 tmp s3 in
      if lLength1 s4 = 1 then Some (s4, mg, True)
      else if count1 \<ge> DEFAULT_MIN_GALLOPING \<or> count2 \<ge> DEFAULT_MIN_GALLOPING
        then lowGallop compare tmp (mg - 1) s4
        else Some (s4, mg - 1, False))"

partial_function (option) lowLoop ::
  "('a \<Rightarrow> 'a \<Rightarrow> int) \<Rightarrow> 'a list \<Rightarrow> int \<Rightarrow> 'a low \<Rightarrow> ('a low \<times> int) option" where
  "lowLoop compare tmp mg s =
     do {
       r1 \<leftarrow> lowPairs compare tmp mg 0 0 s;
       if snd r1 then Some (fst r1, mg)
       else do {
         r2 \<leftarrow> lowGallop compare tmp mg (fst r1);
         if snd (snd r2) then Some (fst r2, fst (snd r2))
         else lowLoop compare tmp ((if fst (snd r2) < 0 then 0 else fst (snd r2)) + 2) (fst r2)
       }
     }"

definition lowFinish :: "'a list \<Rightarrow> 'a low \<Rightarrow> 'a list result" where
  "lowFinish tmp s =
     (if lLength1 s = 1
      then Inr ((moveUp 0 (lLength2 s) (lArray s) (lDest s) (lCursor2 s))
                  [lDest s + lLength2 s := tmp ! lCursor1 s])
      else if lLength1 s = 0 then Inl Error
      else Inr (copyUp 0 (lLength1 s) (\<lambda>i. tmp ! (lCursor1 s + i)) (lArray s) (lDest s)))"

definition mergeLow ::
  "('a \<Rightarrow> 'a \<Rightarrow> int) \<Rightarrow> 'a tim_sort \<Rightarrow> nat \<Rightarrow> nat \<Rightarrow> nat \<Rightarrow> nat \<Rightarrow> 'a tim_sort result option"
  where
  "mergeLow compare ts start1 length1 start2 length2 =
     (let tmp' = fillTmp 0 length1 (tsTmp ts) (tsArray ts) start1;
          ts = ts\<lparr>tsTmp := tmp'\<rparr>;
          s = lowTake2 \<lparr>lArray = tsArray ts, lCursor1 = 0, lCursor2 = start2, lDest = start1,
                       lLength1 = length1, lLength2 = length2\<rparr>
      in if lLength2 s = 0
         then Some (Inr (ts\<lparr>tsArray := copyUp 0 length1 (\<lambda>i. tmp' ! (lCursor1 s + i))
                                       (lArray s) (lDest s)\<rparr>))
      else if length1 = 1
         then Some (Inr (ts\<lparr>tsArray := (moveUp 0 (lLength2 s) (lArray s) (lDest s) (lCursor2 s))
                                       [lDest s + lLength2 s := tmp' ! lCursor1 s]\<rparr>))
      else do {
        r \<leftarrow> lowLoop compare tmp' (tsMinGallop ts) s;
        Some (case lowFinish tmp' (fst r) of
                Inl e \<Rightarrow> Inl e
              | Inr arr \<Rightarrow> Inr (ts\<lparr>tsArray := arr,
                                   tsMinGallop := (if snd r < 1 then 1 else snd r)\<rparr>))
      })"

subsection \<open>Merging with the shorter run on the right\<close>

record 'a high =
  hArray :: "'a list"
  hCursor1 :: int
  hCursor2 :: int
  hDest :: int
  hLength1 :: nat
  hLength2 :: nat

definition highTake1 :: "'a high \<Rightarrow> 'a high" where
  "highTake1 s = s\<lparr>hArray := (hArray s)[nat (hDest s) := hArray s ! nat (hCursor1 s)],
                  hDest := hDest s - 1, hCursor1 := hCursor1 s - 1,
                  hLength1 := hLength1 s - 1\<rparr>"

definition highTake2 :: "'a list \<Rightarrow> 'a high \<Rightarrow> 'a high" where
  "highTake2 tmp s = s\<lparr>hArray := (hArray s)[nat (hDest s) := tmp ! nat (hCursor2 s)],
                      hDest := hDest s - 1, hCursor2 := hCursor2 s - 1,
                      hLength2 := hLength2 s - 1\<rparr>"

definition highMove1 :: "nat \<Rightarrow> 'a high \<Rightarrow> 'a high" where
  "highMove1 count1 s =
     (let dest = hDest s - int count1; cursor1 = hCursor1 s - int count1;
          customDest = dest + 1; customCursor = cursor1 + 1
      in s\<lparr>hArray := moveDown count1 (hArray s) (nat customDest) (nat customCursor),
           hDest := dest, hCursor1 := cursor1, hLength1 := hLength1 s - count1\<rparr>)"

definition highCopy2 :: "'a list \<Rightarrow> nat \<Rightarrow> 'a high \<Rightarrow> 'a high" where
  "highCopy2 tmp count2 s =
     (let dest = hDest s - int count2; cursor2 = hCursor2 s - int count2;
          customDest = dest + 1; customCursor = cursor2 + 1
      in s\<lparr>hArray := copyUp 0 count2 (\<lambda>i. tmp ! (nat customCursor + i)) (hArray s)
                       (nat customDest),
           hDest := dest, hCursor2 := cursor2, hLength2 := hLength2 s - count2\<rparr>)"

partial_function (option) highPairs ::
  "('a \<Rightarrow> 'a \<Rightarrow> int) \<Rightarrow> 'a list \<Rightarrow> int \<Rightarrow> nat \<Rightarrow> nat \<Rightarrow> 'a high \<Rightarrow> ('a high \<times> bool) option" where
  "highPairs compare tmp mg count1 count2 s =
     (if compare (tmp ! nat (hCursor2 s)) (hArray s ! nat (hCursor1 s)) < 0
      then (if hLength1 (highTake1 s) = 0 then Some (highTake1 s, True)
            else if int ((count1 + 1) OR 0) < mg
              then highPairs compare tmp mg (count1 + 1) 0 (highTake1 s)
              else Some (highTake1 s, False))
      else (if hLength2 (highTake2 tmp s) = 1 then Some (highTake2 tmp s, True)
            else if int (0 OR (count2 + 1)) < mg
              then highPairs compare tmp mg 0 (count2 + 1) (highTake2 tmp s)
              else Some (highTake2 tmp s, False)))"

partial_function (option) highGallop ::
  "('a \<Rightarrow> 'a \<Rightarrow> int) \<Rightarrow> 'a list \<Rightarrow> nat \<Rightarrow> int \<Rightarrow> 'a high \<Rightarrow> ('a high \<times> int \<times> bool) option"
  where
  "highGallop compare tmp start1 mg s =
     (let count1 = hLength1 s - gallopRight (tmp ! nat (hCursor2 s)) (hArray s) start1
                     (hLength1 s) (hLength1 s - 1) compare;
          s1 = (if count1 \<noteq> 0 then highMove1 count1 s else s)
      in if count1 \<noteq> 0 \<and> hLength1 s1 = 0 then Some (s1, mg, True)
      else let s2 = highTake2 tmp s1 in
      if hLength2 s2 = 1 then Some (s2, mg, True)
      else let count2 = hLength2 s2 - gallopLeft (hArray s2 ! nat (hCursor1 s2)) tmp 0
                          (hLength2 s2) (hLength2 s2 - 1) compare;
               s3 = (if count2 \<noteq> 0 then highCopy2 tmp count2 s2 else s2)
      in if count2 \<noteq> 0 \<and> hLength2 s3 \<le> 1 then Some (s3, mg, True)
      else let s4 = highTake1 s3 in
      if hLength1 s4 = 0 then Some (s4, mg, True)
      else if count1 \<ge> DEFAULT_MIN_GALLOPING \<or> count2 \<ge> DEFAULT_MIN_GALLOPING
        then highGallop compare tmp start1 (mg - 1) s4
        else Some (s4, mg - 1, False))"

partial_function (option) highLoop ::
  "('a \<Rightarrow> 'a \<Rightarrow> int) \<Rightarrow> 'a list \<Rightarrow> nat \<Rightarrow> int \<Rightarrow> 'a high \<Rightarrow> ('a high \<times> int) option" where
  "highLoop compare tmp start1 mg s =
     do {
       r1 \<leftarrow> highPairs compare tmp mg 0 0 s;
       if snd r1 then Some (fst r1, mg)
       else do {
         r2 \<leftarrow> highGallop compare tmp start1 mg (fst r1);
         if snd (snd r2) then Some (fst r2, fst (snd r2))
         else highLoop compare tmp start1
                ((if fst (snd r2) < 0 then 0 else fst (snd r2)) + 2) (fst r2)
       }
     }"

definition highLast :: "'a list \<Rightarrow> 'a high \<Rightarrow> 'a list" where
  "highLast tmp s =
     (let s' = highMove1 (hLength1 s) s
      in (hArray s')[nat (hDest s') := tmp ! nat (hCursor2 s')])"

definition highCopyRest :: "'a list \<Rightarrow> 'a high \<Rightarrow> 'a list" where
  "highCopyRest tmp s =
     (let customCursor = hDest s - (int (hLength2 s) - 1)
      in copyUp 0 (hLength2 s) (\<lambda>i. tmp ! i) (hArray s) (nat customCursor))"

definition highFinish :: "'a list \<Rightarrow> 'a high \<Rightarrow> 'a list result" where
  "highFinish tmp s =
     (if hLength2 s = 1 then Inr (highLast tmp s)
      else if hLength2 s = 0 then Inl Error
      else Inr (highCopyRest tmp s))"

definition mergeHigh ::
  "('a \<Rightarrow> 'a \<Rightarrow> int) \<Rightarrow> 'a tim_sort \<Rightarrow> nat \<Rightarrow> nat \<Rightarrow> nat \<Rightarrow> nat \<Rightarrow> 'a tim_sort result option"
  where
  "mergeHigh compare ts start1 length1 start2 length2 =
     (let tmp' = fillTmp 0 length2 (tsTmp ts) (tsArray ts) start2;
          ts = ts\<lparr>tsTmp := tmp'\<rparr>;
          s = highTake1 \<lparr>hArray = tsArray ts, hCursor1 = int start1 + int length1 - 1,
                        hCursor2 = int length2 - 1, hDest = int start2 + int length2 - 1,
                        hLength1 = length1, hLength2 = length2\<rparr>
      in if hLength1 s = 0 then Some (Inr (ts\<lparr>tsArray := highCopyRest tmp' s\<rparr>))
      else if length2 = 1 then Some (Inr (ts\<lparr>tsArray := highLast tmp' s\<rparr>))
      else do {
        r \<leftarrow> highLoop compare tmp' start1 (tsMinGallop ts) s;
        Some (case highFinish tmp' (fst r) of
                Inl e \<Rightarrow> Inl e
              | Inr arr \<Rightarrow> Inr (ts\<lparr>tsArray := arr,
                                   tsMinGallop := (if snd r < 1 then 1 else snd r)\<rparr>))
      })"

subsection \<open>The run stack\<close>

definition mergeAt_collapse :: "'a tim_sort \<Rightarrow> nat \<Rightarrow> 'a tim_sort" where
  "mergeAt_collapse ts i =
     (let ts = ts\<lparr>tsRunLength := (tsRunLength ts)
                    [i := tsRunLength ts ! i + tsRunLength ts ! (i + 1)]\<rparr>;
          ts = (if int i = int (tsStackSize ts) - 3
                then ts\<lparr>tsRunStart := (tsRunStart ts)[i + 1 := tsRunStart ts ! (i + 2)],
                        tsRunLength := (tsRunLength ts)[i + 1 := tsRunLength ts ! (i + 2)]\<rparr>
                else ts)
      in ts\<lparr>tsStackSize := tsStackSize ts - 1\<rparr>)"

definition mergeAt :: "('a \<Rightarrow> 'a \<Rightarrow> int) \<Rightarrow> 'a tim_sort \<Rightarrow> nat \<Rightarrow> 'a tim_sort result option" where
  "mergeAt compare ts i =
     (let start1 = tsRunStart ts ! i; length1 = tsRunLength ts ! i;
          start2 = tsRunStart ts ! (i + 1); length2 = tsRunLength ts ! (i + 1);
          ts = mergeAt_collapse ts i;
          k = gallopRight (tsArray ts ! start2) (tsArray ts) start1 length1 0 compare;
          start1 = start1 + k; length1 = length1 - k
      in if length1 = 0 then Some (Inr ts)
      else let length2 = gallopLeft (tsArray ts ! (start1 + length1 - 1)) (tsArray ts) start2
                           length2 (length2 - 1) compare
      in if length2 = 0 then Some (Inr ts)
      else if length1 \<le> length2 then mergeLow compare ts start1 length1 start2 length2
      else mergeHigh compare ts start1 length1 start2 length2)"

definition mergeRuns_pick :: "nat list \<Rightarrow> nat \<Rightarrow> nat option" where
  "mergeRuns_pick runLength stackSize =
     (let n = stackSize - 2 in
      if (n \<ge> 1 \<and> runLength ! (n - 1) \<le> runLength ! n + runLength ! (n + 1))
         \<or> (n \<ge> 2 \<and> runLength ! (n - 2) \<le> runLength ! n + runLength ! (n - 1))
      then Some (if runLength ! (n - 1) < runLength ! (n + 1) then n - 1 else n)
      else if runLength ! n > runLength ! (n + 1) then None
      else Some n)"

partial_function (option) mergeRuns ::
  "('a \<Rightarrow> 'a \<Rightarrow> int) \<Rightarrow> 'a tim_sort \<Rightarrow> 'a tim_sort result option" where
  "mergeRuns compare ts =
     (if tsStackSize ts > 1
      then (case mergeRuns_pick (tsRunLength ts) (tsStackSize ts) of
              None \<Rightarrow> Some (Inr ts)
            | Some n \<Rightarrow>
                do {
                  r \<leftarrow> mergeAt compare ts n;
                  case r of Inl e \<Rightarrow> Some (Inl e) | Inr ts' \<Rightarrow> mergeRuns compare ts'
                })
      else Some (Inr ts))"

definition forceMergeRuns_pick :: "nat list \<Rightarrow> nat \<Rightarrow> nat" where
  "forceMergeRuns_pick runLength stackSize =
     (let n = stackSize - 2
      in if n > 0 \<and> runLength ! (n - 1) < runLength ! (n + 1) then n - 1 else n)"

partial_function (option) forceMergeRuns ::
  "('a \<Rightarrow> 'a \<Rightarrow> int) \<Rightarrow> 'a tim_sort \<Rightarrow> 'a tim_sort result option" where
  "forceMergeRuns compare ts =
     (if tsStackSize ts > 1
      then do {
        r \<leftarrow> mergeAt compare ts (forceMergeRuns_pick (tsRunLength ts) (tsStackSize ts));
        case r of Inl e \<Rightarrow> Some (Inl e) | Inr ts' \<Rightarrow> forceMergeRuns compare ts'
      }
      else Some (Inr ts))"

subsection \<open>The driver\<close>

definition nextRun ::
  "'a list \<Rightarrow> nat \<Rightarrow> nat \<Rightarrow> nat \<Rightarrow> nat \<Rightarrow> ('a \<Rightarrow> 'a \<Rightarrow> int) \<Rightarrow> 'a list \<times> nat" where
  "nextRun arr lo hi remaining minRun compare =
     (let (arr, runLength) = makeAscendingRun arr lo hi compare
      in if runLength < minRun
         then let force = (if remaining > minRun then minRun else remaining)
              in (binaryInsertionSort arr lo (lo + force) (lo + runLength) compare, force)
         else (arr, runLength))"

partial_function (option) sort_loop ::
  "('a \<Rightarrow> 'a \<Rightarrow> int) \<Rightarrow> nat \<Rightarrow> nat \<Rightarrow> nat \<Rightarrow> nat \<Rightarrow> 'a tim_sort \<Rightarrow> 'a tim_sort result option"
  where
  "sort_loop compare minRun hi lo remaining ts =
     (let run = nextRun (tsArray ts) lo hi remaining minRun compare
      in do {
        r \<leftarrow> mergeRuns compare (pushRun (ts\<lparr>tsArray := fst run\<rparr>) lo (snd run));
        case r of
          Inl e \<Rightarrow> Some (Inl e)
        | Inr ts' \<Rightarrow>
            (if remaining - snd run \<noteq> 0
             then sort_loop compare minRun hi (lo + snd run) (remaining - snd run) ts'
             else Some (Inr ts'))
      })"

definition sort' :: "'a list \<Rightarrow> ('a \<Rightarrow> 'a \<Rightarrow> int) \<Rightarrow> nat \<Rightarrow> nat \<Rightarrow> 'a list result option" where
  "sort' arr compare lo hi =
     (let hi = (if hi = 0 then length arr else hi);
          remaining = hi - lo
      in if remaining < 2 then Some (Inr arr)
      else if remaining < DEFAULT_MIN_MERGE
        then let (arr, runLength) = makeAscendingRun arr lo hi compare
             in Some (Inr (binaryInsertionSort arr lo hi (lo + runLength) compare))
      else do {
        r \<leftarrow> sort_loop compare (minRunLength remaining) hi lo remaining (TimSort arr);
        case r of
          Inl e \<Rightarrow> Some (Inl e)
        | Inr ts \<Rightarrow>
            do {
              r' \<leftarrow> forceMergeRuns compare ts;
              Some (case r' of Inl e \<Rightarrow> Inl e | Inr ts' \<Rightarrow> Inr (tsArray ts'))
            }
      })"

declare lowPairs.simps [code] lowGallop.simps [code] lowLoop.simps [code]
  highPairs.simps [code] highGallop.simps [code] highLoop.simps [code]
  mergeRuns.simps [code] forceMergeRuns.simps [code] sort_loop.simps [code]

end
