(* ===== verification/TimSort_Search.thy ===== *)
theory TimSort_Search
  imports TimSort
begin

text \<open>
  The contract of a comparison function and the searches of the sorter: the galloping searches
  return the boundary that a stable merge needs, whatever the hint.
\<close>

section \<open>Comparison functions\<close>

definition lt_by :: "('a \<Rightarrow> 'a \<Rightarrow> int) \<Rightarrow> 'a \<Rightarrow> 'a \<Rightarrow> bool" where
  "lt_by compare a b \<longleftrightarrow> compare a b < 0"

definition sorted_by :: "('a \<Rightarrow> 'a \<Rightarrow> int) \<Rightarrow> 'a list \<Rightarrow> bool" where
  "sorted_by compare xs \<longleftrightarrow> sorted_wrt (\<lambda>a b. \<not> lt_by compare b a) xs"

text \<open>
  A comparison function is consistent when swapping its arguments swaps its sign and \<open>\<le>\<close> is
  transitive: the contract every caller of the sort has to meet.
\<close>

locale comparator =
  fixes compare :: "'a \<Rightarrow> 'a \<Rightarrow> int"
  assumes compare_sym: "compare a b < 0 \<longleftrightarrow> compare b a > 0"
    and compare_trans: "compare a b \<le> 0 \<Longrightarrow> compare b c \<le> 0 \<Longrightarrow> compare a c \<le> 0"
begin

abbreviation lt :: "'a \<Rightarrow> 'a \<Rightarrow> bool" where
  "lt \<equiv> lt_by compare"

lemma cmp_simps:
  "compare a b < 0 \<longleftrightarrow> lt a b" "0 < compare a b \<longleftrightarrow> lt b a"
  "compare a b \<le> 0 \<longleftrightarrow> \<not> lt b a" "0 \<le> compare a b \<longleftrightarrow> \<not> lt a b"
  using compare_sym [of a b] compare_sym [of b a] by (auto simp: lt_by_def)

lemma nlt_trans: "\<not> lt b a \<Longrightarrow> \<not> lt c b \<Longrightarrow> \<not> lt c a"
  using compare_trans [of a b c] by (simp add: cmp_simps)

lemma lt_irrefl [simp]: "\<not> lt a a"
  using compare_sym [of a a] by (auto simp: lt_by_def)

lemma lt_asym: "lt a b \<Longrightarrow> \<not> lt b a"
  using compare_sym [of a b] by (auto simp: lt_by_def)

lemma lt_nlt_trans: "lt a b \<Longrightarrow> \<not> lt c b \<Longrightarrow> lt a c"
  using nlt_trans [of c b a] by blast

lemma nlt_lt_trans: "\<not> lt b a \<Longrightarrow> lt b c \<Longrightarrow> lt a c"
  using nlt_trans [of a c b] by blast

lemma lt_trans: "lt a b \<Longrightarrow> lt b c \<Longrightarrow> lt a c"
  using lt_nlt_trans [of a b c] lt_asym [of b c] by blast

lemma sorted_by_append:
  "sorted_by compare (xs @ ys) \<longleftrightarrow>
     sorted_by compare xs \<and> sorted_by compare ys \<and> (\<forall>x\<in>set xs. \<forall>y\<in>set ys. \<not> lt y x)"
  by (auto simp: sorted_by_def sorted_wrt_append)

lemma sorted_by_simps [simp]:
  "sorted_by compare []"
  "sorted_by compare (x # xs) \<longleftrightarrow> (\<forall>y\<in>set xs. \<not> lt y x) \<and> sorted_by compare xs"
  by (auto simp: sorted_by_def)

lemma sorted_by_nth:
  "sorted_by compare xs \<Longrightarrow> i \<le> j \<Longrightarrow> j < length xs \<Longrightarrow> \<not> lt (xs ! j) (xs ! i)"
  by (cases "i = j") (auto simp: sorted_by_def sorted_wrt_iff_nth_less)

end

section \<open>Galloping\<close>

lemma gallopProbe_spec:
  assumes "0 \<le> lst" "lst < off" "lst < mx" "lst = 0 \<or> P lst"
  shows "case gallopProbe P mx lst off of (l, o') \<Rightarrow>
           0 \<le> l \<and> l < o' \<and> o' \<le> mx \<and> (l = 0 \<or> P l) \<and> (o' = mx \<or> \<not> P o')"
  using assms
proof (induction P mx lst off rule: gallopProbe.induct)
  case (1 P mx lst off)
  show ?case
  proof (cases "off < mx \<and> P off")
    case True
    then show ?thesis
      using "1.IH" [OF True refl refl] "1.prems"
      by (simp add: gallopProbe.simps [of P mx lst off] Let_def)
  next
    case False
    with "1.prems" show ?thesis by (auto simp: gallopProbe.simps [of P mx lst off])
  qed
qed

lemma gallopBisect_spec:
  assumes "lo \<le> hi" "\<And>i j. lo \<le> i \<Longrightarrow> i \<le> j \<Longrightarrow> j < hi \<Longrightarrow> P j \<Longrightarrow> P i"
  shows "lo \<le> gallopBisect P lo hi \<and> gallopBisect P lo hi \<le> hi
       \<and> (\<forall>i. lo \<le> i \<and> i < gallopBisect P lo hi \<longrightarrow> P i)
       \<and> (\<forall>i. gallopBisect P lo hi \<le> i \<and> i < hi \<longrightarrow> \<not> P i)"
  using assms
proof (induction P lo hi rule: gallopBisect.induct)
  case (1 P lo hi)
  show ?case
  proof (cases "lo < hi")
    case True
    define m where "m = lo + (hi - lo) div 2"
    have m: "lo \<le> m" "m < hi" using True by (auto simp: m_def)
    show ?thesis
    proof (cases "P m")
      case P: True
      have "m + 1 \<le> gallopBisect P (m + 1) hi \<and> gallopBisect P (m + 1) hi \<le> hi
       \<and> (\<forall>i. m + 1 \<le> i \<and> i < gallopBisect P (m + 1) hi \<longrightarrow> P i)
       \<and> (\<forall>i. gallopBisect P (m + 1) hi \<le> i \<and> i < hi \<longrightarrow> \<not> P i)"
        using "1.IH"(1) [OF True m_def P] "1.prems" m by auto
      moreover have "P i" if "lo \<le> i" "i \<le> m" for i
        using "1.prems"(2) [of i m] that P m by auto
      ultimately show ?thesis
        using True P m by (auto simp: gallopBisect.simps [of P lo hi] m_def [symmetric] Let_def)
          (metis not_less zless_imp_add1_zle)
    next
      case P: False
      have "lo \<le> gallopBisect P lo m \<and> gallopBisect P lo m \<le> m
       \<and> (\<forall>i. lo \<le> i \<and> i < gallopBisect P lo m \<longrightarrow> P i)
       \<and> (\<forall>i. gallopBisect P lo m \<le> i \<and> i < m \<longrightarrow> \<not> P i)"
        using "1.IH"(2) [OF True m_def P] "1.prems" m by auto
      moreover have "\<not> P i" if "m \<le> i" "i < hi" for i
        using "1.prems"(2) [of m i] that P m by auto
      ultimately show ?thesis
        using True P m by (auto simp: gallopBisect.simps [of P lo hi] m_def [symmetric] Let_def)
          (metis not_less)
    qed
  next
    case False
    then have "gallopBisect P lo hi = hi" by (simp add: gallopBisect.simps [of P lo hi])
    with False "1.prems"(1) show ?thesis by auto
  qed
qed

text \<open>Both searches are one search: a probe from the hint, then a bisection.\<close>

definition gallop :: "(int \<Rightarrow> bool) \<Rightarrow> int \<Rightarrow> int \<Rightarrow> int" where
  "gallop P n hint =
     (let (lastOffset, offset) =
        (if P hint
         then let (lastOffset, offset) = gallopProbe (\<lambda>off. P (hint + off)) (n - hint) 0 1
              in (lastOffset + hint, offset + hint)
         else let (lastOffset, offset) = gallopProbe (\<lambda>off. \<not> P (hint - off)) (hint + 1) 0 1
              in (hint - offset, hint - lastOffset))
      in gallopBisect P (lastOffset + 1) offset)"

lemma gallop_spec:
  assumes h: "0 \<le> hint" "hint < n"
    and mono: "\<And>i j. 0 \<le> i \<Longrightarrow> i \<le> j \<Longrightarrow> j < n \<Longrightarrow> P j \<Longrightarrow> P i"
  shows "0 \<le> gallop P n hint \<and> gallop P n hint \<le> n
       \<and> (\<forall>i. 0 \<le> i \<and> i < gallop P n hint \<longrightarrow> P i)
       \<and> (\<forall>i. gallop P n hint \<le> i \<and> i < n \<longrightarrow> \<not> P i)"
proof (cases "P hint")
  case True
  obtain l off where lo: "gallopProbe (\<lambda>off. P (hint + off)) (n - hint) 0 1 = (l, off)"
    by fastforce
  have p: "0 \<le> l" "l < off" "off \<le> n - hint" "l = 0 \<or> P (hint + l)"
      "off = n - hint \<or> \<not> P (hint + off)"
    using gallopProbe_spec [of 0 1 "n - hint" "\<lambda>off. P (hint + off)"] lo h by auto
  have Pl: "P (hint + l)" using p(4) True by auto
  have g: "gallop P n hint = gallopBisect P (l + hint + 1) (off + hint)"
    by (simp add: gallop_def True lo)
  have b: "l + hint + 1 \<le> gallop P n hint \<and> gallop P n hint \<le> off + hint
       \<and> (\<forall>i. l + hint + 1 \<le> i \<and> i < gallop P n hint \<longrightarrow> P i)
       \<and> (\<forall>i. gallop P n hint \<le> i \<and> i < off + hint \<longrightarrow> \<not> P i)"
    unfolding g by (rule gallopBisect_spec) (use p h in \<open>auto intro: mono\<close>)
  have "P i" if "0 \<le> i" "i < l + hint + 1" for i
    using mono [of i "hint + l"] that Pl p h by auto
  moreover have "\<not> P i" if "off + hint \<le> i" "i < n" for i
    using mono [of "hint + off" i] that p h by auto
  moreover have "0 \<le> gallop P n hint" "gallop P n hint \<le> n" using b p h by auto
  ultimately show ?thesis using b by (metis linorder_not_le)
next
  case False
  obtain l off where lo: "gallopProbe (\<lambda>off. \<not> P (hint - off)) (hint + 1) 0 1 = (l, off)"
    by fastforce
  have p: "0 \<le> l" "l < off" "off \<le> hint + 1" "l = 0 \<or> \<not> P (hint - l)"
      "off = hint + 1 \<or> P (hint - off)"
    using gallopProbe_spec [of 0 1 "hint + 1" "\<lambda>off. \<not> P (hint - off)"] lo h by auto
  have Pl: "\<not> P (hint - l)" using p(4) False by auto
  have g: "gallop P n hint = gallopBisect P (hint - off + 1) (hint - l)"
    by (simp add: gallop_def False lo)
  have b: "hint - off + 1 \<le> gallop P n hint \<and> gallop P n hint \<le> hint - l
       \<and> (\<forall>i. hint - off + 1 \<le> i \<and> i < gallop P n hint \<longrightarrow> P i)
       \<and> (\<forall>i. gallop P n hint \<le> i \<and> i < hint - l \<longrightarrow> \<not> P i)"
    unfolding g by (rule gallopBisect_spec) (use p h in \<open>auto intro: mono\<close>)
  have "P i" if "0 \<le> i" "i < hint - off + 1" for i
    using mono [of i "hint - off"] that p h by auto
  moreover have "\<not> P i" if "hint - l \<le> i" "i < n" for i
    using mono [of "hint - l" i] that Pl p h by auto
  moreover have "0 \<le> gallop P n hint" "gallop P n hint \<le> n" using b p h by auto
  ultimately show ?thesis using b by (metis linorder_not_le)
qed

context comparator
begin

lemma gallopLeft_eq:
  assumes "hint < n"
  shows "gallopLeft v arr st n hint compare =
    nat (gallop (\<lambda>i. lt (arr ! nat (int st + i)) v) (int n) (int hint))"
  unfolding gallopLeft_def gallop_def by (simp add: cmp_simps Let_def add.assoc split: prod.splits)

lemma gallopRight_eq:
  assumes "hint < n"
  shows "gallopRight v arr st n hint compare =
    nat (gallop (\<lambda>i. \<not> lt v (arr ! nat (int st + i))) (int n) (int hint))"
  unfolding gallopRight_def gallop_def by (simp add: cmp_simps Let_def add.assoc split: prod.splits)

lemma gallop_split:
  assumes "hint < length xs"
    and mono: "\<And>i j. i \<le> j \<Longrightarrow> j < length xs \<Longrightarrow> P (xs ! j) \<Longrightarrow> P (xs ! i)"
  shows "\<exists>xs1 xs2. xs = xs1 @ xs2 \<and> (\<forall>x\<in>set xs1. P x) \<and> (\<forall>x\<in>set xs2. \<not> P x) \<and>
     nat (gallop (\<lambda>i. P ((p @ xs @ q) ! nat (int (length p) + i))) (int (length xs)) (int hint))
       = length xs1"
proof -
  define Q where "Q = (\<lambda>i. P ((p @ xs @ q) ! nat (int (length p) + i)))"
  have Q: "Q (int i) = P (xs ! i)" if "i < length xs" for i
    using that by (simp add: Q_def nth_append nat_int_add)
  define r where "r = gallop Q (int (length xs)) (int hint)"
  have "Q i" if "0 \<le> i" "i \<le> j" "j < int (length xs)" "Q j" for i j
    using mono [of "nat i" "nat j"] Q [of "nat i"] Q [of "nat j"] that by simp
  then have r: "0 \<le> r" "r \<le> int (length xs)" "\<And>i. 0 \<le> i \<Longrightarrow> i < r \<Longrightarrow> Q i"
      "\<And>i. r \<le> i \<Longrightarrow> i < int (length xs) \<Longrightarrow> \<not> Q i"
    using gallop_spec [of "int hint" "int (length xs)" Q] assms(1) unfolding r_def
    by (metis of_nat_0_le_iff of_nat_less_iff)+
  have "\<forall>x\<in>set (take (nat r) xs). P x"
  proof
    fix x assume "x \<in> set (take (nat r) xs)"
    then obtain i where i: "i < nat r" "i < length xs" "x = xs ! i"
      by (auto simp: set_conv_nth)
    then show "P x" using r(1) r(3) [of "int i"] Q [of i] by simp
  qed
  moreover have "\<forall>x\<in>set (drop (nat r) xs). \<not> P x"
  proof
    fix x assume "x \<in> set (drop (nat r) xs)"
    then obtain i where i: "i < length xs - nat r" "x = xs ! (nat r + i)"
      by (auto simp: set_conv_nth)
    then show "\<not> P x" using r(1,2) r(4) [of "int (nat r + i)"] Q [of "nat r + i"] by simp
  qed
  moreover have "nat r = length (take (nat r) xs)" using r(1,2) by simp
  ultimately show ?thesis unfolding Q_def [symmetric] r_def [symmetric]
    by (metis append_take_drop_id)
qed

lemma gallopLeft_split:
  assumes "sorted_by compare xs" "hint < length xs" "n = length xs" "st = length p"
  obtains xs1 xs2 where "xs = xs1 @ xs2" "\<forall>x\<in>set xs1. lt x v" "\<forall>x\<in>set xs2. \<not> lt x v"
    "gallopLeft v (p @ xs @ q) st n hint compare = length xs1"
proof -
  have "lt (xs ! i) v" if "i \<le> j" "j < length xs" "lt (xs ! j) v" for i j
    using sorted_by_nth [OF assms(1) that(1,2)] nlt_lt_trans that(3) by blast
  then obtain xs1 xs2 where "xs = xs1 @ xs2" "\<forall>x\<in>set xs1. lt x v" "\<forall>x\<in>set xs2. \<not> lt x v"
      "nat (gallop (\<lambda>i. lt ((p @ xs @ q) ! nat (int (length p) + i)) v) (int (length xs)) (int hint))
       = length xs1"
    using gallop_split [of hint xs "\<lambda>x. lt x v" p q] assms(2) by blast
  then show ?thesis using that gallopLeft_eq [OF assms(2)] assms by simp
qed

lemma gallopRight_split:
  assumes "sorted_by compare xs" "hint < length xs" "n = length xs" "st = length p"
  obtains xs1 xs2 where "xs = xs1 @ xs2" "\<forall>x\<in>set xs1. \<not> lt v x" "\<forall>x\<in>set xs2. lt v x"
    "gallopRight v (p @ xs @ q) st n hint compare = length xs1"
proof -
  have "\<not> lt v (xs ! i)" if "i \<le> j" "j < length xs" "\<not> lt v (xs ! j)" for i j
    using sorted_by_nth [OF assms(1) that(1,2)] nlt_trans that(3) by blast
  then obtain xs1 xs2 where "xs = xs1 @ xs2" "\<forall>x\<in>set xs1. \<not> lt v x" "\<forall>x\<in>set xs2. \<not> \<not> lt v x"
      "nat (gallop (\<lambda>i. \<not> lt v ((p @ xs @ q) ! nat (int (length p) + i))) (int (length xs)) (int hint))
       = length xs1"
    using gallop_split [of hint xs "\<lambda>x. \<not> lt v x" p q] assms(2) by blast
  then show ?thesis using that gallopRight_eq [OF assms(2)] assms by simp
qed

end

end
