(* ===== verification/TimSort_Merge.thy ===== *)
theory TimSort_Merge
  imports TimSort_Search
begin

text \<open>
  The two galloping merges compute the stable merge of two sorted runs, do not throw, and
  always return.
\<close>

section \<open>The reference merge\<close>

fun smerge :: "('a \<Rightarrow> 'a \<Rightarrow> int) \<Rightarrow> 'a list \<Rightarrow> 'a list \<Rightarrow> 'a list" where
  "smerge compare [] ys = ys"
| "smerge compare xs [] = xs"
| "smerge compare (x # xs) (y # ys) =
     (if lt_by compare y x then y # smerge compare (x # xs) ys
      else x # smerge compare xs (y # ys))"

lemma smerge_Nil2 [simp]: "smerge compare xs [] = xs"
  by (cases xs) auto

lemma smerge_induct [case_names Nil1 Nil2 Cons]:
  assumes "\<And>ys. P [] ys" "\<And>x xs. P (x # xs) []"
    "\<And>x xs y ys. (lt_by c y x \<Longrightarrow> P (x # xs) ys) \<Longrightarrow> (\<not> lt_by c y x \<Longrightarrow> P xs (y # ys)) \<Longrightarrow>
       P (x # xs) (y # ys)"
  shows "P xs ys"
  by (rule smerge.induct [of "\<lambda>c' xs ys. c' = c \<longrightarrow> P xs ys" c xs ys, THEN mp, OF _ _ _ refl])
    (use assms in auto)

lemma mset_smerge: "mset (smerge compare xs ys) = mset xs + mset ys"
  by (induction compare xs ys rule: smerge.induct) auto

lemma set_smerge: "set (smerge compare xs ys) = set xs \<union> set ys"
  by (metis mset_smerge set_mset_mset set_mset_union)

lemma length_smerge [simp]: "length (smerge compare xs ys) = length xs + length ys"
  by (metis mset_smerge size_mset size_union)

text \<open>Blocks that may be moved past a merge without comparing: what galloping relies on.\<close>

lemma smerge_prefix1:
  "\<forall>x\<in>set xs1. \<forall>y\<in>set ys. \<not> lt_by c y x \<Longrightarrow> smerge c (xs1 @ xs2) ys = xs1 @ smerge c xs2 ys"
  by (induction xs1) (auto simp: neq_Nil_conv, (cases ys; simp))

lemma smerge_prefix2:
  "\<forall>y\<in>set ys1. \<forall>x\<in>set xs. lt_by c y x \<Longrightarrow> smerge c xs (ys1 @ ys2) = ys1 @ smerge c xs ys2"
  by (induction ys1) (auto, (cases xs; simp))

lemma smerge_suffix1:
  "\<forall>x\<in>set xs2. \<forall>y\<in>set ys. lt_by c y x \<Longrightarrow> smerge c (xs1 @ xs2) ys = smerge c xs1 ys @ xs2"
proof (induction c xs1 ys rule: smerge.induct)
  case (1 c ys)
  then show ?case using smerge_prefix2 [of ys xs2 c "[]"] by auto
qed auto

lemma smerge_suffix2:
  "\<forall>y\<in>set ys2. \<forall>x\<in>set xs. \<not> lt_by c y x \<Longrightarrow> smerge c xs (ys1 @ ys2) = smerge c xs ys1 @ ys2"
proof (induction c xs ys1 rule: smerge.induct)
  case (2 c x xs)
  then show ?case using smerge_prefix1 [of "x # xs" ys2 c "[]"] by auto
qed auto

section \<open>Copying loops\<close>

lemma copyUp_append:
  "length g = n \<Longrightarrow> dest + i = length p \<Longrightarrow>
   copyUp i n src (p @ g @ q) dest = p @ map src [i..<i + n] @ q"
proof (induction n arbitrary: i g p)
  case (Suc n)
  then obtain x g' where g: "g = x # g'" by (cases g) auto
  have "copyUp i (Suc n) src (p @ g @ q) dest
      = copyUp (i + 1) n src ((p @ [src i]) @ g' @ q) dest"
    using Suc.prems g by (simp add: seg_simps)
  also have "\<dots> = (p @ [src i]) @ map src [i + 1..<i + 1 + n] @ q"
    using Suc.prems g by (intro Suc.IH) auto
  finally show ?case by (simp add: upt_rec [of i])
qed simp

lemma copyUp_seg:
  "length g = n \<Longrightarrow> dest = length p \<Longrightarrow> c + n \<le> length src \<Longrightarrow>
   copyUp 0 n (\<lambda>i. src ! (c + i)) (p @ g @ q) dest = p @ take n (drop c src) @ q"
  by (subst copyUp_append) (auto intro!: nth_equalityI)

lemma length_moveUp [simp]: "length (moveUp i n array dest cursor) = length array"
  by (induction i n array dest cursor rule: moveUp.induct) auto

lemma nth_moveUp:
  "dest < cursor \<Longrightarrow> cursor + i + n \<le> length array \<Longrightarrow> j < length array \<Longrightarrow>
   moveUp i n array dest cursor ! j =
     (if dest + i \<le> j \<and> j < dest + i + n then array ! (cursor + (j - dest)) else array ! j)"
proof (induction i n array dest cursor rule: moveUp.induct)
  case (2 i n array dest cursor)
  then show ?case by (auto simp: nth_list_update)
qed auto

lemma moveUp_seg:
  assumes "length ys = n" "dest = length p" "cursor = length p + length g"
  shows "\<exists>g'. length g' = length g \<and> moveUp 0 n (p @ g @ ys @ q) dest cursor = p @ ys @ g' @ q"
proof (cases "g = []")
  case True
  have "moveUp i m (p @ ys @ q) dest dest = p @ ys @ q" for i m
    by (induction m arbitrary: i) (auto simp: list_update_id)
  then show ?thesis using True assms by auto
next
  case False
  define r where "r = moveUp 0 n (p @ g @ ys @ q) dest cursor"
  have l: "length r = length p + length g + length ys + length q" by (simp add: r_def)
  have nth: "r ! j = (if dest \<le> j \<and> j < dest + n then ys ! (j - dest) else (p @ g @ ys @ q) ! j)"
    if "j < length r" for j
    using that False assms nth_moveUp [of dest cursor 0 n "p @ g @ ys @ q" j]
    by (auto simp: r_def nth_append ac_simps)
  have "r = p @ ys @ take (length g) (drop (length p + n) r) @ q"
  proof (rule nth_equalityI)
    fix i assume "i < length r"
    then show "r ! i = (p @ ys @ take (length g) (drop (length p + n) r) @ q) ! i"
      using l assms nth [of i] by (auto simp: nth_append ac_simps)
  qed (use l assms in simp)
  then show ?thesis using l assms unfolding r_def [symmetric]
    by (intro exI [of _ "take (length g) (drop (length p + n) r)"]) auto
qed

lemma length_moveDown [simp]: "length (moveDown n array dest cursor) = length array"
  by (induction n array dest cursor rule: moveDown.induct) auto

lemma nth_moveDown:
  "cursor < dest \<Longrightarrow> dest + n \<le> length array \<Longrightarrow> j < length array \<Longrightarrow>
   moveDown n array dest cursor ! j =
     (if dest \<le> j \<and> j < dest + n then array ! (cursor + (j - dest)) else array ! j)"
proof (induction n array dest cursor rule: moveDown.induct)
  case (2 i array dest cursor)
  then show ?case by (auto simp: nth_list_update)
qed auto

lemma moveDown_seg:
  assumes "length xs = n" "cursor = length p" "dest = length p + length g"
  shows "\<exists>g'. length g' = length g \<and> moveDown n (p @ xs @ g @ q) dest cursor = p @ g' @ xs @ q"
proof (cases "g = []")
  case True
  have "moveDown m (p @ xs @ q) dest dest = p @ xs @ q" for m
    by (induction m) (auto simp: list_update_id)
  then show ?thesis using True assms by auto
next
  case False
  define r where "r = moveDown n (p @ xs @ g @ q) dest cursor"
  have l: "length r = length p + length g + length xs + length q" by (simp add: r_def)
  have nth: "r ! j = (if dest \<le> j \<and> j < dest + n then xs ! (j - dest) else (p @ xs @ g @ q) ! j)"
    if "j < length r" for j
    using that False assms nth_moveDown [of cursor dest n "p @ xs @ g @ q" j]
    by (auto simp: r_def nth_append ac_simps)
  have "r = p @ take (length g) (drop (length p) r) @ xs @ q"
  proof (rule nth_equalityI)
    fix i assume "i < length r"
    then show "r ! i = (p @ take (length g) (drop (length p) r) @ xs @ q) ! i"
      using l assms nth [of i] by (auto simp: nth_append ac_simps)
  qed (use l assms in simp)
  then show ?thesis using l assms unfolding r_def [symmetric]
    by (intro exI [of _ "take (length g) (drop (length p) r)"]) auto
qed

lemma take_fillTmp:
  "length tmp \<ge> i \<Longrightarrow> take (i + n) (fillTmp i n tmp array start) =
     take i tmp @ map (\<lambda>j. array ! (start + j)) [i..<i + n]"
proof (induction i n tmp array start rule: fillTmp.induct)
  case (2 i n tmp array start)
  have "take (Suc i) (js_set tmp i (array ! (start + i))) = take i tmp @ [array ! (start + i)]"
    using "2.prems" by (auto simp: js_set_def take_Suc_conv_app_nth)
  then show ?case using 2 by (simp add: js_set_def upt_rec [of i])
qed simp

lemma take_fillTmp_seg:
  "start = length p \<Longrightarrow> n = length xs \<Longrightarrow>
   take n (fillTmp 0 n tmp (p @ xs @ q) start) = xs"
  using take_fillTmp [of 0 tmp n "p @ xs @ q" start]
  by (auto intro!: nth_equalityI simp: nth_append)

section \<open>Merging low\<close>

text \<open>
  The state of the low merge represents the merged prefix \<open>m\<close>, the rest \<open>xs\<close> of the
  first run (in the temporary array) and the rest \<open>ys\<close> of the second run (in place); between
  them lies a gap as long as \<open>xs\<close>.
\<close>

definition low_rep ::
  "'a list \<Rightarrow> 'a list \<Rightarrow> 'a list \<Rightarrow> 'a list \<Rightarrow> 'a list \<Rightarrow> 'a list \<Rightarrow> 'a low \<Rightarrow> bool" where
  "low_rep p q tmp m xs ys s \<longleftrightarrow>
     (\<exists>g. length g = length xs \<and> lArray s = p @ m @ g @ ys @ q) \<and>
     lDest s = length p + length m \<and> lCursor2 s = length p + length m + length xs \<and>
     lLength1 s = length xs \<and> lLength2 s = length ys \<and>
     take (length xs) (drop (lCursor1 s) tmp) = xs \<and> lCursor1 s + length xs \<le> length tmp"

lemma low_rep_lengths:
  "low_rep p q tmp m xs ys s \<Longrightarrow> lLength1 s = length xs \<and> lLength2 s = length ys"
  by (simp add: low_rep_def)

lemma low_rep_read2: "low_rep p q tmp m xs (y # ys) s \<Longrightarrow> lArray s ! lCursor2 s = y"
  by (auto simp: low_rep_def nth_append)

lemma take_drop_Cons:
  "take (Suc n) (drop c tmp) = x # xs \<Longrightarrow> tmp ! c = x \<and> take n (drop (Suc c) tmp) = xs"
proof (cases "drop c tmp")
  case (Cons z zs)
  then have "drop (Suc c) tmp = zs" by (metis drop_Suc list.sel(3) tl_drop)
  with Cons show "take (Suc n) (drop c tmp) = x # xs \<Longrightarrow> ?thesis"
    by (auto simp: nth_via_drop)
qed simp

lemma low_rep_read1: "low_rep p q tmp m (x # xs) ys s \<Longrightarrow> tmp ! lCursor1 s = x"
  by (auto simp: low_rep_def dest: take_drop_Cons)

lemma low_rep_take2:
  assumes "low_rep p q tmp m xs (y # ys) s"
  shows "low_rep p q tmp (m @ [y]) xs ys (lowTake2 s)"
proof -
  obtain g where g: "length g = length xs" "lArray s = p @ m @ g @ (y # ys) @ q"
    using assms by (auto simp: low_rep_def)
  have "\<exists>g'. length g' = length g \<and>
      (p @ m @ g @ (y # ys) @ q)[length p + length m := y] = p @ (m @ [y]) @ g' @ ys @ q"
  proof (cases g)
    case (Cons z g')
    then show ?thesis
      by (intro exI [of _ "g' @ [y]"]) (simp add: list_update_append)
  qed (simp add: list_update_append)
  then show ?thesis using assms g low_rep_read2 [OF assms]
    by (auto simp: low_rep_def lowTake2_def)
qed

lemma low_rep_take1:
  assumes "low_rep p q tmp m (x # xs) ys s"
  shows "low_rep p q tmp (m @ [x]) xs ys (lowTake1 tmp s)"
proof -
  obtain z g where "length g = length xs" "lArray s = p @ m @ (z # g) @ ys @ q"
    using assms by (auto simp: low_rep_def length_Suc_conv)
  then show ?thesis using assms low_rep_read1 [OF assms]
    by (auto simp: low_rep_def lowTake1_def list_update_append dest: take_drop_Cons)
qed

lemma low_rep_copy1:
  assumes "low_rep p q tmp m (xs1 @ xs2) ys s"
  shows "low_rep p q tmp (m @ xs1) xs2 ys (lowCopy1 tmp (length xs1) s)"
proof -
  let ?c = "lCursor1 s"
  obtain g where "length g = length xs1 + length xs2" "lArray s = p @ m @ g @ ys @ q"
    using assms by (auto simp: low_rep_def)
  then obtain g1 g2 where g: "length g1 = length xs1" "length g2 = length xs2"
      "lArray s = p @ m @ (g1 @ g2) @ ys @ q"
    by (metis length_append_split)
  have xs: "take (length xs1 + length xs2) (drop ?c tmp) = xs1 @ xs2"
      "?c + (length xs1 + length xs2) \<le> length tmp" "lDest s = length (p @ m)"
    using assms by (auto simp: low_rep_def)
  have t1: "take (length xs1) (drop ?c tmp) = xs1"
    using arg_cong [OF xs(1), of "take (length xs1)"] by simp
  have t2: "take (length xs2) (drop (?c + length xs1) tmp) = xs2"
    using arg_cong [OF xs(1), of "drop (length xs1)"] by (simp add: drop_take add.commute)
  have "copyUp 0 (length xs1) (\<lambda>i. tmp ! (?c + i)) ((p @ m) @ g1 @ (g2 @ ys @ q)) (lDest s)
        = (p @ m) @ xs1 @ (g2 @ ys @ q)"
    using copyUp_seg [of g1 "length xs1" "lDest s" "p @ m" ?c tmp] g xs t1 by simp
  then show ?thesis
    using assms xs t2 g unfolding low_rep_def lowCopy1_def
    by (auto intro!: exI [of _ g2])
qed

lemma low_rep_move2:
  assumes "low_rep p q tmp m xs (ys1 @ ys2) s"
  shows "low_rep p q tmp (m @ ys1) xs ys2 (lowMove2 (length ys1) s)"
proof -
  obtain g where g: "length g = length xs" "lArray s = p @ m @ g @ (ys1 @ ys2) @ q"
    using assms by (auto simp: low_rep_def)
  obtain g' where "length g' = length g"
      "moveUp 0 (length ys1) ((p @ m) @ g @ ys1 @ (ys2 @ q)) (lDest s) (lCursor2 s)
       = (p @ m) @ ys1 @ g' @ (ys2 @ q)"
    using moveUp_seg [of ys1 "length ys1" "lDest s" "p @ m" "lCursor2 s" g "ys2 @ q"] assms g
    by (auto simp: low_rep_def)
  then show ?thesis using assms g unfolding low_rep_def lowMove2_def
    by (auto intro!: exI [of _ g'])
qed

text \<open>What a stretch of the merge loop keeps: the runs shrink from the left, the result stays.\<close>

definition low_ok :: "('a \<Rightarrow> 'a \<Rightarrow> int) \<Rightarrow> 'a list \<Rightarrow> 'a list \<Rightarrow> bool" where
  "low_ok c xs ys \<longleftrightarrow> sorted_by c xs \<and> sorted_by c ys \<and> xs \<noteq> [] \<and> (\<forall>y\<in>set ys. lt_by c y (last xs))"

definition low_next ::
  "('a \<Rightarrow> 'a \<Rightarrow> int) \<Rightarrow> 'a list \<Rightarrow> 'a list \<Rightarrow> 'a list \<Rightarrow> 'a list \<Rightarrow> 'a list \<Rightarrow> 'a list \<Rightarrow> bool" where
  "low_next c m xs ys m' xs' ys' \<longleftrightarrow>
     low_ok c xs' ys' \<and> length xs' \<le> length xs \<and> length ys' \<le> length ys \<and>
     length xs' + length ys' < length xs + length ys \<and>
     m @ smerge c xs ys = m' @ smerge c xs' ys'"

lemma low_next_trans:
  "low_next c m xs ys m' xs' ys' \<Longrightarrow> low_next c m' xs' ys' m'' xs'' ys'' \<Longrightarrow>
   low_next c m xs ys m'' xs'' ys''"
  by (auto simp: low_next_def)

context comparator
begin

lemma low_ok_suffix1: "low_ok compare (a @ xs) ys \<Longrightarrow> xs \<noteq> [] \<Longrightarrow> low_ok compare xs ys"
  by (auto simp: low_ok_def sorted_by_append)

lemma low_ok_suffix2: "low_ok compare xs (b @ ys) \<Longrightarrow> low_ok compare xs ys"
  by (auto simp: low_ok_def sorted_by_append)

lemma low_next_prefix1:
  assumes "low_ok compare (a @ xs) ys" "xs \<noteq> []" "a \<noteq> []"
    "\<forall>x\<in>set a. \<forall>y\<in>set ys. \<not> lt y x"
  shows "low_next compare m (a @ xs) ys (m @ a) xs ys"
  using assms low_ok_suffix1 [OF assms(1,2)] smerge_prefix1 [OF assms(4)]
  by (cases a) (auto simp: low_next_def)

lemma low_next_prefix2:
  assumes "low_ok compare xs (b @ ys)" "b \<noteq> []" "\<forall>y\<in>set b. \<forall>x\<in>set xs. lt y x"
  shows "low_next compare m xs (b @ ys) (m @ b) xs ys"
  using assms low_ok_suffix2 [OF assms(1)] smerge_prefix2 [OF assms(3)]
  by (cases b) (auto simp: low_next_def)

lemma low_next_take2:
  assumes "low_ok compare (x # xs) (y # ys)" "lt y x"
  shows "low_next compare m (x # xs) (y # ys) (m @ [y]) (x # xs) ys"
proof -
  have "\<forall>z\<in>set (x # xs). lt y z"
    using assms by (auto simp: low_ok_def intro: lt_nlt_trans)
  then show ?thesis using low_next_prefix2 [of "x # xs" "[y]" ys m] assms(1) by simp
qed

lemma low_next_take1:
  assumes "low_ok compare (x # xs) (y # ys)" "\<not> lt y x"
  shows "low_next compare m (x # xs) (y # ys) (m @ [x]) xs (y # ys)" "xs \<noteq> []"
proof -
  show "xs \<noteq> []" using assms by (auto simp: low_ok_def)
  moreover have "\<forall>z\<in>set (y # ys). \<not> lt z x"
    using assms nlt_trans by (auto simp: low_ok_def)
  ultimately show "low_next compare m (x # xs) (y # ys) (m @ [x]) xs (y # ys)"
    using low_next_prefix1 [of "[x]" xs "y # ys" m] assms(1) by simp
qed

end

end
