(* ===== verification/TimSort_Low.thy ===== *)
theory TimSort_Low
  imports TimSort_Merge
begin

text \<open>The low merge returns, does not throw and leaves the stable merge in place.\<close>

definition low_result ::
  "('a \<Rightarrow> 'a \<Rightarrow> int) \<Rightarrow> 'a list \<Rightarrow> 'a list \<Rightarrow> 'a list \<Rightarrow> 'a list \<Rightarrow> 'a list \<Rightarrow> 'a list \<Rightarrow>
   'a low \<Rightarrow> bool \<Rightarrow> bool" where
  "low_result c p q tmp m xs ys s ex \<longleftrightarrow>
     (\<exists>m' xs' ys'. low_rep p q tmp m' xs' ys' s \<and> low_next c m xs ys m' xs' ys' \<and>
        (if ex then length xs' = 1 \<or> ys' = [] else length xs' \<ge> 2 \<and> ys' \<noteq> []))"

lemma low_result_step:
  "low_next c m xs ys m' xs' ys' \<Longrightarrow> low_result c p q tmp m' xs' ys' s ex \<Longrightarrow>
   low_result c p q tmp m xs ys s ex"
  unfolding low_result_def by (blast intro: low_next_trans)

lemma low_result_exit:
  "low_rep p q tmp m' xs' ys' s \<Longrightarrow> low_next c m xs ys m' xs' ys' \<Longrightarrow> length xs' = 1 \<or> ys' = [] \<Longrightarrow>
   low_result c p q tmp m xs ys s True"
  unfolding low_result_def by auto

lemma low_result_more:
  "low_rep p q tmp m' xs' ys' s \<Longrightarrow> low_next c m xs ys m' xs' ys' \<Longrightarrow> length xs' \<ge> 2 \<Longrightarrow> ys' \<noteq> [] \<Longrightarrow>
   low_result c p q tmp m xs ys s False"
  unfolding low_result_def by auto

lemma low_next_smaller:
  "low_next c m xs ys m' xs' ys' \<Longrightarrow>
   length xs' + length ys' < length xs + length ys \<and> low_ok c xs' ys'"
  by (simp add: low_next_def)

context comparator
begin

lemma lowPairs_spec:
  assumes "low_rep p q tmp m xs ys s" "low_ok compare xs ys" "length xs \<ge> 2" "ys \<noteq> []"
  shows "\<exists>s' ex. lowPairs compare tmp mg n1 n2 s = Some (s', ex) \<and>
    low_result compare p q tmp m xs ys s' ex"
  using assms
proof (induction "length xs + length ys" arbitrary: m xs ys s n1 n2 rule: less_induct)
  case less
  obtain x xs0 where xs: "xs = x # xs0" using less.prems by (cases xs) auto
  obtain y ys0 where ys: "ys = y # ys0" using less.prems by (cases ys) auto
  note rep = less.prems(1) [unfolded xs ys]
  note rd = low_rep_read2 [OF rep] low_rep_read1 [OF rep]
  show ?case
  proof (cases "lt y x")
    case True
    have rep': "low_rep p q tmp (m @ [y]) xs ys0 (lowTake2 s)"
      using low_rep_take2 [OF rep] xs by simp
    have nxt: "low_next compare m xs ys (m @ [y]) xs ys0"
      using low_next_take2 True less.prems(2) by (simp add: xs ys)
    have unf: "lowPairs compare tmp mg n1 n2 s =
       (if ys0 = [] then Some (lowTake2 s, True)
        else if int (0 OR (n2 + 1)) < mg then lowPairs compare tmp mg 0 (n2 + 1) (lowTake2 s)
        else Some (lowTake2 s, False))"
      using low_rep_lengths [OF rep'] by (subst lowPairs.simps) (simp add: rd cmp_simps True)
    have IH: "ys0 \<noteq> [] \<Longrightarrow> \<exists>s' ex. lowPairs compare tmp mg 0 (n2 + 1) (lowTake2 s) = Some (s', ex) \<and>
        low_result compare p q tmp (m @ [y]) xs ys0 s' ex"
      using less.hyps [OF _ rep'] low_next_smaller [OF nxt] less.prems(3) by blast
    show ?thesis
      unfolding unf using IH low_result_step [OF nxt] low_result_exit [OF rep' nxt]
        low_result_more [OF rep' nxt] less.prems(3) by auto
  next
    case False
    have rep': "low_rep p q tmp (m @ [x]) xs0 ys (lowTake1 tmp s)"
      using low_rep_take1 [OF rep] ys by simp
    have nxt: "low_next compare m xs ys (m @ [x]) xs0 ys"
      using low_next_take1 False less.prems(2) by (simp add: xs ys)
    have unf: "lowPairs compare tmp mg n1 n2 s =
       (if length xs0 = 1 then Some (lowTake1 tmp s, True)
        else if int ((n1 + 1) OR 0) < mg then lowPairs compare tmp mg (n1 + 1) 0 (lowTake1 tmp s)
        else Some (lowTake1 tmp s, False))"
      using low_rep_lengths [OF rep'] by (subst lowPairs.simps) (simp add: rd cmp_simps False)
    have xs0: "length xs0 \<noteq> 1 \<Longrightarrow> length xs0 \<ge> 2" using less.prems(3) xs by simp
    have IH: "length xs0 \<noteq> 1 \<Longrightarrow>
        \<exists>s' ex. lowPairs compare tmp mg (n1 + 1) 0 (lowTake1 tmp s) = Some (s', ex) \<and>
        low_result compare p q tmp (m @ [x]) xs0 ys s' ex"
      using less.hyps [OF _ rep'] low_next_smaller [OF nxt] less.prems(4) xs0 by blast
    show ?thesis
      unfolding unf using IH low_result_step [OF nxt] low_result_exit [OF rep' nxt]
        low_result_more [OF rep' nxt] less.prems(4) xs0 by auto
  qed
qed

text \<open>One round of galloping, split into its two halves.\<close>

lemma lowGallop_first:
  assumes rep: "low_rep p q tmp m xs (y # ys) s" and ok: "low_ok compare xs (y # ys)"
    and n: "n = gallopRight (lArray s ! lCursor2 s) tmp (lCursor1 s) (lLength1 s) 0 compare"
  obtains a xs' where "xs = a @ xs'" "n = length a" "xs' \<noteq> []"
    "low_rep p q tmp (m @ a) xs' (y # ys) (if n \<noteq> 0 then lowCopy1 tmp n s else s)"
    "low_rep p q tmp ((m @ a) @ [y]) xs' ys (lowTake2 (if n \<noteq> 0 then lowCopy1 tmp n s else s))"
    "low_next compare m xs (y # ys) ((m @ a) @ [y]) xs' ys"
    "a \<noteq> [] \<Longrightarrow> low_next compare m xs (y # ys) (m @ a) xs' (y # ys)"
proof -
  have rd: "lArray s ! lCursor2 s = y" using low_rep_read2 [OF rep] .
  have len: "lLength1 s = length xs" using low_rep_lengths [OF rep] by simp
  have tmp: "tmp = take (lCursor1 s) tmp @ xs @ drop (lCursor1 s + length xs) tmp"
    using rep unfolding low_rep_def by (metis append_take_drop_id drop_drop add.commute)
  have st: "lCursor1 s = length (take (lCursor1 s) tmp)" using rep by (auto simp: low_rep_def)
  have so: "sorted_by compare xs" "0 < length xs" using ok by (auto simp: low_ok_def)
  obtain a xs' where a: "xs = a @ xs'" "\<forall>x\<in>set a. \<not> lt y x" "\<forall>x\<in>set xs'. lt y x"
      "gallopRight y tmp (lCursor1 s) (length xs) 0 compare = length a"
    using gallopRight_split [OF so refl st, of y] tmp by metis
  have na: "n = length a" using a(4) n rd len by simp
  have ne: "xs' \<noteq> []" using a(1,2) ok by (auto simp: low_ok_def)
  have rep1: "low_rep p q tmp (m @ a) xs' (y # ys) (if n \<noteq> 0 then lowCopy1 tmp n s else s)"
    using low_rep_copy1 rep a(1) na by (cases "a = []") auto
  have le: "\<forall>x\<in>set a. \<forall>z\<in>set (y # ys). \<not> lt z x"
    using a(2) ok nlt_trans by (auto simp: low_ok_def)
  have n1: "a \<noteq> [] \<Longrightarrow> low_next compare m xs (y # ys) (m @ a) xs' (y # ys)"
    using low_next_prefix1 [of a xs' "y # ys" m] ok a(1) ne le by simp
  have ok': "low_ok compare xs' (y # ys)" using low_ok_suffix1 ok a(1) ne by blast
  have n2: "low_next compare (m @ a) xs' (y # ys) ((m @ a) @ [y]) xs' ys"
    using low_next_prefix2 [of xs' "[y]" ys "m @ a"] ok' a(3) by simp
  have "low_next compare m xs (y # ys) ((m @ a) @ [y]) xs' ys"
    using n2 low_next_trans [OF n1 n2] a(1) by (cases "a = []") auto
  then show ?thesis using that a(1) na ne rep1 low_rep_take2 [OF rep1] n1 by blast
qed

lemma lowGallop_second:
  assumes rep: "low_rep p q tmp m (x # xs) ys s" and ok: "low_ok compare (x # xs) ys"
    and ys: "ys \<noteq> []" and xs: "xs \<noteq> []"
    and n: "n = gallopLeft (tmp ! lCursor1 s) (lArray s) (lCursor2 s) (lLength2 s) 0 compare"
  obtains b ys' where "ys = b @ ys'" "n = length b"
    "low_rep p q tmp (m @ b) (x # xs) ys' (if n \<noteq> 0 then lowMove2 n s else s)"
    "low_rep p q tmp ((m @ b) @ [x]) xs ys' (lowTake1 tmp (if n \<noteq> 0 then lowMove2 n s else s))"
    "ys' \<noteq> [] \<Longrightarrow> low_next compare m (x # xs) ys ((m @ b) @ [x]) xs ys'"
    "b \<noteq> [] \<Longrightarrow> low_next compare m (x # xs) ys (m @ b) (x # xs) ys'"
proof -
  have rd: "tmp ! lCursor1 s = x" using low_rep_read1 [OF rep] .
  have len: "lLength2 s = length ys" using low_rep_lengths [OF rep] by simp
  obtain g where g: "lArray s = (p @ m @ g) @ ys @ q" "lCursor2 s = length (p @ m @ g)"
    using rep by (auto simp: low_rep_def)
  have so: "sorted_by compare ys" "0 < length ys" using ok ys by (auto simp: low_ok_def)
  obtain b ys' where b: "ys = b @ ys'" "\<forall>z\<in>set b. lt z x" "\<forall>z\<in>set ys'. \<not> lt z x"
      "gallopLeft x ((p @ m @ g) @ ys @ q) (lCursor2 s) (length ys) 0 compare = length b"
    using gallopLeft_split [OF so refl g(2), of x q] by blast
  have nb: "n = length b" using b(4) n rd len g(1) by simp
  have rep1: "low_rep p q tmp (m @ b) (x # xs) ys' (if n \<noteq> 0 then lowMove2 n s else s)"
    using low_rep_move2 rep b(1) nb by (cases "b = []") auto
  have lt: "\<forall>z\<in>set b. \<forall>w\<in>set (x # xs). lt z w"
  proof -
    have "\<forall>w\<in>set (x # xs). \<not> lt w x" using ok by (auto simp: low_ok_def)
    then show ?thesis using b(2) lt_nlt_trans by blast
  qed
  have n1: "b \<noteq> [] \<Longrightarrow> low_next compare m (x # xs) ys (m @ b) (x # xs) ys'"
    using low_next_prefix2 [of "x # xs" b ys' m] ok b(1) lt by simp
  have ok': "low_ok compare (x # xs) ys'" using low_ok_suffix2 ok b(1) by blast
  have n2: "low_next compare (m @ b) (x # xs) ys' ((m @ b) @ [x]) xs ys'"
    using low_next_prefix1 [of "[x]" xs ys' "m @ b"] ok' b(3) xs by simp
  have "low_next compare m (x # xs) ys ((m @ b) @ [x]) xs ys'"
    using n2 low_next_trans [OF n1 n2] b(1) by (cases "b = []") auto
  then show ?thesis using that b(1) nb rep1 low_rep_take1 [OF rep1] n1 by blast
qed

end

context comparator
begin

lemma lowGallop_spec:
  assumes "low_rep p q tmp m xs ys s" "low_ok compare xs ys" "length xs \<ge> 2" "ys \<noteq> []"
  shows "\<exists>s' mg' ex. lowGallop compare tmp mg s = Some (s', mg', ex) \<and>
    low_result compare p q tmp m xs ys s' ex"
  using assms
proof (induction "length xs + length ys" arbitrary: m xs ys s mg rule: less_induct)
  case less
  obtain y ys0 where ys: "ys = y # ys0" using less.prems by (cases ys) auto
  define n1 where
    "n1 = gallopRight (lArray s ! lCursor2 s) tmp (lCursor1 s) (lLength1 s) 0 compare"
  define s1 where "s1 = (if n1 \<noteq> 0 then lowCopy1 tmp n1 s else s)"
  obtain a xs1 where A: "xs = a @ xs1" "n1 = length a" "xs1 \<noteq> []"
    "low_rep p q tmp (m @ a) xs1 (y # ys0) s1"
    "low_rep p q tmp ((m @ a) @ [y]) xs1 ys0 (lowTake2 s1)"
    "low_next compare m xs ys ((m @ a) @ [y]) xs1 ys0"
    "a \<noteq> [] \<Longrightarrow> low_next compare m xs ys (m @ a) xs1 (y # ys0)"
    unfolding s1_def using lowGallop_first [OF less.prems(1,2) [unfolded ys] n1_def] ys by metis
  define n2 where "n2 = gallopLeft (tmp ! lCursor1 (lowTake2 s1)) (lArray (lowTake2 s1))
      (lCursor2 (lowTake2 s1)) (lLength2 (lowTake2 s1)) 0 compare"
  define s3 where "s3 = (if n2 \<noteq> 0 then lowMove2 n2 (lowTake2 s1) else lowTake2 s1)"
  have unf: "lowGallop compare tmp mg s =
     (if n1 \<noteq> 0 \<and> lLength1 s1 \<le> 1 then Some (s1, mg, True)
      else if lLength2 (lowTake2 s1) = 0 then Some (lowTake2 s1, mg, True)
      else if n2 \<noteq> 0 \<and> lLength2 s3 = 0 then Some (s3, mg, True)
      else if lLength1 (lowTake1 tmp s3) = 1 then Some (lowTake1 tmp s3, mg, True)
      else if n1 \<ge> DEFAULT_MIN_GALLOPING \<or> n2 \<ge> DEFAULT_MIN_GALLOPING
        then lowGallop compare tmp (mg - 1) (lowTake1 tmp s3)
        else Some (lowTake1 tmp s3, mg - 1, False))"
    by (subst lowGallop.simps) (simp only: Let_def n1_def s1_def n2_def s3_def)
  note unf = unf [unfolded low_rep_lengths [OF A(4), THEN conjunct1]
      low_rep_lengths [OF A(5), THEN conjunct2] length_0_conv]
  show ?case
  proof (cases "(n1 \<noteq> 0 \<and> length xs1 \<le> 1) \<or> ys0 = []")
    case True
    then show ?thesis
      unfolding unf using A(2,3) low_result_exit [OF A(4) A(7)] low_result_exit [OF A(5,6)]
      by (cases "n1 \<noteq> 0 \<and> length xs1 \<le> 1") (auto simp: Suc_le_eq le_Suc_eq)
  next
    case False
    then have xs1: "length xs1 \<ge> 2" "ys0 \<noteq> []" using A(1,2,3) less.prems(3)
      by (cases "a = []"; auto)+
    then obtain x xs2 where x: "xs1 = x # xs2" "xs2 \<noteq> []"
      by (cases xs1) (auto simp: Suc_le_length_iff numeral_2_eq_2)
    have ok: "low_ok compare (x # xs2) ys0" using low_next_smaller [OF A(6)] x by simp
    obtain b ys2 where B: "ys0 = b @ ys2" "n2 = length b"
      "low_rep p q tmp (((m @ a) @ [y]) @ b) (x # xs2) ys2 s3"
      "low_rep p q tmp ((((m @ a) @ [y]) @ b) @ [x]) xs2 ys2 (lowTake1 tmp s3)"
      "ys2 \<noteq> [] \<Longrightarrow> low_next compare ((m @ a) @ [y]) (x # xs2) ys0 ((((m @ a) @ [y]) @ b) @ [x]) xs2 ys2"
      "b \<noteq> [] \<Longrightarrow> low_next compare ((m @ a) @ [y]) (x # xs2) ys0 (((m @ a) @ [y]) @ b) (x # xs2) ys2"
      unfolding s3_def using lowGallop_second [OF A(5) [unfolded x] ok xs1(2) x(2) n2_def] by metis
    note nxt = A(6) [unfolded x(1)]
    show ?thesis
    proof (cases "n2 \<noteq> 0 \<and> lLength2 s3 = 0")
      case True
      then show ?thesis
        unfolding unf using False B(2) low_rep_lengths [OF B(3)]
          low_result_step [OF nxt low_result_exit [OF B(3,6)]] by auto
    next
      case more: False
      have ys2: "ys2 \<noteq> []" using more B(1,2) low_rep_lengths [OF B(3)] xs1(2) by (cases "b = []") auto
      note nxt2 = low_next_trans [OF nxt B(5) [OF ys2]]
      have len: "lLength1 (lowTake1 tmp s3) = length xs2" using low_rep_lengths [OF B(4)] by simp
      have IH: "length xs2 \<noteq> 1 \<Longrightarrow>
          \<exists>s' mg' ex. lowGallop compare tmp (mg - 1) (lowTake1 tmp s3) = Some (s', mg', ex) \<and>
          low_result compare p q tmp ((((m @ a) @ [y]) @ b) @ [x]) xs2 ys2 s' ex"
        using less.hyps [OF _ B(4)] low_next_smaller [OF nxt2] ys2 x(2)
        by (cases xs2; cases "tl xs2") auto
      have "length xs2 = 1 \<or> length xs2 \<ge> 2" using x(2) by (cases xs2; cases "tl xs2") auto
      then show ?thesis
        unfolding unf len using False more IH low_result_step [OF nxt2]
          low_result_exit [OF B(4) nxt2] low_result_more [OF B(4) nxt2] ys2 by auto
    qed
  qed
qed

lemma lowLoop_spec:
  assumes "low_rep p q tmp m xs ys s" "low_ok compare xs ys" "length xs \<ge> 2" "ys \<noteq> []"
  shows "\<exists>s' mg'. lowLoop compare tmp mg s = Some (s', mg') \<and>
    low_result compare p q tmp m xs ys s' True"
  using assms
proof (induction "length xs + length ys" arbitrary: m xs ys s mg rule: less_induct)
  case less
  obtain s1 ex1 where 1: "lowPairs compare tmp mg 0 0 s = Some (s1, ex1)"
      "low_result compare p q tmp m xs ys s1 ex1"
    using lowPairs_spec [OF less.prems, of mg 0 0] by blast
  show ?case
  proof (cases ex1)
    case True
    then show ?thesis using 1 by (subst lowLoop.simps) simp
  next
    case False
    then obtain m1 xs1 ys1 where r1: "low_rep p q tmp m1 xs1 ys1 s1"
        "low_next compare m xs ys m1 xs1 ys1" "length xs1 \<ge> 2" "ys1 \<noteq> []"
      using 1(2) by (auto simp: low_result_def)
    obtain s2 mg2 ex2 where 2: "lowGallop compare tmp mg s1 = Some (s2, mg2, ex2)"
        "low_result compare p q tmp m1 xs1 ys1 s2 ex2"
      using lowGallop_spec [OF r1(1) _ r1(3,4)] low_next_smaller [OF r1(2)] by blast
    show ?thesis
    proof (cases ex2)
      case True
      then show ?thesis using 1 2 False low_result_step [OF r1(2)] by (subst lowLoop.simps) simp
    next
      case no2: False
      then obtain m2 xs2 ys2 where r2: "low_rep p q tmp m2 xs2 ys2 s2"
          "low_next compare m1 xs1 ys1 m2 xs2 ys2" "length xs2 \<ge> 2" "ys2 \<noteq> []"
        using 2(2) by (auto simp: low_result_def)
      note nxt = low_next_trans [OF r1(2) r2(2)]
      have "\<exists>s' mg'. lowLoop compare tmp ((if mg2 < 0 then 0 else mg2) + 2) s2 = Some (s', mg') \<and>
          low_result compare p q tmp m2 xs2 ys2 s' True"
        using less.hyps [OF _ r2(1) _ r2(3,4)] low_next_smaller [OF nxt] by blast
      then show ?thesis using 1 2 False no2 low_result_step [OF nxt] by (subst lowLoop.simps) auto
    qed
  qed
qed

text \<open>The end of the merge: one element of the first run is left, or the second run is used up.\<close>

lemma low_rest_one:
  assumes "low_rep p q tmp m [x] ys s" "low_ok compare [x] ys"
  shows "(moveUp 0 (lLength2 s) (lArray s) (lDest s) (lCursor2 s))[lDest s + lLength2 s := tmp ! lCursor1 s]
    = p @ m @ smerge compare [x] ys @ q"
proof -
  have rep: "low_rep p q tmp (m @ ys) [x] [] (lowMove2 (length ys) s)"
    using low_rep_move2 [of p q tmp m "[x]" ys "[]" s] assms(1) by simp
  have lt: "\<forall>y\<in>set ys. \<forall>x'\<in>set [x]. lt y x'" using assms(2) by (simp add: low_ok_def)
  have l: "lLength2 s = length ys" using low_rep_lengths [OF assms(1)] by simp
  have "lArray (lowTake1 tmp (lowMove2 (length ys) s)) = p @ (m @ ys @ [x]) @ q"
    using low_rep_take1 [OF rep] by (auto simp: low_rep_def)
  moreover have "smerge compare [x] ys = ys @ [x]" using smerge_prefix2 [OF lt, of "[]"] by simp
  ultimately show ?thesis using l by (simp add: lowTake1_def lowMove2_def)
qed

lemma low_rest_copy:
  assumes "low_rep p q tmp m xs [] s"
  shows "copyUp 0 (lLength1 s) (\<lambda>i. tmp ! (lCursor1 s + i)) (lArray s) (lDest s) = p @ m @ xs @ q"
proof -
  have "low_rep p q tmp (m @ xs) [] [] (lowCopy1 tmp (length xs) s)"
    using low_rep_copy1 [of p q tmp m xs "[]" "[]" s] assms by simp
  then show ?thesis using low_rep_lengths [OF assms] by (auto simp: low_rep_def lowCopy1_def)
qed

lemma lowFinish_spec:
  assumes "low_result compare p q tmp m xs ys s True"
  shows "lowFinish tmp s = Inr (p @ m @ smerge compare xs ys @ q)"
proof -
  obtain m' xs' ys' where r: "low_rep p q tmp m' xs' ys' s" "low_next compare m xs ys m' xs' ys'"
      "length xs' = 1 \<or> ys' = []"
    using assms by (auto simp: low_result_def)
  have ok: "low_ok compare xs' ys'" and eq: "m @ smerge compare xs ys = m' @ smerge compare xs' ys'"
    using r(2) by (auto simp: low_next_def)
  have ne: "xs' \<noteq> []" using ok by (simp add: low_ok_def)
  have len: "lLength1 s = length xs'" using low_rep_lengths [OF r(1)] by simp
  have "lowFinish tmp s = Inr (p @ m' @ smerge compare xs' ys' @ q)"
  proof (cases "length xs' = 1")
    case True
    then obtain x where "xs' = [x]" by (cases xs') auto
    then show ?thesis using low_rest_one [of p q tmp m' x ys' s] r(1) ok len
      by (simp add: lowFinish_def)
  next
    case False
    then show ?thesis using low_rest_copy [of p q tmp m' xs' s] r ne len
      by (simp add: lowFinish_def)
  qed
  then show ?thesis using eq by (metis append.assoc)
qed

text \<open>
  The whole low merge.  The callers guarantee that the first element of the second run goes first
  and the last element of the first run goes last.
\<close>

lemma mergeLow_spec:
  assumes arr: "tsArray ts = p @ xs @ (y # ys) @ q"
    and ok: "low_ok compare xs (y # ys)" and first: "\<forall>x\<in>set xs. lt y x"
    and idx: "start1 = length p" "length1 = length xs" "start2 = length p + length xs"
      "length2 = Suc (length ys)"
  shows "\<exists>tmp' mg'. mergeLow compare ts start1 length1 start2 length2 =
    Some (Inr (ts\<lparr>tsArray := p @ smerge compare xs (y # ys) @ q, tsTmp := tmp', tsMinGallop := mg'\<rparr>))"
proof -
  define tmp' where "tmp' = fillTmp 0 length1 (tsTmp ts) (tsArray ts) start1"
  have t: "take (length xs) tmp' = xs"
    unfolding tmp'_def using take_fillTmp_seg [of start1 p length1 xs "tsTmp ts" "(y # ys) @ q"] arr idx
    by simp
  define s where "s = lowTake2 \<lparr>lArray = tsArray ts, lCursor1 = 0, lCursor2 = start2, lDest = start1,
                       lLength1 = length1, lLength2 = length2\<rparr>"
  have l: "length xs \<le> length tmp'" using arg_cong [OF t, of length] by simp
  have "low_rep p q tmp' [] xs (y # ys) \<lparr>lArray = tsArray ts, lCursor1 = 0, lCursor2 = start2,
      lDest = start1, lLength1 = length1, lLength2 = length2\<rparr>"
    using arr idx t l by (auto simp: low_rep_def)
  from low_rep_take2 [OF this] have rep: "low_rep p q tmp' [y] xs ys s" by (simp add: s_def)
  have eq: "smerge compare xs (y # ys) = y # smerge compare xs ys"
    using smerge_prefix2 [of "[y]" xs compare ys] first by simp
  have ok': "low_ok compare xs ys" using low_ok_suffix2 [of xs "[y]" ys] ok by simp
  note len = low_rep_lengths [OF rep]
  have e: "tsArray (ts\<lparr>tsTmp := tmp'\<rparr>) = tsArray ts" "tsMinGallop (ts\<lparr>tsTmp := tmp'\<rparr>) = tsMinGallop ts"
    by simp_all
  have unf: "mergeLow compare ts start1 length1 start2 length2 =
    (if ys = [] then Some (Inr (ts\<lparr>tsTmp := tmp', tsArray := copyUp 0 length1 (\<lambda>i. tmp' ! (lCursor1 s + i))
                                       (lArray s) (lDest s)\<rparr>))
     else if length1 = 1 then Some (Inr (ts\<lparr>tsTmp := tmp', tsArray := (moveUp 0 (lLength2 s) (lArray s) (lDest s) (lCursor2 s))
                                       [lDest s + lLength2 s := tmp' ! lCursor1 s]\<rparr>))
     else do {
        r \<leftarrow> lowLoop compare tmp' (tsMinGallop ts) s;
        Some (case lowFinish tmp' (fst r) of
                Inl e \<Rightarrow> Inl e
              | Inr arr \<Rightarrow> Inr (ts\<lparr>tsTmp := tmp', tsArray := arr,
                                   tsMinGallop := (if snd r < 1 then 1 else snd r)\<rparr>))
      })"
    unfolding mergeLow_def Let_def tmp'_def [symmetric] e s_def [symmetric]
    by (simp add: len)
  consider "ys = []" | x where "ys \<noteq> []" "xs = [x]" | "ys \<noteq> []" "length xs \<ge> 2"
    using ok by (cases xs; cases "tl xs") (auto simp: low_ok_def)
  then show ?thesis
  proof cases
    case 1
    then show ?thesis using low_rest_copy [of p q tmp' "[y]" xs s] rep unf idx len eq
      by (intro exI [of _ tmp'] exI [of _ "tsMinGallop ts"]) simp
  next
    case 2
    then show ?thesis using low_rest_one [of p q tmp' "[y]" x ys s] rep ok' unf idx len eq
      by (intro exI [of _ tmp'] exI [of _ "tsMinGallop ts"]) simp
  next
    case 3
    obtain s' mg' where "lowLoop compare tmp' (tsMinGallop ts) s = Some (s', mg')"
        "low_result compare p q tmp' [y] xs ys s' True"
      using lowLoop_spec [OF rep ok' 3(2,1)] by blast
    then show ?thesis using lowFinish_spec [of p q tmp' "[y]" xs ys s'] 3 unf idx eq
      by (intro exI [of _ tmp'] exI [of _ "if mg' < 1 then 1 else mg'"]) simp
  qed
qed

end

end
