(* ===== verification/TimSort_High.thy ===== *)
theory TimSort_High
  imports TimSort_Merge
begin

text \<open>
  The high merge, from the right end: it returns, does not throw and leaves the stable merge in
  place.
\<close>

section \<open>Representation\<close>

definition high_rep ::
  "'a list \<Rightarrow> 'a list \<Rightarrow> 'a list \<Rightarrow> 'a list \<Rightarrow> 'a list \<Rightarrow> 'a list \<Rightarrow> 'a high \<Rightarrow> bool" where
  "high_rep p q tmp m xs ys s \<longleftrightarrow>
     (\<exists>g. length g = length ys \<and> hArray s = p @ xs @ g @ m @ q) \<and>
     hDest s = int (length p) + int (length xs) + int (length ys) - 1 \<and>
     hCursor1 s = int (length p) + int (length xs) - 1 \<and> hCursor2 s = int (length ys) - 1 \<and>
     hLength1 s = length xs \<and> hLength2 s = length ys \<and>
     take (length ys) tmp = ys"

lemma high_rep_lengths:
  "high_rep p q tmp m xs ys s \<Longrightarrow> hLength1 s = length xs \<and> hLength2 s = length ys"
  by (simp add: high_rep_def)

lemma high_rep_read1: "high_rep p q tmp m (xs @ [x]) ys s \<Longrightarrow> hArray s ! nat (hCursor1 s) = x"
  by (auto simp: high_rep_def nth_append nat_int_add)

lemma high_rep_read2:
  assumes "high_rep p q tmp m xs (ys @ [y]) s"
  shows "tmp ! nat (hCursor2 s) = y"
proof -
  have "take (Suc (length ys)) tmp ! length ys = y" "hCursor2 s = int (length ys)"
    using assms by (auto simp: high_rep_def nth_append)
  then show ?thesis by simp
qed

lemma high_rep_take1:
  assumes "high_rep p q tmp m (xs @ [x]) ys s" "ys \<noteq> []"
  shows "high_rep p q tmp (x # m) xs ys (highTake1 s)"
proof -
  obtain g where g: "length g = length ys" "hArray s = p @ (xs @ [x]) @ g @ m @ q"
    using assms by (auto simp: high_rep_def)
  then obtain g0 z where z: "g = g0 @ [z]" using assms(2) by (cases g rule: rev_cases) auto
  have d: "nat (hDest s) = length (p @ xs @ [x] @ g0)"
    using assms g z by (simp add: high_rep_def)
  have "(p @ (xs @ [x]) @ g @ m @ q)[nat (hDest s) := x] = p @ xs @ (x # g0) @ (x # m) @ q"
    unfolding d using z list_update_length [of "p @ xs @ [x] @ g0" z "m @ q" x] by simp
  then show ?thesis using assms g z high_rep_read1 [OF assms(1)]
    by (auto simp: high_rep_def highTake1_def intro!: exI [of _ "x # g0"])
qed

lemma high_rep_take2:
  assumes "high_rep p q tmp m xs (ys @ [y]) s"
  shows "high_rep p q tmp (y # m) xs ys (highTake2 tmp s)"
proof -
  obtain g where g: "length g = Suc (length ys)" "hArray s = p @ xs @ g @ m @ q"
    using assms by (auto simp: high_rep_def)
  then obtain g0 z where z: "g = g0 @ [z]" "length g0 = length ys" using length_Suc_snoc by metis
  have d: "nat (hDest s) = length (p @ xs @ g0)"
    using assms g z by (simp add: high_rep_def)
  have u: "(p @ xs @ g @ m @ q)[nat (hDest s) := y] = p @ xs @ g0 @ (y # m) @ q"
    unfolding d using z list_update_length [of "p @ xs @ g0" z "m @ q" y] by simp
  have t: "take (Suc (length ys)) tmp = ys @ [y]" using assms by (simp add: high_rep_def)
  have "take (length ys) tmp = take (length ys) (take (Suc (length ys)) tmp)" by simp
  then have "take (length ys) tmp = ys" unfolding t by simp
  then show ?thesis using assms g z u high_rep_read2 [OF assms]
    by (auto simp: high_rep_def highTake2_def)
qed

lemma high_rep_move1:
  assumes "high_rep p q tmp m (xs1 @ xs2) ys s"
  shows "high_rep p q tmp (xs2 @ m) xs1 ys (highMove1 (length xs2) s)"
proof -
  obtain g where g: "length g = length ys" "hArray s = p @ (xs1 @ xs2) @ g @ m @ q"
    using assms by (auto simp: high_rep_def)
  have idx: "nat (hDest s - int (length xs2) + 1) = length (p @ xs1) + length g"
      "nat (hCursor1 s - int (length xs2) + 1) = length (p @ xs1)"
    using assms g by (auto simp: high_rep_def nat_int_add)
  obtain g' where "length g' = length g"
      "moveDown (length xs2) ((p @ xs1) @ xs2 @ g @ (m @ q)) (length (p @ xs1) + length g)
         (length (p @ xs1)) = (p @ xs1) @ g' @ xs2 @ (m @ q)"
    using moveDown_seg [of xs2 "length xs2" "length (p @ xs1)" "p @ xs1"
        "length (p @ xs1) + length g" g "m @ q"] by auto
  then show ?thesis using assms g idx
    by (auto simp: high_rep_def highMove1_def Let_def intro!: exI [of _ g'])
qed

lemma high_rep_copy2:
  assumes "high_rep p q tmp m xs (ys1 @ ys2) s"
  shows "high_rep p q tmp (ys2 @ m) xs ys1 (highCopy2 tmp (length ys2) s)"
proof -
  obtain g where "length g = length ys1 + length ys2" "hArray s = p @ xs @ g @ m @ q"
    using assms by (auto simp: high_rep_def)
  then obtain g1 g2 where g: "length g1 = length ys1" "length g2 = length ys2"
      "hArray s = p @ xs @ (g1 @ g2) @ m @ q"
    by (metis length_append_split)
  have t: "take (length ys1 + length ys2) tmp = ys1 @ ys2" using assms by (simp add: high_rep_def)
  have t1: "take (length ys1) tmp = ys1"
    using arg_cong [OF t, of "take (length ys1)"] by simp
  have t2: "take (length ys2) (drop (length ys1) tmp) = ys2"
    using arg_cong [OF t, of "drop (length ys1)"] by (simp add: drop_take)
  have tl: "length ys1 + length ys2 \<le> length tmp" using arg_cong [OF t, of length] by simp
  have idx: "nat (hDest s - int (length ys2) + 1) = length (p @ xs @ g1)"
      "nat (hCursor2 s - int (length ys2) + 1) = length ys1"
    using assms g by (auto simp: high_rep_def nat_int_add)
  have "copyUp 0 (length ys2) (\<lambda>i. tmp ! (length ys1 + i)) ((p @ xs @ g1) @ g2 @ (m @ q))
          (length (p @ xs @ g1)) = (p @ xs @ g1) @ ys2 @ (m @ q)"
    using copyUp_seg [of g2 "length ys2" "length (p @ xs @ g1)" "p @ xs @ g1" "length ys1" tmp] g tl t2
    by simp
  then show ?thesis using assms g idx t1
    by (auto simp: high_rep_def highCopy2_def Let_def intro!: exI [of _ g1])
qed

section \<open>Steps\<close>

definition high_ok :: "('a \<Rightarrow> 'a \<Rightarrow> int) \<Rightarrow> 'a list \<Rightarrow> 'a list \<Rightarrow> bool" where
  "high_ok c xs ys \<longleftrightarrow> sorted_by c xs \<and> sorted_by c ys \<and> ys \<noteq> [] \<and> (\<forall>x\<in>set xs. lt_by c (hd ys) x)"

definition high_next ::
  "('a \<Rightarrow> 'a \<Rightarrow> int) \<Rightarrow> 'a list \<Rightarrow> 'a list \<Rightarrow> 'a list \<Rightarrow> 'a list \<Rightarrow> 'a list \<Rightarrow> 'a list \<Rightarrow> bool" where
  "high_next c m xs ys m' xs' ys' \<longleftrightarrow>
     high_ok c xs' ys' \<and> length xs' + length ys' < length xs + length ys \<and>
     smerge c xs ys @ m = smerge c xs' ys' @ m'"

lemma high_next_trans:
  "high_next c m xs ys m' xs' ys' \<Longrightarrow> high_next c m' xs' ys' m'' xs'' ys'' \<Longrightarrow>
   high_next c m xs ys m'' xs'' ys''"
  by (auto simp: high_next_def)

lemma high_next_smaller:
  "high_next c m xs ys m' xs' ys' \<Longrightarrow>
   length xs' + length ys' < length xs + length ys \<and> high_ok c xs' ys'"
  by (simp add: high_next_def)

definition high_result ::
  "('a \<Rightarrow> 'a \<Rightarrow> int) \<Rightarrow> 'a list \<Rightarrow> 'a list \<Rightarrow> 'a list \<Rightarrow> 'a list \<Rightarrow> 'a list \<Rightarrow> 'a list \<Rightarrow>
   'a high \<Rightarrow> bool \<Rightarrow> bool" where
  "high_result c p q tmp m xs ys s ex \<longleftrightarrow>
     (\<exists>m' xs' ys'. high_rep p q tmp m' xs' ys' s \<and> high_next c m xs ys m' xs' ys' \<and>
        (if ex then length ys' = 1 \<or> xs' = [] else length ys' \<ge> 2 \<and> xs' \<noteq> []))"

lemma high_result_step:
  "high_next c m xs ys m' xs' ys' \<Longrightarrow> high_result c p q tmp m' xs' ys' s ex \<Longrightarrow>
   high_result c p q tmp m xs ys s ex"
  unfolding high_result_def by (blast intro: high_next_trans)

lemma high_result_exit:
  "high_rep p q tmp m' xs' ys' s \<Longrightarrow> high_next c m xs ys m' xs' ys' \<Longrightarrow> length ys' = 1 \<or> xs' = [] \<Longrightarrow>
   high_result c p q tmp m xs ys s True"
  unfolding high_result_def by auto

lemma high_result_more:
  "high_rep p q tmp m' xs' ys' s \<Longrightarrow> high_next c m xs ys m' xs' ys' \<Longrightarrow> length ys' \<ge> 2 \<Longrightarrow> xs' \<noteq> [] \<Longrightarrow>
   high_result c p q tmp m xs ys s False"
  unfolding high_result_def by auto

context comparator
begin

lemma high_ok_prefix1: "high_ok compare (xs @ a) ys \<Longrightarrow> high_ok compare xs ys"
  by (auto simp: high_ok_def sorted_by_append)

lemma high_ok_prefix2: "high_ok compare xs (ys @ b) \<Longrightarrow> ys \<noteq> [] \<Longrightarrow> high_ok compare xs ys"
  by (auto simp: high_ok_def sorted_by_append)

lemma high_next_suffix1:
  assumes "high_ok compare (xs @ a) ys" "a \<noteq> []" "\<forall>x\<in>set a. \<forall>y\<in>set ys. lt y x"
  shows "high_next compare m (xs @ a) ys (a @ m) xs ys"
  using assms high_ok_prefix1 [OF assms(1)] smerge_suffix1 [OF assms(3), of xs]
  by (cases a) (auto simp: high_next_def)

lemma high_next_suffix2:
  assumes "high_ok compare xs (ys @ b)" "ys \<noteq> []" "b \<noteq> []" "\<forall>y\<in>set b. \<forall>x\<in>set xs. \<not> lt y x"
  shows "high_next compare m xs (ys @ b) (b @ m) xs ys"
  using assms high_ok_prefix2 [OF assms(1,2)] smerge_suffix2 [OF assms(4), of ys]
  by (cases b) (auto simp: high_next_def)

lemma high_ok_nlt_ne:
  "high_ok compare (xs @ [x]) (ys @ [y]) \<Longrightarrow> \<not> lt y x \<Longrightarrow> ys \<noteq> []"
  by (auto simp: high_ok_def)

lemma high_next_take1:
  assumes "high_ok compare (xs @ [x]) (ys @ [y])" "lt y x"
  shows "high_next compare m (xs @ [x]) (ys @ [y]) (x # m) xs (ys @ [y])"
proof -
  have "\<forall>z\<in>set (ys @ [y]). \<not> lt y z" using assms by (auto simp: high_ok_def sorted_by_append)
  then have "\<forall>z\<in>set (ys @ [y]). lt z x" using assms(2) nlt_lt_trans by blast
  then show ?thesis using high_next_suffix1 [of xs "[x]" "ys @ [y]" m] assms(1) by simp
qed

lemma high_next_take2:
  assumes "high_ok compare (xs @ [x]) (ys @ [y])" "\<not> lt y x"
  shows "high_next compare m (xs @ [x]) (ys @ [y]) (y # m) (xs @ [x]) ys"
proof -
  have "\<forall>z\<in>set (xs @ [x]). \<not> lt x z" using assms by (auto simp: high_ok_def sorted_by_append)
  then have "\<forall>z\<in>set (xs @ [x]). \<not> lt y z" using assms(2) nlt_trans by blast
  then show ?thesis
    using high_next_suffix2 [of "xs @ [x]" ys "[y]" m] high_ok_nlt_ne [OF assms] assms(1) by simp
qed


lemma highPairs_spec:
  assumes "high_rep p q tmp m xs ys s" "high_ok compare xs ys" "length ys \<ge> 2" "xs \<noteq> []"
  shows "\<exists>s' ex. highPairs compare tmp mg n1 n2 s = Some (s', ex) \<and>
    high_result compare p q tmp m xs ys s' ex"
  using assms
proof (induction "length xs + length ys" arbitrary: m xs ys s n1 n2 rule: less_induct)
  case less
  obtain x xs0 where xs: "xs = xs0 @ [x]" using less.prems by (cases xs rule: rev_cases) auto
  obtain y ys0 where ys: "ys = ys0 @ [y]" using less.prems by (cases ys rule: rev_cases) auto
  note rep = less.prems(1) [unfolded xs ys]
  note rd = high_rep_read1 [OF rep] high_rep_read2 [OF rep]
  show ?case
  proof (cases "lt y x")
    case True
    have rep': "high_rep p q tmp (x # m) xs0 ys (highTake1 s)"
      using high_rep_take1 [OF rep] ys by simp
    have nxt: "high_next compare m xs ys (x # m) xs0 ys"
      using high_next_take1 True less.prems(2) by (simp add: xs ys)
    have unf: "highPairs compare tmp mg n1 n2 s =
       (if xs0 = [] then Some (highTake1 s, True)
        else if int ((n1 + 1) OR 0) < mg then highPairs compare tmp mg (n1 + 1) 0 (highTake1 s)
        else Some (highTake1 s, False))"
      using high_rep_lengths [OF rep'] by (subst highPairs.simps) (simp add: rd cmp_simps True)
    have IH: "xs0 \<noteq> [] \<Longrightarrow> \<exists>s' ex. highPairs compare tmp mg (n1 + 1) 0 (highTake1 s) = Some (s', ex) \<and>
        high_result compare p q tmp (x # m) xs0 ys s' ex"
      using less.hyps [OF _ rep'] high_next_smaller [OF nxt] less.prems(3) by blast
    show ?thesis
      unfolding unf using IH high_result_step [OF nxt] high_result_exit [OF rep' nxt]
        high_result_more [OF rep' nxt] less.prems(3) by auto
  next
    case False
    have rep': "high_rep p q tmp (y # m) xs ys0 (highTake2 tmp s)"
      using high_rep_take2 [OF rep] xs by simp
    have nxt: "high_next compare m xs ys (y # m) xs ys0"
      using high_next_take2 False less.prems(2) by (simp add: xs ys)
    have unf: "highPairs compare tmp mg n1 n2 s =
       (if length ys0 = 1 then Some (highTake2 tmp s, True)
        else if int (0 OR (n2 + 1)) < mg then highPairs compare tmp mg 0 (n2 + 1) (highTake2 tmp s)
        else Some (highTake2 tmp s, False))"
      using high_rep_lengths [OF rep'] by (subst highPairs.simps) (simp add: rd cmp_simps False)
    have ys0: "length ys0 \<noteq> 1 \<Longrightarrow> length ys0 \<ge> 2" using less.prems(3) ys by simp
    have IH: "length ys0 \<noteq> 1 \<Longrightarrow>
        \<exists>s' ex. highPairs compare tmp mg 0 (n2 + 1) (highTake2 tmp s) = Some (s', ex) \<and>
        high_result compare p q tmp (y # m) xs ys0 s' ex"
      using less.hyps [OF _ rep'] high_next_smaller [OF nxt] less.prems(4) ys0 by blast
    show ?thesis
      unfolding unf using IH high_result_step [OF nxt] high_result_exit [OF rep' nxt]
        high_result_more [OF rep' nxt] less.prems(4) ys0 by auto
  qed
qed

end

context comparator
begin

lemma highGallop_first:
  assumes rep: "high_rep p q tmp m xs (ys @ [y]) s" and ok: "high_ok compare xs (ys @ [y])"
    and xs: "xs \<noteq> []"
    and n: "n = hLength1 s - gallopRight (tmp ! nat (hCursor2 s)) (hArray s) (length p)
                     (hLength1 s) (hLength1 s - 1) compare"
  obtains b xs' where "xs = xs' @ b" "n = length b"
    "high_rep p q tmp (b @ m) xs' (ys @ [y]) (if n \<noteq> 0 then highMove1 n s else s)"
    "high_rep p q tmp (y # b @ m) xs' ys (highTake2 tmp (if n \<noteq> 0 then highMove1 n s else s))"
    "xs' \<noteq> [] \<Longrightarrow> high_next compare m xs (ys @ [y]) (y # b @ m) xs' ys"
    "b \<noteq> [] \<Longrightarrow> high_next compare m xs (ys @ [y]) (b @ m) xs' (ys @ [y])"
proof -
  have rd: "tmp ! nat (hCursor2 s) = y" using high_rep_read2 [OF rep] .
  have len: "hLength1 s = length xs" using high_rep_lengths [OF rep] by simp
  obtain g where g: "hArray s = p @ xs @ (g @ m @ q)" using rep by (auto simp: high_rep_def)
  have so: "sorted_by compare xs" "length xs - 1 < length xs" using ok xs by (auto simp: high_ok_def)
  obtain xs' b where a: "xs = xs' @ b" "\<forall>x\<in>set xs'. \<not> lt y x" "\<forall>x\<in>set b. lt y x"
      "gallopRight y (p @ xs @ (g @ m @ q)) (length p) (length xs) (length xs - 1) compare = length xs'"
    using gallopRight_split [OF so refl refl, of y p "g @ m @ q"] by blast
  have nb: "n = length b" using a(1,4) n rd len g by simp
  have rep1: "high_rep p q tmp (b @ m) xs' (ys @ [y]) (if n \<noteq> 0 then highMove1 n s else s)"
    using high_rep_move1 rep a(1) nb by (cases "b = []") auto
  have "\<forall>z\<in>set (ys @ [y]). \<not> lt y z" using ok by (auto simp: high_ok_def sorted_by_append)
  then have lt: "\<forall>x\<in>set b. \<forall>z\<in>set (ys @ [y]). lt z x" using a(3) nlt_lt_trans by blast
  have n1: "b \<noteq> [] \<Longrightarrow> high_next compare m xs (ys @ [y]) (b @ m) xs' (ys @ [y])"
    using high_next_suffix1 [of xs' b "ys @ [y]" m] ok a(1) lt by simp
  have n2: "xs' \<noteq> [] \<Longrightarrow> high_next compare (b @ m) xs' (ys @ [y]) (y # b @ m) xs' ys"
  proof -
    assume ne: "xs' \<noteq> []"
    then obtain xs0 x where x: "xs' = xs0 @ [x]" by (cases xs' rule: rev_cases) auto
    have "high_ok compare xs' (ys @ [y])" using high_ok_prefix1 ok a(1) by blast
    then show ?thesis using high_next_take2 [of xs0 x ys y "b @ m"] a(2) x by simp
  qed
  have "xs' \<noteq> [] \<Longrightarrow> high_next compare m xs (ys @ [y]) (y # b @ m) xs' ys"
    using n2 high_next_trans [OF n1 n2] a(1) by (cases "b = []") auto
  then show ?thesis using that a(1) nb rep1 high_rep_take2 [OF rep1] n1 by blast
qed

lemma highGallop_second:
  assumes rep: "high_rep p q tmp m (xs @ [x]) ys s" and ok: "high_ok compare (xs @ [x]) ys"
    and n: "n = hLength2 s - gallopLeft (hArray s ! nat (hCursor1 s)) tmp 0
                          (hLength2 s) (hLength2 s - 1) compare"
  obtains b ys' where "ys = ys' @ b" "n = length b" "ys' \<noteq> []"
    "high_rep p q tmp (b @ m) (xs @ [x]) ys' (if n \<noteq> 0 then highCopy2 tmp n s else s)"
    "high_rep p q tmp (x # b @ m) xs ys' (highTake1 (if n \<noteq> 0 then highCopy2 tmp n s else s))"
    "high_next compare m (xs @ [x]) ys (x # b @ m) xs ys'"
    "b \<noteq> [] \<Longrightarrow> high_next compare m (xs @ [x]) ys (b @ m) (xs @ [x]) ys'"
proof -
  have rd: "hArray s ! nat (hCursor1 s) = x" using high_rep_read1 [OF rep] .
  have len: "hLength2 s = length ys" using high_rep_lengths [OF rep] by simp
  have tmp: "tmp = [] @ ys @ drop (length ys) tmp"
    using rep unfolding high_rep_def by (metis append_Nil append_take_drop_id)
  have so: "sorted_by compare ys" "length ys - 1 < length ys" using ok by (auto simp: high_ok_def)
  obtain ys' b where b: "ys = ys' @ b" "\<forall>z\<in>set ys'. lt z x" "\<forall>z\<in>set b. \<not> lt z x"
      "gallopLeft x ([] @ ys @ drop (length ys) tmp) 0 (length ys) (length ys - 1) compare = length ys'"
    using gallopLeft_split [OF so refl, of 0 "[]" x "drop (length ys) tmp"] by auto
  have nb: "n = length b" using b(1,4) n rd len tmp by simp
  have ne: "ys' \<noteq> []" using b(1,3) ok by (cases b) (auto simp: high_ok_def)
  have rep1: "high_rep p q tmp (b @ m) (xs @ [x]) ys' (if n \<noteq> 0 then highCopy2 tmp n s else s)"
    using high_rep_copy2 rep b(1) nb by (cases "b = []") auto
  have "\<forall>z\<in>set (xs @ [x]). \<not> lt x z" using ok by (auto simp: high_ok_def sorted_by_append)
  then have le: "\<forall>z\<in>set b. \<forall>w\<in>set (xs @ [x]). \<not> lt z w" using b(3) nlt_trans by blast
  have n1: "b \<noteq> [] \<Longrightarrow> high_next compare m (xs @ [x]) ys (b @ m) (xs @ [x]) ys'"
    using high_next_suffix2 [of "xs @ [x]" ys' b m] ok b(1) ne le by simp
  have ok': "high_ok compare (xs @ [x]) ys'" using high_ok_prefix2 ok b(1) ne by blast
  have n2: "high_next compare (b @ m) (xs @ [x]) ys' (x # b @ m) xs ys'"
    using high_next_suffix1 [of xs "[x]" ys' "b @ m"] ok' b(2) by simp
  have "high_next compare m (xs @ [x]) ys (x # b @ m) xs ys'"
    using n2 high_next_trans [OF n1 n2] b(1) by (cases "b = []") auto
  then show ?thesis using that b(1) nb ne rep1 high_rep_take1 [OF rep1 ne] n1 by blast
qed

lemma highGallop_spec:
  assumes "high_rep p q tmp m xs ys s" "high_ok compare xs ys" "length ys \<ge> 2" "xs \<noteq> []"
  shows "\<exists>s' mg' ex. highGallop compare tmp (length p) mg s = Some (s', mg', ex) \<and>
    high_result compare p q tmp m xs ys s' ex"
  using assms
proof (induction "length xs + length ys" arbitrary: m xs ys s mg rule: less_induct)
  case less
  obtain y ys0 where ys: "ys = ys0 @ [y]" using less.prems by (cases ys rule: rev_cases) auto
  define n1 where "n1 = hLength1 s - gallopRight (tmp ! nat (hCursor2 s)) (hArray s) (length p)
                     (hLength1 s) (hLength1 s - 1) compare"
  define s1 where "s1 = (if n1 \<noteq> 0 then highMove1 n1 s else s)"
  obtain a xs1 where A: "xs = xs1 @ a" "n1 = length a"
    "high_rep p q tmp (a @ m) xs1 (ys0 @ [y]) s1"
    "high_rep p q tmp (y # a @ m) xs1 ys0 (highTake2 tmp s1)"
    "xs1 \<noteq> [] \<Longrightarrow> high_next compare m xs ys (y # a @ m) xs1 ys0"
    "a \<noteq> [] \<Longrightarrow> high_next compare m xs ys (a @ m) xs1 (ys0 @ [y])"
    unfolding s1_def
    using highGallop_first [OF less.prems(1,2) [unfolded ys] less.prems(4) n1_def] ys by metis
  define n2 where "n2 = hLength2 (highTake2 tmp s1) -
      gallopLeft (hArray (highTake2 tmp s1) ! nat (hCursor1 (highTake2 tmp s1))) tmp 0
        (hLength2 (highTake2 tmp s1)) (hLength2 (highTake2 tmp s1) - 1) compare"
  define s3 where "s3 = (if n2 \<noteq> 0 then highCopy2 tmp n2 (highTake2 tmp s1) else highTake2 tmp s1)"
  have unf: "highGallop compare tmp (length p) mg s =
     (if n1 \<noteq> 0 \<and> hLength1 s1 = 0 then Some (s1, mg, True)
      else if hLength2 (highTake2 tmp s1) = 1 then Some (highTake2 tmp s1, mg, True)
      else if n2 \<noteq> 0 \<and> hLength2 s3 \<le> 1 then Some (s3, mg, True)
      else if hLength1 (highTake1 s3) = 0 then Some (highTake1 s3, mg, True)
      else if n1 \<ge> DEFAULT_MIN_GALLOPING \<or> n2 \<ge> DEFAULT_MIN_GALLOPING
        then highGallop compare tmp (length p) (mg - 1) (highTake1 s3)
        else Some (highTake1 s3, mg - 1, False))"
    by (subst highGallop.simps) (simp only: Let_def n1_def s1_def n2_def s3_def)
  note unf = unf [unfolded high_rep_lengths [OF A(3), THEN conjunct1]
      high_rep_lengths [OF A(4), THEN conjunct2] length_0_conv]
  have xs1: "\<not> (n1 \<noteq> 0 \<and> xs1 = []) \<Longrightarrow> xs1 \<noteq> []" using A(1,2) less.prems(4) by auto
  show ?case
  proof (cases "(n1 \<noteq> 0 \<and> xs1 = []) \<or> length ys0 = 1")
    case True
    then show ?thesis
      unfolding unf using A(2) xs1 high_result_exit [OF A(3) A(6)] high_result_exit [OF A(4,5)]
      by (cases "n1 \<noteq> 0 \<and> xs1 = []") auto
  next
    case False
    then have ne: "xs1 \<noteq> []" using xs1 by blast
    have ys0: "length ys0 \<ge> 2" using False less.prems(3) ys by simp
    obtain x xs2 where x: "xs1 = xs2 @ [x]" using ne by (cases xs1 rule: rev_cases) auto
    note nxt = A(5) [OF ne, unfolded x]
    have ok: "high_ok compare (xs2 @ [x]) ys0" using high_next_smaller [OF nxt] by simp
    obtain b ys2 where B: "ys0 = ys2 @ b" "n2 = length b" "ys2 \<noteq> []"
      "high_rep p q tmp (b @ y # a @ m) (xs2 @ [x]) ys2 s3"
      "high_rep p q tmp (x # b @ y # a @ m) xs2 ys2 (highTake1 s3)"
      "high_next compare (y # a @ m) (xs2 @ [x]) ys0 (x # b @ y # a @ m) xs2 ys2"
      "b \<noteq> [] \<Longrightarrow> high_next compare (y # a @ m) (xs2 @ [x]) ys0 (b @ y # a @ m) (xs2 @ [x]) ys2"
      unfolding s3_def using highGallop_second [OF A(4) [unfolded x] ok n2_def] by metis
    have len3: "hLength2 s3 = length ys2" using high_rep_lengths [OF B(4)] by simp
    show ?thesis
    proof (cases "n2 \<noteq> 0 \<and> hLength2 s3 \<le> 1")
      case True
      then have "length ys2 = 1" "b \<noteq> []" using len3 B(2,3) by (auto simp: le_Suc_eq)
      then show ?thesis
        unfolding unf using False True
          high_result_step [OF nxt high_result_exit [OF B(4) B(7)]] by auto
    next
      case more: False
      have ys2: "length ys2 \<ge> 2" using more B(1,2,3) len3 ys0
        by (cases "b = []"; cases ys2; cases "tl ys2") auto
      note nxt2 = high_next_trans [OF nxt B(6)]
      have len: "hLength1 (highTake1 s3) = length xs2" using high_rep_lengths [OF B(5)] by simp
      have IH: "xs2 \<noteq> [] \<Longrightarrow>
          \<exists>s' mg' ex. highGallop compare tmp (length p) (mg - 1) (highTake1 s3) = Some (s', mg', ex) \<and>
          high_result compare p q tmp (x # b @ y # a @ m) xs2 ys2 s' ex"
        using less.hyps [OF _ B(5)] high_next_smaller [OF nxt2] ys2 by blast
      then show ?thesis
        unfolding unf len using False more high_result_step [OF nxt2]
          high_result_exit [OF B(5) nxt2] high_result_more [OF B(5) nxt2] ys2 by auto
    qed
  qed
qed

lemma highLoop_spec:
  assumes "high_rep p q tmp m xs ys s" "high_ok compare xs ys" "length ys \<ge> 2" "xs \<noteq> []"
  shows "\<exists>s' mg'. highLoop compare tmp (length p) mg s = Some (s', mg') \<and>
    high_result compare p q tmp m xs ys s' True"
  using assms
proof (induction "length xs + length ys" arbitrary: m xs ys s mg rule: less_induct)
  case less
  obtain s1 ex1 where 1: "highPairs compare tmp mg 0 0 s = Some (s1, ex1)"
      "high_result compare p q tmp m xs ys s1 ex1"
    using highPairs_spec [OF less.prems, of mg 0 0] by blast
  show ?case
  proof (cases ex1)
    case True
    then show ?thesis using 1 by (subst highLoop.simps) simp
  next
    case False
    then obtain m1 xs1 ys1 where r1: "high_rep p q tmp m1 xs1 ys1 s1"
        "high_next compare m xs ys m1 xs1 ys1" "length ys1 \<ge> 2" "xs1 \<noteq> []"
      using 1(2) by (auto simp: high_result_def)
    obtain s2 mg2 ex2 where 2: "highGallop compare tmp (length p) mg s1 = Some (s2, mg2, ex2)"
        "high_result compare p q tmp m1 xs1 ys1 s2 ex2"
      using highGallop_spec [OF r1(1) _ r1(3,4)] high_next_smaller [OF r1(2)] by blast
    show ?thesis
    proof (cases ex2)
      case True
      then show ?thesis using 1 2 False high_result_step [OF r1(2)] by (subst highLoop.simps) simp
    next
      case no2: False
      then obtain m2 xs2 ys2 where r2: "high_rep p q tmp m2 xs2 ys2 s2"
          "high_next compare m1 xs1 ys1 m2 xs2 ys2" "length ys2 \<ge> 2" "xs2 \<noteq> []"
        using 2(2) by (auto simp: high_result_def)
      note nxt = high_next_trans [OF r1(2) r2(2)]
      have "\<exists>s' mg'. highLoop compare tmp (length p) ((if mg2 < 0 then 0 else mg2) + 2) s2
          = Some (s', mg') \<and> high_result compare p q tmp m2 xs2 ys2 s' True"
        using less.hyps [OF _ r2(1) _ r2(3,4)] high_next_smaller [OF nxt] by blast
      then show ?thesis using 1 2 False no2 high_result_step [OF nxt] by (subst highLoop.simps) auto
    qed
  qed
qed

lemma highLast_spec:
  assumes "high_rep p q tmp m xs [y] s" "high_ok compare xs [y]"
  shows "highLast tmp s = p @ smerge compare xs [y] @ m @ q"
proof -
  have rep: "high_rep p q tmp (xs @ m) [] ([] @ [y]) (highMove1 (length xs) s)"
    using high_rep_move1 [of p q tmp m "[]" xs "[y]" s] assms(1) by simp
  have lt: "\<forall>x\<in>set xs. \<forall>z\<in>set [y]. lt z x" using assms(2) by (simp add: high_ok_def)
  have l: "hLength1 s = length xs" using high_rep_lengths [OF assms(1)] by simp
  have "hArray (highTake2 tmp (highMove1 (length xs) s)) = p @ y # xs @ m @ q"
    using high_rep_take2 [OF rep] by (auto simp: high_rep_def)
  moreover have "smerge compare xs [y] = y # xs" using smerge_suffix1 [OF lt, of "[]"] by simp
  ultimately show ?thesis using l by (simp add: highLast_def highTake2_def Let_def)
qed

lemma highCopyRest_spec:
  assumes "high_rep p q tmp m [] ys s"
  shows "highCopyRest tmp s = p @ ys @ m @ q"
proof -
  have rep: "high_rep p q tmp (ys @ m) [] [] (highCopy2 tmp (length ys) s)"
    using high_rep_copy2 [of p q tmp m "[]" "[]" ys s] assms by simp
  have "nat (hCursor2 s - int (length ys) + 1) = 0" using assms by (simp add: high_rep_def)
  then have "highCopyRest tmp s = hArray (highCopy2 tmp (length ys) s)"
    using high_rep_lengths [OF assms] by (simp add: highCopyRest_def highCopy2_def Let_def algebra_simps)
  then show ?thesis using rep by (auto simp: high_rep_def)
qed

lemma highFinish_spec:
  assumes "high_result compare p q tmp m xs ys s True"
  shows "highFinish tmp s = Inr (p @ smerge compare xs ys @ m @ q)"
proof -
  obtain m' xs' ys' where r: "high_rep p q tmp m' xs' ys' s" "high_next compare m xs ys m' xs' ys'"
      "length ys' = 1 \<or> xs' = []"
    using assms by (auto simp: high_result_def)
  have ok: "high_ok compare xs' ys'" and eq: "smerge compare xs ys @ m = smerge compare xs' ys' @ m'"
    using r(2) by (auto simp: high_next_def)
  have ne: "ys' \<noteq> []" using ok by (simp add: high_ok_def)
  have len: "hLength2 s = length ys'" using high_rep_lengths [OF r(1)] by simp
  have "highFinish tmp s = Inr (p @ smerge compare xs' ys' @ m' @ q)"
  proof (cases "length ys' = 1")
    case True
    then obtain y where "ys' = [y]" by (cases ys') auto
    then show ?thesis using highLast_spec [of p q tmp m' xs' y s] r(1) ok len
      by (simp add: highFinish_def)
  next
    case False
    then show ?thesis using highCopyRest_spec [of p q tmp m' ys' s] r ne len
      by (simp add: highFinish_def)
  qed
  then show ?thesis using eq by (metis append.assoc)
qed

lemma mergeHigh_spec:
  assumes arr: "tsArray ts = p @ (xs @ [x]) @ ys @ q"
    and ok: "high_ok compare (xs @ [x]) ys" and lst: "\<forall>y\<in>set ys. lt y x"
    and idx: "start1 = length p" "length1 = Suc (length xs)" "start2 = Suc (length p + length xs)"
      "length2 = length ys"
  shows "\<exists>tmp' mg'. mergeHigh compare ts start1 length1 start2 length2 =
    Some (Inr (ts\<lparr>tsArray := p @ smerge compare (xs @ [x]) ys @ q, tsTmp := tmp', tsMinGallop := mg'\<rparr>))"
proof -
  define tmp' where "tmp' = fillTmp 0 length2 (tsTmp ts) (tsArray ts) start2"
  have t: "take (length ys) tmp' = ys"
    unfolding tmp'_def using take_fillTmp_seg [of start2 "p @ xs @ [x]" length2 ys "tsTmp ts" q] arr idx
    by simp
  define s0 where "s0 = \<lparr>hArray = tsArray ts, hCursor1 = int start1 + int length1 - 1,
      hCursor2 = int length2 - 1, hDest = int start2 + int length2 - 1,
      hLength1 = length1, hLength2 = length2\<rparr>"
  define s where "s = highTake1 s0"
  have ne: "ys \<noteq> []" using ok by (simp add: high_ok_def)
  have "high_rep p q tmp' [] (xs @ [x]) ys s0"
    using arr idx t by (auto simp: high_rep_def s0_def)
  from high_rep_take1 [OF this ne] have rep: "high_rep p q tmp' [x] xs ys s" by (simp add: s_def)
  have eq: "smerge compare (xs @ [x]) ys = smerge compare xs ys @ [x]"
    using smerge_suffix1 [of "[x]" ys compare xs] lst by simp
  have ok': "high_ok compare xs ys" using high_ok_prefix1 [of xs "[x]" ys] ok by simp
  note len = high_rep_lengths [OF rep]
  have e: "tsArray (ts\<lparr>tsTmp := tmp'\<rparr>) = tsArray ts" "tsMinGallop (ts\<lparr>tsTmp := tmp'\<rparr>) = tsMinGallop ts"
    by simp_all
  have unf: "mergeHigh compare ts start1 length1 start2 length2 =
    (if xs = [] then Some (Inr (ts\<lparr>tsTmp := tmp', tsArray := highCopyRest tmp' s\<rparr>))
     else if length2 = 1 then Some (Inr (ts\<lparr>tsTmp := tmp', tsArray := highLast tmp' s\<rparr>))
     else do {
        r \<leftarrow> highLoop compare tmp' start1 (tsMinGallop ts) s;
        Some (case highFinish tmp' (fst r) of
                Inl e \<Rightarrow> Inl e
              | Inr arr \<Rightarrow> Inr (ts\<lparr>tsTmp := tmp', tsArray := arr,
                                   tsMinGallop := (if snd r < 1 then 1 else snd r)\<rparr>))
      })"
    unfolding mergeHigh_def Let_def tmp'_def [symmetric] e s0_def [symmetric] s_def [symmetric]
    by (simp add: len)
  consider "xs = []" | y where "xs \<noteq> []" "ys = [y]" | "xs \<noteq> []" "length ys \<ge> 2"
    using ne by (cases ys; cases "tl ys") auto
  then show ?thesis
  proof cases
    case 1
    then show ?thesis using highCopyRest_spec [of p q tmp' "[x]" ys s] rep unf idx len eq
      by (intro exI [of _ tmp'] exI [of _ "tsMinGallop ts"]) simp
  next
    case 2
    then show ?thesis using highLast_spec [of p q tmp' "[x]" xs y s] rep ok' unf idx len eq
      by (intro exI [of _ tmp'] exI [of _ "tsMinGallop ts"]) simp
  next
    case 3
    obtain s' mg' where "highLoop compare tmp' (length p) (tsMinGallop ts) s = Some (s', mg')"
        "high_result compare p q tmp' [x] xs ys s' True"
      using highLoop_spec [OF rep ok' 3(2,1)] by blast
    then show ?thesis using highFinish_spec [of p q tmp' "[x]" xs ys s'] 3 unf idx eq
      by (intro exI [of _ tmp'] exI [of _ "if mg' < 1 then 1 else mg'"]) simp
  qed
qed

end

end
