(* ===== verification/TimSort_Correct.thy ===== *)
theory TimSort_Correct
  imports TimSort_Low TimSort_High
begin

text \<open>
  The sort is a stable sort: for every consistent comparison function it returns, does not throw,
  and leaves in the sorted range a sorted permutation that keeps the order of equivalent elements.
\<close>

section \<open>Stable permutations\<close>

definition equiv_by :: "('a \<Rightarrow> 'a \<Rightarrow> int) \<Rightarrow> 'a \<Rightarrow> 'a \<Rightarrow> bool" where
  "equiv_by c a b \<longleftrightarrow> \<not> lt_by c a b \<and> \<not> lt_by c b a"

definition stable_perm :: "('a \<Rightarrow> 'a \<Rightarrow> int) \<Rightarrow> 'a list \<Rightarrow> 'a list \<Rightarrow> bool" where
  "stable_perm c xs ys \<longleftrightarrow>
     mset xs = mset ys \<and> (\<forall>x. filter (equiv_by c x) xs = filter (equiv_by c x) ys)"

lemma stable_perm_refl [simp]: "stable_perm c xs xs"
  by (simp add: stable_perm_def)

lemma stable_perm_trans: "stable_perm c xs ys \<Longrightarrow> stable_perm c ys zs \<Longrightarrow> stable_perm c xs zs"
  by (simp add: stable_perm_def)

lemma stable_perm_append:
  "stable_perm c xs xs' \<Longrightarrow> stable_perm c ys ys' \<Longrightarrow> stable_perm c (xs @ ys) (xs' @ ys')"
  by (simp add: stable_perm_def)

lemma stable_perm_length: "stable_perm c xs ys \<Longrightarrow> length xs = length ys"
  by (auto simp: stable_perm_def dest: mset_eq_length)

lemma stable_perm_set: "stable_perm c xs ys \<Longrightarrow> set xs = set ys"
  by (auto simp: stable_perm_def dest: mset_eq_setD)

context comparator
begin

lemma sorted_smerge:
  "sorted_by compare xs \<Longrightarrow> sorted_by compare ys \<Longrightarrow> sorted_by compare (smerge compare xs ys)"
proof (induction xs ys rule: smerge_induct [where c = compare])
  case (Cons x xs y ys)
  show ?case
  proof (cases "lt y x")
    case True
    then have "\<forall>z\<in>set xs. \<not> lt z y" using Cons.prems(1) lt_nlt_trans lt_asym by (metis sorted_by_simps(2))
    then show ?thesis using Cons True lt_asym by (auto simp: set_smerge)
  next
    case False
    then have "\<forall>z\<in>set ys. \<not> lt z x" using Cons.prems(2) nlt_trans by (metis sorted_by_simps(2))
    then show ?thesis using Cons False by (auto simp: set_smerge)
  qed
qed auto

lemma stable_perm_smerge:
  "sorted_by compare xs \<Longrightarrow> stable_perm compare (smerge compare xs ys) (xs @ ys)"
proof -
  assume s: "sorted_by compare xs"
  have "filter (equiv_by compare z) (smerge compare xs ys) = filter (equiv_by compare z) (xs @ ys)" for z
    using s
  proof (induction xs ys rule: smerge_induct [where c = compare])
    case (Cons x xs y ys)
    show ?case
    proof (cases "lt y x")
      case True
      have "filter (equiv_by compare z) (x # xs) = []" if "equiv_by compare z y"
      proof -
        have "lt z x" using that True nlt_lt_trans unfolding equiv_by_def by blast
        moreover have "\<forall>w\<in>set xs. \<not> lt w x" using Cons.prems by simp
        ultimately have "\<forall>w\<in>set (x # xs). lt z w" using lt_nlt_trans by (metis set_ConsD)
        then show ?thesis by (auto simp: filter_empty_conv equiv_by_def)
      qed
      then show ?thesis using Cons True by auto
    next
      case False
      then show ?thesis using Cons by auto
    qed
  qed auto
  then show ?thesis by (simp add: stable_perm_def mset_smerge)
qed

lemma transp_nlt: "transp (\<lambda>a b. \<not> lt b a)"
  by (rule transpI) (rule nlt_trans)

lemma transp_gt: "transp (\<lambda>a b. lt b a)"
  by (rule transpI) (metis lt_trans)

lemma sorted_by_stepI:
  "(\<And>i. Suc i < length xs \<Longrightarrow> \<not> lt (xs ! Suc i) (xs ! i)) \<Longrightarrow> sorted_by compare xs"
  by (simp add: sorted_by_def sorted_wrt_iff_nth_Suc_transp [OF transp_nlt])

lemma stable_perm_rev:
  assumes "sorted_wrt (\<lambda>a b. lt b a) xs"
  shows "stable_perm compare (rev xs) xs" "sorted_by compare (rev xs)"
proof -
  have "rev (filter (equiv_by compare z) xs) = filter (equiv_by compare z) xs" for z
  proof -
    have "sorted_wrt (\<lambda>a b. lt b a) (filter (equiv_by compare z) xs)"
      using assms by (rule sorted_wrt_filter)
    moreover have "\<not> lt b a" if "equiv_by compare z a" "equiv_by compare z b" for a b
      using that nlt_trans by (auto simp: equiv_by_def)
    ultimately have "length (filter (equiv_by compare z) xs) \<le> 1"
      by (cases "filter (equiv_by compare z) xs"; cases "tl (filter (equiv_by compare z) xs)")
        (auto simp: filter_eq_Cons_iff)
    then show ?thesis by (cases "filter (equiv_by compare z) xs") auto
  qed
  then show "stable_perm compare (rev xs) xs" by (simp add: stable_perm_def rev_filter [symmetric])
  show "sorted_by compare (rev xs)"
    unfolding sorted_by_def sorted_wrt_rev
    using assms by (rule sorted_wrt_mono_rel [rotated]) (auto dest: lt_asym)
qed

end

lemma runEnd_spec:
  "runHi \<le> hi \<Longrightarrow> runHi \<le> runEnd P array runHi hi \<and> runEnd P array runHi hi \<le> hi \<and>
   (\<forall>j. runHi \<le> j \<and> j < runEnd P array runHi hi \<longrightarrow> P (array ! j) (array ! (j - 1)))"
proof (induction P array runHi hi rule: runEnd.induct)
  case (1 P array runHi hi)
  show ?case
  proof (cases "runHi < hi \<and> P (array ! runHi) (array ! (runHi - 1))")
    case True
    then have "runEnd P array runHi hi = runEnd P array (runHi + 1) hi"
      by (subst runEnd.simps) simp
    then show ?thesis using 1 True by (metis Suc_eq_plus1 Suc_leD Suc_leI le_neq_implies_less)
  next
    case False
    then show ?thesis using 1 by (subst (1 2 3) runEnd.simps) auto
  qed
qed

lemma reverseRun_loop_seg:
  "length r > 0 \<Longrightarrow> reverseRun_loop (p @ r @ q) (length p) (length p + length r - 1) = p @ rev r @ q"
proof (induction "length r" arbitrary: p r q rule: less_induct)
  case less
  show ?case
  proof (cases "length r \<ge> 2")
    case False
    then obtain x where "r = [x]" using less.prems by (cases r; cases "tl r") auto
    then show ?thesis by (simp add: reverseRun_loop.simps)
  next
    case True
    then obtain x m y where r: "r = x # m @ [y]"
      by (cases r; cases "tl r" rule: rev_cases) auto
    have st: "reverseRun_loop (p @ r @ q) (length p) (length p + length r - 1)
        = reverseRun_loop ((p @ [y]) @ m @ ([x] @ q)) (length (p @ [y])) (length p + length m)"
    proof -
      have "(p @ (x # m @ [y]) @ q)[length p := y] = (p @ y # m) @ y # q" by simp
      moreover have "((p @ y # m) @ y # q)[length (p @ y # m) := x] = (p @ y # m) @ x # q"
        by (rule list_update_length)
      moreover have "(p @ (x # m @ [y]) @ q) ! (Suc (length p + length m)) = y"
        using nth_append_length [of "p @ x # m" y q] by simp
      ultimately show ?thesis unfolding r by (subst reverseRun_loop.simps) simp
    qed
    show ?thesis
    proof (cases "m = []")
      case True
      then show ?thesis using st r by (simp add: reverseRun_loop.simps)
    next
      case False
      then have "reverseRun_loop ((p @ [y]) @ m @ ([x] @ q)) (length (p @ [y]))
          (length (p @ [y]) + length m - 1) = (p @ [y]) @ rev m @ ([x] @ q)"
        using less.hyps [of m "p @ [y]" "[x] @ q"] r by simp
      then show ?thesis using st r by simp
    qed
  qed
qed

lemma reverseRun_seg:
  "r \<noteq> [] \<Longrightarrow> lo = length p \<Longrightarrow> hi = length p + length r \<Longrightarrow>
   reverseRun (p @ r @ q) lo hi = p @ rev r @ q"
  using reverseRun_loop_seg [of r p q] by (simp add: reverseRun_def)

lemma nth_moved_shift:
  "length b = n \<Longrightarrow> \<exists>z. shiftRight_loop (p @ b @ v # q) (length p) n = p @ z # b @ q"
proof (induction n arbitrary: b v q)
  case (Suc n)
  then obtain b' y where b: "b = b' @ [y]" "length b' = n" using length_Suc_snoc by metis
  have w: "(p @ b @ v # q)[length p + Suc n := y] = p @ b' @ y # (y # q)"
    using b list_update_length [of "p @ b' @ [y]" v q y] by simp
  have r: "(p @ b @ v # q) ! (length p + n) = y"
    using b nth_append_length [of "p @ b'" y "v # q"] by simp
  show ?case using Suc.IH [OF b(2), of y "y # q"] b(1) w r
    by (simp only: shiftRight_loop.simps append_assoc append_Cons append_Nil)
qed auto

lemma shiftRight_eq_loop: "shiftRight array left n = shiftRight_loop array left n"
  by (simp add: shiftRight_def numeral_eq_Suc Let_def)

lemma shiftRight_seg:
  "left = length p \<Longrightarrow> n = length b \<Longrightarrow>
   (shiftRight (p @ b @ v # q) left n)[left := w] = p @ w # b @ q"
  using nth_moved_shift [of b n p v q] by (auto simp: shiftRight_eq_loop)

context comparator
begin

lemma insertionPoint_spec:
  assumes "l \<le> r" "\<And>i j. l \<le> i \<Longrightarrow> i \<le> j \<Longrightarrow> j < r \<Longrightarrow> \<not> lt v (arr ! j) \<Longrightarrow> \<not> lt v (arr ! i)"
  shows "l \<le> insertionPoint arr v l r compare \<and> insertionPoint arr v l r compare \<le> r \<and>
    (\<forall>i. l \<le> i \<and> i < insertionPoint arr v l r compare \<longrightarrow> \<not> lt v (arr ! i)) \<and>
    (\<forall>i. insertionPoint arr v l r compare \<le> i \<and> i < r \<longrightarrow> lt v (arr ! i))"
  using assms
proof (induction "r - l" arbitrary: l r rule: less_induct)
  case less
  let ?f = "\<lambda>l r. insertionPoint arr v l r compare"
  show ?case
  proof (cases "l < r")
    case False
    then have "?f l r = l" by (simp add: insertionPoint.simps)
    then show ?thesis using False less.prems(1) by auto
  next
    case True
    define m where "m = (l + r) div 2"
    have m: "l \<le> m" "m < r" using True by (auto simp: m_def)
    have unf: "?f l r = (if lt v (arr ! m) then ?f l m else ?f (m + 1) r)"
      using True by (simp add: insertionPoint.simps [of arr v l r] m_def Let_def cmp_simps)
    show ?thesis
    proof (cases "lt v (arr ! m)")
      case lt: True
      have IH: "l \<le> ?f l m \<and> ?f l m \<le> m \<and> (\<forall>i. l \<le> i \<and> i < ?f l m \<longrightarrow> \<not> lt v (arr ! i)) \<and>
          (\<forall>i. ?f l m \<le> i \<and> i < m \<longrightarrow> lt v (arr ! i))"
        by (rule less.hyps) (use m less.prems in auto)
      have "lt v (arr ! i)" if "m \<le> i" "i < r" for i
        using less.prems(2) [of m i] that m lt by blast
      then show ?thesis using IH m lt unf by (metis le_less_trans less_imp_le_nat linorder_not_le)
    next
      case nlt: False
      have IH: "m + 1 \<le> ?f (m + 1) r \<and> ?f (m + 1) r \<le> r \<and>
          (\<forall>i. m + 1 \<le> i \<and> i < ?f (m + 1) r \<longrightarrow> \<not> lt v (arr ! i)) \<and>
          (\<forall>i. ?f (m + 1) r \<le> i \<and> i < r \<longrightarrow> lt v (arr ! i))"
        by (rule less.hyps) (use m less.prems in auto)
      have "\<not> lt v (arr ! i)" if "l \<le> i" "i < m + 1" for i
        using less.prems(2) [of i m] that m nlt by simp
      then show ?thesis using IH m nlt unf
        by (metis add_leD1 le_trans linorder_not_le)
    qed
  qed
qed

lemma insertionPoint_split:
  assumes "sorted_by compare r" "lo = length p" "start = length p + length r"
  obtains a b where "r = a @ b" "\<forall>x\<in>set a. \<not> lt v x" "\<forall>x\<in>set b. lt v x"
    "insertionPoint (p @ r @ q) v lo start compare = length p + length a"
proof -
  have nth: "(p @ r @ q) ! (length p + i) = r ! i" if "i < length r" for i
    using that by (simp add: nth_append)
  have mono: "\<not> lt v ((p @ r @ q) ! i)"
    if ij: "lo \<le> i" "i \<le> j" "j < start" and "\<not> lt v ((p @ r @ q) ! j)" for i j
  proof -
    have "\<not> lt (r ! (j - lo)) (r ! (i - lo))" using sorted_by_nth [OF assms(1)] ij assms by simp
    then show ?thesis using that assms nth [of "i - lo"] nth [of "j - lo"] nlt_trans by simp
  qed
  define k where "k = insertionPoint (p @ r @ q) v lo start compare - lo"
  have spec: "lo \<le> lo + k" "lo + k \<le> start" "\<And>i. lo \<le> i \<Longrightarrow> i < lo + k \<Longrightarrow> \<not> lt v ((p @ r @ q) ! i)"
      "\<And>i. lo + k \<le> i \<Longrightarrow> i < start \<Longrightarrow> lt v ((p @ r @ q) ! i)"
      "insertionPoint (p @ r @ q) v lo start compare = lo + k"
    using insertionPoint_spec [of lo start v "p @ r @ q"] mono assms unfolding k_def by auto
  have k: "k \<le> length r" using spec(2) assms by simp
  have "\<forall>x\<in>set (take k r). \<not> lt v x"
    using spec(3) [of "lo + _"] nth k assms by (fastforce simp: set_conv_nth)
  moreover have "\<forall>x\<in>set (drop k r). lt v x"
    using spec(4) [of "lo + (k + _)"] nth k assms by (fastforce simp: set_conv_nth)
  ultimately show ?thesis using that [of "take k r" "drop k r"] spec(5) k assms by simp
qed

lemma binaryInsertionSort_loop_spec:
  assumes "sorted_by compare r" "lo = length p" "start = length p + length r"
    "hi = length p + length r + length xs"
  shows "\<exists>r'. binaryInsertionSort_loop (p @ r @ xs @ q) lo hi start compare = p @ r' @ q \<and>
    sorted_by compare r' \<and> stable_perm compare r' (r @ xs)"
  using assms
proof (induction xs arbitrary: r start)
  case Nil
  then show ?case by (intro exI [of _ r]) (simp add: binaryInsertionSort_loop.simps)
next
  case (Cons v xs)
  let ?arr = "p @ r @ (v # xs) @ q"
  obtain a b where ab: "r = a @ b" "\<forall>x\<in>set a. \<not> lt v x" "\<forall>x\<in>set b. lt v x"
      "insertionPoint ?arr v lo start compare = length p + length a"
    using insertionPoint_split [OF Cons.prems(1-3), of v "(v # xs) @ q"] by metis
  have rd: "?arr ! start = v" using Cons.prems by (simp add: nth_append)
  have sh: "(shiftRight ?arr (length (p @ a)) (length b))[length (p @ a) := v]
      = (p @ a) @ v # b @ (xs @ q)"
    using shiftRight_seg [of "length (p @ a)" "p @ a" "length b" b v "xs @ q" v] ab(1) by simp
  have step: "binaryInsertionSort_loop ?arr lo hi start compare
      = binaryInsertionSort_loop (p @ (a @ v # b) @ xs @ q) lo hi (start + 1) compare"
    using Cons.prems ab sh rd
    by (subst binaryInsertionSort_loop.simps) (simp add: Let_def del: append.simps append_assoc, simp)
  have m: "smerge compare r [v] = a @ v # b"
    using smerge_prefix1 [of a "[v]" compare b] smerge_prefix2 [of "[v]" b compare "[]"] ab by simp
  have so: "sorted_by compare (a @ v # b)" "stable_perm compare (a @ v # b) (r @ [v])"
    using sorted_smerge [OF Cons.prems(1), of "[v]"] stable_perm_smerge [OF Cons.prems(1), of "[v]"] m
    by simp_all
  obtain r' where r': "binaryInsertionSort_loop (p @ (a @ v # b) @ xs @ q) lo hi (start + 1) compare
      = p @ r' @ q" "sorted_by compare r'" "stable_perm compare r' ((a @ v # b) @ xs)"
    using Cons.IH [OF so(1) Cons.prems(2), of "start + 1"] Cons.prems ab(1) by auto
  have "stable_perm compare r' (r @ v # xs)"
    using stable_perm_trans [OF r'(3) stable_perm_append [OF so(2) stable_perm_refl]] by simp
  then show ?case using step r' by auto
qed

lemma binaryInsertionSort_spec:
  assumes "sorted_by compare r" "r \<noteq> []" "lo = length p" "start = length p + length r"
    "hi = length p + length r + length xs"
  shows "\<exists>r'. binaryInsertionSort (p @ r @ xs @ q) lo hi start compare = p @ r' @ q \<and>
    sorted_by compare r' \<and> stable_perm compare r' (r @ xs)"
  using binaryInsertionSort_loop_spec [OF assms(1,3-5), of q] assms
  by (simp add: binaryInsertionSort_def)

end

context comparator
begin

lemma makeAscendingRun_spec:
  assumes "R \<noteq> []" "lo = length p" "hi = length p + length R"
  shows "\<exists>r. makeAscendingRun (p @ R @ q) lo hi compare =
      (p @ r @ drop (length r) R @ q, length r) \<and>
    r \<noteq> [] \<and> length r \<le> length R \<and> sorted_by compare r \<and> stable_perm compare r (take (length r) R)"
proof (cases "length R = 1")
  case True
  then obtain x where "R = [x]" by (cases R) auto
  then show ?thesis using assms by (intro exI [of _ "[x]"]) (simp add: makeAscendingRun_def)
next
  case False
  let ?arr = "p @ R @ q"
  have len: "length R \<ge> 2" using False assms(1) by (cases R) (auto simp: Suc_le_eq)
  have nth: "?arr ! (lo + i) = R ! i" if "i < length R" for i
    using that assms by (simp add: nth_append)
  have split: "?arr = p @ take n R @ (drop n R @ q)" for n by simp
  show ?thesis
  proof (cases "lt (R ! 1) (R ! 0)")
    case True
    define e where "e = runEnd (\<lambda>x y. compare x y < 0) ?arr (lo + 2) hi"
    have e: "lo + 2 \<le> e" "e \<le> hi" "\<And>j. lo + 2 \<le> j \<Longrightarrow> j < e \<Longrightarrow> lt (?arr ! j) (?arr ! (j - 1))"
      using runEnd_spec [of "lo + 2" hi "\<lambda>x y. compare x y < 0" ?arr] len assms
      by (auto simp: e_def cmp_simps)
    define r where "r = take (e - lo) R"
    have lr: "length r = e - lo" using e assms by (simp add: r_def)
    have desc: "sorted_wrt (\<lambda>a b. lt b a) r"
      unfolding sorted_wrt_iff_nth_Suc_transp [OF transp_gt]
    proof (intro allI impI)
      fix i assume i: "Suc i < length r"
      then have "lt (R ! Suc i) (R ! i)"
        using True e(3) [of "lo + Suc i"] nth [of "Suc i"] nth [of i] lr e(2) assms
        by (cases i) auto
      then show "lt (r ! Suc i) (r ! i)" using i by (simp add: r_def)
    qed
    have rr: "reverseRun (p @ r @ (drop (length r) R @ q)) lo e = p @ rev r @ (drop (length r) R @ q)"
      by (rule reverseRun_seg) (use lr e assms in auto)
    have arr: "?arr = p @ r @ (drop (length r) R @ q)" using split [of "e - lo"] lr by (simp add: r_def)
    have "makeAscendingRun ?arr lo hi compare = (reverseRun ?arr lo e, e - lo)"
      using True len assms nth [of 0] nth [of 1]
      by (simp add: makeAscendingRun_def e_def Let_def cmp_simps)
    then have "makeAscendingRun ?arr lo hi compare = (p @ rev r @ drop (length r) R @ q, length r)"
      using rr [folded arr] lr by simp
    then show ?thesis using stable_perm_rev [OF desc] lr e assms
      by (intro exI [of _ "rev r"]) (auto simp: r_def)
  next
    case False
    define e where "e = runEnd (\<lambda>x y. compare x y \<ge> 0) ?arr (lo + 2) hi"
    have e: "lo + 2 \<le> e" "e \<le> hi" "\<And>j. lo + 2 \<le> j \<Longrightarrow> j < e \<Longrightarrow> \<not> lt (?arr ! j) (?arr ! (j - 1))"
      using runEnd_spec [of "lo + 2" hi "\<lambda>x y. compare x y \<ge> 0" ?arr] len assms
      by (auto simp: e_def cmp_simps)
    define r where "r = take (e - lo) R"
    have lr: "length r = e - lo" using e assms by (simp add: r_def)
    have "sorted_by compare r"
    proof (rule sorted_by_stepI)
      fix i assume i: "Suc i < length r"
      then have "\<not> lt (R ! Suc i) (R ! i)"
        using False e(3) [of "lo + Suc i"] nth [of "Suc i"] nth [of i] lr e(2) assms
        by (cases i) auto
      then show "\<not> lt (r ! Suc i) (r ! i)" using i by (simp add: r_def)
    qed
    moreover have "makeAscendingRun ?arr lo hi compare = (?arr, e - lo)"
      using False len assms nth [of 0] nth [of 1]
      by (simp add: makeAscendingRun_def e_def Let_def cmp_simps)
    ultimately show ?thesis using lr e assms
      by (intro exI [of _ r]) (auto simp: r_def)
  qed
qed

lemma nextRun_spec:
  assumes "R \<noteq> []" "lo = length p" "hi = length p + length R" "remaining = length R" "minRun > 0"
  shows "\<exists>r. nextRun (p @ R @ q) lo hi remaining minRun compare =
      (p @ r @ drop (length r) R @ q, length r) \<and>
    r \<noteq> [] \<and> length r \<le> length R \<and> sorted_by compare r \<and> stable_perm compare r (take (length r) R)"
proof -
  obtain r where r: "makeAscendingRun (p @ R @ q) lo hi compare =
      (p @ r @ drop (length r) R @ q, length r)" "r \<noteq> []" "length r \<le> length R"
      "sorted_by compare r" "stable_perm compare r (take (length r) R)"
    using makeAscendingRun_spec [OF assms(1-3)] by blast
  show ?thesis
  proof (cases "length r < minRun")
    case False
    then show ?thesis using r by (intro exI [of _ r]) (simp add: nextRun_def)
  next
    case True
    define f where "f = (if remaining > minRun then minRun else remaining)"
    have f: "length r \<le> f" "f \<le> length R" using True r(3) assms by (auto simp: f_def)
    define xs where "xs = drop (length r) (take f R)"
    have spl: "drop (length r) R = xs @ drop f R"
      unfolding xs_def using f append_take_drop_id [of "f - length r" "drop (length r) R"]
      by (simp add: drop_take)
    obtain r' where r': "binaryInsertionSort (p @ r @ xs @ (drop f R @ q)) lo (lo + f) (lo + length r)
        compare = p @ r' @ drop f R @ q" "sorted_by compare r'" "stable_perm compare r' (r @ xs)"
      using binaryInsertionSort_spec [OF r(4,2) assms(2), of "lo + length r" "lo + f" xs "drop f R @ q"]
        f assms by (auto simp: xs_def)
    have lr': "length r' = f" using stable_perm_length [OF r'(3)] f by (simp add: xs_def)
    have "stable_perm compare (r @ xs) (take f R)"
      using stable_perm_append [OF r(5) stable_perm_refl, of xs] f
      by (simp add: xs_def) (metis append_take_drop_id min.absorb1 take_take)
    then have "stable_perm compare r' (take f R)" using r'(3) stable_perm_trans by blast
    moreover have "nextRun (p @ R @ q) lo hi remaining minRun compare
        = (p @ r' @ drop f R @ q, f)"
      using r(1) r'(1) True spl by (simp add: nextRun_def f_def [symmetric])
    ultimately show ?thesis using lr' r'(2) f r(2) by (intro exI [of _ r']) auto
  qed
qed

end

end
