(* ===== verification/TimSort_Stack.thy ===== *)
theory TimSort_Stack
  imports TimSort_Correct
begin

text \<open>The run stack and the driver: the sort is a stable sort of the range it is given.\<close>

section \<open>The run stack\<close>

fun starts :: "nat \<Rightarrow> 'a list list \<Rightarrow> nat list" where
  "starts b [] = []"
| "starts b (r # rs) = b # starts (b + length r) rs"

lemma starts_append [simp]: "starts b (xs @ ys) = starts b xs @ starts (b + length (concat xs)) ys"
  by (induction xs arbitrary: b) (auto simp: add.assoc)

lemma length_starts [simp]: "length (starts b rs) = length rs"
  by (induction rs arbitrary: b) auto

text \<open>
  The sorter's arrays represent a stack \<open>rs\<close> of non-empty sorted runs that lie side by side
  after the prefix \<open>p\<close>; entries beyond the stack size are left-overs.
\<close>

definition stack_rep ::
  "('a \<Rightarrow> 'a \<Rightarrow> int) \<Rightarrow> 'a list \<Rightarrow> 'a list list \<Rightarrow> 'a list \<Rightarrow> 'a tim_sort \<Rightarrow> bool" where
  "stack_rep c p rs q ts \<longleftrightarrow>
     tsArray ts = p @ concat rs @ q \<and> tsStackSize ts = length rs \<and>
     (\<exists>junk. tsRunStart ts = starts (length p) rs @ junk) \<and>
     (\<exists>junk. tsRunLength ts = map length rs @ junk) \<and>
     (\<forall>r\<in>set rs. r \<noteq> [] \<and> sorted_by c r)"

lemma js_set_append: "i = length xs \<Longrightarrow> \<exists>junk'. js_set (xs @ junk) i v = (xs @ [v]) @ junk'"
  by (cases junk) (auto simp: js_set_def)

lemma stack_rep_push:
  assumes "stack_rep c p rs (r @ q) ts" "r \<noteq> []" "sorted_by c r" "lo = length p + length (concat rs)"
  shows "stack_rep c p (rs @ [r]) q (pushRun ts lo (length r))"
proof -
  obtain j1 j2 where j: "tsRunStart ts = starts (length p) rs @ j1" "tsRunLength ts = map length rs @ j2"
      "tsStackSize ts = length rs"
    using assms(1) by (auto simp: stack_rep_def)
  obtain j1' where 1: "js_set (tsRunStart ts) (length rs) lo = (starts (length p) rs @ [lo]) @ j1'"
    using js_set_append [of "length rs" "starts (length p) rs" j1 lo] j by auto
  obtain j2' where 2: "js_set (tsRunLength ts) (length rs) (length r)
      = (map length rs @ [length r]) @ j2'"
    using js_set_append [of "length rs" "map length rs" j2 "length r"] j by auto
  show ?thesis using assms 1 2 j by (auto simp: stack_rep_def pushRun_def)
qed

context comparator
begin

text \<open>Merging two adjacent runs, with the trimming of elements already in place.\<close>

lemma merge_trimmed:
  assumes "sorted_by compare (a @ b)" "sorted_by compare (c' @ d)" "b \<noteq> []" "c' @ d \<noteq> []"
    "\<forall>x\<in>set a. \<not> lt (hd (c' @ d)) x" "\<forall>y\<in>set d. \<not> lt y (last b)"
  shows "smerge compare (a @ b) (c' @ d) = a @ smerge compare b c' @ d"
proof -
  have "\<forall>y\<in>set (c' @ d). \<not> lt y (hd (c' @ d))"
    using assms(2,4) by (cases "c' @ d") auto
  then have 1: "\<forall>x\<in>set a. \<forall>y\<in>set (c' @ d). \<not> lt y x" using assms(5) nlt_trans by blast
  have "\<forall>x\<in>set b. \<not> lt (last b) x"
    using assms(1,3) by (cases b rule: rev_cases) (auto simp: sorted_by_append)
  then have 2: "\<forall>y\<in>set d. \<forall>x\<in>set b. \<not> lt y x" using assms(6) nlt_trans by blast
  show ?thesis using smerge_prefix1 [OF 1, of b] smerge_suffix2 [OF 2, of c'] by simp
qed

lemma mergeAt_array:
  fixes ts :: "'a tim_sort"
  assumes arr: "tsArray ts = p @ xs @ ys @ q"
    and so: "sorted_by compare xs" "sorted_by compare ys" "xs \<noteq> []" "ys \<noteq> []"
    and i: "tsRunStart ts ! i = length p" "tsRunLength ts ! i = length xs"
      "tsRunStart ts ! (i + 1) = length p + length xs" "tsRunLength ts ! (i + 1) = length ys"
  shows "\<exists>tmp' mg'. mergeAt compare ts i = Some (Inr ((mergeAt_collapse ts i)\<lparr>
      tsArray := p @ smerge compare xs ys @ q, tsTmp := tmp', tsMinGallop := mg'\<rparr>))"
proof -
  define ts' where "ts' = mergeAt_collapse ts i"
  have arr': "tsArray ts' = p @ xs @ ys @ q"
    using arr by (simp add: ts'_def mergeAt_collapse_def Let_def)
  define y0 where "y0 = hd ys"
  have y0: "tsArray ts' ! (length p + length xs) = y0"
    using so(4) by (cases ys) (auto simp: arr' y0_def nth_append)
  obtain a b where ab: "xs = a @ b" "\<forall>x\<in>set a. \<not> lt y0 x" "\<forall>x\<in>set b. lt y0 x"
      "gallopRight y0 (p @ xs @ ys @ q) (length p) (length xs) 0 compare = length a"
    using gallopRight_split [OF so(1) _ refl refl, of 0 y0 p "ys @ q"] so(3) by auto
  define l2 where "l2 = gallopLeft (tsArray ts' ! (length p + length a + (length xs - length a) - 1))
      (tsArray ts') (length p + length xs) (length ys) (length ys - 1) compare"
  have unf: "mergeAt compare ts i =
    (if b = [] then Some (Inr ts')
     else if l2 = 0 then Some (Inr ts')
     else if length b \<le> l2
       then mergeLow compare ts' (length p + length a) (length b) (length p + length xs) l2
       else mergeHigh compare ts' (length p + length a) (length b) (length p + length xs) l2)"
  proof -
    have g: "gallopRight y0 (tsArray ts') (length p) (length xs) 0 compare = length a"
      using ab(4) arr' by simp
    have b: "length xs - length a = length b" using ab(1) by simp
    show ?thesis
      unfolding mergeAt_def i Let_def ts'_def [symmetric] y0 g l2_def [symmetric] by (simp add: b)
  qed
  have res: "\<exists>tmp' mg'. r = Some (Inr (ts'\<lparr>tsArray := p @ smerge compare xs ys @ q, tsTmp := tmp', tsMinGallop := mg'\<rparr>))
      \<Longrightarrow> ?thesis" if "mergeAt compare ts i = r" for r
    using that by (simp add: ts'_def)
  show ?thesis
  proof (cases "b = []")
    case True
    have "\<forall>y\<in>set ys. \<not> lt y y0" using so(2) by (cases ys) (auto simp: y0_def)
    then have "\<forall>x\<in>set xs. \<forall>y\<in>set ys. \<not> lt y x" using ab(1,2) True nlt_trans by auto
    then have "smerge compare xs ys = xs @ ys" using smerge_prefix1 [of xs ys compare "[]"] by simp
    then show ?thesis using unf True arr'
      by (intro res [OF unf] exI [of _ "tsTmp ts'"] exI [of _ "tsMinGallop ts'"]) simp
  next
    case b: False
    define x1 where "x1 = last b"
    have "tsArray ts' ! (length p + length a + (length xs - length a) - 1) = x1"
      using b by (cases b rule: rev_cases) (auto simp: arr' ab(1) x1_def nth_append)
    then have l2': "l2 = gallopLeft x1 ((p @ xs) @ ys @ q) (length (p @ xs)) (length ys) (length ys - 1) compare"
      by (simp add: l2_def arr')
    obtain c' d where cd: "ys = c' @ d" "\<forall>y\<in>set c'. lt y x1" "\<forall>y\<in>set d. \<not> lt y x1"
        "l2 = length c'"
      using gallopLeft_split [OF so(2) _ refl refl, of "length ys - 1" x1 "p @ xs" q] so(4) l2' by auto
    have m: "smerge compare xs ys = a @ smerge compare b c' @ d"
      unfolding ab(1) cd(1)
      by (rule merge_trimmed) (use so ab(1,2) cd b in \<open>auto simp: y0_def x1_def\<close>)
    show ?thesis
    proof (cases "c' = []")
      case True
      then have "smerge compare xs ys = xs @ ys" using m ab(1) cd(1) by simp
      then show ?thesis using unf True cd(4) arr'
        by (intro res [OF unf] exI [of _ "tsTmp ts'"] exI [of _ "tsMinGallop ts'"]) simp
    next
      case c: False
      have s2: "sorted_by compare b" "sorted_by compare c'"
        using so ab(1) cd(1) by (auto simp: sorted_by_append)
      have hd: "hd c' = y0" using c cd(1) by (cases c') (auto simp: y0_def)
      have arr2: "tsArray ts' = (p @ a) @ b @ c' @ (d @ q)" using arr' ab(1) cd(1) by simp
      show ?thesis
      proof (cases "length b \<le> l2")
        case True
        obtain y cs where y: "c' = y # cs" using c by (cases c') auto
        have "\<exists>tmp' mg'. mergeLow compare ts' (length p + length a) (length b) (length p + length xs) l2 =
            Some (Inr (ts'\<lparr>tsArray := (p @ a) @ smerge compare b (y # cs) @ (d @ q), tsTmp := tmp', tsMinGallop := mg'\<rparr>))"
          by (rule mergeLow_spec)
            (use arr2 y s2 b cd ab(1,3) hd in \<open>auto simp: low_ok_def x1_def\<close>)
        then show ?thesis using True unf b c cd(4) m y by (intro res [OF unf]) auto
      next
        case False
        obtain bs x where x: "b = bs @ [x]" using b by (cases b rule: rev_cases) auto
        have "\<exists>tmp' mg'. mergeHigh compare ts' (length p + length a) (length b) (length p + length xs) l2 =
            Some (Inr (ts'\<lparr>tsArray := (p @ a) @ smerge compare (bs @ [x]) c' @ (d @ q), tsTmp := tmp', tsMinGallop := mg'\<rparr>))"
          by (rule mergeHigh_spec)
            (use arr2 x s2 c cd ab(1,3) hd in \<open>auto simp: high_ok_def x1_def\<close>)
        then show ?thesis using False unf b c cd(4) m x by (intro res [OF unf]) auto
      qed
    qed
  qed
qed

end

context comparator
begin

lemma mergeAt_stack:
  assumes rep: "stack_rep compare p (rs @ r1 # r2 # tl') q ts" and tl: "length tl' \<le> 1"
  shows "\<exists>ts'. mergeAt compare ts (length rs) = Some (Inr ts') \<and>
    stack_rep compare p (rs @ smerge compare r1 r2 # tl') q ts'"
proof -
  let ?b = "length p + length (concat rs)"
  obtain j1 j2 where j: "tsRunStart ts = starts (length p) (rs @ r1 # r2 # tl') @ j1"
      "tsRunLength ts = map length (rs @ r1 # r2 # tl') @ j2"
      "tsStackSize ts = length rs + 2 + length tl'"
    using rep by (auto simp: stack_rep_def)
  have ne: "r1 \<noteq> []" "r2 \<noteq> []" "sorted_by compare r1" "sorted_by compare r2"
    using rep by (auto simp: stack_rep_def)
  have arr: "tsArray ts = (p @ concat rs) @ r1 @ r2 @ (concat tl' @ q)"
    using rep by (simp add: stack_rep_def)
  have i: "tsRunStart ts ! length rs = length (p @ concat rs)"
      "tsRunLength ts ! length rs = length r1"
      "tsRunStart ts ! (length rs + 1) = length (p @ concat rs) + length r1"
      "tsRunLength ts ! (length rs + 1) = length r2"
    by (simp_all add: j nth_append)
  obtain tmp' mg' where m: "mergeAt compare ts (length rs) =
      Some (Inr ((mergeAt_collapse ts (length rs))\<lparr>
        tsArray := (p @ concat rs) @ smerge compare r1 r2 @ (concat tl' @ q),
        tsTmp := tmp', tsMinGallop := mg'\<rparr>))"
    using mergeAt_array [OF arr ne(3,4,1,2) i] by blast
  have c: "\<exists>j1' j2'. mergeAt_collapse ts (length rs) =
      ts\<lparr>tsRunStart := starts (length p) (rs @ smerge compare r1 r2 # tl') @ j1',
        tsRunLength := map length (rs @ smerge compare r1 r2 # tl') @ j2',
        tsStackSize := length rs + 1 + length tl'\<rparr>"
  proof (cases tl')
    case Nil
    then show ?thesis
      by (intro exI [of _ "(?b + length r1) # j1"] exI [of _ "length r2 # j2"])
        (simp add: mergeAt_collapse_def j nth_append list_update_append Let_def)
  next
    case (Cons r3 t)
    then have "t = []" using tl by simp
    then show ?thesis using Cons
      by (intro exI [of _ "(?b + length r1 + length r2) # j1"] exI [of _ "length r3 # j2"])
        (simp add: mergeAt_collapse_def j nth_append list_update_append Let_def add.assoc)
  qed
  have so: "smerge compare r1 r2 \<noteq> []" "sorted_by compare (smerge compare r1 r2)"
    using ne sorted_smerge by (auto dest: arg_cong [of _ _ length])
  show ?thesis using m c so rep unfolding stack_rep_def
    by (auto simp del: starts_append)
qed

text \<open>Both choices of the merge position are one of the two topmost pairs.\<close>

lemma pick_cases:
  assumes "length rs \<ge> 2" "n = length rs - 2 \<or> (n = length rs - 3 \<and> length rs \<ge> 3)"
  obtains as r1 r2 tl' where "rs = as @ r1 # r2 # tl'" "length as = n" "length tl' \<le> 1"
proof -
  have n: "Suc n < length rs" using assms by auto
  then have "rs = take n rs @ rs ! n # rs ! Suc n # drop (Suc (Suc n)) rs"
    by (metis Cons_nth_drop_Suc Suc_lessD append_take_drop_id)
  moreover have "length (take n rs) = n" "length (drop (Suc (Suc n)) rs) \<le> 1"
    using n assms by auto
  ultimately show ?thesis using that by blast
qed

lemma mergeRuns_pick_range:
  "mergeRuns_pick rl sz = Some n \<Longrightarrow> sz \<ge> 2 \<Longrightarrow> n = sz - 2 \<or> (n = sz - 3 \<and> sz \<ge> 3)"
  by (auto simp: mergeRuns_pick_def Let_def split: if_splits)

lemma forceMergeRuns_pick_range:
  "sz \<ge> 2 \<Longrightarrow> forceMergeRuns_pick rl sz = sz - 2 \<or>
     (forceMergeRuns_pick rl sz = sz - 3 \<and> sz \<ge> 3)"
  by (auto simp: forceMergeRuns_pick_def Let_def)

lemma merge_step:
  assumes rep: "stack_rep compare p rs q ts" and "length rs \<ge> 2"
    and n: "n = length rs - 2 \<or> (n = length rs - 3 \<and> length rs \<ge> 3)"
  shows "\<exists>ts' rs'. mergeAt compare ts n = Some (Inr ts') \<and> stack_rep compare p rs' q ts' \<and>
    length rs = Suc (length rs') \<and> stable_perm compare (concat rs') (concat rs)"
proof -
  obtain as r1 r2 tl' where rs: "rs = as @ r1 # r2 # tl'" "length as = n" "length tl' \<le> 1"
    using pick_cases [OF assms(2) n] by blast
  obtain ts' where ts': "mergeAt compare ts n = Some (Inr ts')"
      "stack_rep compare p (as @ smerge compare r1 r2 # tl') q ts'"
    using mergeAt_stack [OF _ rs(3)] rep rs by metis
  have "sorted_by compare r1" using rep rs(1) by (auto simp: stack_rep_def)
  then have "stable_perm compare (smerge compare r1 r2) (r1 @ r2)" by (rule stable_perm_smerge)
  then have "stable_perm compare (concat (as @ smerge compare r1 r2 # tl')) (concat rs)"
    using stable_perm_append [OF stable_perm_refl stable_perm_append [OF _ stable_perm_refl]] rs(1)
    by fastforce
  then show ?thesis using ts' rs(1)
    by (intro exI [of _ ts'] exI [of _ "as @ smerge compare r1 r2 # tl'"]) auto
qed

lemma mergeRuns_spec:
  assumes "stack_rep compare p rs q ts" "rs \<noteq> []"
  shows "\<exists>ts' rs'. mergeRuns compare ts = Some (Inr ts') \<and> stack_rep compare p rs' q ts' \<and>
    rs' \<noteq> [] \<and> stable_perm compare (concat rs') (concat rs)"
  using assms
proof (induction "length rs" arbitrary: rs ts rule: less_induct)
  case less
  have sz: "tsStackSize ts = length rs" using less.prems(1) by (simp add: stack_rep_def)
  show ?case
  proof (cases "length rs > 1 \<and> mergeRuns_pick (tsRunLength ts) (length rs) \<noteq> None")
    case False
    then show ?thesis using sz less.prems
      by (intro exI [of _ ts] exI [of _ rs]) (subst mergeRuns.simps, auto)
  next
    case True
    then obtain n where n: "mergeRuns_pick (tsRunLength ts) (length rs) = Some n" by auto
    obtain ts1 rs1 where 1: "mergeAt compare ts n = Some (Inr ts1)" "stack_rep compare p rs1 q ts1"
        "length rs = Suc (length rs1)" "stable_perm compare (concat rs1) (concat rs)"
      using merge_step [OF less.prems(1), of n] mergeRuns_pick_range [OF n] True by auto
    obtain ts2 rs2 where 2: "mergeRuns compare ts1 = Some (Inr ts2)" "stack_rep compare p rs2 q ts2"
        "rs2 \<noteq> []" "stable_perm compare (concat rs2) (concat rs1)"
      using less.hyps [OF _ 1(2)] 1(3) True by fastforce
    have "mergeRuns compare ts = mergeRuns compare ts1"
      using True sz n 1(1) by (subst mergeRuns.simps) simp
    then show ?thesis using 2 stable_perm_trans [OF 2(4) 1(4)] by auto
  qed
qed

lemma forceMergeRuns_spec:
  assumes "stack_rep compare p rs q ts" "rs \<noteq> []"
  shows "\<exists>ts' r. forceMergeRuns compare ts = Some (Inr ts') \<and> stack_rep compare p [r] q ts' \<and>
    stable_perm compare r (concat rs)"
  using assms
proof (induction "length rs" arbitrary: rs ts rule: less_induct)
  case less
  have sz: "tsStackSize ts = length rs" using less.prems(1) by (simp add: stack_rep_def)
  show ?case
  proof (cases "length rs > 1")
    case False
    then obtain r where "rs = [r]" using less.prems(2) by (cases rs) auto
    then show ?thesis using sz less.prems
      by (intro exI [of _ ts] exI [of _ r]) (subst forceMergeRuns.simps, auto)
  next
    case True
    let ?n = "forceMergeRuns_pick (tsRunLength ts) (length rs)"
    obtain ts1 rs1 where 1: "mergeAt compare ts ?n = Some (Inr ts1)" "stack_rep compare p rs1 q ts1"
        "length rs = Suc (length rs1)" "stable_perm compare (concat rs1) (concat rs)"
      using merge_step [OF less.prems(1), of ?n] forceMergeRuns_pick_range [of "length rs"] True by auto
    obtain ts2 r where 2: "forceMergeRuns compare ts1 = Some (Inr ts2)" "stack_rep compare p [r] q ts2"
        "stable_perm compare r (concat rs1)"
      using less.hyps [OF _ 1(2)] 1(3) True by fastforce
    have "forceMergeRuns compare ts = forceMergeRuns compare ts1"
      using True sz 1(1) by (subst forceMergeRuns.simps) simp
    then show ?thesis using 2 stable_perm_trans [OF 2(3) 1(4)] by auto
  qed
qed

lemma sort_loop_spec:
  assumes "stack_rep compare p rs (R @ q) ts" "R \<noteq> []" "lo = length p + length (concat rs)"
    "remaining = length R" "hi = lo + length R" "minRun > 0"
  shows "\<exists>ts' rs'. sort_loop compare minRun hi lo remaining ts = Some (Inr ts') \<and>
    stack_rep compare p rs' q ts' \<and> rs' \<noteq> [] \<and> stable_perm compare (concat rs') (concat rs @ R)"
  using assms
proof (induction "length R" arbitrary: rs R ts lo remaining rule: less_induct)
  case less
  have arr: "tsArray ts = (p @ concat rs) @ R @ q" using less.prems(1) by (simp add: stack_rep_def)
  obtain r where r: "nextRun (tsArray ts) lo hi remaining minRun compare =
      ((p @ concat rs) @ r @ drop (length r) R @ q, length r)" "r \<noteq> []" "length r \<le> length R"
      "sorted_by compare r" "stable_perm compare r (take (length r) R)"
    unfolding arr
    using nextRun_spec [OF less.prems(2), of lo "p @ concat rs" hi remaining minRun q] less.prems by auto
  let ?R = "drop (length r) R"
  let ?ts = "ts\<lparr>tsArray := (p @ concat rs) @ r @ ?R @ q\<rparr>"
  have "stack_rep compare p rs (r @ ?R @ q) ?ts" using less.prems(1) by (auto simp: stack_rep_def)
  then have push: "stack_rep compare p (rs @ [r]) (?R @ q) (pushRun ?ts lo (length r))"
    by (rule stack_rep_push) (use r less.prems in auto)
  obtain ts1 rs1 where 1: "mergeRuns compare (pushRun ?ts lo (length r)) = Some (Inr ts1)"
      "stack_rep compare p rs1 (?R @ q) ts1" "rs1 \<noteq> []" "stable_perm compare (concat rs1) (concat (rs @ [r]))"
    using mergeRuns_spec [OF push] by auto
  have sp: "stable_perm compare (concat rs1 @ ?R) (concat rs @ R)"
  proof -
    have "stable_perm compare (concat rs1 @ ?R) ((concat rs @ r) @ ?R)"
      using stable_perm_append [OF 1(4) stable_perm_refl, of ?R] by simp
    moreover have "stable_perm compare (r @ ?R) (take (length r) R @ ?R)"
      using stable_perm_append [OF r(5) stable_perm_refl] .
    ultimately show ?thesis
      using stable_perm_append [OF stable_perm_refl, of compare "r @ ?R" R "concat rs"] stable_perm_trans
      by (metis append.assoc append_take_drop_id)
  qed
  have unf: "sort_loop compare minRun hi lo remaining ts =
      (if remaining - length r \<noteq> 0
       then sort_loop compare minRun hi (lo + length r) (remaining - length r) ts1
       else Some (Inr ts1))"
    by (subst sort_loop.simps) (simp add: r(1) [simplified] 1(1) [simplified] Let_def)
  show ?case
  proof (cases "?R = []")
    case True
    then show ?thesis unfolding unf using less.prems(4) 1 sp
      by (intro exI [of _ ts1] exI [of _ rs1]) auto
  next
    case False
    have lo: "lo + length r = length p + length (concat rs1)"
      using stable_perm_length [OF 1(4)] less.prems(3) by simp
    obtain ts2 rs2 where "sort_loop compare minRun hi (lo + length r) (remaining - length r) ts1 = Some (Inr ts2)"
        "stack_rep compare p rs2 q ts2" "rs2 \<noteq> []" "stable_perm compare (concat rs2) (concat rs1 @ ?R)"
      using less.hyps [OF _ 1(2) False lo] less.prems r(2,3) by (auto simp: length_greater_0_conv)
    then show ?thesis unfolding unf using False less.prems(4) stable_perm_trans [OF _ sp] by auto
  qed
qed

end

section \<open>The driver\<close>

lemma minRunLength_loop_bounds:
  "DEFAULT_MIN_MERGE \<le> n \<Longrightarrow> r \<le> 1 \<Longrightarrow>
   16 \<le> minRunLength_loop n r \<and> minRunLength_loop n r \<le> DEFAULT_MIN_MERGE"
proof (induction n r rule: minRunLength_loop.induct)
  case (1 n r)
  let ?r = "r OR (n AND 1)"
  have bit: "?r \<le> 1" proof -
    have "n mod 2 = 0 \<or> n mod 2 = 1" "r = 0 \<or> r = 1" using "1.prems"(2) by auto
    then show ?thesis by (elim disjE) (simp_all add: and_one_eq)
  qed
  have unf: "minRunLength_loop n r = minRunLength_loop (n div 2) ?r"
    using "1.prems" by (subst minRunLength_loop.simps) (simp add: drop_bit_eq_div)
  show ?case
  proof (cases "DEFAULT_MIN_MERGE \<le> n div 2")
    case True
    then show ?thesis using "1.IH" [OF "1.prems"(1)] bit unf by (simp add: drop_bit_eq_div)
  next
    case False
    then have "minRunLength_loop (n div 2) ?r = n div 2 + ?r" by (simp add: minRunLength_loop.simps)
    moreover have "16 \<le> n div 2" using "1.prems"(1) by (simp add: DEFAULT_MIN_MERGE_def)
    ultimately show ?thesis using unf False bit by (auto simp: DEFAULT_MIN_MERGE_def)
  qed
qed

context comparator
begin

lemma sort_spec:
  assumes hi: "hi' = (if hi = 0 then length arr else hi)" and "lo \<le> hi'" "hi' \<le> length arr"
  shows "\<exists>seg. sort' arr compare lo hi = Some (Inr (take lo arr @ seg @ drop hi' arr)) \<and>
    sorted_by compare seg \<and> stable_perm compare seg (take (hi' - lo) (drop lo arr))"
proof -
  define R where "R = take (hi' - lo) (drop lo arr)"
  have arr: "take lo arr @ R @ drop hi' arr = arr"
    using assms(2) append_take_drop_id [of "hi' - lo" "drop lo arr"] by (simp add: R_def)
  have len: "length R = hi' - lo" "length (take lo arr) = lo" using assms by (auto simp: R_def)
  consider "hi' - lo < 2" | "2 \<le> hi' - lo" "hi' - lo < DEFAULT_MIN_MERGE" | "DEFAULT_MIN_MERGE \<le> hi' - lo"
    by linarith
  then show ?thesis
  proof cases
    case 1
    then have "sort' arr compare lo hi = Some (Inr arr)" by (simp add: sort'_def hi Let_def)
    moreover have "sorted_by compare R" using 1 len by (cases R; cases "tl R") auto
    ultimately show ?thesis using arr by (intro exI [of _ R]) (simp add: R_def [symmetric])
  next
    case 2
    obtain r where r: "makeAscendingRun (take lo arr @ R @ drop hi' arr) lo hi' compare =
        (take lo arr @ r @ drop (length r) R @ drop hi' arr, length r)" "r \<noteq> []" "length r \<le> length R"
        "sorted_by compare r" "stable_perm compare r (take (length r) R)"
      using makeAscendingRun_spec [of R lo "take lo arr" hi' "drop hi' arr"] 2 len assms by fastforce
    obtain r' where r': "binaryInsertionSort (take lo arr @ r @ drop (length r) R @ drop hi' arr) lo hi'
        (lo + length r) compare = take lo arr @ r' @ drop hi' arr" "sorted_by compare r'"
        "stable_perm compare r' (r @ drop (length r) R)"
      using binaryInsertionSort_spec [OF r(4,2), of lo "take lo arr" "lo + length r" hi' "drop (length r) R"]
        len r(3) assms by auto
    have "sort' arr compare lo hi = Some (Inr (take lo arr @ r' @ drop hi' arr))"
      unfolding sort'_def hi [symmetric] Let_def using 2 r(1) [unfolded arr] r'(1) by simp
    moreover have "stable_perm compare r' R"
      using stable_perm_trans [OF r'(3) stable_perm_append [OF r(5) stable_perm_refl]] by simp
    ultimately show ?thesis using r'(2) by (auto simp: R_def)
  next
    case 3
    have ne: "R \<noteq> []" using 3 len by (auto simp: DEFAULT_MIN_MERGE_def)
    have init: "stack_rep compare (take lo arr) [] (R @ drop hi' arr) (TimSort arr)"
      using arr by (simp add: stack_rep_def TimSort_def)
    have mr: "minRunLength (hi' - lo) > 0"
      using minRunLength_loop_bounds [OF 3, of 0] by (simp add: minRunLength_def)
    obtain ts rs where 1: "sort_loop compare (minRunLength (hi' - lo)) hi' lo (hi' - lo) (TimSort arr)
        = Some (Inr ts)" "stack_rep compare (take lo arr) rs (drop hi' arr) ts" "rs \<noteq> []"
        "stable_perm compare (concat rs) R"
    proof -
      have "lo = length (take lo arr) + length (concat [])" "hi' - lo = length R" "hi' = lo + length R"
        using len assms(2) by (simp_all only: concat.simps list.size)
      from sort_loop_spec [OF init ne this mr] show ?thesis using that by (metis append_Nil concat.simps(1))
    qed
    obtain ts' r where 2: "forceMergeRuns compare ts = Some (Inr ts')"
        "stack_rep compare (take lo arr) [r] (drop hi' arr) ts'" "stable_perm compare r (concat rs)"
      using forceMergeRuns_spec [OF 1(2,3)] by blast
    have "sort' arr compare lo hi = Some (Inr (tsArray ts'))"
      unfolding sort'_def hi [symmetric] Let_def using 3 1(1) 2(1)
      by (simp add: DEFAULT_MIN_MERGE_def)
    moreover have "stable_perm compare r R" using stable_perm_trans [OF 2(3) 1(4)] .
    ultimately show ?thesis using 2(2) by (auto simp: stack_rep_def R_def)
  qed
qed

end

section \<open>Properties\<close>

text \<open>
  C6: the sort is a correct stable sort.  For a consistent comparison function, \<open>sort'\<close> on a
  range of an array always returns without throwing; it changes nothing outside the range, and inside
  it leaves a sorted permutation of the old range in which equivalent elements keep their order.
\<close>

theorem sort_is_stable_sort:
  assumes "comparator compare" "hi' = (if hi = 0 then length arr else hi)" "lo \<le> hi'" "hi' \<le> length arr"
  shows "\<exists>seg. sort' arr compare lo hi = Some (Inr (take lo arr @ seg @ drop hi' arr)) \<and>
    sorted_by compare seg \<and> mset seg = mset (take (hi' - lo) (drop lo arr)) \<and>
    (\<forall>x. filter (equiv_by compare x) seg =
         filter (equiv_by compare x) (take (hi' - lo) (drop lo arr)))"
  using comparator.sort_spec [OF assms] unfolding stable_perm_def by blast

theorem sort_is_stable_sort_witness:
  "\<exists>seg. sort' [(3, ''a''), (1, ''b''), (3, ''c''), (2, ''d'')] (\<lambda>x y. fst x - fst y) 1 0
       = Some (Inr ([(3, ''a'')] @ seg @ [])) \<and>
     sorted_by (\<lambda>x y. fst x - fst y) seg \<and> mset seg = mset [(1, ''b''), (3, ''c''), (2, ''d'')]"
proof -
  have "comparator (\<lambda>x y :: int \<times> string. fst x - fst y)" by unfold_locales auto
  from sort_is_stable_sort [OF this, of 4 0 "[(3, ''a''), (1, ''b''), (3, ''c''), (2, ''d'')]" 1]
  show ?thesis by auto
qed

text \<open>
  the minimum run length computed for an array of at least 32 elements lies between 16 and 32,
  so every run that the driver pushes (except the last) has at least 16 elements.
\<close>

theorem minRunLength_bounds:
  "DEFAULT_MIN_MERGE \<le> n \<Longrightarrow> 16 \<le> minRunLength n \<and> minRunLength n \<le> DEFAULT_MIN_MERGE"
  using minRunLength_loop_bounds [of n 0] by (simp add: minRunLength_def)

theorem minRunLength_bounds_witness:
  "DEFAULT_MIN_MERGE \<le> 65 \<and> 16 \<le> minRunLength 65 \<and> minRunLength 65 \<le> DEFAULT_MIN_MERGE"
proof -
  have "DEFAULT_MIN_MERGE \<le> 65" by (simp add: DEFAULT_MIN_MERGE_def)
  then show ?thesis using minRunLength_bounds [of 65] by blast
qed

end
