(* ===== verification/Linked_Nodes.thy ===== *)
theory Linked_Nodes
  imports Prelude
begin

text \<open>
  Doubly linked chains of heap objects.  Objects are addresses (natural numbers); their
  \<^verbatim>\<open>prev\<close> and \<^verbatim>\<open>next\<close> fields are two functions on addresses, with \<^term>\<open>None\<close> for
  \<^verbatim>\<open>null\<close> and \<^verbatim>\<open>undefined\<close>.  Two components keep such chains: the linked list of the LRU
  cache and the clip list of the animation driver.
\<close>

type_synonym addr = nat
type_synonym link = "addr \<Rightarrow> addr option"

definition hd_opt :: "'a list \<Rightarrow> 'a option \<Rightarrow> 'a option" where
  "hd_opt as n = (case as of [] \<Rightarrow> n | a # _ \<Rightarrow> Some a)"

definition last_opt :: "'a option \<Rightarrow> 'a list \<Rightarrow> 'a option" where
  "last_opt p as = (if as = [] then p else Some (last as))"

lemma hd_opt_simps [simp]: "hd_opt [] n = n" "hd_opt (a # as) n = Some a"
  by (simp_all add: hd_opt_def)

lemma hd_opt_append [simp]: "hd_opt (xs @ ys) n = hd_opt xs (hd_opt ys n)"
  by (cases xs) auto

lemma last_opt_simps [simp]:
  "last_opt p [] = p" "last_opt p (a # as) = last_opt (Some a) as" "last_opt p (xs @ [a]) = Some a"
  by (simp_all add: last_opt_def)

lemma last_opt_append [simp]: "last_opt p (xs @ ys) = last_opt (last_opt p xs) ys"
  by (auto simp: last_opt_def)

lemma hd_opt_None [simp]: "hd_opt as None = None \<longleftrightarrow> as = []"
  by (cases as) auto

lemma last_opt_None [simp]: "last_opt None as = None \<longleftrightarrow> as = []"
  by (auto simp: last_opt_def)

fun dll :: "link \<Rightarrow> link \<Rightarrow> addr option \<Rightarrow> addr list \<Rightarrow> addr option \<Rightarrow> bool" where
  "dll prv nxt p [] n = True"
| "dll prv nxt p (a # as) n \<longleftrightarrow> prv a = p \<and> nxt a = hd_opt as n \<and> dll prv nxt (Some a) as n"

lemma dll_append [simp]:
  "dll prv nxt p (xs @ ys) n \<longleftrightarrow>
     dll prv nxt p xs (hd_opt ys n) \<and> dll prv nxt (last_opt p xs) ys n"
  by (induction xs arbitrary: p) auto

lemma dll_cong:
  "(\<And>a. a \<in> set as \<Longrightarrow> prv a = prv' a \<and> nxt a = nxt' a) \<Longrightarrow>
   dll prv nxt p as n = dll prv' nxt' p as n"
  by (induction as arbitrary: p) auto

lemma dll_upd_other [simp]:
  "e \<notin> set as \<Longrightarrow> dll (prv(e := v)) nxt p as n = dll prv nxt p as n"
  "e \<notin> set as \<Longrightarrow> dll prv (nxt(e := v)) p as n = dll prv nxt p as n"
  by (auto intro!: dll_cong)

lemma dll_new_next:
  assumes "as \<noteq> []" "distinct as" "dll prv nxt p as n"
  shows "dll prv (nxt(last as := m)) p as m"
  using assms
proof (induction as arbitrary: p)
  case (Cons a as)
  show ?case
  proof (cases as)
    case Nil
    with Cons.prems show ?thesis by simp
  next
    case (Cons b bs)
    then have "a \<noteq> last as" using Cons.prems(2) last_in_set [of as] by auto
    then show ?thesis using Cons.IH [of "Some a"] Cons.prems Cons by simp
  qed
qed simp

lemma dll_new_prev:
  assumes "as \<noteq> []" "distinct as" "dll prv nxt p as n"
  shows "dll (prv(hd as := q)) nxt q as n"
  using assms by (cases as) simp_all

text \<open>A chain with a head and a tail pointer.\<close>

definition chain ::
  "addr option \<Rightarrow> addr option \<Rightarrow> link \<Rightarrow> link \<Rightarrow> addr list \<Rightarrow> bool" where
  "chain head tail prv nxt as \<longleftrightarrow>
     head = hd_opt as None \<and> tail = last_opt None as \<and> distinct as \<and> dll prv nxt None as None"

lemma chain_Nil [simp]: "chain head tail prv nxt [] \<longleftrightarrow> head = None \<and> tail = None"
  by (auto simp: chain_def)

lemma chain_head_None: "chain head tail prv nxt as \<Longrightarrow> head = None \<longleftrightarrow> as = []"
  by (auto simp: chain_def)

lemma chain_tail: "chain head tail prv nxt as \<Longrightarrow> as \<noteq> [] \<Longrightarrow> tail = Some (last as)"
  by (auto simp: chain_def last_opt_def)

lemma chain_cong:
  "(\<And>a. a \<in> set as \<Longrightarrow> prv a = prv' a \<and> nxt a = nxt' a) \<Longrightarrow>
   chain head tail prv nxt as = chain head tail prv' nxt' as"
  unfolding chain_def using dll_cong by metis

lemma chain_insert_first:
  "prv e = None \<Longrightarrow> nxt e = None \<Longrightarrow> chain (Some e) (Some e) prv nxt [e]"
  by (simp add: chain_def)

lemma chain_insert_tail:
  assumes "chain head (Some t) prv nxt as" "e \<notin> set as"
  shows "chain head (Some e) (prv(e := Some t)) ((nxt(t := Some e))(e := None)) (as @ [e])"
proof -
  have ne: "as \<noteq> []" and t: "t = last as" "t \<in> set as"
    using assms(1) by (auto simp: chain_def last_opt_def split: if_splits)
  have "dll prv (nxt(t := Some e)) None as (Some e)"
    using dll_new_next [OF ne, of prv nxt None None "Some e"] assms(1) t by (simp add: chain_def)
  moreover have "e \<noteq> t" using assms(2) t(2) by auto
  moreover have "hd_opt as (Some e) = hd_opt as None" using ne by (cases as) auto
  ultimately show ?thesis using assms ne t by (auto simp: chain_def last_opt_def)
qed

text \<open>Unlinking an object, as both sources do it.\<close>

definition unlink_next :: "link \<Rightarrow> link \<Rightarrow> addr \<Rightarrow> link" where
  "unlink_next prv nxt e =
     (case prv e of Some p \<Rightarrow> nxt(p := nxt e) | None \<Rightarrow> nxt)(e := None)"

definition unlink_prev :: "link \<Rightarrow> link \<Rightarrow> addr \<Rightarrow> link" where
  "unlink_prev prv nxt e =
     (case nxt e of Some n \<Rightarrow> prv(n := prv e) | None \<Rightarrow> prv)(e := None)"

definition unlink_head :: "addr option \<Rightarrow> link \<Rightarrow> link \<Rightarrow> addr \<Rightarrow> addr option" where
  "unlink_head head prv nxt e = (if prv e = None then nxt e else head)"

definition unlink_tail :: "addr option \<Rightarrow> link \<Rightarrow> link \<Rightarrow> addr \<Rightarrow> addr option" where
  "unlink_tail tail prv nxt e = (if nxt e = None then prv e else tail)"

lemmas unlink_defs = unlink_next_def unlink_prev_def unlink_head_def unlink_tail_def

lemma chain_unlink_split:
  assumes "chain head tail prv nxt (xs @ e # ys)"
  shows "chain (unlink_head head prv nxt e) (unlink_tail tail prv nxt e)
    (unlink_prev prv nxt e) (unlink_next prv nxt e) (xs @ ys)"
proof -
  have d: "distinct (xs @ e # ys)" "prv e = last_opt None xs" "nxt e = hd_opt ys None"
      "dll prv nxt None xs (Some e)" "dll prv nxt (Some e) ys None"
      "head = hd_opt xs (Some e)" "tail = last_opt (Some e) ys"
    using assms by (auto simp: chain_def)
  have nx: "dll prv (unlink_next prv nxt e) None xs (hd_opt ys None)"
  proof (cases "xs = []")
    case False
    then have "dll prv (nxt(last xs := hd_opt ys None)) None xs (hd_opt ys None)"
      using dll_new_next [OF False, of prv nxt None "Some e"] d by simp
    then show ?thesis using False d by (simp add: unlink_next_def last_opt_def)
  qed simp
  have ny: "dll (unlink_prev prv nxt e) nxt (last_opt None xs) ys None"
  proof (cases ys)
    case (Cons y ys')
    then have "dll (prv(y := last_opt None xs)) nxt (last_opt None xs) ys None"
      using dll_new_prev [of ys prv nxt "Some e" None "last_opt None xs"] d by simp
    then show ?thesis using Cons d by (simp add: unlink_prev_def)
  qed simp
  have 1: "dll (unlink_prev prv nxt e) (unlink_next prv nxt e) None xs (hd_opt ys None)"
    using nx d by (cases ys) (simp_all add: unlink_prev_def)
  have 2: "dll (unlink_prev prv nxt e) (unlink_next prv nxt e) (last_opt None xs) ys None"
    using ny d by (cases xs rule: rev_cases) (simp_all add: unlink_next_def)
  show ?thesis using 1 2 d unfolding chain_def unlink_head_def unlink_tail_def
    by (cases xs; cases ys) (auto simp: last_opt_def)
qed

lemma chain_unlink:
  assumes "chain head tail prv nxt as" "e \<in> set as"
  shows "chain (unlink_head head prv nxt e) (unlink_tail tail prv nxt e)
    (unlink_prev prv nxt e) (unlink_next prv nxt e) (remove1 e as)"
proof -
  obtain xs ys where "as = xs @ e # ys" "e \<notin> set xs"
    using assms(2) by (meson split_list_first)
  then show ?thesis using chain_unlink_split [of head tail prv nxt xs e ys] assms(1)
    by (simp add: remove1_append)
qed

lemma chain_tail_iff: "chain head tail prv nxt as \<Longrightarrow> e \<in> set as \<Longrightarrow> tail = Some e \<longleftrightarrow> last as = e"
  by (auto simp: chain_def last_opt_def)

end
