(* ===== verification/Transitions.thy ===== *)
theory Transitions
  imports Prelude
begin

text \<open>
  Sequences of calls and events, and the contracts under which they are reasoned about: operations
  that keep an invariant, and operations that simulate those of an abstract specification.  The
  components interpret these locales on their own steps; what holds of one step then holds of every
  sequence of steps.
\<close>

section \<open>Sequences of steps\<close>

text \<open>Operations that return a value, and the values they return.\<close>

fun run :: "('op \<Rightarrow> 's \<Rightarrow> 'o \<times> 's) \<Rightarrow> 'op list \<Rightarrow> 's \<Rightarrow> 'o list \<times> 's" where
  "run step [] s = ([], s)"
| "run step (x # xs) s = (let (r, s) = step x s; (rs, s) = run step xs s in (r # rs, s))"

text \<open>Events that may not be enabled (\<^term>\<open>None\<close>).\<close>

fun runs :: "('ev \<Rightarrow> 's \<Rightarrow> 's option) \<Rightarrow> 'ev list \<Rightarrow> 's \<Rightarrow> 's option" where
  "runs step [] s = Some s"
| "runs step (e # es) s = (case step e s of None \<Rightarrow> None | Some s \<Rightarrow> runs step es s)"

lemma runs_ConsE:
  assumes "runs step (e # es) s = Some s'"
  obtains s1 where "step e s = Some s1" "runs step es s1 = Some s'"
  using assms by (cases "step e s") auto

lemma runs_snoc: "runs step es s = Some s1 \<Longrightarrow> runs step (es @ [e]) s = step e s1"
  by (induction es arbitrary: s) (auto split: option.splits)

section \<open>Invariants\<close>

locale step_invariant =
  fixes step :: "'ev \<Rightarrow> 's \<Rightarrow> 's option" and allowed :: "'ev \<Rightarrow> bool" and inv :: "'s \<Rightarrow> bool"
  assumes step_inv: "inv s \<Longrightarrow> allowed e \<Longrightarrow> step e s = Some s' \<Longrightarrow> inv s'"
begin

lemma runs_inv: "runs step es s = Some s' \<Longrightarrow> list_all allowed es \<Longrightarrow> inv s \<Longrightarrow> inv s'"
proof (induction es arbitrary: s)
  case (Cons e es)
  then obtain s1 where "step e s = Some s1" "runs step es s1 = Some s'" by (elim runs_ConsE)
  then show ?case using Cons step_inv by auto
qed simp

end

section \<open>Simulations\<close>

locale state_simulation =
  fixes step :: "'op \<Rightarrow> 's \<Rightarrow> 's" and astep :: "'op \<Rightarrow> 'a \<Rightarrow> 'a" and rep :: "'s \<Rightarrow> 'a \<Rightarrow> bool"
  assumes step_rep: "rep s a \<Longrightarrow> rep (step x s) (astep x a)"
begin

lemma fold_rep: "rep s a \<Longrightarrow> rep (fold step xs s) (fold astep xs a)"
  by (induction xs arbitrary: s a) (simp_all add: step_rep)

end

lemma run_state: "snd (run step xs s) = fold (\<lambda>x s. snd (step x s)) xs s"
  by (induction xs arbitrary: s) (simp_all add: split_beta)

text \<open>Operations that also return what the specification returns.\<close>

locale simulation =
  fixes step :: "'op \<Rightarrow> 's \<Rightarrow> 'o \<times> 's" and astep :: "'op \<Rightarrow> 'a \<Rightarrow> 'o \<times> 'a" and rep :: "'s \<Rightarrow> 'a \<Rightarrow> bool"
  assumes step_out: "rep s a \<Longrightarrow> fst (step x s) = fst (astep x a)"
    and step_next: "rep s a \<Longrightarrow> rep (snd (step x s)) (snd (astep x a))"

sublocale simulation \<subseteq> state_simulation "\<lambda>x s. snd (step x s)" "\<lambda>x a. snd (astep x a)" rep
  by unfold_locales (rule step_next)

context simulation
begin

lemma run_rep: "rep s a \<Longrightarrow> rep (snd (run step xs s)) (snd (run astep xs a))"
  unfolding run_state by (rule fold_rep)

lemma run_out: "rep s a \<Longrightarrow> fst (run step xs s) = fst (run astep xs a)"
  by (induction xs arbitrary: s a) (simp_all add: split_beta step_out step_next)

end

end
