(* ===== verification/LRU_Cache.thy ===== *)
theory LRU_Cache
  imports Linked_Nodes Transitions
begin

text \<open>
  The linked list and the LRU cache of the drawing library (\<^verbatim>\<open>src/html/js/echarts.js\<close>, lines
  3570-3676).  Entries are heap objects: the model keeps their fields \<^verbatim>\<open>key\<close>,
  \<^verbatim>\<open>value\<close>, \<^verbatim>\<open>prev\<close> and \<^verbatim>\<open>next\<close> as functions on addresses, so that the
  re-use of an evicted entry object (\<^verbatim>\<open>_lastRemovedEntry\<close>) is modelled with its aliasing.
  Keys are strings that are not property names of \<^verbatim>\<open>Object.prototype\<close>.
\<close>

section \<open>Definitions\<close>

text \<open>Class \<^verbatim>\<open>LinkedList\<close>; the heap of the entries is part of the state.\<close>

record 'v linked_list =
  head :: "addr option"
  tail :: "addr option"
  len :: nat
  prev :: link
  "next" :: link
  entry_key :: "addr \<Rightarrow> string"
  entry_value :: "addr \<Rightarrow> 'v"
  fresh :: addr

definition LinkedList :: "'v \<Rightarrow> 'v linked_list" where
  "LinkedList undef = \<lparr>head = None, tail = None, len = 0, prev = (\<lambda>_. None), next = (\<lambda>_. None),
     entry_key = (\<lambda>_. ''''), entry_value = (\<lambda>_. undef), fresh = 0\<rparr>"

definition new_Entry :: "'v \<Rightarrow> 'v linked_list \<Rightarrow> addr \<times> 'v linked_list" where
  "new_Entry v l =
     (let a = fresh l
      in (a, l\<lparr>fresh := a + 1, prev := (prev l)(a := None), next := (next l)(a := None),
               entry_value := (entry_value l)(a := v)\<rparr>))"

definition insertEntry :: "addr \<Rightarrow> 'v linked_list \<Rightarrow> 'v linked_list" where
  "insertEntry e l =
     (case head l of
        None \<Rightarrow> l\<lparr>head := Some e, tail := Some e, len := len l + 1\<rparr>
      | Some _ \<Rightarrow>
          (let t = the (tail l);
               l = l\<lparr>next := (next l)(t := Some e)\<rparr>;
               l = l\<lparr>prev := (prev l)(e := Some t)\<rparr>;
               l = l\<lparr>next := (next l)(e := None)\<rparr>
           in l\<lparr>tail := Some e, len := len l + 1\<rparr>))"

definition insert_value :: "'v \<Rightarrow> 'v linked_list \<Rightarrow> addr \<times> 'v linked_list" where
  "insert_value v l = (let (a, l) = new_Entry v l in (a, insertEntry a l))"

definition remove_entry :: "addr \<Rightarrow> 'v linked_list \<Rightarrow> 'v linked_list" where
  "remove_entry e l =
     (let p = prev l e; n = next l e;
          l = (case p of Some p' \<Rightarrow> l\<lparr>next := (next l)(p' := n)\<rparr> | None \<Rightarrow> l\<lparr>head := n\<rparr>);
          l = (case n of Some n' \<Rightarrow> l\<lparr>prev := (prev l)(n' := p)\<rparr> | None \<Rightarrow> l\<lparr>tail := p\<rparr>)
      in l\<lparr>prev := (prev l)(e := None), next := (next l)(e := None), len := len l - 1\<rparr>)"

definition clear_list :: "'v linked_list \<Rightarrow> 'v linked_list" where
  "clear_list l = l\<lparr>head := None, tail := None, len := 0\<rparr>"

text \<open>Class \<^verbatim>\<open>LRU\<close>.\<close>

record 'v lru =
  lru_list :: "'v linked_list"
  maxSize :: nat
  lru_map :: "string \<rightharpoonup> addr"
  lastRemovedEntry :: "addr option"

definition LRU :: "'v \<Rightarrow> nat \<Rightarrow> 'v lru" where
  "LRU undef n = \<lparr>lru_list = LinkedList undef, maxSize = n, lru_map = Map.empty,
     lastRemovedEntry = None\<rparr>"

text \<open>
  The eviction of the least recently used entry inside \<^verbatim>\<open>put\<close>; it returns the evicted
  value.
\<close>

definition evict :: "'v lru \<Rightarrow> 'v option \<times> 'v lru" where
  "evict c =
     (let l = lru_list c
      in if len l \<ge> maxSize c \<and> len l > 0
         then let e = the (head l)
              in (Some (entry_value l e),
                  c\<lparr>lru_list := remove_entry e l,
                    lru_map := (lru_map c)(entry_key l e := None),
                    lastRemovedEntry := Some e\<rparr>)
         else (None, c))"

definition put :: "string \<Rightarrow> 'v \<Rightarrow> 'v lru \<Rightarrow> 'v option \<times> 'v lru" where
  "put k v c =
     (if lru_map c k = None
      then let entry = lastRemovedEntry c;
               (removed, c) = evict c;
               l = lru_list c;
               (e, l) = (case entry of
                           Some e \<Rightarrow> (e, l\<lparr>entry_value := (entry_value l)(e := v)\<rparr>)
                         | None \<Rightarrow> new_Entry v l);
               l = insertEntry e (l\<lparr>entry_key := (entry_key l)(e := k)\<rparr>)
           in (removed, c\<lparr>lru_list := l, lru_map := (lru_map c)(k \<mapsto> e)\<rparr>)
      else (None, c))"

definition get :: "string \<Rightarrow> 'v lru \<Rightarrow> 'v option \<times> 'v lru" where
  "get k c =
     (case lru_map c k of
        None \<Rightarrow> (None, c)
      | Some e \<Rightarrow>
          (let l = lru_list c;
               l = (if tail l \<noteq> Some e then insertEntry e (remove_entry e l) else l)
           in (Some (entry_value l e), c\<lparr>lru_list := l\<rparr>)))"

definition clear_lru :: "'v lru \<Rightarrow> 'v lru" where
  "clear_lru c = c\<lparr>lru_list := clear_list (lru_list c), lru_map := Map.empty\<rparr>"

definition lru_len :: "'v lru \<Rightarrow> nat" where
  "lru_len c = len (lru_list c)"

section \<open>The abstract cache\<close>

text \<open>
  What the cache promises: a list of bindings in the order of use, least recently used first.
\<close>

type_synonym 'v acache = "(string \<times> 'v) list"

definition a_evict :: "nat \<Rightarrow> 'v acache \<Rightarrow> 'v acache" where
  "a_evict n kvs = (if length kvs \<ge> n then tl kvs else kvs)"

definition a_put :: "nat \<Rightarrow> string \<Rightarrow> 'v \<Rightarrow> 'v acache \<Rightarrow> 'v acache" where
  "a_put n k v kvs = (if map_of kvs k = None then a_evict n kvs @ [(k, v)] else kvs)"

definition a_get :: "string \<Rightarrow> 'v acache \<Rightarrow> 'v acache" where
  "a_get k kvs =
     (case map_of kvs k of None \<Rightarrow> kvs | Some v \<Rightarrow> filter (\<lambda>kv. fst kv \<noteq> k) kvs @ [(k, v)])"

section \<open>Representation\<close>

definition bindings :: "'v linked_list \<Rightarrow> addr list \<Rightarrow> 'v acache" where
  "bindings l as = map (\<lambda>a. (entry_key l a, entry_value l a)) as"

definition list_rep :: "'v linked_list \<Rightarrow> addr list \<Rightarrow> bool" where
  "list_rep l as \<longleftrightarrow> chain (head l) (tail l) (prev l) (next l) as \<and> len l = length as \<and>
     (\<forall>a\<in>set as. a < fresh l)"

text \<open>
  The representation invariant: the map holds exactly the listed entries, the keys are distinct, the
  evicted entry kept for re-use is outside the list and unlinked, and there is such an entry only
  while the cache is full.
\<close>

definition lru_rep :: "'v lru \<Rightarrow> addr list \<Rightarrow> bool" where
  "lru_rep c as \<longleftrightarrow>
     list_rep (lru_list c) as \<and>
     distinct (map (entry_key (lru_list c)) as) \<and>
     (\<forall>k e. lru_map c k = Some e \<longleftrightarrow> e \<in> set as \<and> entry_key (lru_list c) e = k) \<and>
     (\<forall>e. lastRemovedEntry c = Some e \<longrightarrow>
        e \<notin> set as \<and> e < fresh (lru_list c) \<and>
        prev (lru_list c) e = None \<and> next (lru_list c) e = None) \<and>
     (lastRemovedEntry c \<noteq> None \<longrightarrow> length as = maxSize c) \<and>
     length as \<le> maxSize c \<and> 0 < maxSize c"

definition lru_abs :: "'v lru \<Rightarrow> 'v acache \<Rightarrow> bool" where
  "lru_abs c kvs \<longleftrightarrow> (\<exists>as. lru_rep c as \<and> kvs = bindings (lru_list c) as)"

section \<open>The linked list\<close>

lemma list_rep_insert:
  assumes "list_rep l as" "e \<notin> set as" "e < fresh l" "as = [] \<Longrightarrow> prev l e = None \<and> next l e = None"
  shows "list_rep (insertEntry e l) (as @ [e])"
proof (cases "as = []")
  case True
  then show ?thesis using assms
    by (auto simp: list_rep_def insertEntry_def chain_insert_first)
next
  case False
  then obtain h t where h: "head l = Some h" "tail l = Some t"
    using assms(1) by (cases as) (auto simp: list_rep_def chain_def last_opt_def)
  have "chain (head l) (Some e) ((prev l)(e := Some t)) ((next l)(t := Some e, e := None)) (as @ [e])"
    using chain_insert_tail [of "head l" t "prev l" "next l" as e] assms h by (simp add: list_rep_def)
  then show ?thesis using assms h by (auto simp: list_rep_def insertEntry_def Let_def)
qed

lemma insertEntry_frame [simp]:
  "entry_key (insertEntry e l) = entry_key l" "entry_value (insertEntry e l) = entry_value l"
  "fresh (insertEntry e l) = fresh l"
  by (auto simp: insertEntry_def Let_def split: option.splits)

lemma remove_entry_frame [simp]:
  "entry_key (remove_entry e l) = entry_key l" "entry_value (remove_entry e l) = entry_value l"
  "fresh (remove_entry e l) = fresh l" "prev (remove_entry e l) e = None" "next (remove_entry e l) e = None"
  by (auto simp: remove_entry_def Let_def split: option.splits)

lemma remove_entry_unlink:
  "head (remove_entry e l) = unlink_head (head l) (prev l) (next l) e"
  "tail (remove_entry e l) = unlink_tail (tail l) (prev l) (next l) e"
  "prev (remove_entry e l) = unlink_prev (prev l) (next l) e"
  "next (remove_entry e l) = unlink_next (prev l) (next l) e"
  "len (remove_entry e l) = len l - 1"
  by (auto simp: remove_entry_def Let_def unlink_defs split: option.splits)

lemma list_rep_remove:
  assumes "list_rep l as" "e \<in> set as"
  shows "list_rep (remove_entry e l) (remove1 e as)"
  using assms chain_unlink [of "head l" "tail l" "prev l" "next l" as e]
  by (auto simp: list_rep_def remove_entry_unlink length_remove1 dest: notin_set_remove1)

lemma list_rep_distinct: "list_rep l as \<Longrightarrow> distinct as"
  by (simp add: list_rep_def chain_def)

lemma list_rep_head: "list_rep l (a # as) \<Longrightarrow> head l = Some a"
  by (simp add: list_rep_def chain_def)

text \<open>
  The links of an object outside the list are left alone.
\<close>

lemma remove_entry_links_other:
  assumes "list_rep l as" "e \<in> set as" "x \<notin> set as"
  shows "prev (remove_entry e l) x = prev l x \<and> next (remove_entry e l) x = next l x"
proof -
  obtain xs ys where as: "as = xs @ e # ys" using assms(2) by (meson split_list)
  have d: "prev l e = last_opt None xs" "next l e = hd_opt ys None"
    using assms(1) as by (auto simp: list_rep_def chain_def)
  have "x \<noteq> e" using assms by auto
  moreover have "prev l e = Some x \<Longrightarrow> False"
    using d as assms(3) by (auto simp: last_opt_def split: if_splits)
  moreover have "next l e = Some x \<Longrightarrow> False"
    using d as assms(3) by (cases ys) auto
  ultimately show ?thesis
    by (auto simp: remove_entry_unlink unlink_next_def unlink_prev_def split: option.splits)
qed

section \<open>The cache\<close>

lemma lru_rep_mapD:
  "lru_rep c as \<Longrightarrow> lru_map c k = Some e \<Longrightarrow> e \<in> set as \<and> entry_key (lru_list c) e = k"
  by (simp add: lru_rep_def)

lemma map_of_bindings:
  assumes "lru_rep c as"
  shows "map_of (bindings (lru_list c) as) k =
    map_option (entry_value (lru_list c)) (lru_map c k)"
proof -
  let ?l = "lru_list c"
  have d: "distinct (map fst (bindings ?l as))"
    using assms by (simp add: lru_rep_def bindings_def comp_def)
  show ?thesis
  proof (cases "lru_map c k")
    case None
    have "\<forall>e\<in>set as. entry_key ?l e \<noteq> k"
      using assms None unfolding lru_rep_def by (metis option.distinct(1))
    then have "k \<notin> fst ` set (bindings ?l as)" by (auto simp: bindings_def)
    then show ?thesis using None by (simp add: map_of_eq_None_iff)
  next
    case (Some e)
    then have "(k, entry_value ?l e) \<in> set (bindings ?l as)"
      using lru_rep_mapD [OF assms Some] by (auto simp: bindings_def)
    then show ?thesis using Some d by simp
  qed
qed

lemma LRU_rep: "0 < n \<Longrightarrow> lru_rep (LRU undef n) []"
  by (simp add: lru_rep_def LRU_def LinkedList_def list_rep_def)

text \<open>A full cache loses its first entry, which becomes the entry kept for re-use.\<close>

lemma evict_full:
  assumes "lru_rep c (a # as)" "length (a # as) = maxSize c"
  shows "evict c = (Some (entry_value (lru_list c) a),
      c\<lparr>lru_list := remove_entry a (lru_list c),
        lru_map := (lru_map c)(entry_key (lru_list c) a := None), lastRemovedEntry := Some a\<rparr>)"
    "list_rep (remove_entry a (lru_list c)) as"
    "\<forall>k e. ((lru_map c)(entry_key (lru_list c) a := None)) k = Some e \<longleftrightarrow>
       e \<in> set as \<and> entry_key (lru_list c) e = k"
proof -
  let ?l = "lru_list c"
  have rep: "list_rep ?l (a # as)" using assms by (simp add: lru_rep_def)
  have h: "head ?l = Some a" "len ?l = maxSize c" "0 < maxSize c"
    using rep assms by (auto simp: list_rep_def chain_def)
  show "evict c = (Some (entry_value ?l a), c\<lparr>lru_list := remove_entry a ?l,
      lru_map := (lru_map c)(entry_key ?l a := None), lastRemovedEntry := Some a\<rparr>)"
    using h by (simp add: evict_def Let_def)
  show "list_rep (remove_entry a ?l) as" using list_rep_remove [OF rep, of a] by simp
  show "\<forall>k e. ((lru_map c)(entry_key (lru_list c) a := None)) k = Some e \<longleftrightarrow>
       e \<in> set as \<and> entry_key (lru_list c) e = k"
    using assms list_rep_distinct [OF rep]
    by (auto simp: lru_rep_def split: if_splits) (metis image_eqI)
qed

lemma evict_not_full:
  "lru_rep c as \<Longrightarrow> length as \<noteq> maxSize c \<Longrightarrow> evict c = (None, c)"
  by (auto simp: evict_def Let_def lru_rep_def list_rep_def)

text \<open>Storing a value in an entry object that is not in the list, and appending it.\<close>

definition store_at :: "addr \<Rightarrow> string \<Rightarrow> 'v \<Rightarrow> 'v linked_list \<Rightarrow> 'v linked_list" where
  "store_at e k v l =
     insertEntry e (l\<lparr>entry_value := (entry_value l)(e := v), entry_key := (entry_key l)(e := k)\<rparr>)"

lemma store_at_rep:
  assumes "list_rep l as" "e \<notin> set as" "e < fresh l" "prev l e = None" "next l e = None"
  shows "list_rep (store_at e k v l) (as @ [e])"
    "bindings (store_at e k v l) (as @ [e]) = bindings l as @ [(k, v)]"
    "fresh (store_at e k v l) = fresh l"
    "entry_key (store_at e k v l) = (entry_key l)(e := k)"
proof -
  let ?l = "l\<lparr>entry_value := (entry_value l)(e := v), entry_key := (entry_key l)(e := k)\<rparr>"
  have "list_rep ?l as" using assms(1) by (simp add: list_rep_def)
  then show "list_rep (store_at e k v l) (as @ [e])"
    unfolding store_at_def using assms by (intro list_rep_insert) auto
qed (use assms(2) in \<open>auto simp: store_at_def bindings_def\<close>)

lemma insertEntry_links:
  assumes "list_rep l as" "x \<notin> set as" "x \<noteq> e"
  shows "prev (insertEntry e l) x = prev l x \<and> next (insertEntry e l) x = next l x"
proof -
  have "head l \<noteq> None \<Longrightarrow> tail l = Some (last as) \<and> last as \<in> set as"
    using assms(1) by (auto simp: list_rep_def chain_def last_opt_def)
  then show ?thesis using assms by (auto simp: insertEntry_def Let_def split: option.splits)
qed

lemma store_at_links:
  assumes "list_rep l as" "x \<notin> set as" "x \<noteq> e"
  shows "prev (store_at e k v l) x = prev l x \<and> next (store_at e k v l) x = next l x"
  using insertEntry_links [of "l\<lparr>entry_value := (entry_value l)(e := v),
      entry_key := (entry_key l)(e := k)\<rparr>" as x e] assms
  by (simp add: store_at_def list_rep_def)

lemma new_Entry_rep:
  assumes "list_rep l as"
  shows "list_rep (snd (new_Entry v l)) as" "fst (new_Entry v l) \<notin> set as"
proof -
  have f: "\<forall>a\<in>set as. a < fresh l" using assms by (simp add: list_rep_def)
  have "chain (head l) (tail l) (prev l) (next l) as =
      chain (head l) (tail l) ((prev l)(fresh l := None)) ((next l)(fresh l := None)) as"
    by (rule chain_cong) (use f in auto)
  then show "list_rep (snd (new_Entry v l)) as"
    using assms by (auto simp: new_Entry_def list_rep_def Let_def)
  show "fst (new_Entry v l) \<notin> set as" using f by (auto simp: new_Entry_def Let_def)
qed

lemma put_new_eq:
  assumes "lru_map c k = None"
  shows "put k v c = (fst (evict c),
    case lastRemovedEntry c of
      Some e \<Rightarrow> (snd (evict c))\<lparr>lru_list := store_at e k v (lru_list (snd (evict c))),
                  lru_map := (lru_map (snd (evict c)))(k \<mapsto> e)\<rparr>
    | None \<Rightarrow> (snd (evict c))\<lparr>
        lru_list := store_at (fst (new_Entry v (lru_list (snd (evict c))))) k v
                      (snd (new_Entry v (lru_list (snd (evict c))))),
        lru_map := (lru_map (snd (evict c)))(k \<mapsto> fst (new_Entry v (lru_list (snd (evict c)))))\<rparr>)"
  using assms
  by (auto simp: put_def store_at_def new_Entry_def Let_def fun_upd_same split: option.splits prod.splits)

text \<open>Adding a binding for a new key to a cache with room for it.\<close>

lemma lru_rep_store:
  assumes l: "list_rep l as" "distinct (map (entry_key l) as)" "k \<notin> entry_key l ` set as"
    and e: "e \<notin> set as" "e < fresh l" "prev l e = None" "next l e = None"
    and m: "\<forall>k' e'. m k' = Some e' \<longleftrightarrow> e' \<in> set as \<and> entry_key l e' = k'"
    and n: "length as < n"
    and r: "\<forall>x. lr = Some x \<longrightarrow> x \<notin> set as \<and> x \<noteq> e \<and> x < fresh l \<and> prev l x = None \<and> next l x = None"
      "lr \<noteq> None \<longrightarrow> Suc (length as) = n"
  shows "lru_rep \<lparr>lru_list = store_at e k v l, maxSize = n, lru_map = m(k \<mapsto> e), lastRemovedEntry = lr\<rparr>
    (as @ [e])"
proof -
  have "distinct (map ((entry_key l)(e := k)) (as @ [e]))" using l(2,3) e(1) by (simp add: map_fun_upd)
  moreover have "\<forall>k' e'. (m(k \<mapsto> e)) k' = Some e' \<longleftrightarrow>
      e' \<in> set (as @ [e]) \<and> ((entry_key l)(e := k)) e' = k'"
    using m e(1) l(3) by (auto split: if_splits)
  moreover have "\<forall>x. lr = Some x \<longrightarrow> x \<notin> set (as @ [e]) \<and> x < fresh l \<and>
      prev (store_at e k v l) x = None \<and> next (store_at e k v l) x = None"
    using r(1) store_at_links [OF l(1)] by auto
  ultimately show ?thesis
    using store_at_rep [OF l(1) e, of k v] n r(2) unfolding lru_rep_def by simp
qed

lemma put_refines:
  assumes rep: "lru_rep c as"
  shows "lru_abs (snd (put k v c)) (a_put (maxSize c) k v (bindings (lru_list c) as))"
proof (cases "lru_map c k")
  case (Some e)
  then show ?thesis using rep map_of_bindings [OF rep, of k]
    by (auto simp: put_def a_put_def lru_abs_def)
next
  case None
  let ?l = "lru_list c" and ?kvs = "bindings (lru_list c) as"
  have lr: "list_rep ?l as" and dist: "distinct (map (entry_key ?l) as)" and pos: "0 < maxSize c"
    using rep by (auto simp: lru_rep_def)
  have nk: "k \<notin> entry_key ?l ` set as"
    using rep None unfolding lru_rep_def by (metis imageE option.distinct(1))
  have put': "a_put (maxSize c) k v ?kvs = a_evict (maxSize c) ?kvs @ [(k, v)]"
    using map_of_bindings [OF rep, of k] None by (simp add: a_put_def)
  show ?thesis
  proof (cases "length as = maxSize c")
    case False
    have lrn: "lastRemovedEntry c = None" using rep False by (auto simp: lru_rep_def)
    let ?e = "fst (new_Entry v ?l)" and ?l' = "snd (new_Entry v ?l)"
    have n: "list_rep ?l' as" "?e \<notin> set as" using new_Entry_rep [OF lr] by auto
    have f: "?e < fresh ?l'" "prev ?l' ?e = None" "next ?l' ?e = None" "entry_key ?l' = entry_key ?l"
      by (auto simp: new_Entry_def Let_def)
    have b: "bindings ?l' as = ?kvs" using n(2) by (auto simp: bindings_def new_Entry_def Let_def)
    have p: "snd (put k v c) = \<lparr>lru_list = store_at ?e k v ?l', maxSize = maxSize c,
        lru_map = (lru_map c)(k \<mapsto> ?e), lastRemovedEntry = None\<rparr>"
      using put_new_eq [OF None, of v] evict_not_full [OF rep False] lrn by simp
    have "lru_rep (snd (put k v c)) (as @ [?e])"
      unfolding p
      by (rule lru_rep_store) (use n f dist nk rep False in \<open>auto simp: lru_rep_def\<close>)
    moreover have "a_evict (maxSize c) ?kvs = ?kvs"
      using False rep by (auto simp: a_evict_def bindings_def lru_rep_def)
    ultimately show ?thesis
      using store_at_rep(2) [OF n f(1,2,3), of k v] b put' p unfolding lru_abs_def
      by (intro exI [of _ "as @ [?e]"]) simp
  next
    case True
    then obtain a as' where as: "as = a # as'" using pos by (cases as) auto
    note ev = evict_full [OF rep [unfolded as] True [unfolded as]]
    let ?r = "remove_entry a ?l"
    have d: "a \<notin> set as'" using list_rep_distinct [OF lr] as by simp
    have al: "a < fresh ?l" using lr as by (simp add: list_rep_def)
    have b: "bindings ?r as' = a_evict (maxSize c) ?kvs"
      using True as by (simp add: a_evict_def bindings_def)
    show ?thesis
    proof (cases "lastRemovedEntry c")
      case (Some e)
      have e: "e \<notin> set as" "e < fresh ?l" "prev ?l e = None" "next ?l e = None"
        using rep Some by (auto simp: lru_rep_def)
      have e': "e \<notin> set as'" "e < fresh ?r" "prev ?r e = None" "next ?r e = None" "e \<noteq> a"
        using e as remove_entry_links_other [OF lr, of a e] by auto
      have p: "snd (put k v c) = \<lparr>lru_list = store_at e k v ?r, maxSize = maxSize c,
          lru_map = (lru_map c)(entry_key ?l a := None, k \<mapsto> e), lastRemovedEntry = Some a\<rparr>"
        using put_new_eq [OF None, of v] ev(1) Some by simp
      have "lru_rep (snd (put k v c)) (as' @ [e])"
        unfolding p
        by (rule lru_rep_store) (use ev(2,3) e' dist nk d al True as in auto)
      then show ?thesis
        using store_at_rep(2) [OF ev(2) e'(1-4), of k v] b put' p unfolding lru_abs_def
        by (intro exI [of _ "as' @ [e]"]) simp
    next
      case lrn: None
      let ?e = "fst (new_Entry v ?r)" and ?l' = "snd (new_Entry v ?r)"
      have n: "list_rep ?l' as'" "?e \<notin> set as'" using new_Entry_rep [OF ev(2)] by auto
      have f: "?e < fresh ?l'" "prev ?l' ?e = None" "next ?l' ?e = None" "entry_key ?l' = entry_key ?l"
          "a < fresh ?l'" "a \<noteq> ?e" "prev ?l' a = None" "next ?l' a = None"
        using al by (auto simp: new_Entry_def Let_def)
      have b': "bindings ?l' as' = bindings ?r as'"
        using n(2) by (auto simp: bindings_def new_Entry_def Let_def)
      have p: "snd (put k v c) = \<lparr>lru_list = store_at ?e k v ?l', maxSize = maxSize c,
          lru_map = (lru_map c)(entry_key ?l a := None, k \<mapsto> ?e), lastRemovedEntry = Some a\<rparr>"
        using put_new_eq [OF None, of v] ev(1) lrn by simp
      have "lru_rep (snd (put k v c)) (as' @ [?e])"
        unfolding p
        by (rule lru_rep_store) (use ev(3) n f dist nk d True as in auto)
      then show ?thesis
        using store_at_rep(2) [OF n f(1,2,3), of k v] b b' put' p unfolding lru_abs_def
        by (intro exI [of _ "as' @ [?e]"]) simp
    qed
  qed
qed

lemma bindings_remove1:
  assumes "distinct (map (entry_key l) as)" "e \<in> set as"
  shows "bindings l (remove1 e as) = filter (\<lambda>kv. fst kv \<noteq> entry_key l e) (bindings l as)"
  using assms
proof (induction as)
  case (Cons a as)
  show ?case
  proof (cases "a = e")
    case True
    then have "\<forall>x\<in>set as. entry_key l x \<noteq> entry_key l e" using Cons.prems by (auto simp: image_iff)
    then show ?thesis using True by (auto simp: bindings_def filter_map comp_def intro!: filter_True [symmetric])
  next
    case False
    then have "entry_key l a \<noteq> entry_key l e" using Cons.prems by (auto simp: image_iff)
    then show ?thesis using Cons False by (simp add: bindings_def)
  qed
qed simp

lemma get_refines:
  assumes rep: "lru_rep c as"
  shows "lru_abs (snd (get k c)) (a_get k (bindings (lru_list c) as))"
    "fst (get k c) = map_of (bindings (lru_list c) as) k"
proof -
  let ?l = "lru_list c" and ?kvs = "bindings (lru_list c) as"
  note mo = map_of_bindings [OF rep, of k]
  have "lru_abs (snd (get k c)) (a_get k ?kvs) \<and> fst (get k c) = map_of ?kvs k"
  proof (cases "lru_map c k")
    case None
    then show ?thesis using rep mo by (auto simp: get_def a_get_def lru_abs_def)
  next
    case (Some e)
    have e: "e \<in> set as" "entry_key ?l e = k" using lru_rep_mapD [OF rep Some] by auto
    have lr: "list_rep ?l as" and dist: "distinct (map (entry_key ?l) as)"
      using rep by (auto simp: lru_rep_def)
    have ag: "a_get k ?kvs = bindings ?l (remove1 e as @ [e])"
      using mo Some e bindings_remove1 [OF dist e(1)] by (simp add: a_get_def bindings_def)
    show ?thesis
    proof (cases "tail ?l = Some e")
      case True
      then have "last as = e" using chain_tail_iff [of "head ?l" "tail ?l" "prev ?l" "next ?l" as e] lr e
        by (simp add: list_rep_def)
      then obtain as0 where as: "as = as0 @ [e]" using e(1) by (cases as rule: rev_cases) auto
      then have "remove1 e as @ [e] = as" using list_rep_distinct [OF lr] by (simp add: remove1_append)
      then show ?thesis using True Some ag mo rep by (auto simp: get_def lru_abs_def)
    next
      case False
      let ?l' = "insertEntry e (remove_entry e ?l)"
      let ?as = "remove1 e as @ [e]"
      have rm: "list_rep (remove_entry e ?l) (remove1 e as)" using list_rep_remove [OF lr e(1)] .
      have d: "distinct as" using list_rep_distinct [OF lr] .
      have rep': "list_rep ?l' ?as"
        by (rule list_rep_insert [OF rm]) (use d e lr in \<open>auto simp: list_rep_def\<close>)
      have links: "prev ?l' x = None \<and> next ?l' x = None \<and> x \<notin> set ?as"
        if "lastRemovedEntry c = Some x" for x
      proof -
        have x: "x \<notin> set as" "prev ?l x = None" "next ?l x = None"
          using rep that by (auto simp: lru_rep_def)
        have "x \<noteq> e" "x \<notin> set (remove1 e as)" using x(1) e(1) d by auto
        then show ?thesis
          using insertEntry_links [OF rm, of x e] remove_entry_links_other [OF lr e(1) x(1)] x by auto
      qed
      have "length ?as = length as"
        using e(1) length_pos_if_in_set [OF e(1)] by (simp add: length_remove1)
      moreover have "set ?as = set as" "distinct (map (entry_key ?l) ?as)"
        using e(1) d dist by (auto simp: distinct_map inj_on_def)
      ultimately have "lru_rep (c\<lparr>lru_list := ?l'\<rparr>) ?as"
        using rep rep' links unfolding lru_rep_def by auto
      then show ?thesis using False Some ag mo
        by (auto simp: get_def lru_abs_def Let_def bindings_def intro!: exI [of _ ?as])
    qed
  qed
  then show "lru_abs (snd (get k c)) (a_get k ?kvs)" "fst (get k c) = map_of ?kvs k" by auto
qed

lemma put_maxSize [simp]: "maxSize (snd (put k v c)) = maxSize c"
  by (auto simp: put_def evict_def Let_def split: option.splits prod.splits if_splits)

lemma get_maxSize [simp]: "maxSize (snd (get k c)) = maxSize c"
  by (auto simp: get_def Let_def split: option.splits)

lemma put_removed:
  assumes rep: "lru_rep c as"
  shows "fst (put k v c) =
    (if map_of (bindings (lru_list c) as) k = None \<and> length as = maxSize c
     then Some (snd (hd (bindings (lru_list c) as))) else None)"
proof (cases "lru_map c k = None \<and> length as = maxSize c")
  case True
  then obtain a as' where as: "as = a # as'" using rep by (cases as) (auto simp: lru_rep_def)
  have "fst (put k v c) = fst (evict c)" using True put_new_eq [of c k v] by simp
  then show ?thesis
    using True as evict_full(1) [OF rep [unfolded as]] map_of_bindings [OF rep, of k]
    by (simp add: bindings_def)
next
  case False
  then show ?thesis
    using map_of_bindings [OF rep, of k] put_new_eq [of c k v] evict_not_full [OF rep]
    by (cases "lru_map c k") (auto simp: put_def)
qed

section \<open>Sequences of operations\<close>

datatype 'v lru_op = Put string 'v | Get string

fun lru_step :: "'v lru_op \<Rightarrow> 'v lru \<Rightarrow> 'v option \<times> 'v lru" where
  "lru_step (Put k v) c = put k v c"
| "lru_step (Get k) c = get k c"

fun a_step :: "nat \<Rightarrow> 'v lru_op \<Rightarrow> 'v acache \<Rightarrow> 'v option \<times> 'v acache" where
  "a_step n (Put k v) kvs =
     (if map_of kvs k = None \<and> length kvs = n then Some (snd (hd kvs)) else None, a_put n k v kvs)"
| "a_step n (Get k) kvs = (map_of kvs k, a_get k kvs)"

lemma lru_step_refines:
  assumes "lru_abs c kvs"
  shows "fst (lru_step x c) = fst (a_step (maxSize c) x kvs)"
    "lru_abs (snd (lru_step x c)) (snd (a_step (maxSize c) x kvs))"
    "maxSize (snd (lru_step x c)) = maxSize c"
proof -
  obtain as where rep: "lru_rep c as" and kvs: "kvs = bindings (lru_list c) as"
    using assms by (auto simp: lru_abs_def)
  have l: "length kvs = length as" by (simp add: kvs bindings_def)
  show "fst (lru_step x c) = fst (a_step (maxSize c) x kvs)"
    using put_removed [OF rep] get_refines(2) [OF rep] l kvs by (cases x) auto
  show "lru_abs (snd (lru_step x c)) (snd (a_step (maxSize c) x kvs))"
    using put_refines [OF rep] get_refines(1) [OF rep] kvs by (cases x) auto
  show "maxSize (snd (lru_step x c)) = maxSize c" by (cases x) auto
qed

interpretation lru: simulation lru_step "a_step n" "\<lambda>c kvs. lru_abs c kvs \<and> maxSize c = n" for n
  by unfold_locales (auto simp: lru_step_refines)

lemma lru_abs_length: "lru_abs c kvs \<Longrightarrow> lru_len c = length kvs \<and> length kvs \<le> maxSize c \<and> distinct (map fst kvs)"
  by (auto simp: lru_abs_def lru_rep_def lru_len_def list_rep_def bindings_def comp_def)

section \<open>Properties\<close>

text \<open>
  C11: the linked-list cache is an LRU cache.  Starting from a new cache of positive capacity, any
  sequence of \<^verbatim>\<open>put\<close> and \<^verbatim>\<open>get\<close> calls returns exactly what the abstract cache (a list of
  bindings in order of use) returns, including the evicted values that \<^verbatim>\<open>put\<close> reports; the
  number of cached entries is the length of that list and never exceeds the capacity.
\<close>

theorem lru_cache_correct:
  assumes "0 < n"
  shows "fst (run lru_step ops (LRU undef n)) = fst (run (a_step n) ops []) \<and>
    lru_len (snd (run lru_step ops (LRU undef n))) = length (snd (run (a_step n) ops [])) \<and>
    lru_len (snd (run lru_step ops (LRU undef n))) \<le> n"
proof -
  have "lru_abs (LRU undef n) []"
    using LRU_rep [OF assms, of undef] unfolding lru_abs_def bindings_def by auto
  then have "lru_abs (LRU undef n) [] \<and> maxSize (LRU undef n) = n" by (simp add: LRU_def)
  from lru.run_out [OF this, of ops] lru.run_rep [OF this, of ops] lru_abs_length show ?thesis by metis
qed

theorem lru_cache_correct_witness:
  "0 < (2::nat) \<and>
   fst (run lru_step [Put ''a'' (1::int), Put ''b'' 2, Get ''a'', Put ''c'' 3, Get ''b''] (LRU (0::int) 2))
     = [None, None, Some 1, Some 2, None]"
proof -
  have "fst (run (a_step 2) [Put ''a'' (1::int), Put ''b'' 2, Get ''a'', Put ''c'' 3, Get ''b''] [])
     = [None, None, Some (1::int), Some 2, None]"
    by (simp add: a_put_def a_get_def a_evict_def)
  then show ?thesis
    using lru_cache_correct [of 2 "[Put ''a'' (1::int), Put ''b'' 2, Get ''a'', Put ''c'' 3, Get ''b'']" 0]
    by (metis zero_less_numeral)
qed

text \<open>
  clearing the cache does not reset \<^verbatim>\<open>_lastRemovedEntry\<close>.  After an eviction and a
  \<^verbatim>\<open>clear()\<close>, the next two insertions share one entry object: with capacity two, after
  \<^verbatim>\<open>put a, put b, put c, clear, put d, put e\<close> the lookup of \<^verbatim>\<open>d\<close> returns the value stored
  for \<^verbatim>\<open>e\<close>, and the list is no chain of two entries.
\<close>

theorem lru_clear_aliases_entries:
  "let c = clear_lru (snd (run lru_step [Put ''a'' 1, Put ''b'' 2, Put ''c'' 3] (LRU (0::int) 2)));
       c' = snd (run lru_step [Put ''d'' 4, Put ''e'' 5] c)
   in lru_len c = 0 \<and> lru_len c' = 2 \<and> fst (get ''d'' c') = Some 5 \<and> head (lru_list c') = tail (lru_list c')"
  by (simp add: LRU_def LinkedList_def put_def get_def evict_def clear_lru_def clear_list_def lru_len_def
      insertEntry_def remove_entry_def new_Entry_def Let_def)

end
