(* ===== verification/Geometry.thy ===== *)
theory Geometry
  imports Complex_Main Prelude
begin

text \<open>
  Vectors, affine matrices, points and bounding rectangles (\<^verbatim>\<open>src/html/js/echarts.js\<close>, lines
  804-915, 1512-1610, 1624-1752 and 1761-1962).  Coordinates are real numbers: rounding, and the
  values \<^verbatim>\<open>NaN\<close> and \<^verbatim>\<open>Infinity\<close>, are outside the model.  A function with an
  \<^verbatim>\<open>out\<close> argument returns the new contents of \<^verbatim>\<open>out\<close>; none of them reads a component of an
  argument after writing the same component of \<^verbatim>\<open>out\<close>, so the result is the same when
  \<^verbatim>\<open>out\<close> is one of the arguments.
\<close>

section \<open>Vectors\<close>

type_synonym vec = "real \<times> real"

definition vec_create :: "real option \<Rightarrow> real option \<Rightarrow> vec" where
  "vec_create x y = (case x of None \<Rightarrow> 0 | Some a \<Rightarrow> a, case y of None \<Rightarrow> 0 | Some b \<Rightarrow> b)"

definition vec_add :: "vec \<Rightarrow> vec \<Rightarrow> vec" where
  "vec_add v1 v2 = (fst v1 + fst v2, snd v1 + snd v2)"

definition vec_scaleAndAdd :: "vec \<Rightarrow> vec \<Rightarrow> real \<Rightarrow> vec" where
  "vec_scaleAndAdd v1 v2 a = (fst v1 + fst v2 * a, snd v1 + snd v2 * a)"

definition vec_sub :: "vec \<Rightarrow> vec \<Rightarrow> vec" where
  "vec_sub v1 v2 = (fst v1 - fst v2, snd v1 - snd v2)"

definition lenSquare :: "vec \<Rightarrow> real" where
  "lenSquare v = fst v * fst v + snd v * snd v"

definition vec_len :: "vec \<Rightarrow> real" where
  "vec_len v = sqrt (lenSquare v)"

definition vec_mul :: "vec \<Rightarrow> vec \<Rightarrow> vec" where
  "vec_mul v1 v2 = (fst v1 * fst v2, snd v1 * snd v2)"

definition vec_dot :: "vec \<Rightarrow> vec \<Rightarrow> real" where
  "vec_dot v1 v2 = fst v1 * fst v2 + snd v1 * snd v2"

definition vec_scale :: "vec \<Rightarrow> real \<Rightarrow> vec" where
  "vec_scale v s = (fst v * s, snd v * s)"

definition vec_normalize :: "vec \<Rightarrow> vec" where
  "vec_normalize v =
     (let d = vec_len v in if d = 0 then (0, 0) else (fst v / d, snd v / d))"

definition distanceSquare :: "vec \<Rightarrow> vec \<Rightarrow> real" where
  "distanceSquare v1 v2 =
     (fst v1 - fst v2) * (fst v1 - fst v2) + (snd v1 - snd v2) * (snd v1 - snd v2)"

definition vec_distance :: "vec \<Rightarrow> vec \<Rightarrow> real" where
  "vec_distance v1 v2 =
     sqrt ((fst v1 - fst v2) * (fst v1 - fst v2) + (snd v1 - snd v2) * (snd v1 - snd v2))"

definition vec_negate :: "vec \<Rightarrow> vec" where
  "vec_negate v = (- fst v, - snd v)"

definition vec_lerp :: "vec \<Rightarrow> vec \<Rightarrow> real \<Rightarrow> vec" where
  "vec_lerp v1 v2 t = (fst v1 + t * (fst v2 - fst v1), snd v1 + t * (snd v2 - snd v1))"

definition vec_min :: "vec \<Rightarrow> vec \<Rightarrow> vec" where
  "vec_min v1 v2 = (min (fst v1) (fst v2), min (snd v1) (snd v2))"

definition vec_max :: "vec \<Rightarrow> vec \<Rightarrow> vec" where
  "vec_max v1 v2 = (max (fst v1) (fst v2), max (snd v1) (snd v2))"

section \<open>Affine matrices\<close>

text \<open>A matrix is an array of six numbers, the columns of a 2x3 matrix.\<close>

datatype mat = Mat (m0: real) (m1: real) (m2: real) (m3: real) (m4: real) (m5: real)

definition applyTransform :: "vec \<Rightarrow> mat \<Rightarrow> vec" where
  "applyTransform v m =
     (let x = fst v; y = snd v
      in (m0 m * x + m2 m * y + m4 m, m1 m * x + m3 m * y + m5 m))"

definition mat_identity :: mat where
  "mat_identity = Mat 1 0 0 1 0 0"

definition mat_mul :: "mat \<Rightarrow> mat \<Rightarrow> mat" where
  "mat_mul a b =
     (let out0 = m0 a * m0 b + m2 a * m1 b;
          out1 = m1 a * m0 b + m3 a * m1 b;
          out2 = m0 a * m2 b + m2 a * m3 b;
          out3 = m1 a * m2 b + m3 a * m3 b;
          out4 = m0 a * m4 b + m2 a * m5 b + m4 a;
          out5 = m1 a * m4 b + m3 a * m5 b + m5 a
      in Mat out0 out1 out2 out3 out4 out5)"

definition mat_translate :: "mat \<Rightarrow> vec \<Rightarrow> mat" where
  "mat_translate a v = Mat (m0 a) (m1 a) (m2 a) (m3 a) (m4 a + fst v) (m5 a + snd v)"

definition mat_rotate :: "mat \<Rightarrow> real \<Rightarrow> mat" where
  "mat_rotate a rad =
     (let st = sin rad; ct = cos rad
      in Mat (m0 a * ct + m1 a * st) (- m0 a * st + m1 a * ct)
             (m2 a * ct + m3 a * st) (- m2 a * st + ct * m3 a)
             (ct * m4 a + st * m5 a) (ct * m5 a - st * m4 a))"

definition mat_scale :: "mat \<Rightarrow> vec \<Rightarrow> mat" where
  "mat_scale a v =
     (let vx = fst v; vy = snd v
      in Mat (m0 a * vx) (m1 a * vy) (m2 a * vx) (m3 a * vy) (m4 a * vx) (m5 a * vy))"

definition mat_invert :: "mat \<Rightarrow> mat option" where
  "mat_invert a =
     (let det = m0 a * m3 a - m1 a * m2 a
      in if det = 0 then None
         else let det = 1 / det
              in Some (Mat (m3 a * det) (- m1 a * det) (- m2 a * det) (m0 a * det)
                   ((m2 a * m5 a - m3 a * m4 a) * det) ((m1 a * m4 a - m0 a * m5 a) * det)))"

section \<open>Points\<close>

record point =
  px :: real
  py :: real

definition pt :: "real \<Rightarrow> real \<Rightarrow> point" where
  "pt x y = \<lparr>px = x, py = y\<rparr>"

definition pt_equal :: "point \<Rightarrow> point \<Rightarrow> bool" where
  "pt_equal p q \<longleftrightarrow> px q = px p \<and> py q = py p"

definition pt_add :: "point \<Rightarrow> point \<Rightarrow> point" where
  "pt_add p q = p\<lparr>px := px p + px q, py := py p + py q\<rparr>"

definition pt_scale :: "point \<Rightarrow> real \<Rightarrow> point" where
  "pt_scale p s = p\<lparr>px := px p * s, py := py p * s\<rparr>"

definition pt_scaleAndAdd :: "point \<Rightarrow> point \<Rightarrow> real \<Rightarrow> point" where
  "pt_scaleAndAdd p q s = p\<lparr>px := px p + px q * s, py := py p + py q * s\<rparr>"

definition pt_sub :: "point \<Rightarrow> point \<Rightarrow> point" where
  "pt_sub p q = p\<lparr>px := px p - px q, py := py p - py q\<rparr>"

definition pt_dot :: "point \<Rightarrow> point \<Rightarrow> real" where
  "pt_dot p q = px p * px q + py p * py q"

definition pt_lenSquare :: "point \<Rightarrow> real" where
  "pt_lenSquare p = px p * px p + py p * py p"

definition pt_len :: "point \<Rightarrow> real" where
  "pt_len p = sqrt (px p * px p + py p * py p)"

definition pt_distance :: "point \<Rightarrow> point \<Rightarrow> real" where
  "pt_distance p q = (let dx = px p - px q; dy = py p - py q in sqrt (dx * dx + dy * dy))"

definition pt_distanceSquare :: "point \<Rightarrow> point \<Rightarrow> real" where
  "pt_distanceSquare p q = (let dx = px p - px q; dy = py p - py q in dx * dx + dy * dy)"

definition pt_negate :: "point \<Rightarrow> point" where
  "pt_negate p = p\<lparr>px := - px p, py := - py p\<rparr>"

definition pt_transform :: "mat option \<Rightarrow> point \<Rightarrow> point" where
  "pt_transform m p =
     (case m of
        None \<Rightarrow> p
      | Some m \<Rightarrow>
          (let x = px p; y = py p
           in p\<lparr>px := m0 m * x + m2 m * y + m4 m, py := m1 m * x + m3 m * y + m5 m\<rparr>))"

definition pt_lerp :: "point \<Rightarrow> point \<Rightarrow> real \<Rightarrow> point" where
  "pt_lerp p q t =
     (let onet = 1 - t in \<lparr>px = onet * px p + t * px q, py = onet * py p + t * py q\<rparr>)"

section \<open>Bounding rectangles\<close>

record rect =
  rx :: real
  ry :: real
  rwidth :: real
  rheight :: real

definition BoundingRect :: "real \<Rightarrow> real \<Rightarrow> real \<Rightarrow> real \<Rightarrow> rect" where
  "BoundingRect x y width height =
     (let (x, width) = (if width < 0 then (x + width, - width) else (x, width));
          (y, height) = (if height < 0 then (y + height, - height) else (y, height))
      in \<lparr>rx = x, ry = y, rwidth = width, rheight = height\<rparr>)"

text \<open>All numbers of the model are finite.\<close>

definition isFinite :: "real \<Rightarrow> bool" where
  "isFinite _ = True"

definition rect_union :: "rect \<Rightarrow> rect \<Rightarrow> rect" where
  "rect_union this other =
     (let x = min (rx other) (rx this);
          y = min (ry other) (ry this);
          w = (if isFinite (rx this) \<and> isFinite (rwidth this)
               then max (rx other + rwidth other) (rx this + rwidth this) - x else rwidth other);
          h = (if isFinite (ry this) \<and> isFinite (rheight this)
               then max (ry other + rheight other) (ry this + rheight this) - y else rheight other)
      in this\<lparr>rwidth := w, rheight := h, rx := x, ry := y\<rparr>)"

definition calculateTransform :: "rect \<Rightarrow> rect \<Rightarrow> mat" where
  "calculateTransform a b =
     (let sx = rwidth b / rwidth a;
          sy = rheight b / rheight a;
          m = mat_identity;
          m = mat_translate m (- rx a, - ry a);
          m = mat_scale m (sx, sy);
          m = mat_translate m (rx b, ry b)
      in m)"

definition overlap :: "rect \<Rightarrow> rect \<Rightarrow> bool" where
  "overlap a b \<longleftrightarrow>
     (let ax0 = rx a; ax1 = rx a + rwidth a; ay0 = ry a; ay1 = ry a + rheight a;
          bx0 = rx b; bx1 = rx b + rwidth b; by0 = ry b; by1 = ry b + rheight b
      in \<not> (ax1 < bx0 \<or> bx1 < ax0 \<or> ay1 < by0 \<or> by1 < ay0))"

text \<open>
  The minimum-translation-vector part of \<^verbatim>\<open>intersect\<close>.  \<^verbatim>\<open>dMin\<close> starts as
  \<^verbatim>\<open>Infinity\<close>, the value \<^term>\<open>None\<close>; the module-level points \<^verbatim>\<open>minTv\<close> and
  \<^verbatim>\<open>maxTv\<close> are passed in and returned, since a call leaves the one it does not write as the
  previous call left it.
\<close>

definition below :: "real \<Rightarrow> real option \<Rightarrow> bool" where
  "below d dMin \<longleftrightarrow> (case dMin of None \<Rightarrow> True | Some m \<Rightarrow> d < m)"

definition intersect_mtv :: "rect \<Rightarrow> rect \<Rightarrow> point \<times> point \<Rightarrow> point \<times> point" where
  "intersect_mtv a b tvs =
     (let (minTv, maxTv) = tvs; dMin = None; dMax = 0;
          ax0 = rx a; ax1 = rx a + rwidth a; ay0 = ry a; ay1 = ry a + rheight a;
          bx0 = rx b; bx1 = rx b + rwidth b; by0 = ry b; by1 = ry b + rheight b;
          d0 = \<bar>ax1 - bx0\<bar>; d1 = \<bar>bx1 - ax0\<bar>; d2 = \<bar>ay1 - by0\<bar>; d3 = \<bar>by1 - ay0\<bar>;
          dx = min d0 d1; dy = min d2 d3;
          (dMin, dMax, minTv, maxTv) =
            (if ax1 < bx0 \<or> bx1 < ax0
             then if dx > dMax then (dMin, dx, minTv, if d0 < d1 then pt (- d0) 0 else pt d1 0)
                  else (dMin, dMax, minTv, maxTv)
             else if below dx dMin then (Some dx, dMax, if d0 < d1 then pt d0 0 else pt (- d1) 0, maxTv)
                  else (dMin, dMax, minTv, maxTv));
          (dMin, dMax, minTv, maxTv) =
            (if ay1 < by0 \<or> by1 < ay0
             then if dy > dMax then (dMin, dy, minTv, if d2 < d3 then pt 0 (- d2) else pt 0 d3)
                  else (dMin, dMax, minTv, maxTv)
             else if below dx dMin then (Some dx, dMax, if d2 < d3 then pt 0 d2 else pt 0 (- d3), maxTv)
                  else (dMin, dMax, minTv, maxTv))
      in (minTv, maxTv))"

text \<open>
  \<^verbatim>\<open>intersect(b, mtv)\<close>: the result, the new value of \<^verbatim>\<open>mtv\<close>, and the two shared points.
\<close>

definition intersect ::
  "rect \<Rightarrow> rect option \<Rightarrow> point option \<Rightarrow> point \<times> point \<Rightarrow> bool \<times> point option \<times> point \<times> point" where
  "intersect a b mtv tvs =
     (case b of
        None \<Rightarrow> (False, mtv, tvs)
      | Some b \<Rightarrow>
          (case mtv of
             None \<Rightarrow> (overlap a b, None, tvs)
           | Some _ \<Rightarrow>
               (let (minTv, maxTv) = intersect_mtv a b tvs
                in (overlap a b, Some (if overlap a b then minTv else maxTv), minTv, maxTv))))"

definition contain :: "rect \<Rightarrow> real \<Rightarrow> real \<Rightarrow> bool" where
  "contain r x y \<longleftrightarrow> x \<ge> rx r \<and> x \<le> rx r + rwidth r \<and> y \<ge> ry r \<and> y \<le> ry r + rheight r"

definition isZero :: "rect \<Rightarrow> bool" where
  "isZero r \<longleftrightarrow> rwidth r = 0 \<or> rheight r = 0"

definition rect_create :: "rect \<Rightarrow> rect" where
  "rect_create r = BoundingRect (rx r) (ry r) (rwidth r) (rheight r)"

definition rect_applyTransform :: "rect \<Rightarrow> mat option \<Rightarrow> rect" where
  "rect_applyTransform source mo =
     (case mo of
        None \<Rightarrow> source
      | Some m \<Rightarrow>
          if m1 m < 1 / 10^5 \<and> m1 m > - 1 / 10^5 \<and> m2 m < 1 / 10^5 \<and> m2 m > - 1 / 10^5
          then let sx = m0 m; sy = m3 m; tx = m4 m; ty = m5 m;
                   x = rx source * sx + tx; y = ry source * sy + ty;
                   w = rwidth source * sx; h = rheight source * sy;
                   (x, w) = (if w < 0 then (x + w, - w) else (x, w));
                   (y, h) = (if h < 0 then (y + h, - h) else (y, h))
               in \<lparr>rx = x, ry = y, rwidth = w, rheight = h\<rparr>
          else let lt = pt_transform mo (pt (rx source) (ry source));
                   rt = pt_transform mo (pt (rx source + rwidth source) (ry source));
                   rb = pt_transform mo (pt (rx source + rwidth source) (ry source + rheight source));
                   lb = pt_transform mo (pt (rx source) (ry source + rheight source));
                   x = min (min (min (px lt) (px rb)) (px lb)) (px rt);
                   y = min (min (min (py lt) (py rb)) (py lb)) (py rt);
                   maxX = max (max (max (px lt) (px rb)) (px lb)) (px rt);
                   maxY = max (max (max (py lt) (py rb)) (py lb)) (py rt)
               in \<lparr>rx = x, ry = y, rwidth = maxX - x, rheight = maxY - y\<rparr>)"

section \<open>Vectors and points\<close>

definition vec_of :: "point \<Rightarrow> vec" where
  "vec_of p = (px p, py p)"

lemma point_methods_agree:
  "vec_of (pt_add p q) = vec_add (vec_of p) (vec_of q)"
  "vec_of (pt_sub p q) = vec_sub (vec_of p) (vec_of q)"
  "vec_of (pt_scale p s) = vec_scale (vec_of p) s"
  "vec_of (pt_scaleAndAdd p q s) = vec_scaleAndAdd (vec_of p) (vec_of q) s"
  "vec_of (pt_negate p) = vec_negate (vec_of p)"
  "vec_of (pt_lerp p q t) = vec_lerp (vec_of p) (vec_of q) t"
  "vec_of (pt_transform (Some m) p) = applyTransform (vec_of p) m"
  "pt_dot p q = vec_dot (vec_of p) (vec_of q)" "pt_len p = vec_len (vec_of p)"
  "pt_lenSquare p = lenSquare (vec_of p)" "pt_distance p q = vec_distance (vec_of p) (vec_of q)"
  "pt_distanceSquare p q = distanceSquare (vec_of p) (vec_of q)"
  "pt_equal p q \<longleftrightarrow> vec_of p = vec_of q"
  by (auto simp: vec_of_def pt_add_def vec_add_def pt_sub_def vec_sub_def pt_scale_def vec_scale_def
      pt_scaleAndAdd_def vec_scaleAndAdd_def pt_negate_def vec_negate_def pt_lerp_def vec_lerp_def
      pt_transform_def applyTransform_def pt_dot_def vec_dot_def pt_len_def vec_len_def pt_lenSquare_def
      lenSquare_def pt_distance_def vec_distance_def pt_distanceSquare_def distanceSquare_def
      pt_equal_def Let_def algebra_simps)

lemma vec_len_zero_iff: "vec_len v = 0 \<longleftrightarrow> v = (0, 0)"
  by (cases v) (simp add: vec_len_def lenSquare_def sum_squares_eq_zero_iff)

lemma vec_len_mul_self: "vec_len v * vec_len v = lenSquare v"
  by (simp add: vec_len_def lenSquare_def)

lemma vec_normalize_unit: "v \<noteq> (0, 0) \<Longrightarrow> vec_len (vec_normalize v) = 1"
proof -
  assume v: "v \<noteq> (0, 0)"
  have "lenSquare (vec_normalize v) = lenSquare v / (vec_len v * vec_len v)"
    using v vec_len_zero_iff [of v]
    by (simp add: vec_normalize_def Let_def lenSquare_def add_divide_distrib)
  also have "\<dots> = 1" using v vec_len_zero_iff [of v] by (simp flip: vec_len_mul_self)
  finally show ?thesis by (simp add: vec_len_def)
qed

lemma vec_distance_sub: "vec_distance v w = vec_len (vec_sub v w)"
  by (simp add: vec_distance_def vec_len_def lenSquare_def vec_sub_def)

section \<open>Transforms\<close>

lemma applyTransform_mul: "applyTransform v (mat_mul a b) = applyTransform (applyTransform v b) a"
  by (simp add: applyTransform_def mat_mul_def Let_def algebra_simps)

lemma applyTransform_identity [simp]: "applyTransform v mat_identity = v"
  by (simp add: applyTransform_def mat_identity_def)

lemma mat_mul_identity [simp]: "mat_mul a mat_identity = a" "mat_mul mat_identity a = a"
  by (auto simp: mat_mul_def mat_identity_def Let_def)

lemma mat_mul_assoc: "mat_mul (mat_mul a b) c = mat_mul a (mat_mul b c)"
  by (simp add: mat_mul_def Let_def algebra_simps)

lemma invert_none_iff: "mat_invert a = None \<longleftrightarrow> m0 a * m3 a = m1 a * m2 a"
  by (auto simp: mat_invert_def Let_def)

lemma invert_mul:
  assumes "mat_invert a = Some b"
  shows "mat_mul a b = mat_identity" "mat_mul b a = mat_identity"
proof -
  define e where "e = 1 / (m0 a * m3 a - m1 a * m2 a)"
  have "m0 a * m3 a - m1 a * m2 a \<noteq> 0"
    using assms by (auto simp: mat_invert_def Let_def split: if_splits)
  then have e: "m0 a * m3 a * e = 1 + m1 a * m2 a * e"
    by (simp add: e_def field_simps)
  have b: "b = Mat (m3 a * e) (- m1 a * e) (- m2 a * e) (m0 a * e)
      ((m2 a * m5 a - m3 a * m4 a) * e) ((m1 a * m4 a - m0 a * m5 a) * e)"
    using assms by (auto simp: mat_invert_def Let_def e_def split: if_splits)
  have e4: "e * (m0 a * (m3 a * t)) = t + e * (m1 a * (m2 a * t))" for t
    using arg_cong [OF e, of "\<lambda>z. z * t"] by (simp add: algebra_simps)
  show "mat_mul a b = mat_identity"
    using e by (simp add: b mat_mul_def mat_identity_def Let_def algebra_simps e4)
  show "mat_mul b a = mat_identity"
    using e by (simp add: b mat_mul_def mat_identity_def Let_def algebra_simps)
qed

lemma translate_rotate_scale_mul:
  "mat_translate a v = mat_mul (Mat 1 0 0 1 (fst v) (snd v)) a"
  "mat_scale a v = mat_mul (Mat (fst v) 0 0 (snd v) 0 0) a"
  "mat_rotate a t = mat_mul (Mat (cos t) (- sin t) (sin t) (cos t) 0 0) a"
  by (simp_all add: mat_translate_def mat_scale_def mat_rotate_def mat_mul_def Let_def algebra_simps)

lemma pt_transform_affine:
  "pt_transform (Some m) (pt x y) = pt (m0 m * x + m2 m * y + m4 m) (m1 m * x + m3 m * y + m5 m)"
  by (simp add: pt_transform_def pt_def Let_def)

lemma pt_sel: "px (pt x y) = x" "py (pt x y) = y"
  by (simp_all add: pt_def)

lemma span_end: "(u::real) + (w - u) = w"
  by simp

section \<open>Rectangles and the points they contain\<close>

lemma linear_between:
  fixes k :: real
  assumes "x0 \<le> x" "x \<le> x1"
  shows "min (k * x0) (k * x1) \<le> k * x" "k * x \<le> max (k * x0) (k * x1)"
proof -
  have "k * x0 \<le> k * x \<and> k * x \<le> k * x1 \<or> k * x1 \<le> k * x \<and> k * x \<le> k * x0"
    using assms by (cases "0 \<le> k") (auto simp: mult_left_mono mult_left_mono_neg)
  then show "min (k * x0) (k * x1) \<le> k * x" "k * x \<le> max (k * x0) (k * x1)" by auto
qed

lemma affine_between:
  fixes k :: real
  assumes "x0 \<le> x" "x \<le> x1" "y0 \<le> y" "y \<le> y1"
  shows "min (min (min (k * x0 + l * y0 + t) (k * x1 + l * y1 + t)) (k * x0 + l * y1 + t)) (k * x1 + l * y0 + t)
      \<le> k * x + l * y + t"
    "k * x + l * y + t
      \<le> max (max (max (k * x0 + l * y0 + t) (k * x1 + l * y1 + t)) (k * x0 + l * y1 + t)) (k * x1 + l * y0 + t)"
  using linear_between [OF assms(1,2), of k] linear_between [OF assms(3,4), of l]
  unfolding min_def max_def by (auto split: if_splits)

lemma BoundingRect_wf: "0 \<le> rwidth (BoundingRect x y w h) \<and> 0 \<le> rheight (BoundingRect x y w h)"
  by (simp add: BoundingRect_def)

lemma overlap_iff_common_point:
  assumes "0 \<le> rwidth a" "0 \<le> rheight a" "0 \<le> rwidth b" "0 \<le> rheight b"
  shows "overlap a b \<longleftrightarrow> (\<exists>x y. contain a x y \<and> contain b x y)"
proof
  assume "overlap a b"
  then have "contain a (max (rx a) (rx b)) (max (ry a) (ry b)) \<and> contain b (max (rx a) (rx b)) (max (ry a) (ry b))"
    using assms by (auto simp: overlap_def contain_def Let_def)
  then show "\<exists>x y. contain a x y \<and> contain b x y" by blast
qed (auto simp: overlap_def contain_def Let_def)

lemma contain_union:
  "contain a x y \<or> contain b x y \<Longrightarrow> contain (rect_union a b) x y"
  by (auto simp: contain_def rect_union_def isFinite_def Let_def)

lemma scaled_interval:
  fixes s :: real
  assumes "u \<le> z" "z \<le> u + w" "0 \<le> w"
  shows "(if w * s < 0 then u * s + t + w * s else u * s + t) \<le> s * z + t"
    "s * z + t \<le> (if w * s < 0 then u * s + t else u * s + t + w * s)"
proof -
  have "0 \<le> w * s \<longrightarrow> s * u \<le> s * z \<and> s * z \<le> s * (u + w)"
    using assms by (cases "w = 0") (auto simp: zero_le_mult_iff intro!: mult_left_mono)
  moreover have "w * s < 0 \<longrightarrow> s * (u + w) \<le> s * z \<and> s * z \<le> s * u"
    using assms by (auto simp: mult_less_0_iff intro!: mult_left_mono_neg)
  ultimately show "(if w * s < 0 then u * s + t + w * s else u * s + t) \<le> s * z + t"
    "s * z + t \<le> (if w * s < 0 then u * s + t else u * s + t + w * s)"
    by (auto simp: algebra_simps)
qed

section \<open>Properties\<close>

text \<open>
  \<^verbatim>\<open>invert\<close> returns \<^verbatim>\<open>null\<close> exactly for a matrix whose determinant is zero; otherwise
  the matrix it returns is the inverse on both sides with respect to \<^verbatim>\<open>mul\<close>, and transforming
  a vector by the matrix and then by the inverse gives the vector back.
\<close>

theorem invert_correct:
  "case mat_invert m of
     None \<Rightarrow> m0 m * m3 m = m1 m * m2 m
   | Some m' \<Rightarrow> m0 m * m3 m \<noteq> m1 m * m2 m \<and> mat_mul m m' = mat_identity \<and> mat_mul m' m = mat_identity \<and>
       applyTransform (applyTransform v m) m' = v \<and> applyTransform (applyTransform v m') m = v"
proof (cases "mat_invert m")
  case (Some m')
  have "applyTransform (applyTransform v m) m' = v" "applyTransform (applyTransform v m') m = v"
    by (simp_all add: applyTransform_mul [symmetric] invert_mul [OF Some])
  then show ?thesis using Some invert_mul [OF Some] invert_none_iff [of m] by simp
next
  case None
  then show ?thesis using invert_none_iff [of m] by simp
qed

text \<open>
  \<^verbatim>\<open>intersect\<close> answers exactly whether two rectangles of non-negative size share a point.
\<close>

theorem intersect_correct:
  assumes "0 \<le> rwidth a" "0 \<le> rheight a" "0 \<le> rwidth b" "0 \<le> rheight b"
  shows "fst (intersect a (Some b) mtv tvs) \<longleftrightarrow> (\<exists>x y. contain a x y \<and> contain b x y)"
  using overlap_iff_common_point [OF assms]
  by (auto simp: intersect_def split_beta split: option.splits)

theorem intersect_correct_witness:
  "fst (intersect (BoundingRect 0 0 10 10) (Some (BoundingRect 10 5 5 5)) None (pt 0 0, pt 0 0)) \<and>
   (\<exists>x y. contain (BoundingRect 0 0 10 10) x y \<and> contain (BoundingRect 10 5 5 5) x y)"
proof -
  have "fst (intersect (BoundingRect 0 0 10 10) (Some (BoundingRect 10 5 5 5)) None (pt 0 0, pt 0 0))"
    by (simp add: intersect_def overlap_def BoundingRect_def Let_def)
  then show ?thesis
    using intersect_correct [of "BoundingRect 0 0 10 10" "BoundingRect 10 5 5 5" None "(pt 0 0, pt 0 0)"]
      BoundingRect_wf by blast
qed

text \<open>
  the image of a rectangle under a transform encloses the images of all its points, when the
  matrix has no shear part (both off-diagonal entries zero) or one of them is at least
  \<^verbatim>\<open>1e-5\<close> in size; in the remaining sliver the code ignores the shear.
\<close>

theorem rect_applyTransform_encloses:
  assumes "0 \<le> rwidth r" "0 \<le> rheight r" "contain r x y"
    and "m1 m = 0 \<and> m2 m = 0 \<or> \<bar>m1 m\<bar> \<ge> 1 / 10^5 \<or> \<bar>m2 m\<bar> \<ge> 1 / 10^5"
    and "(x', y') = applyTransform (x, y) m"
  shows "contain (rect_applyTransform r (Some m)) x' y'"
proof (cases "m1 m = 0 \<and> m2 m = 0")
  case True
  have "rx r \<le> x" "x \<le> rx r + rwidth r" "ry r \<le> y" "y \<le> ry r + rheight r"
    using assms(3) by (auto simp: contain_def)
  note sx = scaled_interval [OF this(1,2) assms(1), of "m0 m" "m4 m"]
    and sy = scaled_interval [OF this(3,4) assms(2), of "m3 m" "m5 m"]
  show ?thesis using True sx sy assms(5)
    by (auto simp: rect_applyTransform_def contain_def applyTransform_def Let_def split: if_splits)
next
  case False
  then have n: "\<not> (m1 m < 1 / 10^5 \<and> m1 m > - 1 / 10^5 \<and> m2 m < 1 / 10^5 \<and> m2 m > - 1 / 10^5)"
    using assms(4) by auto
  have "rx r \<le> x" "x \<le> rx r + rwidth r" "ry r \<le> y" "y \<le> ry r + rheight r"
    using assms(3) by (auto simp: contain_def)
  note a = affine_between [OF this]
  have xy: "x' = m0 m * x + m2 m * y + m4 m" "y' = m1 m * x + m3 m * y + m5 m"
    using assms(5) by (simp_all add: applyTransform_def)
  show ?thesis
    unfolding rect_applyTransform_def contain_def if_not_P [OF n] option.case Let_def
      pt_transform_affine pt_sel rect.select_convs span_end xy
    by (intro conjI a)
qed

theorem rect_applyTransform_encloses_witness:
  "contain (rect_applyTransform (BoundingRect 0 0 2 2) (Some (Mat 1 1 (- 1) 1 5 0))) 5 2"
  by (rule rect_applyTransform_encloses [of _ 1 1])
    (simp_all add: BoundingRect_def contain_def applyTransform_def)

text \<open>
  \<^verbatim>\<open>calculateTransform\<close> yields the matrix that maps one rectangle onto the other.
\<close>

theorem calculateTransform_maps:
  assumes "0 < rwidth a" "0 < rheight a" "0 \<le> rwidth b" "0 \<le> rheight b"
  shows "rect_applyTransform a (Some (calculateTransform a b)) = b"
proof -
  have "m1 (calculateTransform a b) = 0" "m2 (calculateTransform a b) = 0"
    by (simp_all add: calculateTransform_def mat_identity_def mat_translate_def mat_scale_def Let_def)
  then show ?thesis using assms
    by (simp add: rect_applyTransform_def calculateTransform_def mat_identity_def mat_translate_def
        mat_scale_def Let_def field_simps)
qed

theorem calculateTransform_maps_witness:
  "rect_applyTransform (BoundingRect 1 1 2 4) (Some (calculateTransform (BoundingRect 1 1 2 4) (BoundingRect 0 9 6 2)))
    = BoundingRect 0 9 6 2"
  by (rule calculateTransform_maps) (simp_all add: BoundingRect_def)

text \<open>
  the minimum translation vector that \<^verbatim>\<open>intersect\<close> reports for overlapping rectangles is
  always horizontal, whatever the vertical overlap: the vertical branch compares \<^verbatim>\<open>dx\<close>, not
  \<^verbatim>\<open>dy\<close>, with the minimum found so far.
\<close>

theorem intersect_mtv_always_horizontal:
  assumes "overlap a b"
  shows "\<exists>mtv. fst (snd (intersect a (Some b) (Some t) tvs)) = Some mtv \<and> py mtv = 0 \<and>
    \<bar>px mtv\<bar> = min \<bar>rx a + rwidth a - rx b\<bar> \<bar>rx b + rwidth b - rx a\<bar>"
  using assms
  by (auto simp: intersect_def intersect_mtv_def overlap_def Let_def split_beta below_def pt_def)

theorem intersect_mtv_always_horizontal_witness:
  "let a = BoundingRect 0 0 10 10; b = BoundingRect 1 9 10 10
   in overlap a b \<and> ry a + rheight a - ry b = 1 \<and>
      (\<exists>mtv. fst (snd (intersect a (Some b) (Some (pt 0 0)) (pt 0 0, pt 0 0))) = Some mtv \<and>
         py mtv = 0 \<and> \<bar>px mtv\<bar> = 9)"
proof -
  have "overlap (BoundingRect 0 0 10 10) (BoundingRect 1 9 10 10)"
    by (simp add: overlap_def BoundingRect_def Let_def)
  from this intersect_mtv_always_horizontal [OF this, of "pt 0 0" "(pt 0 0, pt 0 0)"] show ?thesis
    by (simp add: BoundingRect_def Let_def)
qed

end
