(* ===== verification/Scene.thy ===== *)
theory Scene
  imports TimSort Linked_Nodes
begin

text \<open>
  The scene graph of the drawing library (\<^verbatim>\<open>src/html/js/echarts.js\<close>): the container class
  \<^verbatim>\<open>Group\<close> (lines 6844-7015), attaching and detaching elements (6453-6494), and the class
  \<^verbatim>\<open>Storage\<close> (2790-2934), which turns the graph into the ordered display list.

  Elements are heap objects: a scene maps addresses to element records, so that an element listed
  under two parents, or under itself, is expressible.  Elements are groups or plain displayables
  (rich-text elements, which keep private children, are left out); their geometry is not part of
  this model, so the transform updates of a traversal have no effect here.  The numbers
  \<^verbatim>\<open>z\<close>, \<^verbatim>\<open>z2\<close> and \<^verbatim>\<open>zlevel\<close> are integers or \<^verbatim>\<open>NaN\<close>
  (\<^term>\<open>None\<close>).  Calls into the animation driver and the renderer are recorded in a log.
\<close>

section \<open>Definitions\<close>

record elem =
  isGroup :: bool
  el_name :: string
  parent :: "addr option"
  children :: "addr list"
  zr :: "nat option"
  hostTarget :: "addr option"
  clipPath :: "addr option"
  textContent :: "addr option"
  textGuide :: "addr option"
  decal :: "addr option"
  animators :: "nat list"
  ignore :: bool
  ignoreClip :: bool
  z :: "int option"
  z2 :: "int option"
  zlevel :: "int option"
  dirty :: nat
  clipPaths :: "addr list option"

datatype zcall = AddAnimator nat nat | RemoveAnimator nat nat | Refresh nat

record scene =
  elems :: "addr \<Rightarrow> elem"
  calls :: "zcall list"

definition upd :: "addr \<Rightarrow> (elem \<Rightarrow> elem) \<Rightarrow> scene \<Rightarrow> scene" where
  "upd a f h = h\<lparr>elems := (elems h)(a := f (elems h a))\<rparr>"

definition call :: "zcall list \<Rightarrow> scene \<Rightarrow> scene" where
  "call cs h = h\<lparr>calls := calls h @ cs\<rparr>"

definition opt_list :: "'a option \<Rightarrow> 'a list" where
  "opt_list x = (case x of None \<Rightarrow> [] | Some a \<Rightarrow> [a])"

fun indexOf_loop :: "'a list \<Rightarrow> 'a \<Rightarrow> nat \<Rightarrow> int" where
  "indexOf_loop [] v i = -1"
| "indexOf_loop (x # xs) v i = (if x = v then int i else indexOf_loop xs v (i + 1))"

definition indexOf :: "'a list \<Rightarrow> 'a \<Rightarrow> int" where
  "indexOf xs v = indexOf_loop xs v 0"

text \<open>\<^verbatim>\<open>array.splice(idx, 1)\<close> and \<^verbatim>\<open>array.splice(idx, 0, x)\<close>.\<close>

definition splice_out :: "nat \<Rightarrow> 'a list \<Rightarrow> 'a list" where
  "splice_out i xs = take i xs @ drop (i + 1) xs"

definition splice_in :: "nat \<Rightarrow> 'a \<Rightarrow> 'a list \<Rightarrow> 'a list" where
  "splice_in i x xs = take i xs @ x # drop i xs"

subsection \<open>Attaching and detaching\<close>

text \<open>
  \<^verbatim>\<open>addSelfToZr\<close> and \<^verbatim>\<open>removeSelfFromZr\<close> recurse into the attachments and, for a group,
  into the children; the recursion is a work list.  It does not return when the graph is cyclic.
\<close>

definition attachments :: "elem \<Rightarrow> addr list" where
  "attachments el = opt_list (clipPath el) @ opt_list (textContent el) @ opt_list (textGuide el)"

partial_function (option) addSelfToZr :: "nat \<Rightarrow> addr list \<Rightarrow> scene \<Rightarrow> scene option" where
  "addSelfToZr zz wl h =
     (case wl of
        [] \<Rightarrow> Some h
      | e # wl \<Rightarrow>
          (let el = elems h e;
               (h, next) =
                 (if zr el = Some zz then (h, [])
                  else (call (map (AddAnimator zz) (animators el)) (upd e (\<lambda>el. el\<lparr>zr := Some zz\<rparr>) h),
                        attachments el));
               next = next @ (if isGroup el then children el else [])
           in addSelfToZr zz (next @ wl) h))"

partial_function (option) removeSelfFromZr :: "nat \<Rightarrow> addr list \<Rightarrow> scene \<Rightarrow> scene option" where
  "removeSelfFromZr zz wl h =
     (case wl of
        [] \<Rightarrow> Some h
      | e # wl \<Rightarrow>
          (let el = elems h e;
               (h, next) =
                 (if zr el = None then (h, [])
                  else (call (map (RemoveAnimator zz) (animators el)) (upd e (\<lambda>el. el\<lparr>zr := None\<rparr>) h),
                        attachments el));
               next = next @ (if isGroup el then children el else [])
           in removeSelfFromZr zz (next @ wl) h))"

subsection \<open>Group\<close>

text \<open>
  The outcome of an operation: \<^term>\<open>None\<close> if it does not return, otherwise the error it throws,
  if any, and the scene it leaves.
\<close>

type_synonym outcome = "(js_error option \<times> scene) option"

definition detachFrom :: "nat option \<Rightarrow> addr \<Rightarrow> scene \<Rightarrow> scene option" where
  "detachFrom zo c h = (case zo of None \<Rightarrow> Some h | Some zz \<Rightarrow> removeSelfFromZr zz [c] h)"

definition refresh :: "nat option \<Rightarrow> scene \<Rightarrow> scene" where
  "refresh zo h = (case zo of None \<Rightarrow> h | Some zz \<Rightarrow> call [Refresh zz] h)"

definition remove :: "addr \<Rightarrow> addr \<Rightarrow> scene \<Rightarrow> scene option" where
  "remove g c h =
     (let idx = indexOf (children (elems h g)) c
      in if idx < 0 then Some h
         else let zo = zr (elems h g);
                  h = upd g (\<lambda>el. el\<lparr>children := splice_out (nat idx) (children el)\<rparr>) h;
                  h = upd c (\<lambda>el. el\<lparr>parent := None\<rparr>) h
              in do { h \<leftarrow> detachFrom zo c h; Some (refresh zo h) })"

definition leaveParent :: "addr \<Rightarrow> scene \<Rightarrow> outcome" where
  "leaveParent c h =
     (case parent (elems h c) of
        None \<Rightarrow> Some (None, h)
      | Some p \<Rightarrow>
          if isGroup (elems h p) then do { h \<leftarrow> remove p c h; Some (None, h) }
          else Some (Some TypeError, h))"

definition attachTo :: "nat option \<Rightarrow> addr \<Rightarrow> scene \<Rightarrow> scene option" where
  "attachTo zo c h =
     (case zo of
        None \<Rightarrow> Some h
      | Some zz \<Rightarrow> do {
          h \<leftarrow> (if zr (elems h c) \<noteq> Some zz then addSelfToZr zz [c] h else Some h);
          Some (call [Refresh zz] h)
        })"

definition doAdd :: "addr \<Rightarrow> addr \<Rightarrow> scene \<Rightarrow> outcome" where
  "doAdd g c h = do {
     (err, h) \<leftarrow> leaveParent c h;
     if err \<noteq> None then Some (err, h)
     else do {
       h \<leftarrow> attachTo (zr (elems h g)) c (upd c (\<lambda>el. el\<lparr>parent := Some g\<rparr>) h);
       Some (None, h)
     }
   }"

definition add :: "addr \<Rightarrow> addr option \<Rightarrow> scene \<Rightarrow> outcome" where
  "add g child h =
     (case child of
        None \<Rightarrow> Some (None, h)
      | Some c \<Rightarrow> do {
          (err, h) \<leftarrow>
            (if c \<noteq> g \<and> parent (elems h c) \<noteq> Some g
             then doAdd g c (upd g (\<lambda>el. el\<lparr>children := children el @ [c]\<rparr>) h)
             else Some (None, h));
          Some (if err \<noteq> None then err else if hostTarget (elems h c) \<noteq> None then Some Error else None, h)
        })"

definition addBefore :: "addr \<Rightarrow> addr option \<Rightarrow> addr option \<Rightarrow> scene \<Rightarrow> outcome" where
  "addBefore g child nextSibling h =
     (case (child, nextSibling) of
        (Some c, Some n) \<Rightarrow>
          if c \<noteq> g \<and> parent (elems h c) \<noteq> Some g \<and> parent (elems h n) = Some g
          then let idx = indexOf (children (elems h g)) n
               in if idx \<ge> 0
                  then doAdd g c (upd g (\<lambda>el. el\<lparr>children := splice_in (nat idx) c (children el)\<rparr>) h)
                  else Some (None, h)
          else Some (None, h)
      | _ \<Rightarrow> Some (None, h))"

text \<open>
  \<^verbatim>\<open>replaceAt\<close>: with an index past the end there is no old child to detach, and the write to its
  \<^verbatim>\<open>parent\<close> throws after the array was extended.
\<close>

definition replaceAt :: "addr \<Rightarrow> addr option \<Rightarrow> nat \<Rightarrow> scene \<Rightarrow> outcome" where
  "replaceAt g child index h =
     (let cs = children (elems h g);
          old = (if index < length cs then Some (cs ! index) else None)
      in case child of
           None \<Rightarrow> Some (None, h)
         | Some c \<Rightarrow>
             if c \<noteq> g \<and> parent (elems h c) \<noteq> Some g \<and> child \<noteq> old
             then let h = upd g (\<lambda>el. el\<lparr>children := js_set (children el) index c\<rparr>) h
                  in case old of
                       None \<Rightarrow> Some (Some TypeError, h)
                     | Some old \<Rightarrow> do {
                         let h = upd old (\<lambda>el. el\<lparr>parent := None\<rparr>) h;
                         h \<leftarrow> detachFrom (zr (elems h g)) old h;
                         doAdd g c h
                       }
             else Some (None, h))"

definition replace :: "addr \<Rightarrow> addr \<Rightarrow> addr option \<Rightarrow> scene \<Rightarrow> outcome" where
  "replace g oldChild newChild h =
     (let idx = indexOf (children (elems h g)) oldChild
      in if idx \<ge> 0 then replaceAt g newChild (nat idx) h else Some (None, h))"

fun removeAll_loop :: "nat option \<Rightarrow> addr list \<Rightarrow> scene \<Rightarrow> scene option" where
  "removeAll_loop zz [] h = Some h"
| "removeAll_loop zz (c # cs) h = do {
     h \<leftarrow> detachFrom zz c h;
     removeAll_loop zz cs (upd c (\<lambda>el. el\<lparr>parent := None\<rparr>) h)
   }"

definition removeAll :: "addr \<Rightarrow> scene \<Rightarrow> scene option" where
  "removeAll g h = do {
     h \<leftarrow> removeAll_loop (zr (elems h g)) (children (elems h g)) h;
     Some (upd g (\<lambda>el. el\<lparr>children := []\<rparr>) h)
   }"

fun childOfName_loop :: "scene \<Rightarrow> addr list \<Rightarrow> string \<Rightarrow> addr option" where
  "childOfName_loop h [] n = None"
| "childOfName_loop h (c # cs) n = (if el_name (elems h c) = n then Some c else childOfName_loop h cs n)"

definition childOfName :: "addr \<Rightarrow> string \<Rightarrow> scene \<Rightarrow> addr option" where
  "childOfName g n h = childOfName_loop h (children (elems h g)) n"

text \<open>The operations of a group as one type, and a sequence of calls that stops at an error.\<close>

datatype group_op =
    Add addr "addr option" | AddBefore addr "addr option" "addr option" | Replace addr addr "addr option"
  | ReplaceAt addr "addr option" nat | Remove addr addr | RemoveAll addr

fun op_target :: "group_op \<Rightarrow> addr" where
  "op_target (Add g _) = g" | "op_target (AddBefore g _ _) = g" | "op_target (Replace g _ _) = g"
| "op_target (ReplaceAt g _ _) = g" | "op_target (Remove g _) = g" | "op_target (RemoveAll g) = g"

fun exec :: "group_op \<Rightarrow> scene \<Rightarrow> outcome" where
  "exec (Add g c) h = add g c h"
| "exec (AddBefore g c n) h = addBefore g c n h"
| "exec (Replace g old c) h = replace g old c h"
| "exec (ReplaceAt g c i) h = replaceAt g c i h"
| "exec (Remove g c) h = do { h \<leftarrow> remove g c h; Some (None, h) }"
| "exec (RemoveAll g) h = do { h \<leftarrow> removeAll g h; Some (None, h) }"

text \<open>The methods exist on groups only.\<close>

definition exec_op :: "group_op \<Rightarrow> scene \<Rightarrow> outcome" where
  "exec_op c h = (if isGroup (elems h (op_target c)) then exec c h else Some (Some TypeError, h))"

fun exec_ops :: "group_op list \<Rightarrow> scene \<Rightarrow> outcome" where
  "exec_ops [] h = Some (None, h)"
| "exec_ops (c # cs) h = do {
     (err, h) \<leftarrow> exec_op c h;
     if err = None then exec_ops cs h else Some (err, h)
   }"

end
