(* ===== verification/Storage.thy ===== *)
theory Storage
  imports Scene
begin

text \<open>
  The class \<^verbatim>\<open>Storage\<close> (\<^verbatim>\<open>src/html/js/echarts.js\<close>, lines 2781-2934): the list of root
  elements and the display list, which holds the visible displayables in painting order.
\<close>

section \<open>Definitions\<close>

record storage =
  roots :: "addr list"
  displayList :: "addr list"
  displayListLen :: nat
  invalidZErrorLogged :: bool

definition Storage :: storage where
  "Storage = \<lparr>roots = [], displayList = [], displayListLen = 0, invalidZErrorLogged = False\<rparr>"

record zkey =
  key_zlevel :: int
  key_z :: int
  key_z2 :: int

definition shapeCompareFunc :: "zkey \<Rightarrow> zkey \<Rightarrow> int" where
  "shapeCompareFunc a b =
     (if key_zlevel a = key_zlevel b
      then if key_z a = key_z b then key_z2 a - key_z2 b else key_z a - key_z b
      else key_zlevel a - key_zlevel b)"

text \<open>
  The numbers of a listed element; before an element is listed, \<^verbatim>\<open>NaN\<close> has been replaced by 0.
\<close>

definition num :: "int option \<Rightarrow> int" where
  "num x = (case x of None \<Rightarrow> 0 | Some n \<Rightarrow> n)"

definition zkey_of :: "scene \<Rightarrow> addr \<Rightarrow> zkey" where
  "zkey_of h e = \<lparr>key_zlevel = num (zlevel (elems h e)), key_z = num (z (elems h e)), key_z2 = num (z2 (elems h e))\<rparr>"

definition compare_in :: "scene \<Rightarrow> addr \<Rightarrow> addr \<Rightarrow> int" where
  "compare_in h a b = shapeCompareFunc (zkey_of h a) (zkey_of h b)"

definition REDRAW_BIT :: nat where
  "REDRAW_BIT = 1"

text \<open>The loop over nested clip paths; it links each clip path to the element it clips.\<close>

partial_function (option) clipLoop ::
  "addr option \<Rightarrow> addr \<Rightarrow> addr list \<Rightarrow> scene \<Rightarrow> (addr list \<times> scene) option" where
  "clipLoop currentClipPath parentClipPath cps h =
     (case currentClipPath of
        None \<Rightarrow> Some (cps, h)
      | Some c \<Rightarrow>
          clipLoop (clipPath (elems h c)) c (cps @ [c]) (upd c (\<lambda>el. el\<lparr>parent := Some parentClipPath\<rparr>) h))"

definition clipsOf :: "addr \<Rightarrow> addr list option \<Rightarrow> scene \<Rightarrow> (addr list option \<times> scene) option" where
  "clipsOf e cps h =
     (if ignoreClip (elems h e) then Some (None, h)
      else case clipPath (elems h e) of
             None \<Rightarrow> Some (cps, h)
           | Some c \<Rightarrow> do {
               (cps, h) \<leftarrow> clipLoop (Some c) e (case cps of None \<Rightarrow> [] | Some cs \<Rightarrow> cs) h;
               Some (Some cps, h)
             })"

text \<open>\<^verbatim>\<open>disp.__clipPaths\<close>: an empty list stays as it is.\<close>

definition setClipPaths :: "addr list option \<Rightarrow> elem \<Rightarrow> elem" where
  "setClipPaths cps el =
     (if cps \<noteq> None \<and> the cps \<noteq> [] then el\<lparr>clipPaths := cps\<rparr>
      else if clipPaths el \<noteq> None \<and> the (clipPaths el) \<noteq> [] then el\<lparr>clipPaths := Some []\<rparr>
      else el)"

definition fixZ :: "elem \<Rightarrow> elem" where
  "fixZ el =
     (let el = (if z el = None then el\<lparr>z := Some 0\<rparr> else el);
          el = (if z2 el = None then el\<lparr>z2 := Some 0\<rparr> else el)
      in if zlevel el = None then el\<lparr>zlevel := Some 0\<rparr> else el)"

definition addDisplayable :: "addr \<Rightarrow> addr list option \<Rightarrow> scene \<times> storage \<Rightarrow> scene \<times> storage" where
  "addDisplayable e cps s =
     (let (h, st) = s;
          h = upd e (setClipPaths cps) h;
          bad = z (elems h e) = None \<or> z2 (elems h e) = None \<or> zlevel (elems h e) = None;
          h = upd e fixZ h
      in (h, st\<lparr>displayList := js_set (displayList st) (displayListLen st) e,
               displayListLen := displayListLen st + 1,
               invalidZErrorLogged := invalidZErrorLogged st \<or> bad\<rparr>))"

text \<open>
  The traversal \<^verbatim>\<open>_updateAndAddDisplayable\<close> as a work list: \<^term>\<open>Visit e cps\<close> is a call for
  the element \<open>e\<close>, \<^term>\<open>Child p c cps\<close> the body of the loop over the children of \<open>p\<close>, and
  \<^term>\<open>Clean e\<close> the assignment after that loop.
\<close>

datatype visit = Visit addr "addr list option" | Child addr addr "addr list option" | Clean addr

partial_function (option) updateAndAdd :: "bool \<Rightarrow> visit list \<Rightarrow> scene \<times> storage \<Rightarrow> (scene \<times> storage) option" where
  "updateAndAdd includeIgnore wl s =
     (case wl of
        [] \<Rightarrow> Some s
      | v # wl \<Rightarrow>
          (case v of
             Clean e \<Rightarrow> updateAndAdd includeIgnore wl (upd e (\<lambda>el. el\<lparr>dirty := 0\<rparr>) (fst s), snd s)
           | Child p c cps \<Rightarrow>
               updateAndAdd includeIgnore (Visit c cps # wl)
                 (if dirty (elems (fst s) p) \<noteq> 0
                  then upd c (\<lambda>el. el\<lparr>dirty := or (dirty el) REDRAW_BIT\<rparr>) (fst s) else fst s, snd s)
           | Visit e cps \<Rightarrow>
               if ignore (elems (fst s) e) \<and> \<not> includeIgnore then updateAndAdd includeIgnore wl s
               else do {
                 (cps, h) \<leftarrow> clipsOf e cps (fst s);
                 let el = elems h e;
                 let inner = (if isGroup el then map (\<lambda>c. Child e c cps) (children el) @ [Clean e] else []);
                 let rest = map (\<lambda>x. Visit x cps)
                   (opt_list (decal el) @ opt_list (textGuide el) @ opt_list (textContent el));
                 updateAndAdd includeIgnore (inner @ rest @ wl)
                   (if isGroup el then (h, snd s) else addDisplayable e cps (h, snd s))
               }))"

fun updateRoots :: "bool \<Rightarrow> addr list \<Rightarrow> scene \<times> storage \<Rightarrow> (scene \<times> storage) option" where
  "updateRoots inc [] s = Some s"
| "updateRoots inc (e # es) s = do {
     s \<leftarrow> updateAndAdd inc [Visit e None] s;
     updateRoots inc es s
   }"

definition updateDisplayList :: "bool \<Rightarrow> scene \<times> storage \<Rightarrow> (js_error + scene \<times> storage) option" where
  "updateDisplayList inc s = do {
     (h, st) \<leftarrow> updateRoots inc (roots (snd s)) (fst s, (snd s)\<lparr>displayListLen := 0\<rparr>);
     let dl = take (displayListLen st) (displayList st);
     r \<leftarrow> sort' dl (compare_in h) 0 0;
     Some (case r of Inl e \<Rightarrow> Inl e | Inr dl \<Rightarrow> Inr (h, st\<lparr>displayList := dl\<rparr>))
   }"

definition getDisplayList :: "bool \<Rightarrow> bool \<Rightarrow> scene \<times> storage \<Rightarrow> (js_error + scene \<times> storage) option" where
  "getDisplayList update includeIgnore s =
     (if update \<or> displayList (snd s) = [] then updateDisplayList includeIgnore s else Some (Inr s))"

text \<open>Roots; \<^verbatim>\<open>zr\<close> is the renderer this storage belongs to.\<close>

definition addRoot :: "nat \<Rightarrow> addr \<Rightarrow> scene \<Rightarrow> storage \<Rightarrow> storage" where
  "addRoot zz e h st = (if zr (elems h e) = Some zz then st else st\<lparr>roots := roots st @ [e]\<rparr>)"

definition delRoot :: "addr \<Rightarrow> storage \<Rightarrow> storage" where
  "delRoot e st =
     (let idx = indexOf (roots st) e
      in if idx \<ge> 0 then st\<lparr>roots := splice_out (nat idx) (roots st)\<rparr> else st)"

fun delRoots :: "addr list \<Rightarrow> storage \<Rightarrow> storage" where
  "delRoots [] st = st"
| "delRoots (e # es) st = delRoots es (delRoot e st)"

definition delAllRoots :: "storage \<Rightarrow> storage" where
  "delAllRoots st = st\<lparr>roots := [], displayList := [], displayListLen := 0\<rparr>"

end
