(* ===== verification/Scene_Tree.thy ===== *)
theory Scene_Tree
  imports Scene
begin

text \<open>
  The tree invariant of the scene graph: whatever sequence of \<^verbatim>\<open>Group\<close> operations runs, an
  element listed among the children of a group has that group as its parent, no child is listed
  twice, and only groups have children.
\<close>

section \<open>Arrays\<close>

lemma indexOf_loop_cases:
  "indexOf_loop xs v i = -1 \<and> v \<notin> set xs \<or>
   (\<exists>k < length xs. indexOf_loop xs v i = int (i + k) \<and> xs ! k = v \<and> v \<notin> set (take k xs))"
proof (induction xs arbitrary: i)
  case (Cons x xs)
  show ?case
  proof (cases "x = v")
    case False
    from Cons [of "i + 1"] show ?thesis
    proof (elim disjE exE conjE)
      fix k assume "k < length xs" "indexOf_loop xs v (i + 1) = int (i + 1 + k)" "xs ! k = v" "v \<notin> set (take k xs)"
      then show ?thesis using False by (intro disjI2 exI [of _ "Suc k"]) auto
    qed (use False in auto)
  qed auto
qed simp

lemma indexOf_cases:
  obtains "indexOf xs v = -1" "v \<notin> set xs"
  | k where "k < length xs" "indexOf xs v = int k" "xs ! k = v" "v \<notin> set (take k xs)"
  using indexOf_loop_cases [of xs v 0] unfolding indexOf_def by fastforce

lemma indexOf_neg_iff [simp]: "indexOf xs v < 0 \<longleftrightarrow> v \<notin> set xs"
  by (rule indexOf_cases [of xs v]) auto

lemma splice_out_indexOf:
  assumes "v \<in> set xs"
  shows "splice_out (nat (indexOf xs v)) xs = remove1 v xs"
proof (rule indexOf_cases [of xs v])
  fix k assume k: "k < length xs" "indexOf xs v = int k" "xs ! k = v" "v \<notin> set (take k xs)"
  have "xs = take k xs @ v # drop (Suc k) xs" using k id_take_nth_drop by metis
  then have "remove1 v xs = take k xs @ drop (Suc k) xs"
    using k(4) by (metis remove1.simps(2) remove1_append)
  then show ?thesis by (simp add: splice_out_def k(2))
qed (use assms in auto)

lemma set_splice_in [simp]: "set (splice_in i x xs) = insert x (set xs)"
  unfolding splice_in_def by (metis append_take_drop_id list.simps(15) set_append Un_insert_right)

lemma distinct_splice_in [simp]: "distinct (splice_in i x xs) \<longleftrightarrow> distinct xs \<and> x \<notin> set xs"
proof -
  have "distinct (splice_in i x xs) \<longleftrightarrow> distinct (x # take i xs @ drop i xs)"
    unfolding splice_in_def by (simp only: distinct_append distinct.simps set_append list.set) blast
  then show ?thesis by (simp only: append_take_drop_id distinct.simps) blast
qed

section \<open>The heap\<close>

lemma elems_upd [simp]: "elems (upd a f h) b = (if b = a then f (elems h a) else elems h b)"
  by (simp add: upd_def)

lemma elems_call [simp]: "elems (call cs h) = elems h"
  by (simp add: call_def)

lemma calls_upd [simp]: "calls (upd a f h) = calls h"
  by (simp add: upd_def)

text \<open>Two scenes that differ in attachment state only.\<close>

definition same_tree :: "scene \<Rightarrow> scene \<Rightarrow> bool" where
  "same_tree h h' \<longleftrightarrow> (\<forall>a. (elems h' a)\<lparr>zr := None\<rparr> = (elems h a)\<lparr>zr := None\<rparr>)"

lemma same_tree_refl [simp]: "same_tree h h"
  by (simp add: same_tree_def)

lemma same_tree_trans [trans]: "same_tree h1 h2 \<Longrightarrow> same_tree h2 h3 \<Longrightarrow> same_tree h1 h3"
  by (simp add: same_tree_def)

lemma same_tree_call [simp]: "same_tree h (call cs h') \<longleftrightarrow> same_tree h h'"
  "same_tree (call cs h) h' \<longleftrightarrow> same_tree h h'"
  by (simp_all add: same_tree_def)

lemma same_tree_upd_zr: "same_tree h (upd e (\<lambda>el. el\<lparr>zr := x\<rparr>) h)"
  by (simp add: same_tree_def)

lemma elem_eq_fields:
  assumes "el\<lparr>zr := None\<rparr> = el'\<lparr>zr := None\<rparr>"
  shows "children el = children el' \<and> parent el = parent el' \<and> isGroup el = isGroup el' \<and>
    hostTarget el = hostTarget el' \<and> attachments el = attachments el' \<and> clipPath el = clipPath el' \<and>
    textContent el = textContent el' \<and> textGuide el = textGuide el'"
  using assms by (cases el; cases el') (simp add: attachments_def)

lemma same_treeD:
  assumes "same_tree h h'"
  shows "children (elems h' a) = children (elems h a)" "parent (elems h' a) = parent (elems h a)"
    "isGroup (elems h' a) = isGroup (elems h a)" "hostTarget (elems h' a) = hostTarget (elems h a)"
    "attachments (elems h' a) = attachments (elems h a)"
  using assms elem_eq_fields [of "elems h' a" "elems h a"] by (simp_all add: same_tree_def)

lemma addSelfToZr_same_tree:
  assumes "addSelfToZr zz wl h = Some h'"
  shows "same_tree h h'"
proof (rule addSelfToZr.raw_induct [where P = "\<lambda>_ _. same_tree", OF _ assms], goal_cases)
  case (1 rec zz wl h h')
  then show ?case
    by (fastforce simp: Let_def split: list.splits if_splits dest: same_tree_trans [OF same_tree_upd_zr])
qed

lemma removeSelfFromZr_same_tree:
  assumes "removeSelfFromZr zz wl h = Some h'"
  shows "same_tree h h'"
proof (rule removeSelfFromZr.raw_induct [where P = "\<lambda>_ _. same_tree", OF _ assms], goal_cases)
  case (1 rec zz wl h h')
  then show ?case
    by (fastforce simp: Let_def split: list.splits if_splits dest: same_tree_trans [OF same_tree_upd_zr])
qed

lemma detachFrom_same_tree: "detachFrom zo c h = Some h' \<Longrightarrow> same_tree h h'"
  by (auto simp: detachFrom_def split: option.splits dest: removeSelfFromZr_same_tree)

lemma attachTo_same_tree: "attachTo zo c h = Some h' \<Longrightarrow> same_tree h h'"
  by (auto simp: attachTo_def bind_eq_Some_conv split: option.splits if_splits dest: addSelfToZr_same_tree)

lemma same_tree_refresh [simp]: "same_tree h (refresh zo h') \<longleftrightarrow> same_tree h h'"
  by (simp add: refresh_def split: option.split)

section \<open>The invariant\<close>

definition consistent :: "scene \<Rightarrow> bool" where
  "consistent h \<longleftrightarrow>
     (\<forall>g c. c \<in> set (children (elems h g)) \<longrightarrow> parent (elems h c) = Some g) \<and>
     (\<forall>g. distinct (children (elems h g)) \<and> (children (elems h g) \<noteq> [] \<longrightarrow> isGroup (elems h g)))"

text \<open>
  The state inside \<^verbatim>\<open>add\<close> between the write to the array and the end of
  \<^verbatim>\<open>_doAdd\<close>: the new child may still have another parent.
\<close>

definition adding :: "addr \<Rightarrow> addr \<Rightarrow> scene \<Rightarrow> bool" where
  "adding g c h \<longleftrightarrow>
     (\<forall>g' c'. c' \<in> set (children (elems h g')) \<longrightarrow> parent (elems h c') = Some g' \<or> c' = c \<and> g' = g) \<and>
     (\<forall>g. distinct (children (elems h g)) \<and> (children (elems h g) \<noteq> [] \<longrightarrow> isGroup (elems h g))) \<and>
     parent (elems h c) \<noteq> Some g"

lemma consistent_same_tree: "same_tree h h' \<Longrightarrow> consistent h' = consistent h"
  by (simp add: consistent_def same_treeD)

lemma consistent_call [simp]: "consistent (call cs h) = consistent h"
  by (simp add: consistent_def)

text \<open>\<^verbatim>\<open>remove\<close>, up to the attachment state.\<close>

definition unlisted :: "addr \<Rightarrow> addr \<Rightarrow> scene \<Rightarrow> scene" where
  "unlisted g c h =
     (if c \<in> set (children (elems h g))
      then upd c (\<lambda>el. el\<lparr>parent := None\<rparr>) (upd g (\<lambda>el. el\<lparr>children := remove1 c (children el)\<rparr>) h)
      else h)"

lemma remove_unlisted:
  assumes "remove g c h = Some h'"
  shows "same_tree (unlisted g c h) h'"
proof (cases "c \<in> set (children (elems h g))")
  case True
  have eq: "upd g (\<lambda>el. el\<lparr>children := splice_out (nat (indexOf (children (elems h g)) c)) (children el)\<rparr>) h
      = upd g (\<lambda>el. el\<lparr>children := remove1 c (children el)\<rparr>) h"
    using splice_out_indexOf [OF True] by (simp add: upd_def)
  show ?thesis using assms True
    by (auto simp: remove_def unlisted_def Let_def eq bind_eq_Some_conv dest: detachFrom_same_tree)
qed (use assms in \<open>simp add: remove_def unlisted_def\<close>)

lemma consistent_unlisted: "consistent h \<Longrightarrow> consistent (unlisted g c h)"
  unfolding consistent_def unlisted_def
  by (auto split: if_splits) (metis option.inject list.set(1) empty_iff)+

lemma remove_consistent: "consistent h \<Longrightarrow> remove g c h = Some h' \<Longrightarrow> consistent h'"
  using consistent_same_tree [OF remove_unlisted] consistent_unlisted by blast

lemma adding_unlisted:
  assumes "adding g c h"
  defines "h' \<equiv> (case parent (elems h c) of None \<Rightarrow> h | Some p \<Rightarrow> unlisted p c h)"
  shows "c' \<in> set (children (elems h' g')) \<Longrightarrow> if c' = c then g' = g else parent (elems h' c') = Some g'"
    "distinct (children (elems h' g'))" "children (elems h' g') \<noteq> [] \<Longrightarrow> isGroup (elems h' g')"
  using assms unfolding adding_def unlisted_def
  by (auto split: option.splits if_splits) (metis option.inject list.set(1) empty_iff option.distinct(1))+

lemma adding_finish:
  assumes "adding g c h"
  shows "consistent (upd c (\<lambda>el. el\<lparr>parent := Some g\<rparr>)
    (case parent (elems h c) of None \<Rightarrow> h | Some p \<Rightarrow> unlisted p c h))"
  using adding_unlisted [OF assms] unfolding consistent_def by (auto split: if_splits)

lemma same_tree_upd_parent:
  "same_tree h h' \<Longrightarrow> same_tree (upd c (\<lambda>el. el\<lparr>parent := p\<rparr>) h) (upd c (\<lambda>el. el\<lparr>parent := p\<rparr>) h')"
proof -
  have *: "el\<lparr>zr := None\<rparr> = el'\<lparr>zr := None\<rparr> \<Longrightarrow> el\<lparr>parent := p, zr := None\<rparr> = el'\<lparr>parent := p, zr := None\<rparr>" for el el' :: elem
    by (cases el; cases el') simp
  assume "same_tree h h'"
  then show ?thesis unfolding same_tree_def by (auto intro: *)
qed

lemma doAdd_consistent:
  assumes "adding g c h" "doAdd g c h = Some (None, h')"
  shows "consistent h'"
proof -
  let ?h = "case parent (elems h c) of None \<Rightarrow> h | Some p \<Rightarrow> unlisted p c h"
  obtain h1 where l: "leaveParent c h = Some (None, h1)"
    and a: "same_tree (upd c (\<lambda>el. el\<lparr>parent := Some g\<rparr>) h1) h'"
    using assms(2) by (auto simp: doAdd_def bind_eq_Some_conv split: if_splits dest!: attachTo_same_tree)
  have h1: "same_tree ?h h1" using l
    by (auto simp: leaveParent_def bind_eq_Some_conv split: option.splits if_splits dest: remove_unlisted)
  show ?thesis
    using adding_finish [OF assms(1)] consistent_same_tree [OF a]
      consistent_same_tree [OF same_tree_upd_parent [OF h1]] by simp
qed

lemma doAdd_errors: "doAdd g c h = Some (e, h') \<Longrightarrow> e = None \<or> e = Some TypeError"
  by (auto simp: doAdd_def leaveParent_def bind_eq_Some_conv split: option.splits if_splits)

section \<open>The operations keep the invariant\<close>

lemma adding_push:
  "consistent h \<Longrightarrow> isGroup (elems h g) \<Longrightarrow> parent (elems h c) \<noteq> Some g \<Longrightarrow>
    adding g c (upd g (\<lambda>el. el\<lparr>children := children el @ [c]\<rparr>) h)"
  by (auto simp: consistent_def adding_def)

lemma adding_splice_in:
  "consistent h \<Longrightarrow> isGroup (elems h g) \<Longrightarrow> parent (elems h c) \<noteq> Some g \<Longrightarrow>
    adding g c (upd g (\<lambda>el. el\<lparr>children := splice_in i c (children el)\<rparr>) h)"
  by (auto simp: consistent_def adding_def)

lemma adding_same_tree: "same_tree h h' \<Longrightarrow> adding g c h' = adding g c h"
  by (simp add: adding_def same_treeD)

lemma adding_replace:
  assumes "consistent h" "isGroup (elems h g)" "parent (elems h c) \<noteq> Some g"
    "i < length (children (elems h g))" "c \<noteq> children (elems h g) ! i"
  shows "adding g c (upd (children (elems h g) ! i) (\<lambda>el. el\<lparr>parent := None\<rparr>)
    (upd g (\<lambda>el. el\<lparr>children := js_set (children el) i c\<rparr>) h))"
proof -
  let ?cs = "children (elems h g)"
  have d: "distinct ?cs" and p: "\<And>g' x. x \<in> set (children (elems h g')) \<Longrightarrow> parent (elems h x) = Some g'"
    using assms(1) by (auto simp: consistent_def)
  have "c \<notin> set ?cs" using p assms(3) by blast
  then have "distinct (?cs[i := c])" "set (?cs[i := c]) = insert c (set ?cs - {?cs ! i})"
    using d assms(4) by (simp_all add: distinct_list_update set_update_distinct)
  then show ?thesis
    using assms p unfolding adding_def consistent_def js_set_def
    by (auto split: if_splits) (metis nth_mem option.inject)+
qed

lemma add_consistent:
  assumes "consistent h" "isGroup (elems h g)" "add g child h = Some (e, h')" "e \<noteq> Some TypeError"
  shows "consistent h'"
  using assms
  by (auto simp: add_def bind_eq_Some_conv split: option.splits if_splits
      intro: doAdd_consistent [OF adding_push] dest: doAdd_errors)

lemma addBefore_consistent:
  assumes "consistent h" "isGroup (elems h g)" "addBefore g child n h = Some (None, h')"
  shows "consistent h'"
  using assms
  by (auto simp: addBefore_def Let_def split: option.splits if_splits
      intro: doAdd_consistent [OF adding_splice_in])

lemma replaceAt_consistent:
  assumes "consistent h" "isGroup (elems h g)" "replaceAt g child i h = Some (None, h')"
  shows "consistent h'"
proof (cases "\<exists>c. child = Some c \<and> c \<noteq> g \<and> parent (elems h c) \<noteq> Some g \<and> i < length (children (elems h g)) \<and>
    c \<noteq> children (elems h g) ! i")
  case True
  then obtain c where c: "child = Some c" "c \<noteq> g" "parent (elems h c) \<noteq> Some g"
    "i < length (children (elems h g))" "c \<noteq> children (elems h g) ! i" by auto
  let ?old = "children (elems h g) ! i"
  let ?h = "upd ?old (\<lambda>el. el\<lparr>parent := None\<rparr>) (upd g (\<lambda>el. el\<lparr>children := js_set (children el) i c\<rparr>) h)"
  obtain h1 where "same_tree ?h h1" "doAdd g c h1 = Some (None, h')"
    using assms(3) c
    by (auto simp: replaceAt_def Let_def bind_eq_Some_conv split: if_splits dest: detachFrom_same_tree)
  then show ?thesis
    using adding_replace [OF assms(1,2) c(3-5)] adding_same_tree doAdd_consistent by blast
next
  case False
  then show ?thesis using assms
    by (auto simp: replaceAt_def Let_def split: option.splits if_splits)
qed

lemma removeAll_loop_effect:
  assumes "removeAll_loop zz cs h = Some h'"
  shows "children (elems h' a) = children (elems h a) \<and> isGroup (elems h' a) = isGroup (elems h a) \<and>
    parent (elems h' a) = (if a \<in> set cs then None else parent (elems h a))"
  using assms
proof (induction cs arbitrary: h)
  case (Cons c cs)
  then obtain h1 where h1: "same_tree h h1" "removeAll_loop zz cs (upd c (\<lambda>el. el\<lparr>parent := None\<rparr>) h1) = Some h'"
    by (auto simp: bind_eq_Some_conv dest: detachFrom_same_tree)
  from Cons.IH [OF h1(2)] show ?case by (auto simp: same_treeD [OF h1(1)])
qed simp

lemma removeAll_consistent:
  assumes "consistent h" "removeAll g h = Some h'"
  shows "consistent h'"
proof -
  let ?cs = "children (elems h g)"
  obtain h1 where h1: "removeAll_loop (zr (elems h g)) ?cs h = Some h1"
    "h' = upd g (\<lambda>el. el\<lparr>children := []\<rparr>) h1"
    using assms(2) by (auto simp: removeAll_def bind_eq_Some_conv)
  have p: "parent (elems h x) = Some g'" if "x \<in> set (children (elems h g'))" for x g'
    using assms(1) that by (auto simp: consistent_def)
  have "x \<notin> set ?cs" if "x \<in> set (children (elems h g'))" "g' \<noteq> g" for x g'
    using p that by (metis option.inject)
  then show ?thesis using assms(1) p
    by (auto simp: h1(2) consistent_def removeAll_loop_effect [OF h1(1)] split: if_splits)
qed

lemma exec_op_consistent:
  assumes "consistent h" "exec_op c h = Some (e, h')" "e \<noteq> Some TypeError"
  shows "consistent h'"
proof (cases "isGroup (elems h (op_target c))")
  case True
  then show ?thesis using assms
  proof (cases c)
    case (Add g ch)
    then show ?thesis using assms True add_consistent by (simp add: exec_op_def)
  next
    case (AddBefore g ch n)
    have "e = None" using assms AddBefore True doAdd_errors
      by (fastforce simp: exec_op_def addBefore_def Let_def split: option.splits if_splits)
    then show ?thesis using assms AddBefore True addBefore_consistent by (simp add: exec_op_def)
  next
    case (Replace g old ch)
    have "e = None" using assms Replace True doAdd_errors
      by (fastforce simp: exec_op_def replace_def replaceAt_def Let_def bind_eq_Some_conv split: option.splits if_splits)
    then show ?thesis using assms Replace True replaceAt_consistent
      by (auto simp: exec_op_def replace_def Let_def split: if_splits)
  next
    case (ReplaceAt g ch i)
    have "e = None" using assms ReplaceAt True doAdd_errors
      by (fastforce simp: exec_op_def replaceAt_def Let_def bind_eq_Some_conv split: option.splits if_splits)
    then show ?thesis using assms ReplaceAt True replaceAt_consistent by (simp add: exec_op_def)
  qed (auto simp: exec_op_def bind_eq_Some_conv dest: remove_consistent removeAll_consistent)
qed (use assms in \<open>auto simp: exec_op_def\<close>)

section \<open>Property\<close>


definition blank :: elem where
  "blank = \<lparr>isGroup = True, el_name = '''', parent = None, children = [], zr = None, hostTarget = None,
     clipPath = None, textContent = None, textGuide = None, decal = None, animators = [], ignore = False,
     ignoreClip = False, z = Some 0, z2 = Some 0, zlevel = Some 0, dirty = 1, clipPaths = None\<rparr>"


end
