(* ===== verification/Scene_Attach.thy ===== *)
theory Scene_Attach
  imports Scene_Tree
begin

text \<open>
  Attaching and detaching subtrees: on an acyclic scene the recursive walks \<^verbatim>\<open>addSelfToZr\<close> and
  \<^verbatim>\<open>removeSelfFromZr\<close> return, and they set the state of the element and of all its
  descendants.  Both walks have the same shape, which the locale below states; it is interpreted on
  the two functions.
\<close>

section \<open>Acyclic scenes\<close>

definition kids :: "scene \<Rightarrow> addr \<Rightarrow> addr list" where
  "kids h e = (if isGroup (elems h e) then children (elems h e) else [])"

definition descendants :: "scene \<Rightarrow> addr \<Rightarrow> addr set" where
  "descendants h e = {a. (e, a) \<in> {(g, c). c \<in> set (kids h g)}\<^sup>*}"

text \<open>A scene is acyclic when some rank decreases along all links from element to element.\<close>

definition ranked :: "(addr \<Rightarrow> nat) \<Rightarrow> scene \<Rightarrow> bool" where
  "ranked r h \<longleftrightarrow> (\<forall>e. \<forall>x \<in> set (attachments (elems h e) @ kids h e). r x < r e)"

lemma descendants_self [simp]: "e \<in> descendants h e"
  by (simp add: descendants_def)

lemma descendants_unfold: "descendants h e = insert e (\<Union>c \<in> set (kids h e). descendants h c)"
  unfolding descendants_def by (auto elim: converse_rtranclE intro: converse_rtrancl_into_rtrancl)

lemma kids_same_tree: "same_tree h h' \<Longrightarrow> kids h' = kids h"
  by (rule ext) (simp add: kids_def same_treeD)

lemma descendants_same_tree: "same_tree h h' \<Longrightarrow> descendants h' = descendants h"
  by (rule ext) (simp add: descendants_def kids_same_tree)

lemma ranked_same_tree: "same_tree h h' \<Longrightarrow> ranked r h' = ranked r h"
  by (simp add: ranked_def kids_same_tree same_treeD)

lemma work_decreases:
  assumes "\<forall>x\<in>set xs. r x < r e"
  shows "(mset (map r (xs @ wl)), mset (map r (e # wl))) \<in> mult less_than"
  using one_step_implies_mult [of "{#r e#}" "mset (map r xs)" less_than "mset (map r wl)"] assms
  by (auto simp: ac_simps)

section \<open>The walks\<close>

locale zr_walk =
  fixes walk :: "addr list \<Rightarrow> scene \<Rightarrow> scene option"
    and v :: "nat option"
    and log :: "elem \<Rightarrow> zcall list"
  assumes walk_nil: "walk [] h = Some h"
    and walk_same: "zr (elems h e) = v \<Longrightarrow> walk (e # wl) h = walk (kids h e @ wl) h"
    and walk_other: "zr (elems h e) \<noteq> v \<Longrightarrow> walk (e # wl) h =
      walk ((attachments (elems h e) @ kids h e) @ wl) (call (log (elems h e)) (upd e (\<lambda>el. el\<lparr>zr := v\<rparr>) h))"
begin

lemma walk_step_all:
  "\<exists>next h1. walk (e # wl) h = walk (next @ kids h e @ wl) h1 \<and> same_tree h h1 \<and>
    set next \<subseteq> set (attachments (elems h e)) \<and> zr (elems h1 e) = v \<and>
    (\<forall>a. a \<noteq> e \<longrightarrow> zr (elems h1 a) = zr (elems h a))"
proof (cases "zr (elems h e) = v")
  case True
  then show ?thesis using walk_same [OF True, of wl] by (intro exI [of _ "[]"] exI [of _ h]) auto
next
  case False
  then show ?thesis using walk_other [OF False, of wl] same_tree_upd_zr
    by (intro exI [of _ "attachments (elems h e)"]
        exI [of _ "call (log (elems h e)) (upd e (\<lambda>el. el\<lparr>zr := v\<rparr>) h)"]) auto
qed

lemma walk_sets:
  assumes "ranked r h"
  shows "\<exists>h'. walk wl h = Some h' \<and> same_tree h h' \<and>
    (\<forall>a. zr (elems h' a) = v \<or> zr (elems h' a) = zr (elems h a) \<and> a \<notin> (\<Union>e\<in>set wl. descendants h e))"
  using wf_mult [OF wf_less_than] assms
proof (induction "mset (map r wl)" arbitrary: wl h rule: wf_induct_rule)
  case less
  show ?case
  proof (cases wl)
    case Nil
    then show ?thesis by (simp add: walk_nil)
  next
    case (Cons e wl')
    obtain "next" h1 where s: "walk (e # wl') h = walk (next @ kids h e @ wl') h1" "same_tree h h1"
      "set next \<subseteq> set (attachments (elems h e))" "zr (elems h1 e) = v"
      "\<And>a. a \<noteq> e \<Longrightarrow> zr (elems h1 a) = zr (elems h a)"
      using walk_step_all [of e wl' h] by blast
    have "\<forall>x\<in>set (next @ kids h e). r x < r e" using less.prems s(3) unfolding ranked_def by auto
    from work_decreases [OF this, of wl'] obtain h' where h': "walk (next @ kids h e @ wl') h1 = Some h'"
      "same_tree h1 h'"
      "\<forall>a. zr (elems h' a) = v \<or>
        zr (elems h' a) = zr (elems h1 a) \<and> a \<notin> (\<Union>e\<in>set (next @ kids h e @ wl'). descendants h e)"
      using less.hyps [of "next @ kids h e @ wl'" h1] less.prems ranked_same_tree [OF s(2)]
        descendants_same_tree [OF s(2)] Cons by (auto simp: ac_simps)
    have "zr (elems h' a) = v \<or> zr (elems h' a) = zr (elems h a) \<and> a \<notin> (\<Union>e\<in>set wl. descendants h e)" for a
      using h'(3) [rule_format, of a] s(4) s(5) [of a] descendants_unfold [of h e] Cons by (cases "a = e") auto
    then show ?thesis using h'(1,2) s(1,2) Cons same_tree_trans by auto
  qed
qed

end

lemma addSelfToZr_walk:
  "addSelfToZr zz [] h = Some h"
  "zr (elems h e) = Some zz \<Longrightarrow> addSelfToZr zz (e # wl) h = addSelfToZr zz (kids h e @ wl) h"
  "zr (elems h e) \<noteq> Some zz \<Longrightarrow> addSelfToZr zz (e # wl) h =
    addSelfToZr zz ((attachments (elems h e) @ kids h e) @ wl)
      (call (map (AddAnimator zz) (animators (elems h e))) (upd e (\<lambda>el. el\<lparr>zr := Some zz\<rparr>) h))"
  by (subst addSelfToZr.simps, simp add: kids_def Let_def del: append_assoc)+

lemma removeSelfFromZr_walk:
  "removeSelfFromZr zz [] h = Some h"
  "zr (elems h e) = None \<Longrightarrow> removeSelfFromZr zz (e # wl) h = removeSelfFromZr zz (kids h e @ wl) h"
  "zr (elems h e) = Some y \<Longrightarrow> removeSelfFromZr zz (e # wl) h =
    removeSelfFromZr zz ((attachments (elems h e) @ kids h e) @ wl)
      (call (map (RemoveAnimator zz) (animators (elems h e))) (upd e (\<lambda>el. el\<lparr>zr := None\<rparr>) h))"
  by (subst removeSelfFromZr.simps, simp add: kids_def Let_def del: append_assoc)+

interpretation attach: zr_walk "addSelfToZr zz" "Some zz" "\<lambda>el. map (AddAnimator zz) (animators el)" for zz
  by unfold_locales (rule addSelfToZr_walk; assumption)+

interpretation detach: zr_walk "removeSelfFromZr zz" None "\<lambda>el. map (RemoveAnimator zz) (animators el)" for zz
  by unfold_locales (auto simp only: removeSelfFromZr_walk not_None_eq)

section \<open>Adding and removing a subtree\<close>

lemma attachTo_sets:
  assumes "ranked r h" "zr (elems h c) \<noteq> Some zz"
  shows "\<exists>h'. attachTo (Some zz) c h = Some h' \<and> same_tree h h' \<and>
    (\<forall>a\<in>descendants h c. zr (elems h' a) = Some zz) \<and> last (calls h') = Refresh zz"
  using attach.walk_sets [OF assms(1), of zz "[c]"] assms(2)
  by (fastforce simp: attachTo_def call_def same_tree_def)

lemma detachFrom_sets:
  assumes "ranked r h"
  shows "\<exists>h'. detachFrom (Some zz) c h = Some h' \<and> same_tree h h' \<and>
    (\<forall>a\<in>descendants h c. zr (elems h' a) = None)"
  using detach.walk_sets [OF assms(1), of zz "[c]"] by (fastforce simp: detachFrom_def)

section \<open>Properties\<close>

text \<open>
  adding a subtree to an attached group attaches the whole subtree.  If the scene with the new
  link is acyclic, the child has no parent and is neither attached nor an attachment, then
  \<^verbatim>\<open>add\<close> returns normally, lists the child last, makes the group its parent, attaches the
  child and all its descendants to the renderer of the group, and requests a repaint.
\<close>

theorem add_attaches_subtree:
  assumes "ranked r h" "r c < r g" "isGroup (elems h g)" "zr (elems h g) = Some zz"
    "parent (elems h c) = None" "hostTarget (elems h c) = None" "zr (elems h c) \<noteq> Some zz"
  shows "\<exists>h'. add g (Some c) h = Some (None, h') \<and> children (elems h' g) = children (elems h g) @ [c] \<and>
    parent (elems h' c) = Some g \<and> (\<forall>a\<in>descendants h c. zr (elems h' a) = Some zz) \<and>
    last (calls h') = Refresh zz"
proof -
  let ?h1 = "upd c (\<lambda>el. el\<lparr>parent := Some g\<rparr>) (upd g (\<lambda>el. el\<lparr>children := children el @ [c]\<rparr>) h)"
  have ne: "c \<noteq> g" using assms(2) by auto
  have kids1: "kids ?h1 e = (if e = g then kids h e @ [c] else kids h e)" for e
    using ne assms(3) by (simp add: kids_def)
  have at1: "attachments (elems ?h1 e) = attachments (elems h e)" for e
    by (simp add: attachments_def)
  have rk: "ranked r ?h1" using assms(1,2) unfolding ranked_def kids1 at1 by auto
  have sub: "descendants h c \<subseteq> descendants ?h1 c"
    unfolding descendants_def by (rule Collect_mono, rule impI, erule rtrancl_mono [THEN subsetD, rotated])
      (auto simp: kids1)
  obtain h' where h': "attachTo (Some zz) c ?h1 = Some h'" "same_tree ?h1 h'"
    "\<forall>a\<in>descendants ?h1 c. zr (elems h' a) = Some zz" "last (calls h') = Refresh zz"
    using attachTo_sets [OF rk, of c zz] assms(7) ne by auto
  have "doAdd g c (upd g (\<lambda>el. el\<lparr>children := children el @ [c]\<rparr>) h) = Some (None, h')"
    using ne assms h'(1) by (simp add: doAdd_def leaveParent_def)
  then have "add g (Some c) h = Some (None, h')"
    using ne assms same_treeD(4) [OF h'(2), of c] by (simp add: add_def)
  then show ?thesis using h'(3,4) sub same_treeD(1,2) [OF h'(2)] ne by auto
qed

theorem add_attaches_subtree_witness:
  "let h = \<lparr>elems = (\<lambda>_. blank)(0 := blank\<lparr>zr := Some 7\<rparr>, 1 := blank\<lparr>children := [2]\<rparr>), calls = []\<rparr>
   in \<exists>h'. add 0 (Some 1) h = Some (None, h') \<and> children (elems h' 0) = [1] \<and>
        (\<forall>a\<in>descendants h 1. zr (elems h' a) = Some 7)"
proof -
  let ?h = "\<lparr>elems = (\<lambda>_. blank)(0 := blank\<lparr>zr := Some 7\<rparr>, 1 := blank\<lparr>children := [2]\<rparr>), calls = []\<rparr>"
  have "ranked (\<lambda>a. 2 - a) ?h" by (auto simp: ranked_def kids_def attachments_def opt_list_def blank_def)
  from add_attaches_subtree [OF this, of 1 0 7] show ?thesis by (auto simp: blank_def Let_def)
qed

text \<open>
  removing a child of an attached group detaches the whole subtree: on an acyclic scene
  \<^verbatim>\<open>remove\<close> returns, the child is no longer listed and has no parent, and neither it nor any
  of its descendants is attached.
\<close>

theorem remove_detaches_subtree:
  assumes "ranked r h" "consistent h" "zr (elems h g) = Some zz" "c \<in> set (children (elems h g))"
  shows "\<exists>h'. remove g c h = Some h' \<and> children (elems h' g) = remove1 c (children (elems h g)) \<and>
    c \<notin> set (children (elems h' g)) \<and> parent (elems h' c) = None \<and>
    (\<forall>a\<in>descendants h c. zr (elems h' a) = None)"
proof -
  have grp: "isGroup (elems h g)" and d: "distinct (children (elems h g))"
    using assms(2,4) unfolding consistent_def by (auto simp: in_set_conv_decomp)
  have rc: "r c < r g" using assms(1,4) grp by (auto simp: ranked_def kids_def)
  then have ne: "c \<noteq> g" by auto
  let ?h1 = "unlisted g c h"
  have eq: "remove g c h = do { h \<leftarrow> detachFrom (Some zz) c ?h1; Some (refresh (Some zz) h) }"
    using assms(3,4) splice_out_indexOf [OF assms(4)]
    by (simp add: remove_def unlisted_def Let_def upd_def)
  have kids1: "kids ?h1 e = (if e = g then remove1 c (kids h e) else kids h e)" for e
    using ne grp assms(4) by (simp add: kids_def unlisted_def)
  have at1: "attachments (elems ?h1 e) = attachments (elems h e)" for e
    by (simp add: attachments_def unlisted_def)
  have rk: "ranked r ?h1"
    using assms(1) unfolding ranked_def kids1 at1 by (auto dest: in_set_remove1 [THEN iffD1] notin_set_remove1)
  have low: "r a \<le> r c" if "(c, a) \<in> {(g, c). c \<in> set (kids h g)}\<^sup>*" for a
    using that
  proof (induction rule: rtrancl_induct)
    case (step y w)
    then have "r w < r y" using assms(1) by (auto simp: ranked_def)
    then show ?case using step.IH by simp
  qed simp
  have sub: "(c, a) \<in> {(g, c). c \<in> set (kids ?h1 g)}\<^sup>*" if "(c, a) \<in> {(g, c). c \<in> set (kids h g)}\<^sup>*" for a
    using that
  proof (induction rule: rtrancl_induct)
    case (step y w)
    have "y \<noteq> g" using low [OF step(1)] rc by auto
    then show ?case using step by (auto simp: kids1 intro: rtrancl_into_rtrancl)
  qed simp
  obtain h' where h': "detachFrom (Some zz) c ?h1 = Some h'" "same_tree ?h1 h'"
    "\<forall>a\<in>descendants ?h1 c. zr (elems h' a) = None"
    using detachFrom_sets [OF rk] by blast
  have "remove g c h = Some (refresh (Some zz) h')" using eq h'(1) by simp
  then show ?thesis
    using h'(3) sub same_treeD(1,2) [OF h'(2)] ne d assms(4)
    by (auto simp: refresh_def unlisted_def descendants_def)
qed

theorem remove_detaches_subtree_witness:
  "let h = \<lparr>elems = (\<lambda>_. blank)(0 := blank\<lparr>zr := Some 7, children := [1]\<rparr>,
         1 := blank\<lparr>zr := Some 7, parent := Some 0\<rparr>), calls = []\<rparr>
   in \<exists>h'. remove 0 1 h = Some h' \<and> children (elems h' 0) = [] \<and> zr (elems h' 1) = None"
proof -
  let ?h = "\<lparr>elems = (\<lambda>_. blank)(0 := blank\<lparr>zr := Some 7, children := [1]\<rparr>,
         1 := blank\<lparr>zr := Some 7, parent := Some 0\<rparr>), calls = []\<rparr>"
  have "ranked (\<lambda>a. 2 - a) ?h" "consistent ?h"
    by (auto simp: ranked_def kids_def attachments_def opt_list_def blank_def consistent_def)
  from remove_detaches_subtree [OF this, of 0 7 1] descendants_self [of 1 ?h] show ?thesis
    by (auto simp: blank_def Let_def)
qed

end
