(* ===== verification/Eventful.thy ===== *)
theory Eventful
  imports Transitions
begin

text \<open>
  The event emitter \<^verbatim>\<open>Eventful\<close> (\<^verbatim>\<open>src/html/js/echarts.js\<close>, lines 1012-1172), the base of the
  animation driver, of all elements and of the chart API.  Functions and objects are identified by
  natural numbers; the property \<^verbatim>\<open>zrEventfulCallAtLast\<close> of handler functions and the event
  processor of the owner are parameters.  A trigger returns the list of calls it makes; handlers
  that register or remove handlers while they are called are not modelled.
\<close>

section \<open>Definitions\<close>

type_synonym obj = nat

record 'q wrap =
  wrap_h :: obj
  wrap_query :: "'q option"
  wrap_ctx :: obj
  callAtLast :: bool

text \<open>The optional methods of the event processor.\<close>

record 'q processor =
  normalizeQuery :: "('q \<Rightarrow> 'q) option"
  proc_filter :: "(string \<Rightarrow> 'q \<Rightarrow> bool) option"

record 'q eventful =
  this :: obj
  eventProcessor :: "'q processor option"
  handlers :: "(string \<Rightarrow> 'q wrap list option) option"

definition Eventful :: "obj \<Rightarrow> 'q processor option \<Rightarrow> 'q eventful" where
  "Eventful self p = \<lparr>this = self, eventProcessor = p, handlers = None\<rparr>"

text \<open>The second argument of \<^verbatim>\<open>on\<close> is a function, a query, or \<^verbatim>\<open>null\<close>.\<close>

datatype 'q query_arg = QFun obj | QVal 'q | QNull

definition normalize :: "'q processor option \<Rightarrow> 'q option \<Rightarrow> 'q option" where
  "normalize p query =
     (case (query, p) of
        (Some q, Some pr) \<Rightarrow> (case normalizeQuery pr of Some f \<Rightarrow> Some (f q) | None \<Rightarrow> Some q)
      | _ \<Rightarrow> query)"

definition addWrap :: "'q wrap \<Rightarrow> 'q wrap list \<Rightarrow> 'q wrap list" where
  "addWrap w ws =
     (if ws \<noteq> [] \<and> callAtLast (last ws) then butlast ws @ [w, last ws] else ws @ [w])"

fun registered :: "obj \<Rightarrow> 'q wrap list \<Rightarrow> bool" where
  "registered f [] \<longleftrightarrow> False"
| "registered f (w # ws) \<longleftrightarrow> (if wrap_h w = f then True else registered f ws)"

definition on ::
  "(obj \<Rightarrow> bool) \<Rightarrow> string \<Rightarrow> 'q query_arg \<Rightarrow> obj option \<Rightarrow> obj option \<Rightarrow> 'q eventful \<Rightarrow> 'q eventful" where
  "on zrEventfulCallAtLast event query handler context s =
     (let hs = (case handlers s of None \<Rightarrow> (\<lambda>_. None) | Some hs \<Rightarrow> hs);
          s = s\<lparr>handlers := Some hs\<rparr>;
          (query, handler, context) =
            (case query of QFun f \<Rightarrow> (None, Some f, handler) | QVal q \<Rightarrow> (Some q, handler, context)
             | QNull \<Rightarrow> (None, handler, context))
      in case handler of
           None \<Rightarrow> s
         | Some f \<Rightarrow>
             if event = [] then s
             else let query = normalize (eventProcessor s) query;
                      ws = (case hs event of None \<Rightarrow> [] | Some ws \<Rightarrow> ws);
                      s = s\<lparr>handlers := Some (hs(event \<mapsto> ws))\<rparr>
                  in if registered f ws then s
                     else let w = \<lparr>wrap_h = f, wrap_query = query,
                                   wrap_ctx = (case context of None \<Rightarrow> this s | Some c \<Rightarrow> c),
                                   callAtLast = zrEventfulCallAtLast f\<rparr>
                          in s\<lparr>handlers := Some (hs(event \<mapsto> addWrap w ws))\<rparr>)"

definition isSilent :: "string \<Rightarrow> 'q eventful \<Rightarrow> bool" where
  "isSilent event s \<longleftrightarrow>
     (case handlers s of
        None \<Rightarrow> True
      | Some hs \<Rightarrow> (case hs event of None \<Rightarrow> True | Some ws \<Rightarrow> length ws = 0))"

fun offLoop :: "obj \<Rightarrow> 'q wrap list \<Rightarrow> 'q wrap list \<Rightarrow> 'q wrap list" where
  "offLoop f [] newList = newList"
| "offLoop f (w # ws) newList = offLoop f ws (if wrap_h w \<noteq> f then newList @ [w] else newList)"

definition off :: "string option \<Rightarrow> obj option \<Rightarrow> 'q eventful \<Rightarrow> 'q eventful" where
  "off eventType handler s =
     (case handlers s of
        None \<Rightarrow> s
      | Some hs \<Rightarrow>
          (case eventType of
             None \<Rightarrow> s\<lparr>handlers := Some (\<lambda>_. None)\<rparr>
           | Some ev \<Rightarrow>
               if ev = [] then s\<lparr>handlers := Some (\<lambda>_. None)\<rparr>
               else (case handler of
                       Some f \<Rightarrow>
                         (let hs = (case hs ev of Some ws \<Rightarrow> hs(ev \<mapsto> offLoop f ws []) | None \<Rightarrow> hs)
                          in s\<lparr>handlers := Some (if hs ev = Some [] then hs(ev := None) else hs)\<rparr>)
                     | None \<Rightarrow> s\<lparr>handlers := Some (hs(ev := None))\<rparr>)))"

text \<open>A call of a handler: the function, its \<^verbatim>\<open>this\<close> and its arguments.\<close>

type_synonym hcall = "obj \<times> obj \<times> obj list"

definition passes :: "'q processor option \<Rightarrow> string \<Rightarrow> 'q wrap \<Rightarrow> bool" where
  "passes p ev w \<longleftrightarrow>
     \<not> (case p of
          None \<Rightarrow> False
        | Some pr \<Rightarrow>
            (case (proc_filter pr, wrap_query w) of
               (Some flt, Some q) \<Rightarrow> \<not> flt ev q
             | _ \<Rightarrow> False))"

definition trigger :: "string \<Rightarrow> obj list \<Rightarrow> 'q eventful \<Rightarrow> hcall list" where
  "trigger ev args s =
     (case handlers s of
        None \<Rightarrow> []
      | Some hs \<Rightarrow>
          (case hs ev of
             None \<Rightarrow> []
           | Some ws \<Rightarrow>
               map (\<lambda>w. (wrap_h w, wrap_ctx w, args)) (filter (passes (eventProcessor s) ev) ws)))"

text \<open>
  \<^verbatim>\<open>triggerWithContext(type, ...args)\<close>, where the last argument is the context.
\<close>

definition contextArgs :: "obj list \<Rightarrow> obj list" where
  "contextArgs args =
     (let argLen = length args
      in if argLen = 0 then [] else if argLen = 1 then [args ! 0]
         else if argLen = 2 then [args ! 0, args ! 1]
         else take (argLen - 1 - 1) (drop 1 args))"

definition triggerWithContext :: "string \<Rightarrow> obj list \<Rightarrow> 'q eventful \<Rightarrow> (obj \<times> obj option \<times> obj list) list" where
  "triggerWithContext ev args s =
     (case handlers s of
        None \<Rightarrow> []
      | Some hs \<Rightarrow>
          (case hs ev of
             None \<Rightarrow> []
           | Some ws \<Rightarrow>
               (let ctx = (if args = [] then None else Some (last args))
                in map (\<lambda>w. (wrap_h w, ctx, contextArgs args)) (filter (passes (eventProcessor s) ev) ws))))"

section \<open>The abstract registry\<close>

text \<open>Which handlers are registered for which event, as a relation, and the effect of a call on it.\<close>

datatype ev_op = On string obj "obj option" | Off "string option" "obj option"

fun reg_step :: "ev_op \<Rightarrow> (string \<times> obj) set \<Rightarrow> (string \<times> obj) set" where
  "reg_step (On ev f _) R = (if ev = [] then R else insert (ev, f) R)"
| "reg_step (Off None _) R = {}"
| "reg_step (Off (Some ev) ho) R =
     (if ev = [] then {}
      else case ho of None \<Rightarrow> {p \<in> R. fst p \<noteq> ev} | Some f \<Rightarrow> R - {(ev, f)})"

fun ev_step :: "(obj \<Rightarrow> bool) \<Rightarrow> ev_op \<Rightarrow> 'q eventful \<Rightarrow> 'q eventful" where
  "ev_step cal (On ev f c) s = on cal ev (QFun f) c None s"
| "ev_step cal (Off eo ho) s = off eo ho s"

definition handlersOf :: "string \<Rightarrow> 'q eventful \<Rightarrow> 'q wrap list" where
  "handlersOf ev s = (case handlers s of None \<Rightarrow> [] | Some hs \<Rightarrow> (case hs ev of None \<Rightarrow> [] | Some ws \<Rightarrow> ws))"

lemma registered_iff [simp]: "registered f ws \<longleftrightarrow> f \<in> wrap_h ` set ws"
  by (induction ws) auto

lemma offLoop_filter [simp]: "offLoop f ws acc = acc @ filter (\<lambda>w. wrap_h w \<noteq> f) ws"
  by (induction ws arbitrary: acc) auto

lemma mset_addWrap: "mset (addWrap w ws) = add_mset w (mset ws)"
  by (cases ws rule: rev_cases) (auto simp: addWrap_def)

lemma handlersOf_on:
  "handlersOf ev (on cal ev' (QFun f) c None s) =
     (if ev = ev' \<and> ev \<noteq> [] \<and> f \<notin> wrap_h ` set (handlersOf ev s)
      then addWrap \<lparr>wrap_h = f, wrap_query = None, wrap_ctx = (case c of None \<Rightarrow> this s | Some c \<Rightarrow> c),
                    callAtLast = cal f\<rparr> (handlersOf ev s)
      else handlersOf ev s)"
  by (auto simp: handlersOf_def on_def normalize_def Let_def split: option.splits)

lemma handlersOf_off:
  "handlersOf ev (off eo ho s) =
     (case eo of
        None \<Rightarrow> []
      | Some ev' \<Rightarrow>
          if ev' = [] then []
          else if ev = ev' then (case ho of None \<Rightarrow> [] | Some f \<Rightarrow> filter (\<lambda>w. wrap_h w \<noteq> f) (handlersOf ev s))
          else handlersOf ev s)"
  by (auto simp: handlersOf_def off_def Let_def split: option.splits if_splits)

definition ev_rep :: "'q eventful \<Rightarrow> (string \<times> obj) set \<Rightarrow> bool" where
  "ev_rep s R \<longleftrightarrow> (\<forall>ev. distinct (map wrap_h (handlersOf ev s)) \<and>
     wrap_h ` set (handlersOf ev s) = {f. (ev, f) \<in> R})"

lemma ev_rep_step: "ev_rep s R \<Longrightarrow> ev_rep (ev_step cal c s) (reg_step c R)"
proof (cases c)
  case (On ev f ctx)
  assume r: "ev_rep s R"
  have d: "distinct (map wrap_h (addWrap w ws)) \<longleftrightarrow> distinct (map wrap_h ws) \<and> wrap_h w \<notin> wrap_h ` set ws"
    "wrap_h ` set (addWrap w ws) = insert (wrap_h w) (wrap_h ` set ws)" for w :: "'q wrap" and ws
  proof -
    have "mset (map wrap_h (addWrap w ws)) = mset (wrap_h w # map wrap_h ws)" by (simp add: mset_addWrap)
    from mset_eq_imp_distinct_iff [OF this] mset_eq_setD [OF this]
    show "distinct (map wrap_h (addWrap w ws)) \<longleftrightarrow> distinct (map wrap_h ws) \<and> wrap_h w \<notin> wrap_h ` set ws"
      "wrap_h ` set (addWrap w ws) = insert (wrap_h w) (wrap_h ` set ws)" by auto
  qed
  show ?thesis using r unfolding On ev_rep_def by (auto simp: handlersOf_on d)
next
  case (Off eo ho)
  assume r: "ev_rep s R"
  show ?thesis
  proof (cases eo)
    case (Some ev')
    have fi: "wrap_h ` {w \<in> set ws. wrap_h w \<noteq> f} = wrap_h ` set ws - {f}" for f and ws :: "'q wrap list" by auto
    show ?thesis using r unfolding Off Some ev_rep_def
      by (cases ho) (auto simp: handlersOf_off distinct_map_filter fi)
  qed (simp add: Off ev_rep_def handlersOf_off)
qed

interpretation registry: state_simulation "ev_step cal" reg_step ev_rep for cal
  by unfold_locales (rule ev_rep_step)

lemma trigger_handlers:
  "eventProcessor s = None \<Longrightarrow> trigger ev args s = map (\<lambda>w. (wrap_h w, wrap_ctx w, args)) (handlersOf ev s)"
  by (auto simp: trigger_def handlersOf_def passes_def split: option.splits)

lemma eventProcessor_step [simp]: "eventProcessor (ev_step cal c s) = eventProcessor s"
  by (cases c) (auto simp: on_def off_def Let_def split: option.splits)

lemma eventProcessor_run [simp]: "eventProcessor (fold (ev_step cal) ops s) = eventProcessor s"
  by (induction ops arbitrary: s) auto

lemma isSilent_iff: "isSilent ev s \<longleftrightarrow> handlersOf ev s = []"
  by (auto simp: isSilent_def handlersOf_def split: option.splits)

lemma addWrap_last:
  "ws \<noteq> [] \<Longrightarrow> callAtLast (last ws) \<Longrightarrow> addWrap w ws \<noteq> [] \<and> last (addWrap w ws) = last ws"
  by (simp add: addWrap_def)

section \<open>Properties\<close>


text \<open>
  a handler that asks to be called last is called last.  If the last handler registered for an
  event has the flag \<^verbatim>\<open>zrEventfulCallAtLast\<close> and no other handler has it, registering further
  handlers without the flag, in any number, keeps it the last one.
\<close>

theorem call_at_last:
  assumes "handlersOf ev s \<noteq> []" "callAtLast (last (handlersOf ev s))" "eventProcessor s = None"
  shows "fst (last (trigger ev args (fold (\<lambda>f. on cal ev (QFun f) None None) fs s)))
    = wrap_h (last (handlersOf ev s))"
  using assms
proof (induction fs arbitrary: s)
  case Nil
  then show ?case by (simp add: trigger_handlers last_map)
next
  case (Cons f fs)
  let ?s = "on cal ev (QFun f) None None s"
  have "handlersOf ev ?s \<noteq> []" "last (handlersOf ev ?s) = last (handlersOf ev s)"
    using Cons.prems addWrap_last by (auto simp: handlersOf_on)
  moreover have "eventProcessor ?s = None" using eventProcessor_step [of cal "On ev f None" s] Cons.prems(3) by simp
  ultimately show ?case using Cons.IH [of ?s] Cons.prems(2) by simp
qed

theorem call_at_last_witness:
  "fst (last (trigger ''click'' [9] (fold (\<lambda>f. on (\<lambda>f. f = 1) ''click'' (QFun f) None None) [2, 3]
     (on (\<lambda>f. f = 1) ''click'' (QFun 1) None None (Eventful 0 (None :: unit processor option)))))) = 1"
proof -
  let ?s = "on (\<lambda>f. f = 1) ''click'' (QFun 1) None None (Eventful 0 (None :: unit processor option))"
  have h: "handlersOf ''click'' ?s = [\<lparr>wrap_h = 1, wrap_query = None, wrap_ctx = 0, callAtLast = True\<rparr>]"
    by (simp add: handlersOf_on addWrap_def) (simp add: handlersOf_def Eventful_def)
  have "eventProcessor ?s = None"
    using eventProcessor_step [of "\<lambda>f. f = 1" "On ''click'' 1 None" "Eventful 0 (None :: unit processor option)"]
    by (simp add: Eventful_def)
  from call_at_last [of "''click''" ?s "[9]" "\<lambda>f. f = 1" "[2, 3]"] h this show ?thesis by simp
qed

text \<open>
  \<^verbatim>\<open>triggerWithContext\<close> does not pass the arguments on.  Its handlers get the context as
  an argument when one or two values are given, and with three or more values the first value is
  dropped together with the context: triggering with the values 1 and 2 and a context calls the
  handler with the single argument 2.
\<close>

theorem triggerWithContext_drops_argument:
  "let s = on (\<lambda>_. False) ''move'' (QFun 5) None None (Eventful 0 (None :: unit processor option))
   in triggerWithContext ''move'' [1, 2, 7] s = [(5, Some 7, [2])] \<and>
      triggerWithContext ''move'' [1, 7] s = [(5, Some 7, [1, 7])] \<and>
      triggerWithContext ''move'' [7] s = [(5, Some 7, [7])] \<and>
      trigger ''move'' [1, 2] s = [(5, 0, [1, 2])]"
  by (simp add: triggerWithContext_def trigger_def on_def Eventful_def passes_def contextArgs_def addWrap_def
      normalize_def Let_def)

end
