(* ===== verification/Animation.thy ===== *)
theory Animation
  imports Complex_Main Linked_Nodes
begin

text \<open>
  Animation clips and the animation driver (\<^verbatim>\<open>src/html/js/echarts.js\<close>, lines 3509-3567 and
  4970-5110).  The driver keeps its clips in a doubly linked list threaded through the clip objects.
  Times are integers (milliseconds); the progress of a clip is a rational number.  The current
  time is an argument of the operations; the callbacks of clips (\<^verbatim>\<open>onframe\<close>,
  \<^verbatim>\<open>onrestart\<close>, \<^verbatim>\<open>ondestroy\<close>) and the requests for a frame are recorded as events, and
  easing functions are a parameter.
\<close>

section \<open>Definitions\<close>

subsection \<open>Clip\<close>

record clip =
  inited :: bool
  startTime :: int
  clip_pausedTime :: int
  paused :: bool
  life :: int
  delay :: int
  loop :: bool

text \<open>\<^verbatim>\<open>new Clip(opts)\<close>; a missing or zero life means a second.\<close>

definition Clip :: "int option \<Rightarrow> int option \<Rightarrow> bool \<Rightarrow> clip" where
  "Clip lifeOpt delayOpt loopOpt =
     \<lparr>inited = False, startTime = 0, clip_pausedTime = 0, paused = False,
      life = (case lifeOpt of Some l \<Rightarrow> if l = 0 then 1000 else l | None \<Rightarrow> 1000),
      delay = (case delayOpt of Some d \<Rightarrow> d | None \<Rightarrow> 0), loop = loopOpt\<rparr>"

record step_result =
  finished :: bool
  frame :: "rat option"
  restarted :: bool

text \<open>The remainder of JavaScript: it has the sign of the dividend.\<close>

definition js_rem :: "int \<Rightarrow> int \<Rightarrow> int" where
  "js_rem a b = (if a < 0 then - ((- a) mod \<bar>b\<bar>) else a mod \<bar>b\<bar>)"

definition clip_step :: "(rat \<Rightarrow> rat) option \<Rightarrow> int \<Rightarrow> int \<Rightarrow> clip \<Rightarrow> step_result \<times> clip" where
  "clip_step easingFunc globalTime deltaTime c =
     (let c = (if \<not> inited c then c\<lparr>startTime := globalTime + delay c, inited := True\<rparr> else c)
      in if paused c
         then (\<lparr>finished = False, frame = None, restarted = False\<rparr>,
               c\<lparr>clip_pausedTime := clip_pausedTime c + deltaTime\<rparr>)
         else let elapsedTime = globalTime - startTime c - clip_pausedTime c;
                  percent = of_int elapsedTime / of_int (life c);
                  percent = (if percent < 0 then 0 else percent);
                  percent = min percent 1;
                  schedule = (case easingFunc of Some f \<Rightarrow> f percent | None \<Rightarrow> percent)
              in if percent = 1
                 then if loop c
                      then (\<lparr>finished = False, frame = Some schedule, restarted = True\<rparr>,
                            c\<lparr>startTime := globalTime - js_rem elapsedTime (life c), clip_pausedTime := 0\<rparr>)
                      else (\<lparr>finished = True, frame = Some schedule, restarted = False\<rparr>, c)
                 else (\<lparr>finished = False, frame = Some schedule, restarted = False\<rparr>, c))"

definition clip_pause :: "clip \<Rightarrow> clip" where
  "clip_pause c = c\<lparr>paused := True\<rparr>"

definition clip_resume :: "clip \<Rightarrow> clip" where
  "clip_resume c = c\<lparr>paused := False\<rparr>"

subsection \<open>Animation\<close>

datatype event = Frame addr rat | Restart addr | Destroy addr | TriggerFrame int | StageUpdate | RequestFrame

record animation =
  running :: bool
  time :: int
  pausedTime :: int
  pauseStart :: int
  an_paused :: bool
  an_head :: "addr option"
  an_tail :: "addr option"
  an_prev :: link
  an_next :: link
  owned :: "addr \<Rightarrow> bool"
  clips :: "addr \<Rightarrow> clip"
  events :: "event list"

definition Animation :: "(addr \<Rightarrow> clip) \<Rightarrow> animation" where
  "Animation cs = \<lparr>running = False, time = 0, pausedTime = 0, pauseStart = 0, an_paused = False,
     an_head = None, an_tail = None, an_prev = (\<lambda>_. None), an_next = (\<lambda>_. None), owned = (\<lambda>_. False),
     clips = cs, events = []\<rparr>"

definition emit :: "event list \<Rightarrow> animation \<Rightarrow> animation" where
  "emit es an = an\<lparr>events := events an @ es\<rparr>"

definition removeClip :: "addr \<Rightarrow> animation \<Rightarrow> animation" where
  "removeClip e an =
     (if \<not> owned an e then an
      else let p = an_prev an e; n = an_next an e;
               an = (case p of Some p' \<Rightarrow> an\<lparr>an_next := (an_next an)(p' := n)\<rparr> | None \<Rightarrow> an\<lparr>an_head := n\<rparr>);
               an = (case n of Some n' \<Rightarrow> an\<lparr>an_prev := (an_prev an)(n' := p)\<rparr> | None \<Rightarrow> an\<lparr>an_tail := p\<rparr>)
           in an\<lparr>an_next := (an_next an)(e := None), an_prev := (an_prev an)(e := None),
                 owned := (owned an)(e := False)\<rparr>)"

definition addClip :: "addr \<Rightarrow> animation \<Rightarrow> animation" where
  "addClip e an =
     (let an = (if owned an e then removeClip e an else an);
          an = (case an_head an of
                  None \<Rightarrow> an\<lparr>an_head := Some e, an_tail := Some e\<rparr>
                | Some _ \<Rightarrow>
                    (let t = the (an_tail an)
                     in an\<lparr>an_next := ((an_next an)(t := Some e))(e := None),
                           an_prev := (an_prev an)(e := Some t), an_tail := Some e\<rparr>))
      in an\<lparr>owned := (owned an)(e := True)\<rparr>)"

definition stepClip :: "(addr \<Rightarrow> (rat \<Rightarrow> rat) option) \<Rightarrow> int \<Rightarrow> int \<Rightarrow> addr \<Rightarrow> animation \<Rightarrow> bool \<times> animation" where
  "stepClip easing t delta e an =
     (let (r, c) = clip_step (easing e) t delta (clips an e);
          an = an\<lparr>clips := (clips an)(e := c)\<rparr>;
          an = emit ((case frame r of Some s \<Rightarrow> [Frame e s] | None \<Rightarrow> []) @ (if restarted r then [Restart e] else [])) an
      in (finished r, an))"

partial_function (option) updateLoop ::
  "(addr \<Rightarrow> (rat \<Rightarrow> rat) option) \<Rightarrow> int \<Rightarrow> int \<Rightarrow> addr option \<Rightarrow> animation \<Rightarrow> animation option" where
  "updateLoop easing t delta clip an =
     (case clip of
        None \<Rightarrow> Some an
      | Some e \<Rightarrow>
          (let nextClip = an_next an e;
               (fin, an) = stepClip easing t delta e an
           in if fin then updateLoop easing t delta nextClip (removeClip e (emit [Destroy e] an))
              else updateLoop easing t delta nextClip an))"

definition update :: "(addr \<Rightarrow> (rat \<Rightarrow> rat) option) \<Rightarrow> int \<Rightarrow> bool \<Rightarrow> animation \<Rightarrow> animation option" where
  "update easing now notTriggerFrameAndStageUpdate an =
     (let t = now - pausedTime an;
          delta = t - time an
      in do {
           an \<leftarrow> updateLoop easing t delta (an_head an) an;
           let an = an\<lparr>time := t\<rparr>;
           Some (if notTriggerFrameAndStageUpdate then an else emit [TriggerFrame delta, StageUpdate] an)
         })"

definition startLoop :: "animation \<Rightarrow> animation" where
  "startLoop an = emit [RequestFrame] (an\<lparr>running := True\<rparr>)"

text \<open>The callback of a requested frame.\<close>

definition frameStep :: "(addr \<Rightarrow> (rat \<Rightarrow> rat) option) \<Rightarrow> int \<Rightarrow> animation \<Rightarrow> animation option" where
  "frameStep easing now an =
     (if running an
      then let an = emit [RequestFrame] an in if \<not> an_paused an then update easing now False an else Some an
      else Some an)"

definition start :: "int \<Rightarrow> animation \<Rightarrow> animation" where
  "start now an = (if running an then an else startLoop (an\<lparr>time := now, pausedTime := 0\<rparr>))"

definition stop :: "animation \<Rightarrow> animation" where
  "stop an = an\<lparr>running := False\<rparr>"

definition pause :: "int \<Rightarrow> animation \<Rightarrow> animation" where
  "pause now an = (if \<not> an_paused an then an\<lparr>pauseStart := now, an_paused := True\<rparr> else an)"

definition resume :: "int \<Rightarrow> animation \<Rightarrow> animation" where
  "resume now an =
     (if an_paused an then an\<lparr>pausedTime := pausedTime an + (now - pauseStart an), an_paused := False\<rparr> else an)"

partial_function (option) clearLoop :: "addr option \<Rightarrow> animation \<Rightarrow> animation option" where
  "clearLoop clip an =
     (case clip of
        None \<Rightarrow> Some an
      | Some e \<Rightarrow>
          clearLoop (an_next an e)
            (an\<lparr>an_prev := (an_prev an)(e := None), an_next := (an_next an)(e := None),
                owned := (owned an)(e := False)\<rparr>))"

definition clear :: "animation \<Rightarrow> animation option" where
  "clear an = do {
     an \<leftarrow> clearLoop (an_head an) an;
     Some (an\<lparr>an_head := None, an_tail := None\<rparr>)
   }"

definition isFinished :: "animation \<Rightarrow> bool" where
  "isFinished an \<longleftrightarrow> an_head an = None"

section \<open>The clip list\<close>

text \<open>
  The driver holds the clips \<open>as\<close>, in this order: they form the linked list, they are exactly the
  clips marked as owned, and no other clip has links.
\<close>

definition an_rep :: "animation \<Rightarrow> addr list \<Rightarrow> bool" where
  "an_rep an as \<longleftrightarrow> chain (an_head an) (an_tail an) (an_prev an) (an_next an) as \<and>
     (\<forall>e. owned an e \<longleftrightarrow> e \<in> set as) \<and> (\<forall>e. e \<notin> set as \<longrightarrow> an_prev an e = None \<and> an_next an e = None)"

lemma an_rep_frame:
  "an_rep (an\<lparr>clips := cs\<rparr>) as = an_rep an as" "an_rep (an\<lparr>time := t\<rparr>) as = an_rep an as"
  "an_rep (emit es an) as = an_rep an as" "an_rep (an\<lparr>running := b\<rparr>) as = an_rep an as"
  by (simp_all add: an_rep_def emit_def)

lemma removeClip_fields:
  assumes "owned an e"
  shows "an_head (removeClip e an) = unlink_head (an_head an) (an_prev an) (an_next an) e"
    "an_tail (removeClip e an) = unlink_tail (an_tail an) (an_prev an) (an_next an) e"
    "an_prev (removeClip e an) = unlink_prev (an_prev an) (an_next an) e"
    "an_next (removeClip e an) = unlink_next (an_prev an) (an_next an) e"
    "owned (removeClip e an) = (owned an)(e := False)" "clips (removeClip e an) = clips an"
  using assms by (auto simp: removeClip_def Let_def unlink_defs split: option.splits)

lemma chain_neighbours:
  assumes "chain h0 t0 prv nxt as" "e \<in> set as"
  shows "prv e = Some p \<Longrightarrow> p \<in> set as" "nxt e = Some n \<Longrightarrow> n \<in> set as"
proof -
  obtain xs ys where "as = xs @ e # ys" using assms(2) by (meson split_list)
  then have "prv e = last_opt None xs" "nxt e = hd_opt ys None" using assms(1) by (auto simp: chain_def)
  then show "prv e = Some p \<Longrightarrow> p \<in> set as" "nxt e = Some n \<Longrightarrow> n \<in> set as"
    using \<open>as = xs @ e # ys\<close> by (auto simp: last_opt_def hd_opt_def split: if_splits list.splits)
qed

lemma an_rep_removeClip:
  assumes "an_rep an as"
  shows "an_rep (removeClip e an) (remove1 e as)"
proof (cases "e \<in> set as")
  case True
  have ch: "chain (an_head an) (an_tail an) (an_prev an) (an_next an) as" and d: "distinct as"
    using assms by (auto simp: an_rep_def chain_def)
  have ow: "owned an e" using assms True by (simp add: an_rep_def)
  have "an_prev (removeClip e an) x = None \<and> an_next (removeClip e an) x = None" if "x \<notin> set (remove1 e as)" for x
  proof (cases "x = e")
    case False
    then have x: "x \<notin> set as" using that by (simp add: d)
    then have "an_prev an e \<noteq> Some x" "an_next an e \<noteq> Some x" using chain_neighbours [OF ch True] by blast+
    then show ?thesis using False assms x
      by (auto simp: removeClip_fields [OF ow] unlink_defs an_rep_def split: option.splits)
  qed (auto simp: removeClip_fields [OF ow] unlink_defs split: option.splits)
  then show ?thesis
    using chain_unlink [OF ch True] assms d unfolding an_rep_def removeClip_fields [OF ow] by auto
next
  case False
  then show ?thesis using assms by (simp add: an_rep_def removeClip_def remove1_idem)
qed

lemma an_rep_addClip:
  assumes "an_rep an as"
  shows "an_rep (addClip e an) (remove1 e as @ [e])"
proof -
  define an1 where "an1 = removeClip e an"
  have an1: "(if owned an e then removeClip e an else an) = an1" by (simp add: an1_def removeClip_def)
  have r: "an_rep an1 (remove1 e as)" unfolding an1_def by (rule an_rep_removeClip [OF assms])
  have e: "e \<notin> set (remove1 e as)" using assms by (auto simp: an_rep_def chain_def)
  show ?thesis
  proof (cases "an_head an1")
    case None
    then have "remove1 e as = []" using r chain_head_None unfolding an_rep_def by blast
    then show ?thesis using r e None unfolding addClip_def an1
      by (auto simp: an_rep_def Let_def chain_insert_first)
  next
    case (Some h)
    then have ne: "remove1 e as \<noteq> []" using r by (auto simp: an_rep_def chain_def)
    then obtain t where t: "an_tail an1 = Some t" "t \<in> set (remove1 e as)"
      using r unfolding an_rep_def chain_def by (auto simp: last_opt_def)
    have "chain (an_head an1) (Some t) (an_prev an1) (an_next an1) (remove1 e as)"
      using r t(1) by (simp add: an_rep_def)
    note ins = chain_insert_tail [OF this e]
    show ?thesis using ins r e t Some unfolding addClip_def an1
      by (auto simp: an_rep_def Let_def)
  qed
qed

section \<open>One update of all clips\<close>

definition finishes :: "(addr \<Rightarrow> (rat \<Rightarrow> rat) option) \<Rightarrow> int \<Rightarrow> int \<Rightarrow> (addr \<Rightarrow> clip) \<Rightarrow> addr \<Rightarrow> bool" where
  "finishes easing t delta cs e \<longleftrightarrow> finished (fst (clip_step (easing e) t delta (cs e)))"

definition stepped ::
  "(addr \<Rightarrow> (rat \<Rightarrow> rat) option) \<Rightarrow> int \<Rightarrow> int \<Rightarrow> addr list \<Rightarrow> (addr \<Rightarrow> clip) \<Rightarrow> addr \<Rightarrow> clip" where
  "stepped easing t delta as cs e = (if e \<in> set as then snd (clip_step (easing e) t delta (cs e)) else cs e)"

lemma stepClip_effect:
  assumes "stepClip easing t delta e an = (fin, an')"
  shows "fin = finishes easing t delta (clips an) e"
    "clips an' = (clips an)(e := snd (clip_step (easing e) t delta (clips an e)))"
    "an_rep an' as = an_rep an as" "an_next an' = an_next an"
  using assms by (auto simp: stepClip_def Let_def split_beta finishes_def an_rep_def emit_def)

lemma an_rep_next: "an_rep an (xs @ y # ys) \<Longrightarrow> an_next an y = hd_opt ys None"
  by (auto simp: an_rep_def chain_def)

lemma an_rep_distinct: "an_rep an as \<Longrightarrow> distinct as"
  by (simp add: an_rep_def chain_def)

lemma updateLoop_spec:
  assumes "an_rep an (xs @ ys)"
  shows "\<exists>an'. updateLoop easing t delta (hd_opt ys None) an = Some an' \<and>
    an_rep an' (xs @ filter (\<lambda>e. \<not> finishes easing t delta (clips an) e) ys) \<and>
    clips an' = stepped easing t delta ys (clips an)"
  using assms
proof (induction ys arbitrary: an xs)
  case Nil
  then show ?case by (simp add: updateLoop.simps stepped_def fun_eq_iff)
next
  case (Cons y ys)
  obtain fin an1 where st: "stepClip easing t delta y an = (fin, an1)" by fastforce
  note ef = stepClip_effect [OF st]
  let ?an2 = "if fin then removeClip y (emit [Destroy y] an1) else an1"
  let ?xs = "if fin then xs else xs @ [y]"
  have d: "distinct (xs @ y # ys)" using an_rep_distinct [OF Cons.prems] .
  have rep: "an_rep ?an2 (?xs @ ys)"
    using an_rep_removeClip [of "emit [Destroy y] an1" "xs @ y # ys" y] Cons.prems ef(3) d
    by (simp add: an_rep_frame remove1_append)
  have cl: "clips ?an2 = (clips an)(y := snd (clip_step (easing y) t delta (clips an y)))"
    using ef(2) by (simp add: removeClip_def Let_def emit_def split: option.splits)
  have eq: "finishes easing t delta (clips ?an2) e = finishes easing t delta (clips an) e"
    "clips ?an2 e = clips an e" if "e \<in> set ys" for e
    using that d unfolding cl by (auto simp: finishes_def)
  from Cons.IH [OF rep] obtain an' where an': "updateLoop easing t delta (hd_opt ys None) ?an2 = Some an'"
    "an_rep an' (?xs @ filter (\<lambda>e. \<not> finishes easing t delta (clips ?an2) e) ys)"
    "clips an' = stepped easing t delta ys (clips ?an2)" by blast
  have "updateLoop easing t delta (hd_opt (y # ys) None) an = Some an'"
    using an'(1) an_rep_next [OF Cons.prems] st by (subst updateLoop.simps) (simp split: if_splits)
  moreover have "?xs @ filter (\<lambda>e. \<not> finishes easing t delta (clips ?an2) e) ys
      = xs @ filter (\<lambda>e. \<not> finishes easing t delta (clips an) e) (y # ys)"
    using ef(1) eq(1) by (simp cong: filter_cong)
  moreover have "clips an' = stepped easing t delta (y # ys) (clips an)"
    unfolding an'(3) using eq(2) d cl by (auto simp: stepped_def fun_eq_iff)
  ultimately show ?case using an'(2) by metis
qed

lemma clearLoop_spec:
  assumes "dll (an_prev an) (an_next an) p ys None" "distinct ys" "\<forall>e. owned an e \<longrightarrow> e \<in> set ys"
    "\<forall>e. e \<notin> set ys \<longrightarrow> an_prev an e = None \<and> an_next an e = None"
  shows "\<exists>an'. clearLoop (hd_opt ys None) an = Some an' \<and> (\<forall>e. \<not> owned an' e) \<and>
    an_prev an' = (\<lambda>_. None) \<and> an_next an' = (\<lambda>_. None)"
  using assms
proof (induction ys arbitrary: an p)
  case Nil
  then show ?case by (auto simp: clearLoop.simps)
next
  case (Cons y ys)
  let ?an = "an\<lparr>an_prev := (an_prev an)(y := None), an_next := (an_next an)(y := None), owned := (owned an)(y := False)\<rparr>"
  have a: "dll (an_prev ?an) (an_next ?an) (Some y) ys None" using Cons.prems(1,2) by simp
  have b: "distinct ys" "\<forall>e. owned ?an e \<longrightarrow> e \<in> set ys"
    "\<forall>e. e \<notin> set ys \<longrightarrow> an_prev ?an e = None \<and> an_next ?an e = None" using Cons.prems(2,3,4) by auto
  have "an_next an y = hd_opt ys None" using Cons.prems(1) by simp
  then show ?case using Cons.IH [OF a b] by (subst clearLoop.simps) simp
qed

lemma clear_spec:
  assumes "an_rep an as"
  shows "\<exists>an'. clear an = Some an' \<and> an_rep an' []"
proof -
  have "dll (an_prev an) (an_next an) None as None" "distinct as" "an_head an = hd_opt as None"
    using assms by (auto simp: an_rep_def chain_def)
  with clearLoop_spec [OF this(1,2)] assms show ?thesis
    by (auto simp: clear_def an_rep_def)
qed

section \<open>The progress of a clip\<close>

definition elapsed :: "int \<Rightarrow> clip \<Rightarrow> int" where
  "elapsed t c = t - (if inited c then startTime c else t + delay c) - clip_pausedTime c"

lemma percent_one_iff:
  assumes "0 < l"
  shows "min (if (of_int x :: rat) / of_int l < 0 then 0 else (of_int x :: rat) / of_int l) 1 = 1 \<longleftrightarrow> l \<le> x"
proof -
  have "1 \<le> (of_int x :: rat) / of_int l \<longleftrightarrow> l \<le> x" using assms by (simp add: le_divide_eq_1_pos)
  moreover have "min (if q < 0 then 0 else q) 1 = 1 \<longleftrightarrow> 1 \<le> q" for q :: rat by auto
  ultimately show ?thesis by simp
qed

lemma clip_step_cases:
  assumes "0 < life c" "\<not> paused c" "r = clip_step f t d c"
  shows "finished (fst r) \<longleftrightarrow> \<not> loop c \<and> life c \<le> elapsed t c"
    "restarted (fst r) \<longleftrightarrow> loop c \<and> life c \<le> elapsed t c"
    "restarted (fst r) \<Longrightarrow> elapsed t (snd r) = elapsed t c mod life c"
    "\<not> restarted (fst r) \<Longrightarrow> elapsed t (snd r) = elapsed t c"
    "inited (snd r)"
proof -
  define c1 where "c1 = (if \<not> inited c then c\<lparr>startTime := t + delay c, inited := True\<rparr> else c)"
  have c1: "life c1 = life c" "loop c1 = loop c" "paused c1 = paused c" "inited c1"
    "t - startTime c1 - clip_pausedTime c1 = elapsed t c"
    by (simp_all add: c1_def elapsed_def)
  obtain s where "r = (if life c \<le> elapsed t c
      then if loop c then (\<lparr>finished = False, frame = Some s, restarted = True\<rparr>,
             c1\<lparr>startTime := t - js_rem (elapsed t c) (life c), clip_pausedTime := 0\<rparr>)
           else (\<lparr>finished = True, frame = Some s, restarted = False\<rparr>, c1)
      else (\<lparr>finished = False, frame = Some s, restarted = False\<rparr>, c1))"
    using assms(2) c1(3) unfolding assms(3) clip_step_def c1_def [symmetric] Let_def c1(1,2,5) percent_one_iff [OF assms(1)]
    by auto
  then show "finished (fst r) \<longleftrightarrow> \<not> loop c \<and> life c \<le> elapsed t c"
    "restarted (fst r) \<longleftrightarrow> loop c \<and> life c \<le> elapsed t c"
    "restarted (fst r) \<Longrightarrow> elapsed t (snd r) = elapsed t c mod life c"
    "\<not> restarted (fst r) \<Longrightarrow> elapsed t (snd r) = elapsed t c"
    "inited (snd r)"
    using assms(1) c1(4,5) by (auto simp: elapsed_def [of t c1] elapsed_def [of t "c1\<lparr>startTime := u, clip_pausedTime := v\<rparr>" for u v]
        js_rem_def split: if_splits)
qed

section \<open>Properties\<close>

text \<open>
  C23: \<^verbatim>\<open>update\<close> steps every clip of the driver once, removes exactly the clips that finish and
  keeps the others in their order; the loop over the linked list terminates although it unlinks
  clips while it walks.
\<close>

theorem update_steps_all:
  assumes "an_rep an as" "t = now - pausedTime an" "delta = t - time an"
  shows "\<exists>an'. update easing now quiet an = Some an' \<and> time an' = t \<and>
    an_rep an' (filter (\<lambda>e. \<not> finishes easing t delta (clips an) e) as) \<and>
    clips an' = stepped easing t delta as (clips an)"
proof -
  have h: "an_head an = hd_opt as None" using assms(1) by (simp add: an_rep_def chain_def)
  obtain an' where "updateLoop easing t delta (an_head an) an = Some an'"
    "an_rep an' (filter (\<lambda>e. \<not> finishes easing t delta (clips an) e) as)"
    "clips an' = stepped easing t delta as (clips an)"
    using updateLoop_spec [of an "[]" as easing t delta] assms(1) h by auto
  then show ?thesis using assms(2,3)
    by (auto simp: update_def Let_def an_rep_frame) (auto simp: emit_def)
qed

definition two_clips :: "addr \<Rightarrow> clip" where
  "two_clips e = (Clip (Some (if e = 1 then 10 else 50)) None False)\<lparr>inited := True\<rparr>"

theorem update_steps_all_witness:
  "\<exists>an'. update (\<lambda>_. None) 20 True (addClip 2 (addClip 1 (Animation two_clips))) = Some an' \<and> an_rep an' [2]"
proof -
  let ?an = "addClip 2 (addClip 1 (Animation two_clips))"
  have "an_rep (Animation two_clips) []" by (simp add: an_rep_def Animation_def)
  from an_rep_addClip [OF an_rep_addClip [OF this, of 1], of 2] have r: "an_rep ?an [1, 2]" by simp
  have f: "pausedTime ?an = 0" "time ?an = 0" "clips ?an = two_clips"
    by (auto simp: addClip_def removeClip_def Animation_def Let_def split: option.splits)
  have "finishes (\<lambda>_. None) 20 20 two_clips 1" "\<not> finishes (\<lambda>_. None) 20 20 two_clips 2"
    by (simp_all add: finishes_def clip_step_cases(1) [OF _ _ refl] two_clips_def Clip_def elapsed_def)
  then show ?thesis using update_steps_all [OF r, of 20 20 20 "\<lambda>_. None" True] f by auto
qed

text \<open>
  adding, removing and clearing clips.  \<^verbatim>\<open>addClip\<close> appends a clip, moving it to the end if
  the driver already has it; \<^verbatim>\<open>removeClip\<close> takes out one clip, wherever it is in the list; and
  \<^verbatim>\<open>clear\<close> returns with an empty list and no clip still linked or marked.
\<close>

theorem clip_list_operations:
  assumes "an_rep an as"
  shows "an_rep (addClip e an) (remove1 e as @ [e]) \<and> an_rep (removeClip e an) (remove1 e as) \<and>
    (\<exists>an'. clear an = Some an' \<and> an_rep an' [] \<and> isFinished an')"
  using an_rep_addClip [OF assms] an_rep_removeClip [OF assms] clear_spec [OF assms]
  by (auto simp: isFinished_def an_rep_def)

theorem clip_list_operations_witness:
  "an_rep (addClip 1 (addClip 2 (addClip 1 (Animation two_clips)))) [2, 1]"
proof -
  have "an_rep (Animation two_clips) []" by (simp add: an_rep_def Animation_def)
  from an_rep_addClip [OF an_rep_addClip [OF this, of 1], of 2] have "an_rep (addClip 2 (addClip 1 (Animation two_clips))) [1, 2]"
    by simp
  from clip_list_operations [OF this, of 1] show ?thesis by simp
qed

text \<open>
  the clock of a clip.  An unpaused clip with a positive life reports that it is finished exactly
  when it does not loop and its life has elapsed since its start, not counting its delay and its
  pauses; a looping clip restarts at that moment, and its elapsed time becomes the remainder, so no
  time is lost between rounds.
\<close>

theorem clip_clock:
  assumes "0 < life c" "\<not> paused c"
  shows "case clip_step f t d c of (r, c') \<Rightarrow>
    (finished r \<longleftrightarrow> \<not> loop c \<and> life c \<le> elapsed t c) \<and>
    (restarted r \<longleftrightarrow> loop c \<and> life c \<le> elapsed t c) \<and>
    elapsed t c' = (if restarted r then elapsed t c mod life c else elapsed t c)"
  by (auto simp: split_beta clip_step_cases [OF assms refl])

theorem clip_clock_witness:
  "case clip_step None 130 5 ((Clip (Some 50) None True)\<lparr>inited := True\<rparr>) of (r, c') \<Rightarrow>
     restarted r \<and> elapsed 130 c' = 30"
  using clip_clock [where c = "(Clip (Some 50) None True)\<lparr>inited := True\<rparr>" and f = None and t = 130 and d = 5]
  by (auto simp: Clip_def elapsed_def split: prod.splits)

end
