(* ===== verification/Component_Mapping.thy ===== *)
theory Component_Mapping
  imports Prelude
begin

text \<open>
  Merging chart options into existing components: \<^verbatim>\<open>mappingToExists\<close> and its passes
  (\<^verbatim>\<open>src/html/js/echarts.js\<close>, lines 8067-8350).  The user gives a list of component options;
  the function decides which existing component each option updates and which options create a new
  component, and gives every component an id and a name.

  An id or name is a string, a number (an integer here) or some other value; the hash maps of the
  source distinguish the number 5 from the string 5.  An option keeps its other fields in an opaque
  identity.  The item objects in the id map are identified by their index in the result.
\<close>

section \<open>Definitions\<close>

datatype idval = Str string | Num int | OtherVal nat

record cmpt =
  cid :: "idval option"
  cname :: "idval option"
  ident :: nat

record item =
  existing :: "cmpt option"
  newOption :: "cmpt option"
  keyId :: "string option"
  keyName :: "idval option"
  brandNew :: "bool option"

datatype mode = NormalMerge | ReplaceMerge | ReplaceAll

text \<open>The decimal notation of an integer.\<close>

fun digits :: "nat \<Rightarrow> string" where
  "digits n = (if n < 10 then [char_of (48 + n)] else digits (n div 10) @ [char_of (48 + n mod 10)])"

declare digits.simps [simp del]

definition showInt :: "int \<Rightarrow> string" where
  "showInt i = (if i < 0 then CHR ''-'' # digits (nat (- i)) else digits (nat i))"

definition NUL :: char where
  "NUL = char_of (0 :: nat)"

definition DUMMY_COMPONENT_NAME_PREFIX :: string where
  "DUMMY_COMPONENT_NAME_PREFIX = ''series'' @ [NUL]"

definition INTERNAL_COMPONENT_ID_PREFIX :: string where
  "INTERNAL_COMPONENT_ID_PREFIX = NUL # ''_ec_'' @ [NUL]"

definition convertOptionIdName :: "idval option \<Rightarrow> string option \<Rightarrow> string option" where
  "convertOptionIdName idOrName defaultValue =
     (case idOrName of
        None \<Rightarrow> defaultValue
      | Some (Str s) \<Rightarrow> Some s
      | Some (Num n) \<Rightarrow> Some (showInt n)
      | Some (OtherVal _) \<Rightarrow> defaultValue)"

definition makeComparableKey :: "idval option \<Rightarrow> string result" where
  "makeComparableKey val =
     (case val of None \<Rightarrow> Inl Error | Some _ \<Rightarrow> Inr (the (convertOptionIdName val (Some []))))"

definition keyExistAndEqual :: "(cmpt \<Rightarrow> idval option) \<Rightarrow> cmpt \<Rightarrow> cmpt \<Rightarrow> bool" where
  "keyExistAndEqual attr obj1 obj2 \<longleftrightarrow>
     (let key1 = convertOptionIdName (attr obj1) None; key2 = convertOptionIdName (attr obj2) None
      in key1 \<noteq> None \<and> key2 \<noteq> None \<and> key1 = key2)"

definition isComponentIdInternal :: "cmpt option \<Rightarrow> bool" where
  "isComponentIdInternal co \<longleftrightarrow>
     (case co of
        None \<Rightarrow> False
      | Some c \<Rightarrow>
          (case makeComparableKey (cid c) of
             Inl _ \<Rightarrow> False
           | Inr k \<Rightarrow>
               take (length INTERNAL_COMPONENT_ID_PREFIX) k = INTERNAL_COMPONENT_ID_PREFIX))"

definition newItem :: "cmpt option \<Rightarrow> cmpt option \<Rightarrow> bool option \<Rightarrow> item" where
  "newItem ex opt bn = \<lparr>existing = ex, newOption = opt, keyId = None, keyName = None, brandNew = bn\<rparr>"

fun prepareLoop :: "mode \<Rightarrow> nat \<Rightarrow> cmpt option list \<Rightarrow> item list \<times> (idval \<Rightarrow> nat option) \<Rightarrow>
    item list \<times> (idval \<Rightarrow> nat option)" where
  "prepareLoop mode index [] (result, m) = (result, m)"
| "prepareLoop mode index (ex # exs) (result, m) =
     (let m = (case ex of
                 None \<Rightarrow> m
               | Some c \<Rightarrow> (case cid c of None \<Rightarrow> m | Some i \<Rightarrow> m(i \<mapsto> index)));
          keep = (if mode = ReplaceMerge \<or> isComponentIdInternal ex then None else ex)
      in prepareLoop mode (index + 1) exs (result @ [newItem keep None None], m))"

definition prepareResult :: "cmpt option list \<Rightarrow> mode \<Rightarrow> item list \<times> (idval \<Rightarrow> nat option)" where
  "prepareResult existings mode =
     (if mode = ReplaceAll then ([], \<lambda>_. None) else prepareLoop mode 0 existings ([], \<lambda>_. None))"

text \<open>
  Each pass goes over the new options and returns the options that are still to be mapped, with
  \<^term>\<open>None\<close> in the place of the ones it has mapped.
\<close>

fun mappingById ::
  "cmpt option list \<Rightarrow> (idval \<Rightarrow> nat option) \<Rightarrow> cmpt option list \<Rightarrow> item list \<Rightarrow>
   (item list \<times> cmpt option list) result" where
  "mappingById existings m [] result = Inr (result, [])"
| "mappingById existings m (opt # opts) result =
     (let keep = (case mappingById existings m opts result of
                    Inl e \<Rightarrow> Inl e | Inr (r, os) \<Rightarrow> Inr (r, opt # os))
      in case opt of
           None \<Rightarrow> keep
         | Some c \<Rightarrow>
             if cid c = None then keep
             else (case makeComparableKey (cid c) of
                     Inl e \<Rightarrow> Inl e
                   | Inr optionId \<Rightarrow>
                       (case m (Str optionId) of
                          None \<Rightarrow> keep
                        | Some idx \<Rightarrow>
                            if newOption (result ! idx) \<noteq> None then Inl Error
                            else (case mappingById existings m opts
                                    (result[idx := (result ! idx)\<lparr>newOption := opt, existing := existings ! idx\<rparr>]) of
                                    Inl e \<Rightarrow> Inl e | Inr (r, os) \<Rightarrow> Inr (r, None # os)))))"

fun findItem :: "(item \<Rightarrow> bool) \<Rightarrow> item list \<Rightarrow> nat \<Rightarrow> nat option" where
  "findItem P [] i = None"
| "findItem P (it # its) i = (if P it then Some i else findItem P its (i + 1))"

definition nameMatches :: "cmpt \<Rightarrow> item \<Rightarrow> bool" where
  "nameMatches c it \<longleftrightarrow>
     newOption it = None \<and>
     (case existing it of
        None \<Rightarrow> False
      | Some ex \<Rightarrow> (cid ex = None \<or> cid c = None) \<and> \<not> isComponentIdInternal (Some c) \<and>
          \<not> isComponentIdInternal (Some ex) \<and> keyExistAndEqual cname ex c)"

fun mappingByName :: "cmpt option list \<Rightarrow> item list \<Rightarrow> item list \<times> cmpt option list" where
  "mappingByName [] result = (result, [])"
| "mappingByName (opt # opts) result =
     (let keep = (case mappingByName opts result of (r, os) \<Rightarrow> (r, opt # os))
      in case opt of
           None \<Rightarrow> keep
         | Some c \<Rightarrow>
             if cname c = None then keep
             else (case findItem (nameMatches c) result 0 of
                     None \<Rightarrow> keep
                   | Some i \<Rightarrow>
                       (case mappingByName opts (result[i := (result ! i)\<lparr>newOption := opt\<rparr>]) of
                          (r, os) \<Rightarrow> (r, None # os))))"

text \<open>The condition under which the search for a place moves on to the next item.\<close>

definition occupied :: "cmpt \<Rightarrow> item \<Rightarrow> bool" where
  "occupied c it \<longleftrightarrow>
     newOption it \<noteq> None \<or> isComponentIdInternal (existing it) \<or>
     (case existing it of
        None \<Rightarrow> False
      | Some ex \<Rightarrow> cid c \<noteq> None \<and> \<not> keyExistAndEqual cid c ex)"

fun mappingByIndex :: "cmpt option list \<Rightarrow> bool \<Rightarrow> item list \<Rightarrow> item list" where
  "mappingByIndex [] bn result = result"
| "mappingByIndex (opt # opts) bn result =
     (case opt of
        None \<Rightarrow> mappingByIndex opts bn result
      | Some c \<Rightarrow>
          (case findItem (\<lambda>it. \<not> occupied c it) result 0 of
             Some i \<Rightarrow>
               mappingByIndex opts bn (result[i := (result ! i)\<lparr>newOption := opt, brandNew := Some bn\<rparr>])
           | None \<Rightarrow> mappingByIndex opts bn (result @ [newItem None opt (Some bn)])))"

fun mappingInReplaceAllMode :: "cmpt option list \<Rightarrow> item list \<Rightarrow> item list" where
  "mappingInReplaceAllMode [] result = result"
| "mappingInReplaceAllMode (opt # opts) result =
     mappingInReplaceAllMode opts (result @ [newItem None opt (Some True)])"

subsection \<open>Ids and names\<close>

type_synonym id_map = "idval option \<Rightarrow> nat option"

fun existingIds :: "nat \<Rightarrow> item list \<Rightarrow> id_map \<Rightarrow> id_map" where
  "existingIds i [] idMap = idMap"
| "existingIds i (it # its) idMap =
     existingIds (i + 1) its (case existing it of None \<Rightarrow> idMap | Some ex \<Rightarrow> idMap(cid ex \<mapsto> i))"

fun optionIds :: "nat \<Rightarrow> item list \<Rightarrow> id_map \<Rightarrow> id_map result" where
  "optionIds i [] idMap = Inr idMap"
| "optionIds i (it # its) idMap =
     (case newOption it of
        None \<Rightarrow> optionIds (i + 1) its idMap
      | Some opt \<Rightarrow>
          if cid opt = None then optionIds (i + 1) its idMap
          else if idMap (cid opt) = None \<or> idMap (cid opt) = Some i
               then optionIds (i + 1) its (idMap(cid opt \<mapsto> i))
               else Inl Error)"

text \<open>The search for an unused generated id; it does not return if all are used.\<close>

partial_function (option) generateId :: "string \<Rightarrow> id_map \<Rightarrow> nat \<Rightarrow> string option" where
  "generateId name idMap idNum =
     (let k = NUL # name @ NUL # digits idNum
      in if idMap (Some (Str k)) \<noteq> None then generateId name idMap (idNum + 1) else Some k)"

definition itemName :: "nat \<Rightarrow> cmpt \<Rightarrow> cmpt option \<Rightarrow> idval option result" where
  "itemName index opt ex =
     (if cname opt \<noteq> None
      then (case makeComparableKey (cname opt) of Inl e \<Rightarrow> Inl e | Inr s \<Rightarrow> Inr (Some (Str s)))
      else (case ex of
              Some e \<Rightarrow> Inr (cname e)
            | None \<Rightarrow> Inr (Some (Str (DUMMY_COMPONENT_NAME_PREFIX @ digits index)))))"

definition itemId :: "cmpt \<Rightarrow> cmpt option \<Rightarrow> idval option \<Rightarrow> id_map \<Rightarrow> string result option" where
  "itemId opt ex name idMap =
     (case ex of
        Some e \<Rightarrow> Some (makeComparableKey (cid e))
      | None \<Rightarrow>
          if cid opt \<noteq> None then Some (makeComparableKey (cid opt))
          else map_option Inr (generateId (the (convertOptionIdName name (Some []))) idMap 0))"

fun assignKeys :: "nat \<Rightarrow> item list \<Rightarrow> id_map \<Rightarrow> item list result option" where
  "assignKeys i [] idMap = Some (Inr [])"
| "assignKeys i (it # its) idMap =
     (case newOption it of
        None \<Rightarrow>
          map_option (map_sum id (\<lambda>r. it # r)) (assignKeys (i + 1) its idMap)
      | Some opt \<Rightarrow>
          (case itemName i opt (existing it) of
             Inl e \<Rightarrow> Some (Inl e)
           | Inr name \<Rightarrow>
               (case itemId opt (existing it) name idMap of
                  None \<Rightarrow> None
                | Some (Inl e) \<Rightarrow> Some (Inl e)
                | Some (Inr k) \<Rightarrow>
                    map_option (map_sum id (\<lambda>r. it\<lparr>keyName := name, keyId := Some k\<rparr> # r))
                      (assignKeys (i + 1) its (idMap(Some (Str k) \<mapsto> i))))))"

definition makeIdAndName :: "item list \<Rightarrow> item list result option" where
  "makeIdAndName mapResult =
     (case optionIds 0 mapResult (existingIds 0 mapResult (\<lambda>_. None)) of
        Inl e \<Rightarrow> Some (Inl e)
      | Inr idMap \<Rightarrow> assignKeys 0 mapResult idMap)"

text \<open>
  The result before ids are assigned, and the whole function.  An option that is no object is given
  as \<^term>\<open>None\<close>.
\<close>

definition mapOptions :: "cmpt option list \<Rightarrow> cmpt option list \<Rightarrow> mode \<Rightarrow> item list result" where
  "mapOptions existings opts mode =
     (let (result, m) = prepareResult existings mode
      in if mode = ReplaceAll then Inr (mappingInReplaceAllMode opts result)
         else (case mappingById existings m opts result of
                 Inl e \<Rightarrow> Inl e
               | Inr (result, opts) \<Rightarrow>
                   (let (result, opts) =
                          (if mode = NormalMerge then mappingByName opts result else (result, opts))
                    in Inr (mappingByIndex opts (mode = ReplaceMerge) result))))"

definition mappingToExists :: "cmpt option list \<Rightarrow> cmpt option list \<Rightarrow> mode \<Rightarrow> item list result option" where
  "mappingToExists existings newCmptOptions mode =
     (case mapOptions existings newCmptOptions mode of
        Inl e \<Rightarrow> Some (Inl e)
      | Inr result \<Rightarrow> makeIdAndName result)"

section \<open>Decimal notation\<close>

definition value_of :: "string \<Rightarrow> nat" where
  "value_of s = foldl (\<lambda>a c. 10 * a + (of_char c - 48)) 0 s"

lemma value_of_digits [simp]: "value_of (digits n) = n"
proof (induction n rule: digits.induct)
  case (1 n)
  have c: "(of_char (char_of (48 + d :: nat)) :: nat) = 48 + d" if "d < 10" for d
    using that by (simp add: of_char_of)
  show ?case
  proof (cases "n < 10")
    case True
    then show ?thesis by (simp add: digits.simps [of n] value_of_def c)
  next
    case False
    then show ?thesis using 1 c [of "n mod 10"]
      by (simp add: digits.simps [of n] value_of_def)
  qed
qed

lemma digits_inj: "digits m = digits n \<Longrightarrow> m = n"
  by (metis value_of_digits)

section \<open>Generated ids\<close>

lemma generateId_returns:
  assumes "finite (dom idMap)"
  shows "\<exists>k. generateId name idMap n = Some k \<and> idMap (Some (Str k)) = None"
proof -
  let ?k = "\<lambda>n. Some (Str (NUL # name @ NUL # digits n))"
  have "inj ?k" by (auto simp: inj_def dest: digits_inj)
  then have "finite (?k -` dom idMap)" using assms by (simp add: finite_vimageI)
  then obtain N where N: "\<forall>m\<in>?k -` dom idMap. m < N" using finite_nat_set_iff_bounded by blast
  show ?thesis
  proof (induction "N - n" arbitrary: n rule: less_induct)
    case less
    show ?case
    proof (cases "idMap (?k n) = None")
      case True
      then show ?thesis by (subst generateId.simps) (simp add: Let_def)
    next
      case False
      then have "n < N" using N by auto
      then have "\<exists>k. generateId name idMap (n + 1) = Some k \<and> idMap (Some (Str k)) = None"
        using less [of "n + 1"] by simp
      then show ?thesis using False by (subst generateId.simps) (simp add: Let_def)
    qed
  qed
qed

section \<open>The ids of the result are distinct\<close>

text \<open>The id map holds, for every item that has a fixed id, that item.\<close>

definition claims :: "id_map \<Rightarrow> nat \<Rightarrow> item list \<Rightarrow> bool" where
  "claims m i its \<longleftrightarrow>
     (\<forall>j < length its. \<forall>opt. newOption (its ! j) = Some opt \<longrightarrow>
        (case existing (its ! j) of
           Some e \<Rightarrow> m (cid e) = Some (i + j)
         | None \<Rightarrow> cid opt \<noteq> None \<longrightarrow> m (cid opt) = Some (i + j)))"

definition string_id :: "cmpt \<Rightarrow> bool" where
  "string_id c \<longleftrightarrow> (\<forall>v. cid c = Some v \<longrightarrow> (\<exists>s. v = Str s))"

definition string_items :: "item list \<Rightarrow> bool" where
  "string_items its \<longleftrightarrow>
     (\<forall>it\<in>set its. (\<forall>c. newOption it = Some c \<longrightarrow> string_id c) \<and>
        (\<forall>c. existing it = Some c \<longrightarrow> string_id c \<and> cid c \<noteq> None))"

lemma claims_Cons:
  "claims m i (it # its) \<longleftrightarrow>
     (\<forall>opt. newOption it = Some opt \<longrightarrow>
        (case existing it of Some e \<Rightarrow> m (cid e) = Some i | None \<Rightarrow> cid opt \<noteq> None \<longrightarrow> m (cid opt) = Some i)) \<and>
     claims m (Suc i) its"
  unfolding claims_def by (auto simp: nth_Cons split: nat.splits option.splits) (metis Suc_less_eq add_Suc_right
      add_Suc diff_Suc_1 less_Suc_eq_0_disj option.simps)+

lemma claims_mono: "claims m i its \<Longrightarrow> m \<subseteq>\<^sub>m m' \<Longrightarrow> claims m' i its"
  unfolding claims_def map_le_def dom_def by (fastforce split: option.splits)

lemma makeComparableKey_Str [simp]: "makeComparableKey (Some (Str s)) = Inr s"
  by (simp add: makeComparableKey_def convertOptionIdName_def)

lemma itemId_result:
  assumes "itemId opt ex name m = Some (Inr k)" "finite (dom m)" "string_id opt"
    "\<forall>e. ex = Some e \<longrightarrow> string_id e \<and> cid e \<noteq> None"
    "case ex of Some e \<Rightarrow> m (cid e) = Some i | None \<Rightarrow> cid opt \<noteq> None \<longrightarrow> m (cid opt) = Some i"
  shows "m (Some (Str k)) = None \<or> m (Some (Str k)) = Some i"
proof (cases ex)
  case (Some e)
  then obtain s where "cid e = Some (Str s)" using assms(4) by (auto simp: string_id_def)
  then show ?thesis using assms(1,5) Some by (simp add: itemId_def)
next
  case None
  show ?thesis
  proof (cases "cid opt")
    case (Some v)
    then obtain s where "v = Str s" using assms(3) by (auto simp: string_id_def)
    then show ?thesis using assms(1,5) None Some by (simp add: itemId_def)
  next
    case c: None
    obtain k' where "generateId (the (convertOptionIdName name (Some []))) m 0 = Some k'" "m (Some (Str k')) = None"
      using generateId_returns [OF assms(2)] by blast
    then show ?thesis using assms(1) None c by (simp add: itemId_def)
  qed
qed

lemma map_le_upd_value: "m(x \<mapsto> y) \<subseteq>\<^sub>m m' \<Longrightarrow> m' x = Some y"
  by (metis domI fun_upd_same map_le_def)

lemma map_le_value: "m \<subseteq>\<^sub>m m' \<Longrightarrow> m x = Some y \<Longrightarrow> m' x = Some y"
  by (metis domI map_le_def)

lemma map_sum_Inr: "map_sum id f x = Inr r \<longleftrightarrow> (\<exists>r'. x = Inr r' \<and> r = f r')"
  by (cases x) auto

lemma assignKeys_claims:
  assumes "assignKeys i its m = Some (Inr r)" "claims m i its" "finite (dom m)" "string_items its"
  shows "\<exists>m'. m \<subseteq>\<^sub>m m' \<and> length r = length its \<and>
    (\<forall>j < length its. newOption (r ! j) = newOption (its ! j) \<and>
       (newOption (its ! j) \<noteq> None \<longrightarrow> (\<exists>k. keyId (r ! j) = Some k \<and> m' (Some (Str k)) = Some (i + j))) \<and>
       (newOption (its ! j) = None \<longrightarrow> r ! j = its ! j))"
  using assms
proof (induction its arbitrary: i m r)
  case (Cons it its)
  show ?case
  proof (cases "newOption it")
    case None
    then obtain r' where r': "assignKeys (Suc i) its m = Some (Inr r')" "r = it # r'"
      using Cons.prems(1) by (auto simp: map_sum_Inr)
    have "claims m (Suc i) its" "string_items its" using Cons.prems(2,4) by (auto simp: claims_Cons string_items_def)
    from Cons.IH [OF r'(1) this(1) Cons.prems(3) this(2)] None show ?thesis
      unfolding r'(2) by (auto simp: nth_Cons' less_Suc_eq_0_disj)
  next
    case (Some opt)
    obtain name k r' where k: "itemId opt (existing it) name m = Some (Inr k)"
      "assignKeys (Suc i) its (m(Some (Str k) \<mapsto> i)) = Some (Inr r')"
      "r = it\<lparr>keyName := name, keyId := Some k\<rparr> # r'"
      using Cons.prems(1) Some by (auto simp: map_sum_Inr split: option.splits sum.splits)
    have cl: "case existing it of Some e \<Rightarrow> m (cid e) = Some i | None \<Rightarrow> cid opt \<noteq> None \<longrightarrow> m (cid opt) = Some i"
      "claims m (Suc i) its" "string_items its"
      using Cons.prems(2,4) Some by (auto simp: claims_Cons string_items_def)
    have "m (Some (Str k)) = None \<or> m (Some (Str k)) = Some i"
      using itemId_result [OF k(1) Cons.prems(3) _ _ cl(1)] Cons.prems(4) Some
      by (auto simp: string_items_def)
    then have le: "m \<subseteq>\<^sub>m m(Some (Str k) \<mapsto> i)" by (auto simp: map_le_def)
    have fin: "finite (dom (m(Some (Str k) \<mapsto> i)))" using Cons.prems(3) by simp
    from Cons.IH [OF k(2) claims_mono [OF cl(2) le] fin cl(3)] obtain m' where
      m': "m(Some (Str k) \<mapsto> i) \<subseteq>\<^sub>m m'" "length r' = length its"
      "\<forall>j < length its. newOption (r' ! j) = newOption (its ! j) \<and>
       (newOption (its ! j) \<noteq> None \<longrightarrow> (\<exists>k. keyId (r' ! j) = Some k \<and> m' (Some (Str k)) = Some (Suc i + j))) \<and>
       (newOption (its ! j) = None \<longrightarrow> r' ! j = its ! j)" by blast
    have "m' (Some (Str k)) = Some i" by (rule map_le_upd_value [OF m'(1)])
    moreover have "m \<subseteq>\<^sub>m m'" by (rule map_le_trans [OF le m'(1)])
    ultimately show ?thesis using m'(2,3) Some
      unfolding k(3) by (intro exI [of _ m']) (auto simp: nth_Cons split: nat.splits)
  qed
qed (auto intro: map_le_refl)

lemma optionIds_claims:
  assumes "optionIds i its m = Inr m'"
  shows "m \<subseteq>\<^sub>m m' \<and> (\<forall>j < length its. \<forall>opt. newOption (its ! j) = Some opt \<longrightarrow> cid opt \<noteq> None \<longrightarrow>
    m' (cid opt) = Some (i + j)) \<and> (finite (dom m) \<longrightarrow> finite (dom m'))"
  using assms
proof (induction its arbitrary: i m)
  case (Cons it its)
  show ?case
  proof (cases "newOption it = None \<or> cid (the (newOption it)) = None")
    case True
    then have "optionIds (Suc i) its m = Inr m'" using Cons.prems by (auto split: option.splits)
    from Cons.IH [OF this] True show ?thesis by (auto simp: nth_Cons split: nat.splits)
  next
    case False
    then obtain opt where opt: "newOption it = Some opt" "cid opt \<noteq> None" by auto
    then have o: "m (cid opt) = None \<or> m (cid opt) = Some i" "optionIds (Suc i) its (m(cid opt \<mapsto> i)) = Inr m'"
      using Cons.prems by (auto split: if_splits)
    then have le: "m \<subseteq>\<^sub>m m(cid opt \<mapsto> i)" by (auto simp: map_le_def)
    note IH = Cons.IH [OF o(2)]
    have "m' (cid opt) = Some i" by (rule map_le_upd_value [OF conjunct1 [OF IH]])
    moreover have "m \<subseteq>\<^sub>m m'" by (rule map_le_trans [OF le conjunct1 [OF IH]])
    moreover have "finite (dom (m(cid opt \<mapsto> i))) \<longrightarrow> finite (dom m')" using IH by blast
    moreover have "finite (dom m) \<longrightarrow> finite (dom (m(cid opt \<mapsto> i)))" by simp
    ultimately show ?thesis using IH opt by (auto simp: nth_Cons split: nat.splits)
  qed
qed auto

fun existing_of :: "item list \<Rightarrow> cmpt list" where
  "existing_of [] = []"
| "existing_of (it # its) = (case existing it of None \<Rightarrow> existing_of its | Some e \<Rightarrow> e # existing_of its)"

lemma existingIds_other: "c \<notin> cid ` set (existing_of its) \<Longrightarrow> existingIds i its m c = m c"
  by (induction its arbitrary: i m) (auto split: option.splits)

lemma existingIds_dom: "finite (dom m) \<Longrightarrow> finite (dom (existingIds i its m))"
  by (induction its arbitrary: i m) (auto split: option.splits)

lemma existingIds_claims:
  assumes "distinct (map cid (existing_of its))" "j < length its" "existing (its ! j) = Some e"
  shows "existingIds i its m (cid e) = Some (i + j)"
  using assms
proof (induction its arbitrary: i j m)
  case (Cons it its)
  show ?case
  proof (cases j)
    case 0
    then have "cid e \<notin> cid ` set (existing_of its)" using Cons.prems by simp
    then show ?thesis using Cons.prems 0 existingIds_other [of "cid e" its] by simp
  next
    case (Suc j')
    then show ?thesis using Cons.prems Cons.IH [of j' "Suc i"] by (auto split: option.splits)
  qed
qed simp

lemma makeIdAndName_distinct:
  assumes "makeIdAndName its = Some (Inr r)" "string_items its" "distinct (map cid (existing_of its))"
  shows "length r = length its \<and> (\<forall>i < length r. newOption (r ! i) = newOption (its ! i)) \<and>
    (\<forall>i < length r. newOption (r ! i) \<noteq> None \<longrightarrow> keyId (r ! i) \<noteq> None) \<and>
    (\<forall>i < length r. \<forall>j < length r. newOption (r ! i) \<noteq> None \<and> newOption (r ! j) \<noteq> None \<and>
       keyId (r ! i) = keyId (r ! j) \<longrightarrow> i = j)"
proof -
  let ?m0 = "existingIds 0 its (\<lambda>_. None)"
  obtain m where m: "optionIds 0 its ?m0 = Inr m" "assignKeys 0 its m = Some (Inr r)"
    using assms(1) by (auto simp: makeIdAndName_def split: sum.splits)
  note o = optionIds_claims [OF m(1)]
  have "m (cid e) = Some j" if "j < length its" "existing (its ! j) = Some e" for j e
    using map_le_value [OF conjunct1 [OF o]] existingIds_claims [OF assms(3) that, of 0] by simp
  then have cl: "claims m 0 its" using o by (auto simp: claims_def split: option.splits)
  have fin: "finite (dom m)" using o existingIds_dom [of "\<lambda>_. None" 0 its] by simp
  from assignKeys_claims [OF m(2) cl fin assms(2)] obtain m' where
    r: "length r = length its" "\<forall>j < length its. newOption (r ! j) = newOption (its ! j) \<and>
       (newOption (its ! j) \<noteq> None \<longrightarrow> (\<exists>k. keyId (r ! j) = Some k \<and> m' (Some (Str k)) = Some j))"
    by auto
  have k: "\<exists>k. keyId (r ! i) = Some k \<and> m' (Some (Str k)) = Some i"
    if "i < length r" "newOption (r ! i) \<noteq> None" for i
    using r that by metis
  have inj: "i = j" if "i < length r" "j < length r" "newOption (r ! i) \<noteq> None" "newOption (r ! j) \<noteq> None"
    "keyId (r ! i) = keyId (r ! j)" for i j
    using k [OF that(1,3)] k [OF that(2,4)] that(5) by auto
  have set: "keyId (r ! i) \<noteq> None" if "i < length r" "newOption (r ! i) \<noteq> None" for i
    using k [OF that] by auto
  have opt: "newOption (r ! i) = newOption (its ! i)" if "i < length r" for i
    using r that by simp
  show ?thesis by (intro conjI allI impI r(1) opt set inj) auto
qed

lemma makeIdAndName_returns:
  assumes "string_items its"
  shows "makeIdAndName its \<noteq> None"
proof -
  have "assignKeys i its m \<noteq> None" if "finite (dom m)" for i m
    using that assms
  proof (induction its arbitrary: i m)
    case (Cons it its)
    have IH: "assignKeys (Suc i) its (m(Some (Str k) \<mapsto> i)) \<noteq> None" "assignKeys (Suc i) its m \<noteq> None" for k
    proof -
      have "string_items its" "finite (dom (m(Some (Str k) \<mapsto> i)))" using Cons.prems by (auto simp: string_items_def)
      then show "assignKeys (Suc i) its (m(Some (Str k) \<mapsto> i)) \<noteq> None" "assignKeys (Suc i) its m \<noteq> None"
        using Cons.IH Cons.prems(1) by blast+
    qed
    have "itemId opt ex name m \<noteq> None" for opt ex name
      using generateId_returns [OF Cons.prems(1)] by (fastforce simp: itemId_def split: option.splits)
    then show ?case using IH by (auto split: option.splits sum.splits simp del: not_None_eq)
  qed simp
  then show ?thesis
    using optionIds_claims existingIds_dom [of "\<lambda>_. None" 0 its]
    by (fastforce simp: makeIdAndName_def split: sum.splits)
qed

section \<open>Every option is placed once\<close>

fun present :: "'a option list \<Rightarrow> 'a list" where
  "present [] = []"
| "present (x # xs) = (case x of None \<Rightarrow> present xs | Some a \<Rightarrow> a # present xs)"

lemma present_append [simp]: "present (xs @ ys) = present xs @ present ys"
  by (induction xs) (auto split: option.splits)

lemma set_present: "a \<in> set (present xs) \<longleftrightarrow> Some a \<in> set xs"
  by (induction xs) (auto split: option.splits)

definition options_of :: "item list \<Rightarrow> cmpt multiset" where
  "options_of r = mset (present (map newOption r))"

lemma options_of_place:
  "i < length r \<Longrightarrow> newOption (r ! i) = None \<Longrightarrow> newOption x = Some c \<Longrightarrow>
    options_of (r[i := x]) = add_mset c (options_of r)"
  unfolding options_of_def
  by (induction r arbitrary: i) (auto simp: nth_Cons split: nat.splits option.splits)

lemma options_of_snoc: "options_of (r @ [newItem ex (Some c) b]) = add_mset c (options_of r)"
  by (simp add: options_of_def newItem_def)

text \<open>The items of the result stand at the place of their existing component.\<close>

fun aligned :: "cmpt option list \<Rightarrow> item list \<Rightarrow> bool" where
  "aligned exs [] \<longleftrightarrow> True"
| "aligned [] (it # its) \<longleftrightarrow> existing it = None \<and> aligned [] its"
| "aligned (e # exs) (it # its) \<longleftrightarrow> (existing it = None \<or> existing it = e) \<and> aligned exs its"

lemma aligned_update:
  "aligned exs r \<Longrightarrow> existing x = existing (r ! i) \<or> i < length exs \<and> existing x = exs ! i \<Longrightarrow>
    aligned exs (r[i := x])"
  by (induction exs r arbitrary: i rule: aligned.induct) (auto simp: nth_Cons split: nat.splits)

lemma aligned_snoc: "aligned exs r \<Longrightarrow> existing it = None \<Longrightarrow> aligned exs (r @ [it])"
proof (induction exs r rule: aligned.induct)
  case (1 exs)
  then show ?case by (cases exs) auto
qed auto

lemma aligned_existing:
  assumes "aligned exs r" "distinct (map cid (present exs))"
  shows "distinct (map cid (existing_of r)) \<and> set (existing_of r) \<subseteq> set (present exs)"
  using assms
proof (induction exs r rule: aligned.induct)
  case (2 it its)
  then show ?case by simp
next
  case (3 e exs it its)
  then show ?case by (auto split: option.splits)
qed auto

lemma findItem_spec: "findItem P its i = Some k \<Longrightarrow> i \<le> k \<and> k < i + length its \<and> P (its ! (k - i))"
proof (induction its arbitrary: i)
  case (Cons it its)
  show ?case
  proof (cases "P it")
    case False
    then have k: "i + 1 \<le> k" "k < i + 1 + length its" "P (its ! (k - (i + 1)))"
      using Cons.IH [of "i + 1"] Cons.prems by auto
    then have "k - i = Suc (k - (i + 1))" by linarith
    then show ?thesis using k by simp
  qed (use Cons.prems in auto)
qed simp

lemma prepareLoop_spec:
  assumes "prepareLoop mode (length pre) exs (r, m) = (r', m')" "length r = length pre"
    "aligned (pre @ exs) r" "options_of r = {#}" "\<forall>i k. m i = Some k \<longrightarrow> k < length pre"
  shows "length r' = length (pre @ exs) \<and> aligned (pre @ exs) r' \<and> options_of r' = {#} \<and>
    (\<forall>i k. m' i = Some k \<longrightarrow> k < length (pre @ exs))"
  using assms
proof (induction exs arbitrary: pre r m)
  case (Cons ex exs)
  let ?keep = "if mode = ReplaceMerge \<or> isComponentIdInternal ex then None else ex"
  let ?m = "case ex of None \<Rightarrow> m | Some c \<Rightarrow> (case cid c of None \<Rightarrow> m | Some i \<Rightarrow> m(i \<mapsto> length pre))"
  have step: "prepareLoop mode (length (pre @ [ex])) exs (r @ [newItem ?keep None None], ?m) = (r', m')"
    using Cons.prems(1) by (simp add: Let_def)
  have al: "aligned (pre @ ex # exs) (r @ [newItem ?keep None None])"
    using Cons.prems(2,3)
    by (induction "pre @ ex # exs" r arbitrary: pre rule: aligned.induct)
      (auto simp: newItem_def Cons_eq_append_conv)
  have "\<forall>i k. ?m i = Some k \<longrightarrow> k < length (pre @ [ex])"
    using Cons.prems(5) by (auto split: option.splits intro: less_SucI)
  then show ?case
    using Cons.IH [OF step] al Cons.prems(2,4) by (simp add: options_of_def newItem_def)
qed simp

lemma mappingById_spec:
  assumes "mappingById exs m opts r = Inr (r', opts')" "aligned exs r" "length exs \<le> length r"
    "\<forall>i k. m i = Some k \<longrightarrow> k < length exs"
  shows "aligned exs r' \<and> length r' = length r \<and>
    options_of r' + mset (present opts') = options_of r + mset (present opts)"
  using assms
proof (induction exs m opts r arbitrary: r' opts' rule: mappingById.induct)
  case (2 exs m opt opts r)
  show ?case
  proof (cases "\<exists>c s idx. opt = Some c \<and> cid c \<noteq> None \<and> makeComparableKey (cid c) = Inr s \<and> m (Str s) = Some idx")
    case True
    then obtain c s idx where c: "opt = Some c" "cid c \<noteq> None" "makeComparableKey (cid c) = Inr s" "m (Str s) = Some idx"
      by blast
    let ?r = "r[idx := (r ! idx)\<lparr>newOption := opt, existing := exs ! idx\<rparr>]"
    have free: "newOption (r ! idx) = None" using "2.prems"(1) c by (auto split: if_splits)
    obtain os where os: "mappingById exs m opts ?r = Inr (r', os)" "opts' = None # os"
      using "2.prems"(1) c free by (auto simp: Let_def split: sum.splits)
    have idx: "idx < length exs" "idx < length r" using "2.prems"(3,4) c(4) by (auto intro: less_le_trans)
    have "aligned exs ?r" using aligned_update [OF "2.prems"(2)] idx by simp
    moreover have "options_of ?r = add_mset c (options_of r)"
      using options_of_place [OF idx(2) free, of "(r ! idx)\<lparr>newOption := opt, existing := exs ! idx\<rparr>" c] c(1) by simp
    ultimately show ?thesis
      using "2.IH"(2) [OF refl c(1) _ c(3,4), of r' os] c(2) free os "2.prems"(3,4) c(1) by auto
  next
    case False
    then obtain os where "mappingById exs m opts r = Inr (r', os)" "opts' = opt # os"
      using "2.prems"(1) by (auto simp: Let_def split: option.splits sum.splits if_splits)
    then show ?thesis using "2.IH"(1) [of r' os] "2.prems" by (auto split: option.splits)
  qed
qed simp

lemma mappingByName_spec:
  assumes "mappingByName opts r = (r', opts')" "aligned exs r"
  shows "aligned exs r' \<and> options_of r' + mset (present opts') = options_of r + mset (present opts)"
  using assms
proof (induction opts r arbitrary: r' opts' rule: mappingByName.induct)
  case (2 opt opts r)
  show ?case
  proof (cases "\<exists>c i. opt = Some c \<and> cname c \<noteq> None \<and> findItem (nameMatches c) r 0 = Some i")
    case True
    then obtain c i where c: "opt = Some c" "cname c \<noteq> None" "findItem (nameMatches c) r 0 = Some i" by blast
    have i: "i < length r" "newOption (r ! i) = None"
      using findItem_spec [OF c(3)] by (auto simp: nameMatches_def)
    let ?r = "r[i := (r ! i)\<lparr>newOption := opt\<rparr>]"
    obtain os where os: "mappingByName opts ?r = (r', os)" "opts' = None # os"
      using "2.prems"(1) c by (auto simp: Let_def split: prod.splits)
    have "aligned exs ?r" using aligned_update [OF "2.prems"(2)] by simp
    moreover have "options_of ?r = add_mset c (options_of r)"
      using options_of_place [OF i, of "(r ! i)\<lparr>newOption := opt\<rparr>" c] c(1) by simp
    ultimately show ?thesis using "2.IH"(2) [OF refl c(1) _ c(3), of r' os] c(1,2) os by auto
  next
    case False
    then obtain os where "mappingByName opts r = (r', os)" "opts' = opt # os"
      using "2.prems"(1) by (auto simp: Let_def split: option.splits prod.splits if_splits)
    then show ?thesis using "2.IH"(1) [of r' os] "2.prems"(2) by (auto split: option.splits)
  qed
qed simp

lemma mappingByIndex_spec:
  assumes "aligned exs r"
  shows "aligned exs (mappingByIndex opts bn r) \<and>
    options_of (mappingByIndex opts bn r) = options_of r + mset (present opts)"
  using assms
proof (induction opts bn r rule: mappingByIndex.induct)
  case (2 opt opts bn r)
  show ?case
  proof (cases opt)
    case (Some c)
    show ?thesis
    proof (cases "findItem (\<lambda>it. \<not> occupied c it) r 0")
      case None
      then show ?thesis using 2 Some aligned_snoc [OF "2.prems", of "newItem None opt (Some bn)"] options_of_snoc
        by (simp add: newItem_def)
    next
      case i: (Some i)
      have "i < length r" "newOption (r ! i) = None"
        using findItem_spec [OF i] by (auto simp: occupied_def)
      then have "options_of (r[i := (r ! i)\<lparr>newOption := opt, brandNew := Some bn\<rparr>]) = add_mset c (options_of r)"
        using options_of_place [of i r "(r ! i)\<lparr>newOption := opt, brandNew := Some bn\<rparr>" c] Some by simp
      then show ?thesis using 2 Some i
          aligned_update [OF "2.prems", of "(r ! i)\<lparr>newOption := opt, brandNew := Some bn\<rparr>" i] by simp
    qed
  qed (use 2 in auto)
qed simp

lemma mappingInReplaceAllMode_spec:
  "mappingInReplaceAllMode opts r = r @ map (\<lambda>opt. newItem None opt (Some True)) opts"
  by (induction opts r rule: mappingInReplaceAllMode.induct) auto

lemma mapOptions_spec:
  assumes "mapOptions exs opts mode = Inr r"
  shows "aligned exs r \<and> options_of r = mset (present opts)"
proof (cases "mode = ReplaceAll")
  case True
  have "aligned exs (map (\<lambda>opt. newItem None opt (Some True)) opts)"
    by (induction opts arbitrary: exs) (use list.exhaust in \<open>auto simp: newItem_def\<close>,
        metis (no_types, lifting) aligned.simps(2,3) item.select_convs(1) list.exhaust)
  moreover have "options_of (map (\<lambda>opt. newItem None opt (Some True)) opts) = mset (present opts)"
    by (simp add: options_of_def newItem_def comp_def)
  ultimately show ?thesis using assms True
    by (simp add: mapOptions_def prepareResult_def mappingInReplaceAllMode_spec)
next
  case False
  obtain r0 m where p: "prepareLoop mode 0 exs ([], \<lambda>_. None) = (r0, m)" by fastforce
  have p0: "length r0 = length exs" "aligned exs r0" "options_of r0 = {#}" "\<forall>i k. m i = Some k \<longrightarrow> k < length exs"
    using prepareLoop_spec [of mode "[]" exs "[]" "\<lambda>_. None" r0 m] p by (auto simp: options_of_def)
  obtain r1 o1 where 1: "mappingById exs m opts r0 = Inr (r1, o1)"
    and r: "r = (let (r2, o2) = (if mode = NormalMerge then mappingByName o1 r1 else (r1, o1))
              in mappingByIndex o2 (mode = ReplaceMerge) r2)"
    using assms False p by (auto simp: mapOptions_def prepareResult_def Let_def split: sum.splits prod.splits)
  have s1: "aligned exs r1" "options_of r1 + mset (present o1) = mset (present opts)"
    using mappingById_spec [OF 1 p0(2) _ p0(4)] p0 by auto
  obtain r2 o2 where 2: "(if mode = NormalMerge then mappingByName o1 r1 else (r1, o1)) = (r2, o2)" by fastforce
  have "aligned exs r2" "options_of r2 + mset (present o2) = mset (present opts)"
    using 2 s1 mappingByName_spec [of o1 r1 r2 o2 exs] by (auto split: if_splits)
  then show ?thesis using r 2 mappingByIndex_spec [of exs r2 o2 "mode = ReplaceMerge"] by simp
qed

section \<open>Properties\<close>

lemma mapOptions_errors: "mapOptions exs opts mode = Inl e \<Longrightarrow> e = Error"
proof -
  have "mappingById exs m opts r = Inl e \<Longrightarrow> e = Error" for m r
    by (induction exs m opts r rule: mappingById.induct)
      (auto simp: Let_def makeComparableKey_def split: option.splits sum.splits if_splits)
  then show "mapOptions exs opts mode = Inl e \<Longrightarrow> e = Error"
    by (auto simp: mapOptions_def Let_def split: prod.splits sum.splits if_splits)
qed

lemma mapOptions_strings:
  assumes "mapOptions exs opts mode = Inr r" "\<forall>c. Some c \<in> set exs \<longrightarrow> string_id c \<and> cid c \<noteq> None"
    "\<forall>c. Some c \<in> set opts \<longrightarrow> string_id c" "distinct (map cid (present exs))"
  shows "string_items r \<and> distinct (map cid (existing_of r))"
proof -
  have s: "aligned exs r" "options_of r = mset (present opts)" using mapOptions_spec [OF assms(1)] by auto
  note e = aligned_existing [OF s(1) assms(4)]
  have "c \<in> set (existing_of r)" if "it \<in> set r" "existing it = Some c" for it c
    using that by (induction r) (auto split: option.splits)
  then have "Some c \<in> set exs" if "it \<in> set r" "existing it = Some c" for it c
    using that conjunct2 [OF e] set_present [of c exs] by (meson subsetD)
  then have 1: "string_id c \<and> cid c \<noteq> None" if "it \<in> set r" "existing it = Some c" for it c
    using that assms(2) by simp
  have "c \<in># options_of r" if "it \<in> set r" "newOption it = Some c" for it c
    using that unfolding options_of_def set_mset_mset set_present by (metis image_eqI list.set_map)
  then have 2: "string_id c" if "it \<in> set r" "newOption it = Some c" for it c
    using that assms(3) s(2) by (auto simp: set_present)
  show ?thesis using 1 2 e by (auto simp: string_items_def)
qed


definition series :: "string option \<Rightarrow> nat \<Rightarrow> cmpt option" where
  "series i n = Some \<lparr>cid = map_option Str i, cname = Some (Str ''a''), ident = n\<rparr>"


text \<open>
  no option is lost and none is used twice.  When the mapping succeeds, the new options of the
  result items are exactly the given options that are objects, each as often as it was given.
\<close>

theorem mapping_places_all_options:
  assumes "mapOptions exs opts mode = Inr r"
  shows "mset (present (map newOption r)) = mset (present opts)"
  using mapOptions_spec [OF assms] by (simp add: options_of_def)

theorem mapping_places_all_options_witness:
  "\<exists>r. mapOptions [series (Some ''x'') 1] [None, series (Some ''x'') 2, series None 3] NormalMerge = Inr r \<and>
     mset (present (map newOption r)) = mset (present [None, series (Some ''x'') 2, series None 3])"
proof -
  have "\<exists>r. mapOptions [series (Some ''x'') 1] [None, series (Some ''x'') 2, series None 3] NormalMerge = Inr r"
    by (simp add: mapOptions_def prepareResult_def series_def isComponentIdInternal_def NUL_def
        INTERNAL_COMPONENT_ID_PREFIX_def Let_def nameMatches_def newItem_def)
  then show ?thesis using mapping_places_all_options by blast
qed

text \<open>
  the check for duplicated ids does not see that the number 5 and the string 5 become the same
  id: two options with these ids are accepted, and both get the id \<^verbatim>\<open>"5"\<close>.
\<close>

theorem mapping_number_string_ids_collide:
  "let opt = \<lambda>i n. Some \<lparr>cid = Some i, cname = None, ident = n\<rparr>
   in \<exists>a b. mappingToExists [] [opt (Num 5) 1, opt (Str ''5'') 2] NormalMerge = Some (Inr [a, b]) \<and>
        keyId a = Some ''5'' \<and> keyId b = Some ''5''"
proof -
  have d: "showInt 5 = ''5''" by (simp add: showInt_def digits.simps char_of_def bit_0)
  show ?thesis
    by (simp add: mappingToExists_def mapOptions_def prepareResult_def makeIdAndName_def Let_def
        makeComparableKey_def convertOptionIdName_def occupied_def newItem_def isComponentIdInternal_def
        itemName_def itemId_def d)
qed

end
