(* ===== verification/Data_Differ.thy ===== *)
theory Data_Differ
  imports Prelude
begin

text \<open>
  The differ \<^verbatim>\<open>DataDiffer\<close> (\<^verbatim>\<open>src/html/js/echarts.js\<close>, lines 30748-30985), which decides
  when a chart is redrawn which graphic elements are updated, added and removed.  The keys of the old
  and the new data items are given as lists of strings (the results of the key getters); the
  callbacks are recorded as a list of directives.
\<close>

section \<open>Definitions\<close>

text \<open>
  A value of an index map: absent or \<^verbatim>\<open>null\<close>, one index, or an array of indices.
\<close>

datatype idx_val = NoVal | One nat | Many "nat list"

type_synonym idx_map = "string \<Rightarrow> idx_val"

definition dataIndexMapValueLength :: "idx_val \<Rightarrow> nat" where
  "dataIndexMapValueLength v =
     (case v of NoVal \<Rightarrow> 0 | One _ \<Rightarrow> 1 | Many xs \<Rightarrow> if length xs = 0 then 1 else length xs)"

datatype directive =
    Update nat nat | Remove nat | Add nat
  | ManyToOne nat "nat list" | OneToMany "nat list" nat | ManyToMany "nat list" "nat list"

definition one :: "idx_val \<Rightarrow> nat" where
  "one v = (case v of One i \<Rightarrow> i | Many xs \<Rightarrow> hd xs | NoVal \<Rightarrow> 0)"

definition many :: "idx_val \<Rightarrow> nat list" where
  "many v = (case v of Many xs \<Rightarrow> xs | One i \<Rightarrow> [i] | NoVal \<Rightarrow> [])"

definition ec_key :: "string \<Rightarrow> string" where
  "ec_key k = ''_ec_'' @ k"

text \<open>\<^verbatim>\<open>_initIndexMap\<close>: the map, and the array of keys, without duplicates in mode \<^verbatim>\<open>multiple\<close>.\<close>

definition putIndex :: "nat \<Rightarrow> string \<Rightarrow> idx_map \<Rightarrow> idx_map" where
  "putIndex i key m =
     (let v = m key; n = dataIndexMapValueLength v
      in if n = 0 then m(key := One i)
         else if n = 1 then m(key := Many [one v, i])
         else m(key := Many (many v @ [i])))"

fun initIndexMap :: "bool \<Rightarrow> nat \<Rightarrow> string list \<Rightarrow> idx_map \<times> string list \<Rightarrow> idx_map \<times> string list" where
  "initIndexMap multiple i [] (m, keyArr) = (m, keyArr)"
| "initIndexMap multiple i (k # ks) (m, keyArr) =
     (let key = ec_key k;
          keyArr = (if \<not> multiple \<or> dataIndexMapValueLength (m key) = 0 then keyArr @ [key] else keyArr)
      in initIndexMap multiple (i + 1) ks (putIndex i key m, keyArr))"

fun performRestAdd :: "string list \<Rightarrow> idx_map \<Rightarrow> directive list" where
  "performRestAdd [] m = []"
| "performRestAdd (key # keys) m =
     (let v = m key; n = dataIndexMapValueLength v
      in (if n > 1 then map Add (many v) else if n = 1 then [Add (one v)] else []) @
         performRestAdd keys (m(key := NoVal)))"

text \<open>The body of the loop over the old items, for the item \<open>i\<close> with key \<open>oldKey\<close>.\<close>

definition matchOld :: "nat \<Rightarrow> string \<Rightarrow> idx_map \<Rightarrow> directive \<times> idx_map" where
  "matchOld i oldKey m =
     (let v = m oldKey; n = dataIndexMapValueLength v
      in if n > 1
         then let newIdx = hd (many v); rest = tl (many v)
              in (Update newIdx i, m(oldKey := if length rest = 1 then One (rest ! 0) else Many rest))
         else if n = 1 then (Update (one v) i, m(oldKey := NoVal))
         else (Remove i, m))"

fun oneToOneLoop :: "nat \<Rightarrow> string list \<Rightarrow> idx_map \<Rightarrow> directive list \<times> idx_map" where
  "oneToOneLoop i [] m = ([], m)"
| "oneToOneLoop i (oldKey # keys) m =
     (let (d, m) = matchOld i oldKey m;
          (ds, m) = oneToOneLoop (i + 1) keys m
      in (d # ds, m))"

definition executeOneToOne :: "string list \<Rightarrow> string list \<Rightarrow> directive list" where
  "executeOneToOne olds news =
     (let (_, oldKeyArr) = initIndexMap False 0 olds (\<lambda>_. NoVal, []);
          (newMap, newKeyArr) = initIndexMap False 0 news (\<lambda>_. NoVal, []);
          (ds, newMap) = oneToOneLoop 0 oldKeyArr newMap
      in ds @ performRestAdd newKeyArr newMap)"

fun multipleLoop :: "string list \<Rightarrow> idx_map \<Rightarrow> idx_map \<Rightarrow> directive list \<times> idx_map" where
  "multipleLoop [] om nm = ([], nm)"
| "multipleLoop (oldKey # keys) om nm =
     (let ov = om oldKey; nv = nm oldKey;
          ol = dataIndexMapValueLength ov; nl = dataIndexMapValueLength nv;
          (d, nm) =
            (if ol > 1 \<and> nl = 1 then ([ManyToOne (one nv) (many ov)], nm(oldKey := NoVal))
             else if ol = 1 \<and> nl > 1 then ([OneToMany (many nv) (one ov)], nm(oldKey := NoVal))
             else if ol = 1 \<and> nl = 1 then ([Update (one nv) (one ov)], nm(oldKey := NoVal))
             else if ol > 1 \<and> nl > 1 then ([ManyToMany (many nv) (many ov)], nm(oldKey := NoVal))
             else if ol > 1 then (map Remove (many ov), nm)
             else ([Remove (one ov)], nm));
          (ds, nm) = multipleLoop keys om nm
      in (d @ ds, nm))"

definition executeMultiple :: "string list \<Rightarrow> string list \<Rightarrow> directive list" where
  "executeMultiple olds news =
     (let (oldMap, oldKeyArr) = initIndexMap True 0 olds (\<lambda>_. NoVal, []);
          (newMap, newKeyArr) = initIndexMap True 0 news (\<lambda>_. NoVal, []);
          (ds, newMap) = multipleLoop oldKeyArr oldMap newMap
      in ds @ performRestAdd newKeyArr newMap)"

definition execute :: "bool \<Rightarrow> string list \<Rightarrow> string list \<Rightarrow> directive list" where
  "execute diffModeMultiple olds news =
     (if diffModeMultiple then executeMultiple olds news else executeOneToOne olds news)"

section \<open>Index maps\<close>

text \<open>The indices a value stands for; an array in a map has at least two.\<close>

fun wf_val :: "idx_val \<Rightarrow> bool" where
  "wf_val (Many xs) \<longleftrightarrow> length xs \<ge> 2"
| "wf_val _ \<longleftrightarrow> True"

lemma length_many [simp]: "wf_val v \<Longrightarrow> dataIndexMapValueLength v = length (many v)"
  by (cases v) (auto simp: dataIndexMapValueLength_def many_def)

lemma one_many: "wf_val v \<Longrightarrow> length (many v) = 1 \<Longrightarrow> many v = [one v]"
  by (cases v) (auto simp: one_def many_def)

lemma many_simps [simp]: "many NoVal = []" "many (One i) = [i]" "many (Many xs) = xs"
  by (auto simp: many_def)

definition wf_map :: "idx_map \<Rightarrow> bool" where
  "wf_map m \<longleftrightarrow> (\<forall>k. wf_val (m k))"

lemma wf_map_upd [simp]: "wf_map m \<Longrightarrow> wf_val v \<Longrightarrow> wf_map (m(k := v))"
  by (simp add: wf_map_def)

text \<open>The map \<open>m\<close> lists, for every key, the positions of that key among \<open>ks\<close>.\<close>

definition positions :: "string list \<Rightarrow> string \<Rightarrow> nat list" where
  "positions ks k = filter (\<lambda>i. ks ! i = k) [0..<length ks]"

lemma positions_snoc: "positions (ks @ [k]) k' = positions ks k' @ (if k = k' then [length ks] else [])"
proof -
  have "filter (\<lambda>i. (ks @ [k]) ! i = k') [0..<length ks] = positions ks k'"
    unfolding positions_def by (intro filter_cong) (auto simp: nth_append)
  then show ?thesis by (simp add: positions_def)
qed

lemma set_positions: "i \<in> set (positions ks k) \<longleftrightarrow> i < length ks \<and> ks ! i = k"
  by (auto simp: positions_def)

lemma positions_absent: "k \<notin> set ks \<Longrightarrow> positions ks k = []"
  by (auto simp: positions_def filter_empty_conv)

lemma mset_positions: "mset [0..<length ks] = (\<Sum>k\<in>set ks. mset (positions ks k))"
proof (induction ks rule: rev_induct)
  case (snoc k ks)
  have "(\<Sum>k'\<in>set (ks @ [k]). mset (positions (ks @ [k]) k'))
      = (\<Sum>k'\<in>insert k (set ks). mset (positions ks k') + (if k = k' then {#length ks#} else {#}))"
    by (intro sum.cong) (auto simp: positions_snoc)
  also have "\<dots> = (\<Sum>k'\<in>insert k (set ks). mset (positions ks k')) + {#length ks#}"
    by (simp add: sum.distrib)
  also have "(\<Sum>k'\<in>insert k (set ks). mset (positions ks k')) = (\<Sum>k'\<in>set ks. mset (positions ks k'))"
  proof (rule sum.mono_neutral_right)
    show "\<forall>k'\<in>insert k (set ks) - set ks. mset (positions ks k') = {#}"
      by (auto simp: positions_absent)
  qed auto
  finally show ?case using snoc by simp
qed simp

lemma putIndex_many:
  assumes "wf_map m"
  shows "wf_map (putIndex i k m)" "many (putIndex i k m k') = many (m k') @ (if k = k' then [i] else [])"
proof -
  have w: "wf_val (m k)" using assms by (simp add: wf_map_def)
  consider "many (m k) = []" | "length (many (m k)) = 1" | "length (many (m k)) > 1"
    by (cases "many (m k)") auto
  then show "wf_map (putIndex i k m)" "many (putIndex i k m k') = many (m k') @ (if k = k' then [i] else [])"
    using w assms one_many [OF w] by (cases; auto simp: putIndex_def Let_def wf_map_def)+
qed

definition lists :: "idx_map \<Rightarrow> string list \<Rightarrow> bool" where
  "lists m ks \<longleftrightarrow> wf_map m \<and> (\<forall>k. many (m k) = positions ks k)"

definition init_keys :: "bool \<Rightarrow> string list \<Rightarrow> string list \<Rightarrow> bool" where
  "init_keys multiple ks keyArr \<longleftrightarrow>
     (if multiple then distinct keyArr \<and> set keyArr = set ks else keyArr = ks)"

lemma initIndexMap_spec:
  assumes "lists m pre" "init_keys mlt pre ka" "initIndexMap mlt (length pre) ks (m, ka) = (m', ka')"
  shows "lists m' (pre @ map ec_key ks) \<and> init_keys mlt (pre @ map ec_key ks) ka'"
  using assms
proof (induction ks arbitrary: pre m ka)
  case (Cons k ks)
  let ?key = "ec_key k"
  let ?ka = "if \<not> mlt \<or> dataIndexMapValueLength (m ?key) = 0 then ka @ [?key] else ka"
  have w: "wf_map m" "\<And>k. many (m k) = positions pre k" using Cons.prems(1) by (auto simp: lists_def)
  have "lists (putIndex (length pre) ?key m) (pre @ [?key])"
    using putIndex_many [OF w(1)] w(2) by (simp add: lists_def positions_snoc)
  moreover have "dataIndexMapValueLength (m ?key) = 0 \<longleftrightarrow> ?key \<notin> set pre"
    using w set_positions [of _ pre ?key] by (auto simp: wf_map_def in_set_conv_nth positions_absent)
  then have "init_keys mlt (pre @ [?key]) ?ka" using Cons.prems(2) by (auto simp: init_keys_def)
  moreover have "initIndexMap mlt (length (pre @ [?key])) ks (putIndex (length pre) ?key m, ?ka) = (m', ka')"
    using Cons.prems(3) by (simp add: Let_def)
  ultimately show ?case using Cons.IH by fastforce
qed simp

lemma initIndexMap_start:
  assumes "initIndexMap mlt 0 ks (\<lambda>_. NoVal, []) = (m, ka)"
  shows "lists m (map ec_key ks)" "init_keys mlt (map ec_key ks) ka"
proof -
  have "lists (\<lambda>_. NoVal) []" "init_keys mlt [] []"
    by (auto simp: lists_def wf_map_def positions_def init_keys_def)
  from initIndexMap_spec [OF this, of ks m ka] assms
  show "lists m (map ec_key ks)" "init_keys mlt (map ec_key ks) ka" by simp_all
qed

section \<open>What the directives mention\<close>

fun d_olds :: "directive \<Rightarrow> nat list" where
  "d_olds (Update n i) = [i]" | "d_olds (Remove i) = [i]" | "d_olds (Add n) = []"
| "d_olds (ManyToOne n is) = is" | "d_olds (OneToMany ns i) = [i]" | "d_olds (ManyToMany ns is) = is"

fun d_news :: "directive \<Rightarrow> nat list" where
  "d_news (Update n i) = [n]" | "d_news (Remove i) = []" | "d_news (Add n) = [n]"
| "d_news (ManyToOne n is) = [n]" | "d_news (OneToMany ns i) = ns" | "d_news (ManyToMany ns is) = ns"

definition olds_of :: "directive list \<Rightarrow> nat list" where
  "olds_of ds = concat (map d_olds ds)"

definition news_of :: "directive list \<Rightarrow> nat list" where
  "news_of ds = concat (map d_news ds)"

lemma of_simps [simp]:
  "olds_of [] = []" "news_of [] = []" "olds_of (d # ds) = d_olds d @ olds_of ds" "news_of (d # ds) = d_news d @ news_of ds"
  "olds_of (ds @ es) = olds_of ds @ olds_of es" "news_of (ds @ es) = news_of ds @ news_of es"
  "olds_of (map Add ns) = []" "news_of (map Add ns) = ns" "olds_of (map Remove is) = is" "news_of (map Remove is) = []"
  by (simp_all add: olds_of_def news_of_def comp_def)

text \<open>The new indices that a map still holds under the given keys.\<close>

definition held :: "string set \<Rightarrow> idx_map \<Rightarrow> nat multiset" where
  "held A m = (\<Sum>k\<in>A. mset (many (m k)))"

lemma held_upd:
  "finite A \<Longrightarrow> k \<in> A \<Longrightarrow> held A (m(k := v)) + mset (many (m k)) = held A m + mset (many v)"
  by (simp add: held_def sum.remove [of A k])

lemma held_insert_clear:
  "finite A \<Longrightarrow> held (insert k A) m = mset (many (m k)) + held A (m(k := NoVal))"
proof -
  assume f: "finite A"
  have "held A (m(k := NoVal)) = held (A - {k}) m"
    unfolding held_def by (intro sum.mono_neutral_cong_right) (use f in auto)
  then show ?thesis using f by (simp add: held_def sum.insert_remove)
qed

lemma performRestAdd_spec:
  assumes "wf_map m"
  shows "mset (news_of (performRestAdd keys m)) = held (set keys) m" "olds_of (performRestAdd keys m) = []"
proof -
  have "mset (news_of (performRestAdd keys m)) = held (set keys) m \<and> olds_of (performRestAdd keys m) = []"
    using assms
  proof (induction keys m rule: performRestAdd.induct)
    case (2 key keys m)
    have w: "wf_val (m key)" using "2.prems" by (simp add: wf_map_def)
    have IH: "mset (news_of (performRestAdd keys (m(key := NoVal)))) = held (set keys) (m(key := NoVal)) \<and>
        olds_of (performRestAdd keys (m(key := NoVal))) = []"
      by (rule "2.IH" [OF refl refl]) (rule wf_map_upd [OF "2.prems"], simp)
    show ?case using IH w held_insert_clear [of "set keys" key m] one_many [OF w]
      by (cases "many (m key)"; cases "tl (many (m key))") (auto simp: Let_def)
  qed (simp add: held_def)
  then show "mset (news_of (performRestAdd keys m)) = held (set keys) m" "olds_of (performRestAdd keys m) = []" by auto
qed

section \<open>One-to-one mode\<close>

lemma matchOld_spec:
  assumes "wf_map m" "matchOld i key m = (d, m1)"
  shows "wf_map m1" "many (m1 key) = tl (many (m key))" "k \<noteq> key \<Longrightarrow> m1 k = m k"
    "d = (if many (m key) = [] then Remove i else Update (hd (many (m key))) i)"
proof -
  have w: "wf_val (m key)" using assms(1) by (simp add: wf_map_def)
  consider "many (m key) = []" | a where "many (m key) = [a]" "one (m key) = a"
    | a b where "many (m key) = [a, b]" | a b c cs where "many (m key) = a # b # c # cs"
    using one_many [OF w] by (cases "many (m key)"; cases "tl (many (m key))"; cases "tl (tl (many (m key)))") auto
  then show "wf_map m1" "many (m1 key) = tl (many (m key))" "k \<noteq> key \<Longrightarrow> m1 k = m k"
    "d = (if many (m key) = [] then Remove i else Update (hd (many (m key))) i)"
    using assms w by (cases; auto simp: matchOld_def Let_def wf_map_def)+
qed

lemma oneToOneLoop_spec:
  assumes "wf_map m" "finite A" "\<forall>k. k \<notin> A \<longrightarrow> many (m k) = []" "oneToOneLoop i keys m = (ds, m')"
  shows "wf_map m' \<and> olds_of ds = [i..<i + length keys] \<and> mset (news_of ds) + held A m' = held A m \<and>
    (\<forall>k. set (many (m' k)) \<subseteq> set (many (m k))) \<and>
    (\<forall>n j. Update n j \<in> set ds \<longrightarrow> i \<le> j \<and> j < i + length keys \<and> n \<in> set (many (m (keys ! (j - i)))))"
  using assms
proof (induction keys arbitrary: i m ds)
  case (Cons key keys)
  obtain d m1 where d: "matchOld i key m = (d, m1)" by fastforce
  obtain ds1 where ds1: "oneToOneLoop (Suc i) keys m1 = (ds1, m')" "ds = d # ds1"
    using Cons.prems(4) d by (auto split: prod.splits)
  note mo = matchOld_spec [OF Cons.prems(1) d]
  have m1: "many (m1 k) = (if k = key then tl (many (m k)) else many (m k))" for k
    using mo(2) mo(3) [of k] by simp
  have out: "\<forall>k. k \<notin> A \<longrightarrow> many (m1 k) = []" using Cons.prems(3) by (simp add: m1)
  have sub: "set (many (m1 k)) \<subseteq> set (many (m k))" for k
    by (cases "many (m k)") (auto simp: m1)
  have h: "mset (d_news d) + held A m1 = held A m"
  proof (cases "many (m key)")
    case (Cons n ns)
    then have "key \<in> A" using Cons.prems(3) by (metis list.distinct(1))
    moreover have "m1 = m(key := m1 key)" using mo(3) by auto
    ultimately have "held A m1 + mset (n # ns) = held A m + mset ns"
      using held_upd [OF Cons.prems(2), of key m "m1 key"] Cons mo(2) by (metis list.sel(3))
    then show ?thesis using Cons mo(4) by simp
  next
    case Nil
    then show ?thesis using mo(4) m1 by (auto simp: held_def intro!: sum.cong)
  qed
  note IH = Cons.IH [OF mo(1) Cons.prems(2) out ds1(1)]
  have upd: "i \<le> j \<and> j < i + length (key # keys) \<and> n \<in> set (many (m ((key # keys) ! (j - i))))"
    if "Update n j \<in> set ds" for n j
  proof (cases "Update n j = d")
    case True
    then show ?thesis using mo(4) by (cases "many (m key)") auto
  next
    case False
    then have "Update n j \<in> set ds1" using that ds1(2) by simp
    then have "Suc i \<le> j \<and> j < Suc i + length keys \<and> n \<in> set (many (m1 (keys ! (j - Suc i))))" using IH by blast
    then show ?thesis using sub [of "keys ! (j - Suc i)"] by (auto simp: nth_Cons' Suc_diff_Suc)
  qed
  have "olds_of ds1 = [Suc i..<Suc i + length keys]" "d_olds d = [i]" using IH mo(4) by auto
  moreover have "i # [Suc i..<Suc i + length keys] = [i..<i + length (key # keys)]"
    by (subst (2) upt_conv_Cons) auto
  ultimately have "olds_of ds = [i..<i + length (key # keys)]" by (simp only: ds1(2) of_simps append.simps)
  moreover have "mset (news_of ds) + held A m' = held A m"
  proof -
    have "mset (news_of ds1) + held A m' = held A m1" using IH by blast
    with h show ?thesis by (metis add.assoc ds1(2) mset_append of_simps(4))
  qed
  ultimately show ?case using IH sub upd by blast
qed simp

text \<open>The key of a new and an old item.\<close>

definition same_key :: "string list \<Rightarrow> string list \<Rightarrow> nat \<Rightarrow> nat \<Rightarrow> bool" where
  "same_key olds news n i \<longleftrightarrow> n < length news \<and> i < length olds \<and> news ! n = olds ! i"

lemma ec_key_inj [simp]: "ec_key a = ec_key b \<longleftrightarrow> a = b"
  by (simp add: ec_key_def)

lemma executeOneToOne_spec:
  "olds_of (executeOneToOne olds news) = [0..<length olds] \<and>
   mset (news_of (executeOneToOne olds news)) = mset [0..<length news] \<and>
   (\<forall>n i. Update n i \<in> set (executeOneToOne olds news) \<longrightarrow> same_key olds news n i)"
proof -
  let ?ok = "map ec_key olds" and ?nk = "map ec_key news"
  obtain om oka where o: "initIndexMap False 0 olds (\<lambda>_. NoVal, []) = (om, oka)" by fastforce
  obtain nm nka where n: "initIndexMap False 0 news (\<lambda>_. NoVal, []) = (nm, nka)" by fastforce
  obtain ds m' where l: "oneToOneLoop 0 oka nm = (ds, m')" by fastforce
  have oka: "oka = ?ok" and nka: "nka = ?nk" and nm: "wf_map nm" "\<And>k. many (nm k) = positions ?nk k"
    using initIndexMap_start [OF o] initIndexMap_start [OF n] by (auto simp: init_keys_def lists_def)
  have out: "\<forall>k. k \<notin> set ?nk \<longrightarrow> many (nm k) = []" by (simp add: nm(2) positions_absent)
  note s = oneToOneLoop_spec [OF nm(1) finite_set out l]
  have r: "executeOneToOne olds news = ds @ performRestAdd ?nk m'"
    by (simp add: executeOneToOne_def o n l nka)
  have "held (set ?nk) nm = mset [0..<length news]"
    using mset_positions [of ?nk] by (simp add: held_def nm(2))
  then have "mset (news_of (executeOneToOne olds news)) = mset [0..<length news]"
    using s performRestAdd_spec [of m' ?nk] by (simp add: r)
  moreover have "olds_of (executeOneToOne olds news) = [0..<length olds]"
    using s performRestAdd_spec [of m' ?nk] by (simp add: r oka)
  moreover have "same_key olds news n i" if "Update n i \<in> set (executeOneToOne olds news)" for n i
  proof -
    have "Update n i \<notin> set (performRestAdd ks m)" for ks m
      by (induction ks arbitrary: m) (auto simp: Let_def)
    then have "Update n i \<in> set ds" using that r by auto
    moreover have "\<forall>n j. Update n j \<in> set ds \<longrightarrow> 0 \<le> j \<and> j < 0 + length oka \<and> n \<in> set (many (nm (oka ! (j - 0))))"
      using s by blast
    ultimately have "i < length olds" "n \<in> set (positions ?nk (?ok ! i))" by (force simp: oka nm(2))+
    then show ?thesis by (auto simp: same_key_def set_positions)
  qed
  ultimately show ?thesis by blast
qed

section \<open>Multiple mode\<close>

fun d_pairs :: "directive \<Rightarrow> (nat \<times> nat) set" where
  "d_pairs (Update n i) = {(n, i)}" | "d_pairs (ManyToOne n is) = {n} \<times> set is"
| "d_pairs (OneToMany ns i) = set ns \<times> {i}" | "d_pairs (ManyToMany ns is) = set ns \<times> set is"
| "d_pairs _ = {}"

text \<open>The body of the loop for one key.\<close>

lemma many_cases:
  assumes "wf_val v"
  obtains "many v = []" "dataIndexMapValueLength v = 0"
  | a where "many v = [a]" "dataIndexMapValueLength v = 1" "one v = a"
  | "length (many v) > 1" "dataIndexMapValueLength v = length (many v)"
  using one_many [OF assms] length_many [OF assms] that
  by (cases "many v"; cases "tl (many v)") auto

lemma multipleLoop_spec:
  assumes "wf_map om" "wf_map nm" "distinct keys" "\<forall>k\<in>set keys. many (om k) \<noteq> []" "multipleLoop keys om nm = (ds, nm')"
  shows "mset (olds_of ds) = held (set keys) om \<and>
    (\<forall>k. nm' k = (if k \<in> set keys then NoVal else nm k) \<or> (k \<in> set keys \<and> many (nm k) = [] \<and> nm' k = nm k)) \<and>
    mset (news_of ds) = held (set keys) nm \<and>
    (\<forall>d\<in>set ds. \<forall>(n, i)\<in>d_pairs d. \<exists>k. n \<in> set (many (nm k)) \<and> i \<in> set (many (om k)))"
  using assms
proof (induction keys arbitrary: nm ds)
  case Nil
  then show ?case by (simp add: held_def)
next
  case (Cons key keys)
  define b where "b = (let ov = om key; nv = nm key;
          ol = dataIndexMapValueLength ov; nl = dataIndexMapValueLength nv
      in if ol > 1 \<and> nl = 1 then ([ManyToOne (one nv) (many ov)], nm(key := NoVal))
             else if ol = 1 \<and> nl > 1 then ([OneToMany (many nv) (one ov)], nm(key := NoVal))
             else if ol = 1 \<and> nl = 1 then ([Update (one nv) (one ov)], nm(key := NoVal))
             else if ol > 1 \<and> nl > 1 then ([ManyToMany (many nv) (many ov)], nm(key := NoVal))
             else if ol > 1 then (map Remove (many ov), nm)
             else ([Remove (one ov)], nm))"
  obtain d nm1 where d: "b = (d, nm1)" by fastforce
  obtain ds1 where ds1: "multipleLoop keys om nm1 = (ds1, nm')" "ds = d @ ds1"
    using Cons.prems(5) d unfolding b_def by (auto simp: Let_def split: prod.splits)
  have ov: "wf_val (om key)" "many (om key) \<noteq> []" and nv: "wf_val (nm key)"
    using Cons.prems(1,2,4) by (auto simp: wf_map_def)
  have b: "olds_of d = many (om key)" "news_of d = many (nm key)"
    "nm1 = nm(key := NoVal) \<or> many (nm key) = [] \<and> nm1 = nm"
    "\<forall>x\<in>set d. d_pairs x \<subseteq> set (many (nm key)) \<times> set (many (om key))"
    using d [symmetric] ov unfolding b_def Let_def
    by (cases rule: many_cases [OF ov(1)]; cases rule: many_cases [OF nv]; auto)+
  have wf1: "wf_map nm1" using b(3) Cons.prems(2) by auto
  have k1: "nm1 k = nm k" if "k \<noteq> key" for k using b(3) that by auto
  note IH = Cons.IH [OF Cons.prems(1) wf1 _ _ ds1(1)]
  have nk: "key \<notin> set keys" "distinct keys" "\<forall>k\<in>set keys. many (om k) \<noteq> []" using Cons.prems(3,4) by auto
  note IH = IH [OF nk(2,3)]
  have h: "held (set keys) nm1 = held (set keys) nm"
    unfolding held_def by (intro sum.cong refl arg_cong [where f = "\<lambda>v. mset (many v)"] k1) (use nk(1) in auto)
  have "mset (olds_of ds) = held (set (key # keys)) om" using IH b(1) ds1(2) nk(1) by (simp add: held_def)
  moreover have "mset (news_of ds) = held (set (key # keys)) nm" using IH b(2) ds1(2) nk(1) h by (simp add: held_def)
  moreover have "nm' k = (if k \<in> set (key # keys) then NoVal else nm k) \<or>
      (k \<in> set (key # keys) \<and> many (nm k) = [] \<and> nm' k = nm k)" for k
  proof -
    have i: "nm' k = (if k \<in> set keys then NoVal else nm1 k) \<or> (k \<in> set keys \<and> many (nm1 k) = [] \<and> nm' k = nm1 k)"
      using IH by blast
    show ?thesis
    proof (cases "k = key")
      case True
      then have "nm' k = nm1 k" using i nk(1) by simp
      then show ?thesis using b(3) True by auto
    next
      case False
      then show ?thesis using i k1 [OF False] by (auto split: if_splits)
    qed
  qed
  moreover have "\<exists>k. n \<in> set (many (nm k)) \<and> i \<in> set (many (om k))" if "x \<in> set ds" "(n, i) \<in> d_pairs x" for x n i
  proof (cases "x \<in> set d")
    case True
    then show ?thesis using b(4) that(2) by auto
  next
    case False
    then have "\<exists>k. n \<in> set (many (nm1 k)) \<and> i \<in> set (many (om k))" using IH that ds1(2) by fastforce
    then show ?thesis using b(3) by (auto split: if_splits)
  qed
  ultimately show ?case by blast
qed

lemma executeMultiple_spec:
  "mset (olds_of (executeMultiple olds news)) = mset [0..<length olds] \<and>
   mset (news_of (executeMultiple olds news)) = mset [0..<length news] \<and>
   (\<forall>d\<in>set (executeMultiple olds news). \<forall>(n, i)\<in>d_pairs d. same_key olds news n i)"
proof -
  let ?ok = "map ec_key olds" and ?nk = "map ec_key news"
  obtain om oka where o: "initIndexMap True 0 olds (\<lambda>_. NoVal, []) = (om, oka)" by fastforce
  obtain nm nka where n: "initIndexMap True 0 news (\<lambda>_. NoVal, []) = (nm, nka)" by fastforce
  obtain ds nm' where l: "multipleLoop oka om nm = (ds, nm')" by fastforce
  have oka: "distinct oka" "set oka = set ?ok" and nka: "set nka = set ?nk"
    and om: "wf_map om" "\<And>k. many (om k) = positions ?ok k"
    and nm: "wf_map nm" "\<And>k. many (nm k) = positions ?nk k"
    using initIndexMap_start [OF o] initIndexMap_start [OF n] by (auto simp: init_keys_def lists_def)
  have "\<forall>k\<in>set oka. many (om k) \<noteq> []"
    unfolding oka(2) om(2) by (metis in_set_conv_nth list.set(1) empty_iff set_positions)
  note s = multipleLoop_spec [OF om(1) nm(1) oka(1) this l]
  have q: "nm' k = (if k \<in> set oka then NoVal else nm k) \<or> (k \<in> set oka \<and> many (nm k) = [] \<and> nm' k = nm k)" for k
    using s by blast
  have m': "many (nm' k) = (if k \<in> set oka then [] else many (nm k))" for k
    using q [of k] by auto
  have wf': "wf_map nm'" unfolding wf_map_def
  proof
    fix k
    show "wf_val (nm' k)" using q [of k] nm(1) by (auto simp: wf_map_def split: if_splits)
  qed
  have r: "executeMultiple olds news = ds @ performRestAdd nka nm'"
    by (simp add: executeMultiple_def o n l)
  have "mset (olds_of (executeMultiple olds news)) = held (set ?ok) om"
    using s performRestAdd_spec [OF wf', of nka] oka(2) by (simp add: r)
  also have "\<dots> = mset [0..<length olds]" using mset_positions [of ?ok] by (simp add: held_def om(2))
  finally have O: "mset (olds_of (executeMultiple olds news)) = mset [0..<length olds]" .
  have "held (set nka) nm' = (\<Sum>k\<in>set ?nk - set oka. mset (many (nm k)))"
    unfolding held_def nka m' by (intro sum.mono_neutral_cong_right) auto
  moreover have "held (set oka) nm = (\<Sum>k\<in>set ?nk \<inter> set oka. mset (many (nm k)))"
    unfolding held_def nm(2) using positions_absent [of _ ?nk] by (intro sum.mono_neutral_right) auto
  moreover have "held (set ?nk) nm = (\<Sum>k\<in>set ?nk \<inter> set oka. mset (many (nm k))) +
      (\<Sum>k\<in>set ?nk - set oka. mset (many (nm k)))"
    unfolding held_def by (rule sum.Int_Diff) simp
  ultimately have "mset (news_of (executeMultiple olds news)) = held (set ?nk) nm"
    using s performRestAdd_spec [OF wf', of nka] by (simp add: r)
  also have "\<dots> = mset [0..<length news]" using mset_positions [of ?nk] by (simp add: held_def nm(2))
  finally have N: "mset (news_of (executeMultiple olds news)) = mset [0..<length news]" .
  have "same_key olds news a i" if e: "d \<in> set (executeMultiple olds news)" "(a, i) \<in> d_pairs d" for d a i
  proof -
    have "d_pairs d = {}" if "d \<in> set (performRestAdd ks m)" for ks m
      using that by (induction ks arbitrary: m) (auto simp: Let_def split: if_splits)
    then have "d \<in> set ds" using e r by auto
    then obtain k where "a \<in> set (positions ?nk k)" "i \<in> set (positions ?ok k)"
      using s e(2) nm(2) om(2) by fastforce
    then show ?thesis by (auto simp: set_positions same_key_def)
  qed
  then show ?thesis using O N by blast
qed

fun single :: "directive \<Rightarrow> bool" where
  "single (Update _ _) = True" | "single (Remove _) = True" | "single (Add _) = True" | "single _ = False"

lemma performRestAdd_single: "list_all single (performRestAdd ks m)"
  by (induction ks arbitrary: m) (auto simp: Let_def list_all_iff)

lemma oneToOneLoop_single: "list_all single (fst (oneToOneLoop i ks m))"
proof (induction ks arbitrary: i m)
  case (Cons k ks)
  have "single (fst (matchOld i k m))" by (simp add: matchOld_def Let_def)
  then show ?case using Cons by (simp add: split_beta)
qed simp

lemma executeOneToOne_single: "list_all single (executeOneToOne olds news)"
  using performRestAdd_single oneToOneLoop_single by (simp add: executeOneToOne_def split_beta)

section \<open>Property\<close>

text \<open>
  C18: a diff visits every data item once and pairs only equal keys.  In both modes, the old indices
  mentioned by the directives are a permutation of all old indices and the new ones a permutation of
  all new indices, duplicates of keys included; and whenever a new item is matched with an old one,
  alone or in a group, the two have the same key.
\<close>

theorem diff_visits_all_once:
  "let ds = execute multiple olds news
   in mset (olds_of ds) = mset [0..<length olds] \<and> mset (news_of ds) = mset [0..<length news] \<and>
      (\<Union>d\<in>set ds. d_pairs d) \<subseteq> {(n, i). same_key olds news n i}"
proof (cases multiple)
  case True
  then show ?thesis using executeMultiple_spec [of olds news] by (fastforce simp: execute_def)
next
  case False
  have "d_pairs d = {} \<or> (\<exists>n i. d = Update n i)" if "d \<in> set (executeOneToOne olds news)" for d
    using executeOneToOne_single that by (cases d) (fastforce simp: list_all_iff)+
  then have "(\<Union>d\<in>set (executeOneToOne olds news). d_pairs d) \<subseteq> {(n, i). same_key olds news n i}"
    using executeOneToOne_spec [of olds news] by fastforce
  then show ?thesis using False executeOneToOne_spec [of olds news] by (simp add: execute_def)
qed

end
