(* ===== verification/Tasks.thy ===== *)
theory Tasks
  imports Prelude Linked_Nodes "HOL-Library.Extended_Nat"
begin

text \<open>
  Streaming tasks (\<^verbatim>\<open>src/html/js/echarts.js\<close>, lines 21082-21320): charts process their data in
  pipelines of tasks, each of which handles a range of data indices per frame and tells the next task
  how far it has come.  Tasks are heap objects.  The functions a task is defined with (\<^verbatim>\<open>reset\<close>,
  \<^verbatim>\<open>plan\<close>, \<^verbatim>\<open>count\<close>, \<^verbatim>\<open>onDirty\<close>) come from the chart types: they are a
  parameter that gives their results, and the calls of progress functions are recorded in a log.
  Indices are natural numbers or \<^verbatim>\<open>Infinity\<close>.
\<close>

section \<open>Definitions\<close>

record task =
  upstream :: "addr option"
  downstream :: "addr option"
  dirty :: bool
  disposed :: bool
  dueIndex :: enat
  dueEnd :: enat
  outputDueEnd :: "enat option"
  settedOutputEnd :: "enat option"
  progress :: "nat list option"
  modBy :: "nat option"
  modDataCount :: "nat option"
  pipeline :: "nat option"
  ctx_data :: nat
  ctx_outputData :: nat

text \<open>
  The functions of a task definition: whether \<^verbatim>\<open>plan\<close> asks for a reset, what
  \<^verbatim>\<open>reset\<close> returns (the progress functions, and \<^verbatim>\<open>forceFirstProgress\<close>), and the data
  count; \<^term>\<open>None\<close> where the task has no such function.
\<close>

record task_env =
  env_plan :: "addr \<Rightarrow> bool option"
  env_reset :: "addr \<Rightarrow> (nat list option \<times> bool) option"
  env_count :: "addr \<Rightarrow> nat option"
  env_onDirty :: "addr \<Rightarrow> bool"

datatype task_call = DoProgress addr nat enat enat nat nat | OnDirty addr

record world =
  tasks :: "addr \<Rightarrow> task"
  currentTask :: "nat \<Rightarrow> addr option"
  task_log :: "task_call list"

definition Task :: "nat option \<Rightarrow> nat \<Rightarrow> task" where
  "Task p d = \<lparr>upstream = None, downstream = None, dirty = True, disposed = False, dueIndex = 0, dueEnd = 0,
     outputDueEnd = None, settedOutputEnd = None, progress = None, modBy = None, modDataCount = None,
     pipeline = p, ctx_data = d, ctx_outputData = d\<rparr>"

definition mod_task :: "addr \<Rightarrow> (task \<Rightarrow> task) \<Rightarrow> world \<Rightarrow> world" where
  "mod_task t f w = w\<lparr>tasks := (tasks w)(t := f (tasks w t))\<rparr>"

definition log_call :: "task_call list \<Rightarrow> world \<Rightarrow> world" where
  "log_call cs w = w\<lparr>task_log := task_log w @ cs\<rparr>"

definition dirty_task :: "task_env \<Rightarrow> addr \<Rightarrow> world \<Rightarrow> world" where
  "dirty_task env t w =
     log_call (if env_onDirty env t then [OnDirty t] else []) (mod_task t (\<lambda>x. x\<lparr>dirty := True\<rparr>) w)"

definition doReset :: "task_env \<Rightarrow> bool \<Rightarrow> addr \<Rightarrow> world \<Rightarrow> bool \<times> world" where
  "doReset env skip t w =
     (let w = mod_task t (\<lambda>x. x\<lparr>dueIndex := 0, outputDueEnd := Some 0, dueEnd := 0, settedOutputEnd := None\<rparr>) w;
          (prog, force) =
            (case env_reset env t of
               Some (p, f) \<Rightarrow> if skip then (None, False) else (if p = Some [] then None else p, f)
             | None \<Rightarrow> (None, False));
          w = mod_task t (\<lambda>x. x\<lparr>progress := prog, modBy := None, modDataCount := None\<rparr>) w
      in (force, case downstream (tasks w t) of None \<Rightarrow> w | Some d \<Rightarrow> dirty_task env d w))"

definition normalizeModBy :: "nat option \<Rightarrow> nat" where
  "normalizeModBy v = (case v of Some n \<Rightarrow> if n \<ge> 1 then n else 1 | None \<Rightarrow> 1)"

definition orZero :: "nat option \<Rightarrow> nat" where
  "orZero v = (case v of Some n \<Rightarrow> n | None \<Rightarrow> 0)"

definition unfinished :: "task \<Rightarrow> bool" where
  "unfinished x \<longleftrightarrow> progress x \<noteq> None \<and> dueIndex x < dueEnd x"

record perform_args =
  arg_step :: "nat option"
  arg_skip :: bool
  arg_modBy :: "nat option"
  arg_modDataCount :: "nat option"

text \<open>The first part of \<^verbatim>\<open>perform\<close>: pull the data, plan, and reset if needed.\<close>

definition prepare :: "task_env \<Rightarrow> perform_args \<Rightarrow> addr \<Rightarrow> world \<Rightarrow> bool \<times> world" where
  "prepare env args t w =
     (let x = tasks w t;
          w = (case upstream x of
                 Some u \<Rightarrow>
                   if dirty x
                   then let d = ctx_outputData (tasks w u)
                        in mod_task t (\<lambda>x. x\<lparr>ctx_outputData := d, ctx_data := d\<rparr>) w
                   else w
               | None \<Rightarrow> w);
          w = (case pipeline x of Some p \<Rightarrow> w\<lparr>currentTask := (currentTask w)(p \<mapsto> t)\<rparr> | None \<Rightarrow> w);
          planReset = (env_plan env t = Some True \<and> \<not> arg_skip args);
          modby = normalizeModBy (arg_modBy args);
          modcount = orZero (arg_modDataCount args);
          planReset = (planReset \<or> normalizeModBy (modBy x) \<noteq> modby \<or> orZero (modDataCount x) \<noteq> modcount);
          (force, w) =
            (if dirty x \<or> planReset then doReset env (arg_skip args) t (mod_task t (\<lambda>x. x\<lparr>dirty := False\<rparr>) w)
             else (False, w))
      in (force, mod_task t (\<lambda>x. x\<lparr>modBy := Some modby, modDataCount := Some modcount\<rparr>) w))"

text \<open>The end of the input: how far the upstream task has come, or the data count.\<close>

definition inputEnd :: "task_env \<Rightarrow> addr \<Rightarrow> world \<Rightarrow> enat result" where
  "inputEnd env t w =
     (case upstream (tasks w t) of
        Some u \<Rightarrow> (case outputDueEnd (tasks w u) of None \<Rightarrow> Inl Error | Some e \<Rightarrow> Inr e)
      | None \<Rightarrow>
          if progress (tasks w t) \<noteq> None \<and> env_count env t = None then Inl Error
          else Inr (case env_count env t of Some n \<Rightarrow> enat n | None \<Rightarrow> \<infinity>))"

definition chunkEnd :: "nat option \<Rightarrow> task \<Rightarrow> enat" where
  "chunkEnd step x = min (case step of Some s \<Rightarrow> dueIndex x + enat s | None \<Rightarrow> \<infinity>) (dueEnd x)"

definition runProgress :: "bool \<Rightarrow> perform_args \<Rightarrow> addr \<Rightarrow> world \<Rightarrow> world" where
  "runProgress force args t w =
     (let x = tasks w t; start = dueIndex x; end = chunkEnd (arg_step args) x
      in if \<not> arg_skip args \<and> (force \<or> start < end)
         then log_call (map (\<lambda>p. DoProgress t p start end (normalizeModBy (arg_modBy args))
                                   (orZero (arg_modDataCount args))) (the (progress x))) w
         else w)"

definition perform :: "task_env \<Rightarrow> perform_args \<Rightarrow> addr \<Rightarrow> world \<Rightarrow> (bool \<times> world) result" where
  "perform env args t w =
     (let (force, w) = prepare env args t w
      in case inputEnd env t w of
           Inl e \<Rightarrow> Inl e
         | Inr due \<Rightarrow>
             (let w = mod_task t (\<lambda>x. x\<lparr>dueEnd := due\<rparr>) w;
                  x = tasks w t
              in case progress x of
                   Some _ \<Rightarrow>
                     (let end = chunkEnd (arg_step args) x;
                          out = (case settedOutputEnd x of Some e \<Rightarrow> e | None \<Rightarrow> end);
                          w = runProgress force args t w;
                          w = mod_task t (\<lambda>x. x\<lparr>dueIndex := end\<rparr>) w
                      in case outputDueEnd x of
                           None \<Rightarrow> Inl Error
                         | Some o' \<Rightarrow>
                             if out \<ge> o'
                             then let w = mod_task t (\<lambda>x. x\<lparr>outputDueEnd := Some out\<rparr>) w
                                  in Inr (unfinished (tasks w t), w)
                             else Inl Error)
                 | None \<Rightarrow>
                     (let out = (case settedOutputEnd x of Some e \<Rightarrow> e | None \<Rightarrow> dueEnd x);
                          w = mod_task t (\<lambda>x. x\<lparr>dueIndex := out, outputDueEnd := Some out\<rparr>) w
                      in Inr (unfinished (tasks w t), w))))"

definition pipe :: "task_env \<Rightarrow> addr \<Rightarrow> addr \<Rightarrow> world \<Rightarrow> world result" where
  "pipe env t d w =
     (if disposed (tasks w d) \<or> d = t then Inl Error
      else if downstream (tasks w t) \<noteq> Some d \<or> dirty (tasks w t)
        then let w = mod_task t (\<lambda>x. x\<lparr>downstream := Some d\<rparr>) w;
                 w = mod_task d (\<lambda>x. x\<lparr>upstream := Some t\<rparr>) w
             in Inr (dirty_task env d w)
      else Inr w)"

definition dispose :: "addr \<Rightarrow> world \<Rightarrow> world" where
  "dispose t w =
     (if disposed (tasks w t) then w
      else let w = (case upstream (tasks w t) of Some u \<Rightarrow> mod_task u (\<lambda>x. x\<lparr>downstream := None\<rparr>) w | None \<Rightarrow> w);
               w = (case downstream (tasks w t) of Some d \<Rightarrow> mod_task d (\<lambda>x. x\<lparr>upstream := None\<rparr>) w | None \<Rightarrow> w)
           in mod_task t (\<lambda>x. x\<lparr>dirty := False, disposed := True\<rparr>) w)"

definition setOutputEnd :: "addr \<Rightarrow> enat \<Rightarrow> world \<Rightarrow> world" where
  "setOutputEnd t e w = mod_task t (\<lambda>x. x\<lparr>settedOutputEnd := Some e, outputDueEnd := Some e\<rparr>) w"

subsection \<open>The iterator\<close>

text \<open>The iterator given to a progress function, for finite ranges.\<close>

record iter =
  it_current :: nat
  it_end :: nat
  it_modBy :: nat
  it_modDataCount :: nat
  it_winCount :: nat
  it_mod :: bool

definition ceil_div :: "nat \<Rightarrow> nat \<Rightarrow> nat" where
  "ceil_div a b = (a + (b - 1)) div b"

definition iter_reset :: "nat \<Rightarrow> nat \<Rightarrow> nat \<Rightarrow> nat \<Rightarrow> iter" where
  "iter_reset s e sStep sCount =
     \<lparr>it_current = s, it_end = e, it_modBy = sStep, it_modDataCount = sCount,
      it_winCount = ceil_div sCount sStep, it_mod = (sStep > 1 \<and> sCount > 0)\<rparr>"

definition sequentialNext :: "iter \<Rightarrow> nat option \<times> iter" where
  "sequentialNext it =
     (if it_current it < it_end it then (Some (it_current it), it\<lparr>it_current := it_current it + 1\<rparr>)
      else (None, it))"

definition modNext :: "iter \<Rightarrow> nat option \<times> iter" where
  "modNext it =
     (let dataIndex = it_current it mod it_winCount it * it_modBy it + ceil_div (it_current it) (it_winCount it);
          result = (if it_current it \<ge> it_end it then None
                    else Some (if dataIndex < it_modDataCount it then dataIndex else it_current it))
      in (result, it\<lparr>it_current := it_current it + 1\<rparr>))"

definition iter_next :: "iter \<Rightarrow> nat option \<times> iter" where
  "iter_next it = (if it_mod it then modNext it else sequentialNext it)"

text \<open>A progress function takes the indices one after the other until it gets \<^verbatim>\<open>null\<close>.\<close>

fun drain :: "nat \<Rightarrow> iter \<Rightarrow> nat list" where
  "drain 0 it = []"
| "drain (Suc n) it = (case iter_next it of (None, _) \<Rightarrow> [] | (Some i, it) \<Rightarrow> i # drain n it)"

section \<open>The heap of tasks\<close>

lemma tasks_mod [simp]: "tasks (mod_task t f w) s = (if s = t then f (tasks w t) else tasks w s)"
  by (simp add: mod_task_def)

lemma mod_task_frame [simp]:
  "task_log (mod_task t f w) = task_log w" "currentTask (mod_task t f w) = currentTask w"
  "tasks (log_call cs w) = tasks w" "task_log (log_call cs w) = task_log w @ cs"
  by (simp_all add: mod_task_def log_call_def)

lemma tasks_dirty [simp]:
  "tasks (dirty_task env t w) s = (if s = t then (tasks w t)\<lparr>dirty := True\<rparr> else tasks w s)"
  by (simp add: dirty_task_def)

lemma tasks_runProgress [simp]: "tasks (runProgress f a t w) = tasks w"
  by (simp add: runProgress_def Let_def)

lemma upt_join: "i \<le> j \<Longrightarrow> j \<le> k \<Longrightarrow> [i..<j] @ [j..<k] = [i..<k]"
  by (metis le_Suc_ex upt_add_eq_append)

section \<open>The iterator\<close>

lemma drain_sequential:
  "\<not> it_mod it \<Longrightarrow> it_end it - it_current it < n \<Longrightarrow> drain n it = [it_current it..<it_end it]"
proof (induction n arbitrary: it)
  case (Suc n)
  show ?case
  proof (cases "it_current it < it_end it")
    case True
    let ?it = "it\<lparr>it_current := it_current it + 1\<rparr>"
    have "drain n ?it = [it_current it + 1..<it_end it]" using Suc.IH [of ?it] Suc.prems True by simp
    then show ?thesis using Suc.prems True by (simp add: iter_next_def sequentialNext_def upt_conv_Cons)
  qed (use Suc.prems in \<open>simp add: iter_next_def sequentialNext_def\<close>)
qed simp

section \<open>Chunks of progress\<close>

abbreviation step_args :: "nat \<Rightarrow> perform_args" where
  "step_args s \<equiv> \<lparr>arg_step = Some s, arg_skip = False, arg_modBy = None, arg_modDataCount = None\<rparr>"

text \<open>A source task with one progress function that has handled the indices below \<open>i\<close>.\<close>

definition source_task :: "task_env \<Rightarrow> addr \<Rightarrow> nat \<Rightarrow> nat \<Rightarrow> bool" where
  "source_task env t n p \<longleftrightarrow>
     env_count env t = Some n \<and> env_plan env t \<noteq> Some True \<and> env_reset env t = Some (Some [p], False)"

definition reached :: "task_env \<Rightarrow> addr \<Rightarrow> nat \<Rightarrow> nat \<Rightarrow> nat \<Rightarrow> world \<Rightarrow> bool" where
  "reached env t n p i w \<longleftrightarrow>
     (let x = tasks w t
      in upstream x = None \<and> \<not> dirty x \<and> downstream x \<noteq> Some t \<and> progress x = Some [p] \<and> settedOutputEnd x = None \<and>
         normalizeModBy (modBy x) = 1 \<and> orZero (modDataCount x) = 0 \<and>
         dueIndex x = enat i \<and> outputDueEnd x = Some (enat i) \<and> i \<le> n)"

definition chunk :: "addr \<Rightarrow> nat \<Rightarrow> nat \<Rightarrow> nat \<Rightarrow> task_call list" where
  "chunk t p i j = (if i < j then [DoProgress t p (enat i) (enat j) 1 0] else [])"

lemma prepare_reached:
  assumes "source_task env t n p" "reached env t n p i w"
  shows "\<exists>w'. prepare env (step_args s) t w = (False, w') \<and> reached env t n p i w' \<and> task_log w' = task_log w"
  using assms by (auto simp: prepare_def reached_def source_task_def normalizeModBy_def orZero_def Let_def split: option.splits)

lemma prepare_dirty:
  assumes "source_task env t n p" "dirty (tasks w t)" "upstream (tasks w t) = None" "downstream (tasks w t) = None"
  shows "\<exists>w'. prepare env (step_args s) t w = (False, w') \<and> reached env t n p 0 w' \<and> task_log w' = task_log w"
  using assms
  by (auto simp: prepare_def doReset_def reached_def source_task_def normalizeModBy_def orZero_def Let_def zero_enat_def
      split: option.splits)

lemma perform_prepared:
  assumes "source_task env t n p" "prepare env (step_args s) t w = (False, w1)" "reached env t n p i w1"
  shows "\<exists>w'. perform env (step_args s) t w = Inr (min (i + s) n < n, w') \<and> reached env t n p (min (i + s) n) w' \<and>
    task_log w' = task_log w1 @ chunk t p i (min (i + s) n)"
proof -
  have m: "min (enat i + enat s) (enat n) = enat (min (i + s) n)" by simp
  have "inputEnd env t w1 = Inr (enat n)"
    using assms(1,3) by (simp add: inputEnd_def reached_def source_task_def Let_def)
  then show ?thesis using assms(2,3)
    by (simp add: perform_def reached_def Let_def chunkEnd_def m runProgress_def chunk_def unfinished_def
        normalizeModBy_def orZero_def min_le_iff_disj zero_enat_def)
qed

text \<open>The scheduler's loop: perform with the given steps, and the last answer.\<close>

fun performAll :: "task_env \<Rightarrow> addr \<Rightarrow> nat list \<Rightarrow> bool \<times> world \<Rightarrow> (bool \<times> world) result" where
  "performAll env t [] (u, w) = Inr (u, w)"
| "performAll env t (s # ss) (u, w) =
     (case perform env (step_args s) t w of Inl e \<Rightarrow> Inl e | Inr uw \<Rightarrow> performAll env t ss uw)"

fun call_indices :: "task_call \<Rightarrow> nat list" where
  "call_indices (DoProgress _ _ s e _ _) = [the_enat s..<the_enat e]"
| "call_indices _ = []"

lemma chunk_indices: "concat (map call_indices (chunk t p i j)) = [i..<j]"
  by (simp add: chunk_def)

lemma performAll_chunks:
  assumes "source_task env t n p" "reached env t n p i w"
  shows "\<exists>w' cs. performAll env t ss (i < n, w) = Inr (min (i + sum_list ss) n < n, w') \<and>
    task_log w' = task_log w @ cs \<and> concat (map call_indices cs) = [i..<min (i + sum_list ss) n]"
  using assms(2)
proof (induction ss arbitrary: i w)
  case Nil
  then show ?case by (auto simp: reached_def Let_def)
next
  case (Cons s ss)
  obtain w1 where w1: "prepare env (step_args s) t w = (False, w1)" "reached env t n p i w1" "task_log w1 = task_log w"
    using prepare_reached [OF assms(1) Cons.prems] by blast
  obtain w2 where w2: "perform env (step_args s) t w = Inr (min (i + s) n < n, w2)" "reached env t n p (min (i + s) n) w2"
    "task_log w2 = task_log w1 @ chunk t p i (min (i + s) n)"
    using perform_prepared [OF assms(1) w1(1,2)] by blast
  from Cons.IH [OF w2(2)] obtain w' cs where w': "performAll env t ss (min (i + s) n < n, w2) = Inr (min (min (i + s) n + sum_list ss) n < n, w')"
    "task_log w' = task_log w2 @ cs" "concat (map call_indices cs) = [min (i + s) n..<min (min (i + s) n + sum_list ss) n]"
    by blast
  have e: "min (min (i + s) n + sum_list ss) n = min (i + (s + sum_list ss)) n" by auto
  have "i \<le> min (i + s) n" using Cons.prems by (simp add: reached_def Let_def)
  then have "[i..<min (i + s) n] @ [min (i + s) n..<min (i + (s + sum_list ss)) n] = [i..<min (i + (s + sum_list ss)) n]"
    by (intro upt_join) auto
  then show ?case using w2(1,3) w' w1(3) by (simp add: e chunk_indices)
qed

lemma runProgress_log:
  "\<exists>ds. task_log (runProgress force args t w) = task_log w @ ds \<and>
    (\<forall>s p a x m k. DoProgress s p a x m k \<in> set ds \<longrightarrow> x = chunkEnd (arg_step args) (tasks w t))"
  by (auto simp: runProgress_def Let_def)

lemma prepare_log:
  "prepare env args t w = (force, w1) \<Longrightarrow>
    \<exists>cs. task_log w1 = task_log w @ cs \<and> (\<forall>s p a x m k. DoProgress s p a x m k \<notin> set cs)"
  by (auto simp: prepare_def doReset_def dirty_task_def Let_def split: option.splits if_splits prod.splits)

section \<open>Properties\<close>

text \<open>
  C19: the frames of a source task tile its data.  A task without upstream, with one progress function
  and \<open>n\<close> data items, that is performed once for each step of a list of steps calls its progress
  function on ranges that together are exactly the indices from 0 up to the sum of the steps, or to
  \<open>n\<close> if that is smaller, each once and in order; and it reports that it is unfinished exactly
  while indices are left.
\<close>

theorem task_frames_tile_data:
  assumes "source_task env t n p" "dirty (tasks w t)" "upstream (tasks w t) = None" "downstream (tasks w t) = None"
  shows "\<exists>w' cs. performAll env t (s # ss) (u, w) = Inr (s + sum_list ss < n, w') \<and> task_log w' = task_log w @ cs \<and>
    concat (map call_indices cs) = [0..<min (s + sum_list ss) n]"
proof -
  obtain w1 where w1: "prepare env (step_args s) t w = (False, w1)" "reached env t n p 0 w1" "task_log w1 = task_log w"
    using prepare_dirty [OF assms] by blast
  obtain w2 where w2: "perform env (step_args s) t w = Inr (min s n < n, w2)" "reached env t n p (min s n) w2"
    "task_log w2 = task_log w @ chunk t p 0 (min s n)"
    using perform_prepared [OF assms(1) w1(1,2)] w1(3) by auto
  obtain w' cs where w': "performAll env t ss (min s n < n, w2) = Inr (min (min s n + sum_list ss) n < n, w')"
    "task_log w' = task_log w2 @ cs" "concat (map call_indices cs) = [min s n..<min (min s n + sum_list ss) n]"
    using performAll_chunks [OF assms(1) w2(2)] by blast
  have e: "min (min s n + sum_list ss) n = min (s + sum_list ss) n" by auto
  have "[0..<min s n] @ [min s n..<min (s + sum_list ss) n] = [0..<min (s + sum_list ss) n]"
    by (intro upt_join) auto
  then show ?thesis using w2(1,3) w' by (auto simp: e chunk_indices)
qed

theorem task_frames_tile_data_witness:
  "let env = \<lparr>env_plan = \<lambda>_. None, env_reset = \<lambda>_. Some (Some [7], False), env_count = \<lambda>_. Some 10,
         env_onDirty = \<lambda>_. False\<rparr>;
       w = \<lparr>tasks = \<lambda>_. Task None 0, currentTask = \<lambda>_. None, task_log = []\<rparr>
   in \<exists>w' cs. performAll env 1 [4, 4, 4] (True, w) = Inr (False, w') \<and> task_log w' = cs \<and>
        concat (map call_indices cs) = [0..<10]"
  using task_frames_tile_data [where env = "\<lparr>env_plan = \<lambda>_. None, env_reset = \<lambda>_. Some (Some [7], False),
      env_count = \<lambda>_. Some 10, env_onDirty = \<lambda>_. False\<rparr>" and t = 1 and n = 10 and p = 7 and s = 4 and ss = "[4, 4]"
      and u = True and w = "\<lparr>tasks = \<lambda>_. Task None 0, currentTask = \<lambda>_. None, task_log = []\<rparr>"]
  by (simp add: source_task_def Task_def Let_def)

text \<open>
  a task does not run ahead of its upstream task.  Whatever the step, the plan and the reset,
  every progress call that one \<^verbatim>\<open>perform\<close> makes ends at or before the output end of the
  upstream task, and so does the index the task has reached.
\<close>

theorem task_stays_behind_upstream:
  assumes "upstream (tasks w t) = Some u" "u \<noteq> t" "perform env args t w = Inr (b, w')"
    "progress (tasks w' t) \<noteq> None"
  shows "\<exists>e cs. outputDueEnd (tasks w u) = Some e \<and> dueIndex (tasks w' t) \<le> e \<and> task_log w' = task_log w @ cs \<and>
    (\<forall>s p a x m k. DoProgress s p a x m k \<in> set cs \<longrightarrow> x \<le> e)"
proof -
  obtain force w1 where p: "prepare env args t w = (force, w1)" by fastforce
  have k: "outputDueEnd (tasks w1 u) = outputDueEnd (tasks w u)" "upstream (tasks w1 t) = Some u"
    using p assms(1,2)
    by (auto simp: prepare_def doReset_def Let_def split: option.splits if_splits prod.splits)
  obtain e where e: "outputDueEnd (tasks w u) = Some e"
    using assms(3) p k by (auto simp: perform_def inputEnd_def split: option.splits)
  let ?w2 = "mod_task t (\<lambda>x. x\<lparr>dueEnd := e\<rparr>) w1"
  have d: "dueIndex (tasks w' t) \<le> e" "task_log w' = task_log (runProgress force args t ?w2)"
    using assms(3,4) p k e
    by (auto simp: perform_def inputEnd_def Let_def chunkEnd_def split: option.splits if_splits)
  have "chunkEnd (arg_step args) (tasks ?w2 t) \<le> e" by (simp add: chunkEnd_def)
  then obtain cs where "task_log w' = task_log w @ cs" "\<forall>s p a x m k. DoProgress s p a x m k \<in> set cs \<longrightarrow> x \<le> e"
    using prepare_log [OF p] runProgress_log [of force args t ?w2] d(2) by fastforce
  then show ?thesis using d(1) e by blast
qed

theorem task_stays_behind_upstream_witness:
  "let env = \<lparr>env_plan = \<lambda>_. None, env_reset = \<lambda>_. Some (Some [7], False), env_count = \<lambda>_. None,
         env_onDirty = \<lambda>_. False\<rparr>;
       w = \<lparr>tasks = (\<lambda>_. Task None 0)(1 := (Task None 0)\<lparr>upstream := Some 2\<rparr>, 2 := (Task None 0)\<lparr>outputDueEnd := Some 6\<rparr>),
            currentTask = \<lambda>_. None, task_log = []\<rparr>
   in \<exists>b w'. perform env (step_args 10) 1 w = Inr (b, w') \<and> dueIndex (tasks w' 1) \<le> 6"
proof -
  let ?env = "\<lparr>env_plan = \<lambda>_. None, env_reset = \<lambda>_. Some (Some [7], False), env_count = \<lambda>_. None,
         env_onDirty = \<lambda>_. False\<rparr>"
  let ?w = "\<lparr>tasks = (\<lambda>_. Task None 0)(1 := (Task None 0)\<lparr>upstream := Some 2\<rparr>, 2 := (Task None 0)\<lparr>outputDueEnd := Some 6\<rparr>),
            currentTask = \<lambda>_. None, task_log = []\<rparr>"
  have "\<exists>b w'. perform ?env (step_args 10) 1 ?w = Inr (b, w') \<and> progress (tasks w' 1) \<noteq> None"
    by (simp add: perform_def prepare_def doReset_def inputEnd_def Task_def Let_def)
  then obtain b w' where p: "perform ?env (step_args 10) 1 ?w = Inr (b, w')" "progress (tasks w' 1) \<noteq> None" by blast
  from task_stays_behind_upstream [OF _ _ p, of 2] have "dueIndex (tasks w' 1) \<le> 6" by auto
  then show ?thesis using p(1) by auto
qed

text \<open>
  the sampling iterator does not visit every index.  With a sampling step of 3 over 12 items it
  yields twelve indices, but never the index 3, and the index 11 twice: it rounds the window number up
  where it has to round down.  The sequential iterator yields every index of its range once.
\<close>

theorem mod_iterator_misses_index:
  "drain 13 (iter_reset 0 12 3 12) = [0, 4, 7, 10, 1, 5, 8, 11, 2, 6, 9, 11] \<and>
   drain 13 (iter_reset 0 12 1 12) = [0..<12]"
  by code_simp

end
