(* ===== verification/Color.thy ===== *)
theory Color
  imports LRU_Cache Prelude Complex_Main
begin

text \<open>
  The colour helpers of the drawing library (\<^verbatim>\<open>src/html/js/echarts.js\<close>, lines 3678-4083): parsing
  of CSS colours with a cache of 20 results, conversion between RGB and HSL, interpolation and
  printing.  Numbers are exact rationals, and \<^term>\<open>None\<close> stands for \<^verbatim>\<open>NaN\<close> and for the
  quotient of a division by zero; floating-point rounding is not modelled, and the printed form of a
  number is its positional one.  The arrays that hold colours are heap objects, because the cache
  re-uses the array of an evicted colour.  Strings consist of 8-bit characters and are not property
  names of \<^verbatim>\<open>Object.prototype\<close>.
\<close>

unbundle bit_operations_syntax

type_synonym jsnum = "rat option"

section \<open>The number syntax of the language\<close>

definition is_ws :: "char \<Rightarrow> bool" where
  "is_ws c \<longleftrightarrow> (of_char c :: nat) \<in> {9, 10, 11, 12, 13, 32, 160}"

definition digit_val :: "char \<Rightarrow> nat" where
  "digit_val c =
     (let n = of_char c :: nat
      in if 48 \<le> n \<and> n \<le> 57 then n - 48
         else if 97 \<le> n \<and> n \<le> 122 then n - 87
         else if 65 \<le> n \<and> n \<le> 90 then n - 55 else 99)"

definition is_digit :: "nat \<Rightarrow> char \<Rightarrow> bool" where
  "is_digit radix c \<longleftrightarrow> digit_val c < radix"

definition digits_val :: "nat \<Rightarrow> string \<Rightarrow> nat" where
  "digits_val radix ds = foldl (\<lambda>a d. a * radix + digit_val d) 0 ds"

definition strip_sign :: "string \<Rightarrow> bool \<times> string" where
  "strip_sign s =
     (case s of [] \<Rightarrow> (False, s) | c # cs \<Rightarrow>
        if c = CHR ''-'' then (True, cs) else if c = CHR ''+'' then (False, cs) else (False, s))"

definition with_sign :: "bool \<Rightarrow> rat \<Rightarrow> rat" where
  "with_sign neg x = (if neg then - x else x)"

definition parseInt :: "string \<Rightarrow> nat \<Rightarrow> jsnum" where
  "parseInt s radix =
     (let (neg, s) = strip_sign (dropWhile is_ws s);
          s = (if radix = 16 \<and> take 2 s \<in> {''0x'', ''0X''} then drop 2 s else s);
          ds = takeWhile (is_digit radix) s
      in if ds = [] then None else Some (with_sign neg (of_nat (digits_val radix ds))))"

definition frac_val :: "nat \<Rightarrow> string \<Rightarrow> rat" where
  "frac_val radix ds = of_nat (digits_val radix ds) / of_nat radix ^ length ds"

definition pow10 :: "int \<Rightarrow> rat" where
  "pow10 e = (if 0 \<le> e then 10 ^ nat e else 1 / 10 ^ nat (- e))"

text \<open>The exponent part of a decimal literal, if there is one, and what follows it.\<close>

definition scanExponent :: "string \<Rightarrow> int \<times> string" where
  "scanExponent s =
     (case s of [] \<Rightarrow> (0, s) | c # cs \<Rightarrow>
        if c = CHR ''e'' \<or> c = CHR ''E''
        then let (neg, r) = strip_sign cs; ds = takeWhile (is_digit 10) r
             in if ds = [] then (0, s)
                else ((if neg then - int (digits_val 10 ds) else int (digits_val 10 ds)), dropWhile (is_digit 10) r)
        else (0, s))"

definition scanFraction :: "string \<Rightarrow> string \<times> string" where
  "scanFraction s =
     (case s of [] \<Rightarrow> ([], s) | c # cs \<Rightarrow>
        if c = CHR ''.'' then (takeWhile (is_digit 10) cs, dropWhile (is_digit 10) cs) else ([], s))"

text \<open>The longest prefix that is a decimal literal, and the rest of the string.\<close>

definition scanFloat :: "string \<Rightarrow> (rat \<times> string) option" where
  "scanFloat s =
     (let (neg, s) = strip_sign s;
          ip = takeWhile (is_digit 10) s;
          (fp, rest) = scanFraction (dropWhile (is_digit 10) s);
          (e, rest') = scanExponent rest
      in if ip = [] \<and> fp = [] then None
         else Some (with_sign neg ((of_nat (digits_val 10 ip) + frac_val 10 fp) * pow10 e), rest'))"

definition parseFloat :: "string \<Rightarrow> jsnum" where
  "parseFloat s = map_option fst (scanFloat (dropWhile is_ws s))"

definition radixLiteral :: "nat \<Rightarrow> string \<Rightarrow> jsnum" where
  "radixLiteral radix ds =
     (if ds \<noteq> [] \<and> list_all (is_digit radix) ds then Some (of_nat (digits_val radix ds)) else None)"

text \<open>The conversion of a string to a number (the unary plus).\<close>

definition toNumber :: "string \<Rightarrow> jsnum" where
  "toNumber s =
     (let s = rev (dropWhile is_ws (rev (dropWhile is_ws s)))
      in if s = [] then Some 0
         else if take 2 s \<in> {''0x'', ''0X''} then radixLiteral 16 (drop 2 s)
         else if take 2 s \<in> {''0o'', ''0O''} then radixLiteral 8 (drop 2 s)
         else if take 2 s \<in> {''0b'', ''0B''} then radixLiteral 2 (drop 2 s)
         else case scanFloat s of Some (v, []) \<Rightarrow> Some v | _ \<Rightarrow> None)"

text \<open>Printing: the digits of a number in a radix, at most 20 of them after the point.\<close>

definition digit_char :: "nat \<Rightarrow> char" where
  "digit_char d = char_of (if d < 10 then 48 + d else 87 + d)"

fun nat_digits :: "nat \<Rightarrow> nat \<Rightarrow> string" where
  "nat_digits radix n =
     (if n < radix \<or> radix < 2 then [digit_char n]
      else nat_digits radix (n div radix) @ [digit_char (n mod radix)])"

fun frac_digits :: "nat \<Rightarrow> nat \<Rightarrow> rat \<Rightarrow> string" where
  "frac_digits 0 radix x = []"
| "frac_digits (Suc k) radix x =
     (if x = 0 then []
      else let y = x * of_nat radix in digit_char (nat \<lfloor>y\<rfloor>) # frac_digits k radix (y - of_int \<lfloor>y\<rfloor>))"

definition toString :: "nat \<Rightarrow> jsnum \<Rightarrow> string" where
  "toString radix v =
     (case v of None \<Rightarrow> ''NaN''
      | Some x \<Rightarrow>
          (let y = \<bar>x\<bar>; n = nat \<lfloor>y\<rfloor>; fp = frac_digits 20 radix (y - of_nat n)
           in (if x < 0 then ''-'' else []) @ nat_digits radix n @ (if fp = [] then [] else CHR ''.'' # fp)))"

text \<open>The conversion to a 32-bit integer (the bitwise operators), and the left shift.\<close>

definition toInt32 :: "jsnum \<Rightarrow> int" where
  "toInt32 v =
     (case v of None \<Rightarrow> 0
      | Some x \<Rightarrow> signed_take_bit 31 (if x < 0 then - \<lfloor>- x\<rfloor> else \<lfloor>x\<rfloor>))"

definition shiftLeft :: "jsnum \<Rightarrow> nat \<Rightarrow> int" where
  "shiftLeft v k = signed_take_bit 31 (push_bit k (toInt32 v))"

section \<open>Definitions\<close>

definition kCSSColorTable :: "(string \<times> nat list) list" where
  "kCSSColorTable = [
     (''transparent'', [0, 0, 0, 0]), (''aliceblue'', [240, 248, 255, 1]),
     (''antiquewhite'', [250, 235, 215, 1]), (''aqua'', [0, 255, 255, 1]),
     (''aquamarine'', [127, 255, 212, 1]), (''azure'', [240, 255, 255, 1]),
     (''beige'', [245, 245, 220, 1]), (''bisque'', [255, 228, 196, 1]),
     (''black'', [0, 0, 0, 1]), (''blanchedalmond'', [255, 235, 205, 1]),
     (''blue'', [0, 0, 255, 1]), (''blueviolet'', [138, 43, 226, 1]),
     (''brown'', [165, 42, 42, 1]), (''burlywood'', [222, 184, 135, 1]),
     (''cadetblue'', [95, 158, 160, 1]), (''chartreuse'', [127, 255, 0, 1]),
     (''chocolate'', [210, 105, 30, 1]), (''coral'', [255, 127, 80, 1]),
     (''cornflowerblue'', [100, 149, 237, 1]), (''cornsilk'', [255, 248, 220, 1]),
     (''crimson'', [220, 20, 60, 1]), (''cyan'', [0, 255, 255, 1]),
     (''darkblue'', [0, 0, 139, 1]), (''darkcyan'', [0, 139, 139, 1]),
     (''darkgoldenrod'', [184, 134, 11, 1]), (''darkgray'', [169, 169, 169, 1]),
     (''darkgreen'', [0, 100, 0, 1]), (''darkgrey'', [169, 169, 169, 1]),
     (''darkkhaki'', [189, 183, 107, 1]), (''darkmagenta'', [139, 0, 139, 1]),
     (''darkolivegreen'', [85, 107, 47, 1]), (''darkorange'', [255, 140, 0, 1]),
     (''darkorchid'', [153, 50, 204, 1]), (''darkred'', [139, 0, 0, 1]),
     (''darksalmon'', [233, 150, 122, 1]), (''darkseagreen'', [143, 188, 143, 1]),
     (''darkslateblue'', [72, 61, 139, 1]), (''darkslategray'', [47, 79, 79, 1]),
     (''darkslategrey'', [47, 79, 79, 1]), (''darkturquoise'', [0, 206, 209, 1]),
     (''darkviolet'', [148, 0, 211, 1]), (''deeppink'', [255, 20, 147, 1]),
     (''deepskyblue'', [0, 191, 255, 1]), (''dimgray'', [105, 105, 105, 1]),
     (''dimgrey'', [105, 105, 105, 1]), (''dodgerblue'', [30, 144, 255, 1]),
     (''firebrick'', [178, 34, 34, 1]), (''floralwhite'', [255, 250, 240, 1]),
     (''forestgreen'', [34, 139, 34, 1]), (''fuchsia'', [255, 0, 255, 1]),
     (''gainsboro'', [220, 220, 220, 1]), (''ghostwhite'', [248, 248, 255, 1]),
     (''gold'', [255, 215, 0, 1]), (''goldenrod'', [218, 165, 32, 1]),
     (''gray'', [128, 128, 128, 1]), (''green'', [0, 128, 0, 1]),
     (''greenyellow'', [173, 255, 47, 1]), (''grey'', [128, 128, 128, 1]),
     (''honeydew'', [240, 255, 240, 1]), (''hotpink'', [255, 105, 180, 1]),
     (''indianred'', [205, 92, 92, 1]), (''indigo'', [75, 0, 130, 1]),
     (''ivory'', [255, 255, 240, 1]), (''khaki'', [240, 230, 140, 1]),
     (''lavender'', [230, 230, 250, 1]), (''lavenderblush'', [255, 240, 245, 1]),
     (''lawngreen'', [124, 252, 0, 1]), (''lemonchiffon'', [255, 250, 205, 1]),
     (''lightblue'', [173, 216, 230, 1]), (''lightcoral'', [240, 128, 128, 1]),
     (''lightcyan'', [224, 255, 255, 1]), (''lightgoldenrodyellow'', [250, 250, 210, 1]),
     (''lightgray'', [211, 211, 211, 1]), (''lightgreen'', [144, 238, 144, 1]),
     (''lightgrey'', [211, 211, 211, 1]), (''lightpink'', [255, 182, 193, 1]),
     (''lightsalmon'', [255, 160, 122, 1]), (''lightseagreen'', [32, 178, 170, 1]),
     (''lightskyblue'', [135, 206, 250, 1]), (''lightslategray'', [119, 136, 153, 1]),
     (''lightslategrey'', [119, 136, 153, 1]), (''lightsteelblue'', [176, 196, 222, 1]),
     (''lightyellow'', [255, 255, 224, 1]), (''lime'', [0, 255, 0, 1]),
     (''limegreen'', [50, 205, 50, 1]), (''linen'', [250, 240, 230, 1]),
     (''magenta'', [255, 0, 255, 1]), (''maroon'', [128, 0, 0, 1]),
     (''mediumaquamarine'', [102, 205, 170, 1]), (''mediumblue'', [0, 0, 205, 1]),
     (''mediumorchid'', [186, 85, 211, 1]), (''mediumpurple'', [147, 112, 219, 1]),
     (''mediumseagreen'', [60, 179, 113, 1]), (''mediumslateblue'', [123, 104, 238, 1]),
     (''mediumspringgreen'', [0, 250, 154, 1]), (''mediumturquoise'', [72, 209, 204, 1]),
     (''mediumvioletred'', [199, 21, 133, 1]), (''midnightblue'', [25, 25, 112, 1]),
     (''mintcream'', [245, 255, 250, 1]), (''mistyrose'', [255, 228, 225, 1]),
     (''moccasin'', [255, 228, 181, 1]), (''navajowhite'', [255, 222, 173, 1]),
     (''navy'', [0, 0, 128, 1]), (''oldlace'', [253, 245, 230, 1]),
     (''olive'', [128, 128, 0, 1]), (''olivedrab'', [107, 142, 35, 1]),
     (''orange'', [255, 165, 0, 1]), (''orangered'', [255, 69, 0, 1]),
     (''orchid'', [218, 112, 214, 1]), (''palegoldenrod'', [238, 232, 170, 1]),
     (''palegreen'', [152, 251, 152, 1]), (''paleturquoise'', [175, 238, 238, 1]),
     (''palevioletred'', [219, 112, 147, 1]), (''papayawhip'', [255, 239, 213, 1]),
     (''peachpuff'', [255, 218, 185, 1]), (''peru'', [205, 133, 63, 1]),
     (''pink'', [255, 192, 203, 1]), (''plum'', [221, 160, 221, 1]),
     (''powderblue'', [176, 224, 230, 1]), (''purple'', [128, 0, 128, 1]),
     (''red'', [255, 0, 0, 1]), (''rosybrown'', [188, 143, 143, 1]),
     (''royalblue'', [65, 105, 225, 1]), (''saddlebrown'', [139, 69, 19, 1]),
     (''salmon'', [250, 128, 114, 1]), (''sandybrown'', [244, 164, 96, 1]),
     (''seagreen'', [46, 139, 87, 1]), (''seashell'', [255, 245, 238, 1]),
     (''sienna'', [160, 82, 45, 1]), (''silver'', [192, 192, 192, 1]),
     (''skyblue'', [135, 206, 235, 1]), (''slateblue'', [106, 90, 205, 1]),
     (''slategray'', [112, 128, 144, 1]), (''slategrey'', [112, 128, 144, 1]),
     (''snow'', [255, 250, 250, 1]), (''springgreen'', [0, 255, 127, 1]),
     (''steelblue'', [70, 130, 180, 1]), (''tan'', [210, 180, 140, 1]),
     (''teal'', [0, 128, 128, 1]), (''thistle'', [216, 191, 216, 1]),
     (''tomato'', [255, 99, 71, 1]), (''turquoise'', [64, 224, 208, 1]),
     (''violet'', [238, 130, 238, 1]), (''wheat'', [245, 222, 179, 1]),
     (''white'', [255, 255, 255, 1]), (''whitesmoke'', [245, 245, 245, 1]),
     (''yellow'', [255, 255, 0, 1]), (''yellowgreen'', [154, 205, 50, 1])]"

definition Math_round :: "rat \<Rightarrow> rat" where
  "Math_round x = of_int \<lfloor>x + 1 / 2\<rfloor>"

definition clamp :: "rat \<Rightarrow> rat \<Rightarrow> rat" where
  "clamp hi x = (if x < 0 then 0 else if x > hi then hi else x)"

definition clampCssByte :: "jsnum \<Rightarrow> jsnum" where
  "clampCssByte i = map_option (\<lambda>x. clamp 255 (Math_round x)) i"

definition clampCssAngle :: "jsnum \<Rightarrow> jsnum" where
  "clampCssAngle i = map_option (\<lambda>x. clamp 360 (Math_round x)) i"

definition clampCssFloat :: "jsnum \<Rightarrow> jsnum" where
  "clampCssFloat f = map_option (clamp 1) f"

definition percentage :: "string \<Rightarrow> bool" where
  "percentage s \<longleftrightarrow> s \<noteq> [] \<and> last s = CHR ''%''"

definition parseCssInt :: "string \<Rightarrow> jsnum" where
  "parseCssInt s =
     (if percentage s then clampCssByte (map_option (\<lambda>x. x / 100 * 255) (parseFloat s))
      else clampCssByte (parseInt s 10))"

text \<open>A component of an HSL colour is a string, or a number where it has been computed.\<close>

datatype css_val = Str string | Num jsnum

fun val_float :: "css_val \<Rightarrow> jsnum" where
  "val_float (Str s) = parseFloat s"
| "val_float (Num x) = x"

fun parseCssFloat :: "css_val \<Rightarrow> jsnum" where
  "parseCssFloat (Str s) =
     (if percentage s then clampCssFloat (map_option (\<lambda>x. x / 100) (parseFloat s))
      else clampCssFloat (parseFloat s))"
| "parseCssFloat (Num x) = clampCssFloat x"

definition wrapHue :: "rat \<Rightarrow> rat" where
  "wrapHue h = (if h < 0 then h + 1 else if h > 1 then h - 1 else h)"

text \<open>With a hue that is no number every comparison fails and \<^verbatim>\<open>m1\<close> is returned.\<close>

definition cssHueToRgb :: "jsnum \<Rightarrow> jsnum \<Rightarrow> jsnum \<Rightarrow> jsnum" where
  "cssHueToRgb m1 m2 h =
     (case map_option wrapHue h of
        None \<Rightarrow> m1
      | Some h \<Rightarrow>
          if h * 6 < 1 then do {m1 \<leftarrow> m1; m2 \<leftarrow> m2; Some (m1 + (m2 - m1) * h * 6)}
          else if h * 2 < 1 then m2
          else if h * 3 < 2 then do {m1 \<leftarrow> m1; m2 \<leftarrow> m2; Some (m1 + (m2 - m1) * (2 / 3 - h) * 6)}
          else m1)"

definition lerpNumber :: "jsnum \<Rightarrow> jsnum \<Rightarrow> rat \<Rightarrow> jsnum" where
  "lerpNumber a b p = do {a \<leftarrow> a; b \<leftarrow> b; Some (a + (b - a) * p)}"

text \<open>Arrays; reading past the end gives \<^verbatim>\<open>undefined\<close>, which counts as no number.\<close>

definition elem :: "jsnum list \<Rightarrow> nat \<Rightarrow> jsnum" where
  "elem xs i = (if i < length xs then xs ! i else None)"

definition setRgba :: "jsnum list \<Rightarrow> jsnum \<Rightarrow> jsnum \<Rightarrow> jsnum \<Rightarrow> jsnum \<Rightarrow> jsnum list" where
  "setRgba out r g b a = [r, g, b, a] @ drop 4 out"

definition copyRgba :: "jsnum list \<Rightarrow> jsnum list \<Rightarrow> jsnum list" where
  "copyRgba out a = [elem a 0, elem a 1, elem a 2, elem a 3] @ drop 4 out"

subsection \<open>HSL\<close>

text \<open>The remainder operator: the result has the sign of the dividend.\<close>

definition rem :: "rat \<Rightarrow> rat \<Rightarrow> rat" where
  "rem x m = (if x < 0 then x + of_int \<lfloor>- x / m\<rfloor> * m else x - of_int \<lfloor>x / m\<rfloor> * m)"

definition hsla2rgba :: "css_val list \<Rightarrow> jsnum list \<Rightarrow> jsnum list" where
  "hsla2rgba hsla rgba =
     (let h = map_option (\<lambda>x. rem (rem x 360 + 360) 360 / 360) (val_float (hsla ! 0));
          s = parseCssFloat (hsla ! 1);
          l = parseCssFloat (hsla ! 2);
          m2 = do {l \<leftarrow> l; s \<leftarrow> s; Some (if l \<le> 1 / 2 then l * (s + 1) else l + s - l * s)};
          m1 = do {l \<leftarrow> l; m2 \<leftarrow> m2; Some (l * 2 - m2)};
          chan = (\<lambda>d. clampCssByte (map_option (\<lambda>x. x * 255) (cssHueToRgb m1 m2 (map_option (\<lambda>x. x + d) h))))
      in setRgba rgba (chan (1 / 3)) (chan 0) (chan (- 1 / 3))
           (if length hsla = 4 then val_float (hsla ! 3) else Some 1))"

definition quotient :: "rat \<Rightarrow> rat \<Rightarrow> jsnum" where
  "quotient a b = (if b = 0 then None else Some (a / b))"

text \<open>Hue, saturation and lightness of a colour with components between 0 and 1.\<close>

definition rgbToHsl :: "rat \<Rightarrow> rat \<Rightarrow> rat \<Rightarrow> jsnum \<times> jsnum \<times> jsnum" where
  "rgbToHsl R G B =
     (let vMin = min R (min G B); vMax = max R (max G B); delta = vMax - vMin; L = (vMax + vMin) / 2
      in if delta = 0 then (Some 0, Some 0, Some L)
         else let S = (if L < 1 / 2 then quotient delta (vMax + vMin) else quotient delta (2 - vMax - vMin));
                  deltaR = ((vMax - R) / 6 + delta / 2) / delta;
                  deltaG = ((vMax - G) / 6 + delta / 2) / delta;
                  deltaB = ((vMax - B) / 6 + delta / 2) / delta;
                  H = (if R = vMax then deltaB - deltaG
                       else if G = vMax then 1 / 3 + deltaR - deltaB
                       else 2 / 3 + deltaG - deltaR);
                  H = (if H < 0 then H + 1 else H);
                  H = (if H > 1 then H - 1 else H)
              in (Some (H * 360), S, Some L))"

definition rgba2hsla :: "jsnum list \<Rightarrow> jsnum list" where
  "rgba2hsla rgba =
     (let (h, s, l) =
            (case (elem rgba 0, elem rgba 1, elem rgba 2) of
               (Some r, Some g, Some b) \<Rightarrow> rgbToHsl (r / 255) (g / 255) (b / 255)
             | _ \<Rightarrow> (None, None, None))
      in [h, s, l] @ (if 3 < length rgba then [rgba ! 3] else []))"

subsection \<open>Parsing\<close>

text \<open>
  What \<^verbatim>\<open>parse\<close> does with a string that is not in the cache: return \<^verbatim>\<open>undefined\<close> without
  touching the output array, or after writing black to it; or return the output array with the given
  components, stored in the cache or not.
\<close>

datatype parsed = NoColor | Invalid | Uncached "jsnum list" | Cached "jsnum list"

definition lower :: "char \<Rightarrow> char" where
  "lower c = (let n = of_char c :: nat
     in if 65 \<le> n \<and> n \<le> 90 \<or> 192 \<le> n \<and> n \<le> 222 \<and> n \<noteq> 215 then char_of (n + 32) else c)"

definition normalizeStr :: "string \<Rightarrow> string" where
  "normalizeStr s = map lower (filter (\<lambda>c. c \<noteq> CHR '' '') s)"

definition inHexRange :: "jsnum \<Rightarrow> rat \<Rightarrow> bool" where
  "inHexRange v m \<longleftrightarrow> (case v of None \<Rightarrow> False | Some x \<Rightarrow> 0 \<le> x \<and> x \<le> m)"

definition num :: "int \<Rightarrow> jsnum" where
  "num i = Some (of_int i)"

definition parseHex :: "string \<Rightarrow> parsed" where
  "parseHex str =
     (let n = length str
      in if n = 4 \<or> n = 5
         then let v = parseInt (take 3 (drop 1 str)) 16; iv = toInt32 v
              in if \<not> inHexRange v 0xfff then Invalid
                 else Cached [num (drop_bit 4 (iv AND 0xf00) OR drop_bit 8 (iv AND 0xf00)),
                              num ((iv AND 0xf0) OR drop_bit 4 (iv AND 0xf0)),
                              num ((iv AND 0xf) OR push_bit 4 (iv AND 0xf)),
                              if n = 5 then map_option (\<lambda>x. x / 0xf) (parseInt (drop 4 str) 16) else Some 1]
         else if n = 7 \<or> n = 9
         then let v = parseInt (take 6 (drop 1 str)) 16; iv = toInt32 v
              in if \<not> inHexRange v 0xffffff then Invalid
                 else Cached [num (drop_bit 16 (iv AND 0xff0000)),
                              num (drop_bit 8 (iv AND 0xff00)),
                              num (iv AND 0xff),
                              if n = 9 then map_option (\<lambda>x. x / 0xff) (parseInt (drop 7 str) 16) else Some 1]
         else NoColor)"

fun split_on :: "char \<Rightarrow> string \<Rightarrow> string list" where
  "split_on d [] = [[]]"
| "split_on d (c # cs) =
     (if c = d then [] # split_on d cs
      else case split_on d cs of [] \<Rightarrow> [[c]] | x # xs \<Rightarrow> (c # x) # xs)"

text \<open>The case for \<^verbatim>\<open>rgb\<close>, into which the case for \<^verbatim>\<open>rgba\<close> falls through.\<close>

definition parseRgb :: "string list \<Rightarrow> jsnum \<Rightarrow> parsed" where
  "parseRgb params alpha =
     (if length params \<ge> 3
      then Cached [parseCssInt (params ! 0), parseCssInt (params ! 1), parseCssInt (params ! 2),
                   if length params = 3 then alpha else parseCssFloat (Str (params ! 3))]
      else Invalid)"

definition parseFunc :: "string \<Rightarrow> string list \<Rightarrow> parsed" where
  "parseFunc fname params =
     (if fname = ''rgba''
      then if length params \<noteq> 4
           then if length params = 3
                then Uncached [toNumber (params ! 0), toNumber (params ! 1), toNumber (params ! 2), Some 1]
                else Uncached [Some 0, Some 0, Some 0, Some 1]
           else parseRgb (butlast params) (parseCssFloat (Str (last params)))
      else if fname = ''rgb'' then parseRgb params (Some 1)
      else if fname = ''hsla''
      then if length params \<noteq> 4 then Invalid
           else Cached (hsla2rgba ((map Str params)[3 := Num (parseCssFloat (Str (params ! 3)))]) [])
      else if fname = ''hsl''
      then if length params \<noteq> 3 then Invalid else Cached (hsla2rgba (map Str params) [])
      else NoColor)"

fun index_of :: "char \<Rightarrow> string \<Rightarrow> nat option" where
  "index_of d [] = None"
| "index_of d (c # cs) = (if c = d then Some 0 else map_option Suc (index_of d cs))"

definition parseString :: "string \<Rightarrow> parsed" where
  "parseString colorStr =
     (let str = normalizeStr colorStr
      in case map_of kCSSColorTable str of
           Some c \<Rightarrow> Cached (map (\<lambda>n. Some (of_nat n)) c)
         | None \<Rightarrow>
             if take 1 str = ''#'' then parseHex str
             else case (index_of CHR ''('' str, index_of CHR '')'' str) of
                    (Some op, Some ep) \<Rightarrow>
                      if ep + 1 = length str
                      then parseFunc (take op str) (split_on CHR '','' (take (ep - (op + 1)) (drop (op + 1) str)))
                      else Invalid
                  | _ \<Rightarrow> Invalid)"

text \<open>The state of the module: the cache holds references to arrays.\<close>

record color_state =
  colorCache :: "addr lru"
  lastRemovedArr :: "addr option"
  arrays :: "addr \<Rightarrow> jsnum list"
  next_array :: addr

definition color_init :: color_state where
  "color_init = \<lparr>colorCache = LRU 0 20, lastRemovedArr = None, arrays = \<lambda>_. [], next_array = 0\<rparr>"

definition new_array :: "jsnum list \<Rightarrow> color_state \<Rightarrow> addr \<times> color_state" where
  "new_array xs st =
     (let a = next_array st in (a, st\<lparr>next_array := a + 1, arrays := (arrays st)(a := xs)\<rparr>))"

definition write_array :: "addr \<Rightarrow> jsnum list \<Rightarrow> color_state \<Rightarrow> color_state" where
  "write_array a xs st = st\<lparr>arrays := (arrays st)(a := xs)\<rparr>"

definition putToCache :: "string \<Rightarrow> addr \<Rightarrow> color_state \<Rightarrow> color_state" where
  "putToCache colorStr rgbaArr st =
     (let st = (case lastRemovedArr st of
                  Some l \<Rightarrow> write_array l (copyRgba (arrays st l) (arrays st rgbaArr)) st
                | None \<Rightarrow> st);
          (a, st) = (case lastRemovedArr st of
                       Some l \<Rightarrow> (l, st)
                     | None \<Rightarrow> new_array (arrays st rgbaArr) st);
          (removed, cache) = put colorStr a (colorCache st)
      in st\<lparr>colorCache := cache, lastRemovedArr := removed\<rparr>)"

definition parse :: "string \<Rightarrow> addr option \<Rightarrow> color_state \<Rightarrow> addr option \<times> color_state" where
  "parse colorStr rgbaArr st =
     (if colorStr = [] then (None, st)
      else
        let (out, st) = (case rgbaArr of Some a \<Rightarrow> (a, st) | None \<Rightarrow> new_array [] st);
            (cached, cache) = get colorStr (colorCache st);
            st = st\<lparr>colorCache := cache\<rparr>
        in case cached of
             Some a \<Rightarrow> (Some out, write_array out (copyRgba (arrays st out) (arrays st a)) st)
           | None \<Rightarrow>
               (case parseString colorStr of
                  NoColor \<Rightarrow> (None, st)
                | Invalid \<Rightarrow>
                    (None, write_array out (setRgba (arrays st out) (Some 0) (Some 0) (Some 0) (Some 1)) st)
                | Uncached c \<Rightarrow> (Some out, write_array out (copyRgba (arrays st out) c) st)
                | Cached c \<Rightarrow>
                    (Some out, putToCache colorStr out (write_array out (copyRgba (arrays st out) c) st))))"

subsection \<open>Users of the parser\<close>

text \<open>A call with no output array: the result is a new array, here its contents.\<close>

definition parseNew :: "string \<Rightarrow> color_state \<Rightarrow> jsnum list option \<times> color_state" where
  "parseNew color st = (let (a, st) = parse color None st in (map_option (arrays st) a, st))"

definition stringify :: "jsnum list \<Rightarrow> string \<Rightarrow> string option" where
  "stringify arrColor type =
     (if arrColor = [] then None
      else let colorStr = toString 10 (elem arrColor 0) @ '','' @ toString 10 (elem arrColor 1) @ '','' @
                            toString 10 (elem arrColor 2);
               colorStr = (if type \<in> {''rgba'', ''hsva'', ''hsla''}
                           then colorStr @ '','' @ toString 10 (elem arrColor 3) else colorStr)
           in Some (type @ ''('' @ colorStr @ '')''))"

definition liftChannel :: "rat \<Rightarrow> jsnum \<Rightarrow> jsnum" where
  "liftChannel level c =
     (let i = (if level < 0 then toInt32 (map_option (\<lambda>c. c * (1 - level)) c)
               else toInt32 (map_option (\<lambda>c. (255 - c) * level + c) c))
      in num (if i > 255 then 255 else if i < 0 then 0 else i))"

definition lift :: "string \<Rightarrow> rat \<Rightarrow> color_state \<Rightarrow> string option \<times> color_state" where
  "lift color level st =
     (let (arr, st) = parseNew color st
      in (case arr of
            None \<Rightarrow> None
          | Some c \<Rightarrow>
              (let c = map (\<lambda>i. if i < 3 then liftChannel level (c ! i) else c ! i) [0..<length c]
               in stringify c (if length c = 4 then ''rgba'' else ''rgb'')), st))"

definition toHex :: "string \<Rightarrow> color_state \<Rightarrow> string option \<times> color_state" where
  "toHex color st =
     (let (arr, st) = parseNew color st
      in (map_option (\<lambda>c. drop 1 (toString 16
            (map_option (\<lambda>b. of_int (shiftLeft (Some 1) 24 + shiftLeft (elem c 0) 16 + shiftLeft (elem c 1) 8) + b)
               (elem c 2)))) arr, st))"

definition inUnit :: "jsnum \<Rightarrow> bool" where
  "inUnit v \<longleftrightarrow> (case v of None \<Rightarrow> False | Some x \<Rightarrow> 0 \<le> x \<and> x \<le> 1)"

definition lerpColor :: "jsnum list \<Rightarrow> jsnum list \<Rightarrow> rat \<Rightarrow> jsnum list" where
  "lerpColor l r dv =
     [clampCssByte (lerpNumber (elem l 0) (elem r 0) dv), clampCssByte (lerpNumber (elem l 1) (elem r 1) dv),
      clampCssByte (lerpNumber (elem l 2) (elem r 2) dv), clampCssFloat (lerpNumber (elem l 3) (elem r 3) dv)]"

definition fastLerp :: "jsnum \<Rightarrow> jsnum list list \<Rightarrow> jsnum list \<Rightarrow> jsnum list option" where
  "fastLerp normalizedValue colors out =
     (if colors = [] \<or> \<not> inUnit normalizedValue then None
      else let v = the normalizedValue * of_nat (length colors - 1); left = \<lfloor>v\<rfloor>; right = \<lceil>v\<rceil>
           in Some (copyRgba out (lerpColor (colors ! nat left) (colors ! nat right) (v - of_int left))))"

record lerp_output =
  lo_color :: string
  lo_leftIndex :: int
  lo_rightIndex :: int
  lo_value :: rat

text \<open>\<^verbatim>\<open>lerp\<close> on colour strings; a string that does not parse makes it throw.\<close>

definition lerp :: "jsnum \<Rightarrow> string list \<Rightarrow> color_state \<Rightarrow> lerp_output option result \<times> color_state" where
  "lerp normalizedValue colors st =
     (if colors = [] \<or> \<not> inUnit normalizedValue then (Inr None, st)
      else let v = the normalizedValue * of_nat (length colors - 1); left = \<lfloor>v\<rfloor>; right = \<lceil>v\<rceil>;
               (l, st) = parseNew (colors ! nat left) st;
               (r, st) = parseNew (colors ! nat right) st
           in (case (l, r) of
                 (Some l, Some r) \<Rightarrow>
                   Inr (map_option (\<lambda>c. \<lparr>lo_color = c, lo_leftIndex = left, lo_rightIndex = right, lo_value = v\<rparr>)
                          (stringify (lerpColor l r (v - of_int left)) ''rgba''))
               | _ \<Rightarrow> Inl TypeError, st))"

definition modifyHSL :: "string \<Rightarrow> jsnum option \<Rightarrow> css_val option \<Rightarrow> css_val option \<Rightarrow> color_state \<Rightarrow>
    string option result \<times> color_state" where
  "modifyHSL color h s l st =
     (let (arr, st) = parseNew color st
      in (if color = [] then Inr None
          else case arr of
                 None \<Rightarrow> Inl TypeError
               | Some c \<Rightarrow>
                   (let c = rgba2hsla c;
                        c = (case h of None \<Rightarrow> c | Some x \<Rightarrow> c[0 := clampCssAngle x]);
                        c = (case s of None \<Rightarrow> c | Some x \<Rightarrow> c[1 := parseCssFloat x]);
                        c = (case l of None \<Rightarrow> c | Some x \<Rightarrow> c[2 := parseCssFloat x])
                    in Inr (stringify (hsla2rgba (map Num c) []) ''rgba'')), st))"

definition modifyAlpha :: "string \<Rightarrow> jsnum option \<Rightarrow> color_state \<Rightarrow> string option \<times> color_state" where
  "modifyAlpha color alpha st =
     (let (arr, st) = parseNew color st
      in (case (arr, alpha) of
            (Some c, Some a) \<Rightarrow> stringify (c[3 := clampCssFloat a]) ''rgba''
          | _ \<Rightarrow> None, st))"

definition lum :: "string \<Rightarrow> rat \<Rightarrow> color_state \<Rightarrow> jsnum \<times> color_state" where
  "lum color backgroundLum st =
     (let (arr, st) = parseNew color st
      in (case arr of
            None \<Rightarrow> Some 0
          | Some c \<Rightarrow>
              do {r \<leftarrow> elem c 0; g \<leftarrow> elem c 1; b \<leftarrow> elem c 2; a \<leftarrow> elem c 3;
                  Some ((299 / 1000 * r + 587 / 1000 * g + 114 / 1000 * b) * a / 255 + (1 - a) * backgroundLum)}, st))"

text \<open>The three random numbers are parameters.\<close>

definition random_color :: "rat \<Rightarrow> rat \<Rightarrow> rat \<Rightarrow> string option" where
  "random_color x y z =
     stringify [Some (Math_round (x * 255)), Some (Math_round (y * 255)), Some (Math_round (z * 255))] ''rgb''"

record normalized_color =
  nc_color :: string
  nc_opacity :: jsnum

text \<open>
  \<^verbatim>\<open>normalizeColor\<close> of the SVG painter; a missing colour is the empty string.
\<close>

definition has_infix :: "string \<Rightarrow> string \<Rightarrow> bool" where
  "has_infix p s \<longleftrightarrow> list_ex (\<lambda>i. take (length p) (drop i s) = p) [0..<length s + 1]"

definition normalizeColor :: "string \<Rightarrow> color_state \<Rightarrow> normalized_color \<times> color_state" where
  "normalizeColor color st =
     (if color = [] \<or> color = ''transparent'' then (\<lparr>nc_color = ''none'', nc_opacity = Some 1\<rparr>, st)
      else if has_infix ''rgba'' color
      then let (arr, st) = parseNew color st
           in (case arr of
                 None \<Rightarrow> \<lparr>nc_color = color, nc_opacity = Some 1\<rparr>
               | Some c \<Rightarrow>
                   \<lparr>nc_color = ''rgb('' @ toString 10 (elem c 0) @ '','' @ toString 10 (elem c 1) @ '','' @
                       toString 10 (elem c 2) @ '')'',
                    nc_opacity = elem c 3\<rparr>, st)
      else (\<lparr>nc_color = color, nc_opacity = Some 1\<rparr>, st))"

end
