(* ===== verification/Color_Cache.thy ===== *)
theory Color_Cache
  imports Color
begin

text \<open>
  The cache in front of the colour parser.  The cache stores references to arrays, and the array of an
  evicted colour is overwritten and stored again for the next one; the invariant below says which
  arrays the cache owns and that no user of the parser holds one of them.
\<close>

section \<open>Results have four components\<close>

lemma length_setRgba [simp]: "length (setRgba out r g b a) = max 4 (length out)"
  by (simp add: setRgba_def)

lemma length_copyRgba [simp]: "length (copyRgba out a) = max 4 (length out)"
  by (simp add: copyRgba_def)

lemma length_hsla2rgba [simp]: "length (hsla2rgba hsla []) = 4"
  by (simp add: hsla2rgba_def Let_def)

text \<open>The entries of the colour table: four components, bytes, and names without parentheses.\<close>

lemma color_table_entries:
  "list_all (\<lambda>e. length (snd e) = 4 \<and> list_all (\<lambda>n. n \<le> 255) (snd e) \<and> CHR ''('' \<notin> set (fst e) \<and>
     take 1 (fst e) \<noteq> ''#'') kCSSColorTable"
  by code_simp

lemma color_table_entry:
  assumes "map_of kCSSColorTable s = Some c"
  shows "length c = 4" "\<forall>n \<in> set c. n \<le> 255" "CHR ''('' \<notin> set s" "take 1 s \<noteq> ''#''"
  using color_table_entries map_of_SomeD [OF assms] by (auto simp: list_all_iff)

lemmas color_table_four = color_table_entry(1)

lemma parseString_four: "parseString s = Cached c \<or> parseString s = Uncached c \<Longrightarrow> length c = 4"
  using color_table_four [of "normalizeStr s"]
  by (auto simp: parseString_def parseHex_def parseFunc_def parseRgb_def Let_def
      split: option.splits if_splits)

lemma take_copyRgba: "length c = 4 \<Longrightarrow> take 4 (copyRgba out c) = c"
  by (auto simp: copyRgba_def elem_def length_Suc_conv eval_nat_numeral)

lemma copyRgba_take: "copyRgba out (take 4 c) = copyRgba out c"
  by (auto simp: copyRgba_def elem_def)

lemma take_copyRgba_long: "length (take 4 c) = 4 \<Longrightarrow> take 4 (copyRgba out c) = take 4 c"
  using take_copyRgba [of "take 4 c" out] by (simp only: copyRgba_take)

section \<open>The invariant\<close>

definition cached_arrays :: "addr acache \<Rightarrow> addr set" where
  "cached_arrays kvs = snd ` set kvs"

definition cache_inv :: "color_state \<Rightarrow> addr set \<Rightarrow> addr acache \<Rightarrow> bool" where
  "cache_inv st own kvs \<longleftrightarrow>
     lru_abs (colorCache st) kvs \<and> maxSize (colorCache st) = 20 \<and>
     (\<forall>(k, a) \<in> set kvs. parseString k = Cached (take 4 (arrays st a))) \<and>
     distinct (map snd kvs) \<and>
     (\<forall>l. lastRemovedArr st = Some l \<longrightarrow> l \<notin> cached_arrays kvs \<and> l \<notin> own \<and> l < next_array st) \<and>
     (\<forall>a \<in> cached_arrays kvs. a \<notin> own \<and> a < next_array st) \<and>
     (\<forall>a \<in> own. a < next_array st)"

text \<open>
  The states the module and its users can reach, with the arrays the users hold: they create arrays,
  write to their arrays and call the parser with one of them or with none.
\<close>

inductive color_reach :: "color_state \<Rightarrow> addr set \<Rightarrow> bool" where
  init: "color_reach color_init {}"
| alloc: "color_reach st own \<Longrightarrow> color_reach (snd (new_array xs st)) (insert (fst (new_array xs st)) own)"
| store: "color_reach st own \<Longrightarrow> a \<in> own \<Longrightarrow> color_reach (write_array a xs st) own"
| into: "color_reach st own \<Longrightarrow> a \<in> own \<Longrightarrow> color_reach (snd (parse s (Some a) st)) own"
| fresh: "color_reach st own \<Longrightarrow> s \<noteq> [] \<Longrightarrow> color_reach (snd (parse s None st)) (insert (next_array st) own)"

lemma cache_inv_init: "cache_inv color_init {} []"
  using LRU_rep [of 20 0] unfolding cache_inv_def color_init_def lru_abs_def cached_arrays_def bindings_def
  by (auto simp: LRU_def)

lemma cache_inv_alloc:
  "cache_inv st own kvs \<Longrightarrow> cache_inv (snd (new_array xs st)) (insert (next_array st) own) kvs"
  by (fastforce simp: cache_inv_def new_array_def Let_def cached_arrays_def)

lemma cache_inv_write_other:
  assumes "cache_inv st own kvs" "a \<notin> cached_arrays kvs"
  shows "cache_inv (write_array a xs st) own kvs"
proof -
  have "b \<noteq> a" if "(k, b) \<in> set kvs" for k b using assms(2) that by (force simp: cached_arrays_def)
  then have "\<forall>(k, b) \<in> set kvs. parseString k = Cached (take 4 (arrays (write_array a xs st) b))"
    using assms(1) by (auto simp: cache_inv_def write_array_def)
  then show ?thesis using assms(1) by (simp add: cache_inv_def write_array_def)
qed

lemma cache_inv_write: "cache_inv st own kvs \<Longrightarrow> a \<in> own \<Longrightarrow> cache_inv (write_array a xs st) own kvs"
  by (rule cache_inv_write_other) (auto simp: cache_inv_def)

lemma cache_inv_get:
  assumes "cache_inv st own kvs"
  shows "fst (get k (colorCache st)) = map_of kvs k"
    "cache_inv (st\<lparr>colorCache := snd (get k (colorCache st))\<rparr>) own (a_get k kvs)"
proof -
  have abs: "lru_abs (colorCache st) kvs" "maxSize (colorCache st) = 20" using assms by (simp_all add: cache_inv_def)
  note r = lru.step_out [OF conjI [OF abs], of "Get k", simplified] lru.step_next [OF conjI [OF abs], of "Get k", simplified]
  show "fst (get k (colorCache st)) = map_of kvs k" using r(1) by simp
  have s: "set (a_get k kvs) = set kvs \<and> distinct (map snd (a_get k kvs))"
  proof (cases "map_of kvs k")
    case None
    then show ?thesis using assms by (simp add: a_get_def cache_inv_def)
  next
    case (Some v)
    have d: "distinct (map fst kvs)" "distinct (map snd kvs)"
      using assms lru_abs_length [OF abs(1)] by (auto simp: cache_inv_def)
    have m: "(k, v) \<in> set kvs" using Some by (rule map_of_SomeD)
    have k: "\<And>k' v'. (k', v') \<in> set kvs \<Longrightarrow> k' = k \<longleftrightarrow> v' = v"
      using d m by (metis eq_key_imp_eq_value inj_on_contraD distinct_map snd_conv prod.inject)
    have kk: "k' = k" if "(k', v) \<in> set kvs" for k' using k [OF that] by simp
    have kv: "b = v" if "(k, b) \<in> set kvs" for b using k [OF that] by simp
    have "distinct (map snd (filter (\<lambda>kv. fst kv \<noteq> k) kvs))" using d(2) by (simp add: distinct_map_filter)
    moreover have "v \<notin> snd ` {x \<in> set kvs. fst x \<noteq> k}" by (auto dest: kk)
    moreover have "insert (k, v) {x \<in> set kvs. fst x \<noteq> k} = set kvs" using m by (auto dest: kv)
    ultimately show ?thesis using Some by (simp add: a_get_def)
  qed
  have ca: "cached_arrays (a_get k kvs) = cached_arrays kvs" using s by (simp add: cached_arrays_def)
  show "cache_inv (st\<lparr>colorCache := snd (get k (colorCache st))\<rparr>) own (a_get k kvs)"
    using assms r(2) s by (auto simp: cache_inv_def ca)
qed

text \<open>Storing the colour in an array that nobody else holds.\<close>

lemma cache_inv_put:
  assumes inv: "cache_inv st own kvs" and new: "map_of kvs k = None"
    and a: "a \<notin> cached_arrays kvs" "a \<notin> own" "a < next_array st"
    and c: "parseString k = Cached (take 4 (arrays st a))"
  shows "\<exists>kvs'. cache_inv (st\<lparr>colorCache := snd (put k a (colorCache st)),
    lastRemovedArr := fst (put k a (colorCache st))\<rparr>) own kvs'"
proof -
  have abs: "lru_abs (colorCache st) kvs" "maxSize (colorCache st) = 20" using inv by (simp_all add: cache_inv_def)
  have len: "length kvs \<le> 20" using lru_abs_length [OF abs(1)] abs(2) by simp
  note r = lru.step_out [OF conjI [OF abs], of "Put k a", simplified] lru.step_next [OF conjI [OF abs], of "Put k a", simplified]
  let ?kvs = "a_evict 20 kvs @ [(k, a)]"
  have p: "a_put 20 k a kvs = ?kvs" using new by (simp add: a_put_def)
  have sub: "set (a_evict 20 kvs) \<subseteq> set kvs" by (cases kvs) (auto simp: a_evict_def)
  have d: "distinct (map snd ?kvs)"
    using inv a(1) sub by (auto simp: cache_inv_def a_evict_def cached_arrays_def distinct_tl map_tl)
  have last: "l \<notin> cached_arrays ?kvs \<and> l \<notin> own \<and> l < next_array st"
    if "fst (put k a (colorCache st)) = Some l" for l
  proof -
    have l: "length kvs = 20" "l = snd (hd kvs)" using that r(1) new by (auto split: if_splits)
    then obtain x xs where kvs: "kvs = x # xs" by (cases kvs) auto
    then have "l = snd x" "a_evict 20 kvs = xs" using l by (auto simp: a_evict_def)
    then show ?thesis using inv kvs a(1) unfolding cache_inv_def cached_arrays_def by auto
  qed
  have owns: "\<forall>b \<in> cached_arrays ?kvs. b \<notin> own \<and> b < next_array st"
    using inv a sub by (auto simp: cache_inv_def cached_arrays_def)
  have vals: "\<forall>(k, a) \<in> set ?kvs. parseString k = Cached (take 4 (arrays st a))"
    using inv c sub by (auto simp: cache_inv_def)
  show ?thesis
    using inv r(2) p d last owns vals abs(2) by (intro exI [of _ ?kvs]) (simp add: cache_inv_def)
qed

lemma put_rec: "(case put k a c of (removed, cache) \<Rightarrow> f removed cache) = f (fst (put k a c)) (snd (put k a c))"
  by (simp add: split_beta)

lemma cache_inv_putToCache:
  assumes inv: "cache_inv st own kvs" and new: "map_of kvs k = None" and out: "out \<in> own"
    and c: "parseString k = Cached (take 4 (arrays st out))"
  shows "\<exists>kvs'. cache_inv (putToCache k out st) own kvs'"
    "b \<in> own \<Longrightarrow> arrays (putToCache k out st) b = arrays st b"
    "next_array st \<le> next_array (putToCache k out st)"
proof -
  have four: "length (take 4 (arrays st out)) = 4" using parseString_four c by blast
  have "(\<exists>kvs'. cache_inv (putToCache k out st) own kvs') \<and>
    (b \<in> own \<longrightarrow> arrays (putToCache k out st) b = arrays st b) \<and> next_array st \<le> next_array (putToCache k out st)"
  proof (cases "lastRemovedArr st")
    case (Some l)
    let ?st = "write_array l (copyRgba (arrays st l) (arrays st out)) st"
    have l: "l \<notin> cached_arrays kvs" "l \<notin> own" "l < next_array st" using inv Some by (auto simp: cache_inv_def)
    note i = cache_inv_write_other [OF inv l(1), of "copyRgba (arrays st l) (arrays st out)"]
    have "take 4 (arrays ?st l) = take 4 (arrays st out)"
      using take_copyRgba_long [OF four] by (simp add: write_array_def)
    then have "\<exists>kvs'. cache_inv (?st\<lparr>colorCache := snd (put k l (colorCache ?st)),
        lastRemovedArr := fst (put k l (colorCache ?st))\<rparr>) own kvs'"
      by (intro cache_inv_put [OF i new]) (use l c in \<open>auto simp: write_array_def\<close>)
    then show ?thesis using Some l(2) by (auto simp: putToCache_def put_rec Let_def write_array_def)
  next
    case None
    let ?a = "next_array st" and ?st = "snd (new_array (arrays st out) st)"
    have nin: "?a \<notin> own" "?a \<notin> cached_arrays kvs" using inv by (auto simp: cache_inv_def)
    then have i: "cache_inv ?st own kvs"
      using inv by (fastforce simp: cache_inv_def new_array_def Let_def cached_arrays_def)
    have "\<exists>kvs'. cache_inv (?st\<lparr>colorCache := snd (put k ?a (colorCache ?st)),
        lastRemovedArr := fst (put k ?a (colorCache ?st))\<rparr>) own kvs'"
      by (intro cache_inv_put [OF i new]) (use nin c in \<open>auto simp: new_array_def Let_def\<close>)
    then show ?thesis using None nin(1) by (auto simp: putToCache_def put_rec Let_def new_array_def)
  qed
  then show "\<exists>kvs'. cache_inv (putToCache k out st) own kvs'"
    "b \<in> own \<Longrightarrow> arrays (putToCache k out st) b = arrays st b"
    "next_array st \<le> next_array (putToCache k out st)" by auto
qed

section \<open>The parser behind the cache\<close>

text \<open>What a call returns and leaves in its output array, without any cache.\<close>

definition reference :: "string \<Rightarrow> jsnum list option" where
  "reference s =
     (if s = [] then None
      else case parseString s of Cached c \<Rightarrow> Some c | Uncached c \<Rightarrow> Some c | _ \<Rightarrow> None)"

text \<open>The part of \<^verbatim>\<open>parse\<close> after the output array has been determined.\<close>

definition parse_into :: "string \<Rightarrow> addr \<Rightarrow> color_state \<Rightarrow> addr option \<times> color_state" where
  "parse_into s out st = parse s (Some out) st"

lemma parse_None:
  "s \<noteq> [] \<Longrightarrow> parse s None st = parse_into s (next_array st) (snd (new_array [] st))"
  by (simp add: parse_into_def parse_def new_array_def Let_def)

lemma parse_into_correct:
  assumes inv: "cache_inv st own kvs" and out: "out \<in> own" and s: "s \<noteq> []"
    and p: "parse_into s out st = (r, st')"
  shows "(\<exists>kvs'. cache_inv st' own kvs') \<and> next_array st \<le> next_array st' \<and>
    r = (if reference s = None then None else Some out) \<and>
    (\<forall>c. reference s = Some c \<longrightarrow>
       take 4 (arrays st' out) = c \<and> length (arrays st' out) = max 4 (length (arrays st out))) \<and>
    (\<forall>b \<in> own - {out}. arrays st' b = arrays st b)"
proof -
  let ?g = "get s (colorCache st)" and ?kvs = "a_get s kvs"
  let ?st = "st\<lparr>colorCache := snd ?g\<rparr>"
  note g = cache_inv_get [OF inv, of s]
  show ?thesis
  proof (cases "map_of kvs s")
    case (Some a)
    then have c: "parseString s = Cached (take 4 (arrays st a))" using inv by (auto simp: cache_inv_def dest!: map_of_SomeD)
    have "st' = write_array out (copyRgba (arrays st out) (arrays st a)) ?st" "r = Some out"
      using p s Some g(1) by (auto simp: parse_into_def parse_def Let_def split_beta)
    moreover have "take 4 (copyRgba (arrays st out) (arrays st a)) = take 4 (arrays st a)"
      by (rule take_copyRgba_long [OF parseString_four [OF disjI1 [OF c]]])
    ultimately show ?thesis
      using cache_inv_write [OF g(2) out] c s by (auto simp: write_array_def reference_def)
  next
    case None
    have g1: "fst ?g = None" "map_of ?kvs s = None" using g(1) None by (simp_all add: a_get_def)
    show ?thesis
    proof (cases "parseString s")
      case (Cached c)
      let ?w = "write_array out (copyRgba (arrays ?st out) c) ?st"
      have four: "length c = 4" using Cached parseString_four by blast
      have r: "r = Some out" "st' = putToCache s out ?w"
        using p s g1 Cached by (auto simp: parse_into_def parse_def Let_def split_beta)
      have t: "take 4 (arrays ?w out) = c" using four by (simp add: write_array_def take_copyRgba)
      have "parseString s = Cached (take 4 (arrays ?w out))" using Cached t by simp
      note q = cache_inv_putToCache [OF cache_inv_write [OF g(2) out] g1(2) out this]
      show ?thesis using q r t out Cached s by (auto simp: reference_def write_array_def)
    next
      case (Uncached c)
      have four: "length c = 4" using Uncached parseString_four by blast
      have "r = Some out" "st' = write_array out (copyRgba (arrays ?st out) c) ?st"
        using p s g1 Uncached by (auto simp: parse_into_def parse_def Let_def split_beta)
      then show ?thesis using cache_inv_write [OF g(2) out] Uncached s four
        by (auto simp: reference_def write_array_def take_copyRgba)
    next
      case NoColor
      have "r = None" "st' = ?st"
        using p s g1 NoColor by (auto simp: parse_into_def parse_def Let_def split_beta)
      then show ?thesis using g(2) NoColor s by (auto simp: reference_def)
    next
      case Invalid
      have "r = None" "st' = write_array out (setRgba (arrays ?st out) (Some 0) (Some 0) (Some 0) (Some 1)) ?st"
        using p s g1 Invalid by (auto simp: parse_into_def parse_def Let_def split_beta)
      then show ?thesis using cache_inv_write [OF g(2) out] Invalid s
        by (auto simp: reference_def write_array_def)
    qed
  qed
qed

lemma parse_empty [simp]: "parse [] out st = (None, st)"
  by (simp add: parse_def)

lemma cache_inv_fresh:
  assumes "cache_inv st own kvs" "s \<noteq> []"
  shows "\<exists>kvs'. cache_inv (snd (parse s None st)) (insert (next_array st) own) kvs'"
  using parse_into_correct [OF cache_inv_alloc [OF assms(1), of "[]"] insertI1 assms(2)
      surjective_pairing] parse_None [OF assms(2), of st] by simp

lemma cache_inv_into:
  assumes "cache_inv st own kvs" "a \<in> own"
  shows "\<exists>kvs'. cache_inv (snd (parse s (Some a) st)) own kvs'"
  using parse_into_correct [OF assms(1,2) _ surjective_pairing, of s] assms(1)
  by (cases "s = []") (auto simp: parse_into_def)

lemma reach_inv: "color_reach st own \<Longrightarrow> \<exists>kvs. cache_inv st own kvs"
proof (induction rule: color_reach.induct)
  case (alloc st own xs)
  then show ?case using cache_inv_alloc [of st own _ xs] by (auto simp: new_array_def Let_def)
qed (use cache_inv_init cache_inv_write cache_inv_into cache_inv_fresh in blast)+

text \<open>Without an output array the result is a new array with these components.\<close>

lemma parseNew_reference:
  assumes "color_reach st own"
  shows "fst (parseNew s st) = reference s"
proof (cases "s = []")
  case True
  then show ?thesis by (simp add: parseNew_def reference_def)
next
  case False
  obtain kvs where "cache_inv st own kvs" using reach_inv [OF assms] by blast
  note p = parse_into_correct [OF cache_inv_alloc [OF this, of "[]"] insertI1 False surjective_pairing]
  have "length (arrays (snd (new_array [] st)) (next_array st)) = 0" by (simp add: new_array_def Let_def)
  then show ?thesis using p parse_None [OF False, of st] by (auto simp: parseNew_def split_beta)
qed

section \<open>Properties\<close>

text \<open>
  C16: the cache of parsed colours is transparent.  In every state the module and its users can reach
  (users allocate arrays, overwrite them, and parse into them or into new ones), parsing a colour into
  an array of the user's returns that array exactly when the string is a colour, leaves in it the
  components that parsing without a cache gives, and changes no other array a user holds, although the
  cache overwrites and re-uses the arrays of evicted colours.
\<close>

theorem parse_cache_transparent:
  assumes "color_reach st own" "out \<in> own" "parse s (Some out) st = (r, st')"
  shows "r = (if reference s = None then None else Some out) \<and>
    (\<forall>c. reference s = Some c \<longrightarrow> take 4 (arrays st' out) = c) \<and>
    (\<forall>b \<in> own - {out}. arrays st' b = arrays st b)"
proof (cases "s = []")
  case True
  then show ?thesis using assms(3) by (auto simp: reference_def)
next
  case False
  obtain kvs where "cache_inv st own kvs" using reach_inv [OF assms(1)] by blast
  from parse_into_correct [OF this assms(2) False] assms(3) show ?thesis by (auto simp: parse_into_def)
qed

theorem parse_cache_transparent_witness:
  "\<exists>st own r st'. color_reach st own \<and> 0 \<in> own \<and> parse ''Navy'' (Some 0) st = (r, st') \<and>
     r = Some 0 \<and> take 4 (arrays st' 0) = [Some 0, Some 0, Some 128, Some 1]"
proof -
  let ?st = "snd (new_array [] color_init)"
  have st: "color_reach ?st {0}"
    using color_reach.alloc [OF color_reach.init, of "[]"] by (simp add: new_array_def color_init_def)
  have ref: "reference ''Navy'' = Some [Some 0, Some 0, Some 128, Some 1]"
    by (simp add: reference_def parseString_def normalizeStr_def lower_def char_of_def bit_iff_odd kCSSColorTable_def)
  obtain r st' where p: "parse ''Navy'' (Some 0) ?st = (r, st')" by fastforce
  from parse_cache_transparent [OF st _ p] ref
  have "r = Some 0" "take 4 (arrays st' 0) = [Some 0, Some 0, Some 128, Some 1]" by simp_all
  then show ?thesis using st p by blast
qed

end
