(* ===== verification/Color_Hsl.thy ===== *)
theory Color_Hsl
  imports Color_Cache
begin

text \<open>
  The conversion of a colour to hue, saturation and lightness and back.  The hue circle has six
  sectors; in each of them one component is the largest, one the smallest, and the third is
  \<open>m + (M - m) * k\<close> for some \<open>k\<close> between 0 and 1 that determines the hue.
\<close>

section \<open>The hue function on its four pieces\<close>

lemma hue_up:
  "wrapHue x = k / 6 \<Longrightarrow> k \<le> 1 \<Longrightarrow> cssHueToRgb (Some m) (Some M) (Some x) = Some (m + (M - m) * k)"
  by (auto simp: cssHueToRgb_def field_simps)

lemma hue_down:
  "wrapHue x = (4 - k) / 6 \<Longrightarrow> 0 \<le> k \<Longrightarrow> k \<le> 1 \<Longrightarrow>
    cssHueToRgb (Some m) (Some M) (Some x) = Some (m + (M - m) * k)"
  by (cases "k = 0") (auto simp: cssHueToRgb_def)

lemma hue_top: "1 / 6 \<le> wrapHue x \<Longrightarrow> wrapHue x \<le> 1 / 2 \<Longrightarrow> cssHueToRgb (Some m) (Some M) (Some x) = Some M"
  using hue_down [of x 1 m M] by (cases "wrapHue x = 1 / 2") (simp, auto simp: cssHueToRgb_def)

lemma hue_low: "2 / 3 \<le> wrapHue x \<Longrightarrow> cssHueToRgb (Some m) (Some M) (Some x) = Some m"
  by (auto simp: cssHueToRgb_def)

definition hue3 :: "rat \<Rightarrow> rat \<Rightarrow> rat \<Rightarrow> jsnum list" where
  "hue3 m M h = [cssHueToRgb (Some m) (Some M) (Some (h + 1 / 3)), cssHueToRgb (Some m) (Some M) (Some h),
     cssHueToRgb (Some m) (Some M) (Some (h + - 1 / 3))]"

lemma hue_sectors:
  assumes "0 \<le> k" "k \<le> 1"
  shows "hue3 m M (k / 6) = [Some M, Some (m + (M - m) * k), Some m]"
    "0 < k \<Longrightarrow> hue3 m M ((2 - k) / 6) = [Some (m + (M - m) * k), Some M, Some m]"
    "hue3 m M ((2 + k) / 6) = [Some m, Some M, Some (m + (M - m) * k)]"
    "hue3 m M ((4 - k) / 6) = [Some m, Some (m + (M - m) * k), Some M]"
    "0 < k \<Longrightarrow> hue3 m M ((4 + k) / 6) = [Some (m + (M - m) * k), Some m, Some M]"
    "0 < k \<Longrightarrow> hue3 m M (1 - k / 6) = [Some M, Some m, Some (m + (M - m) * k)]"
proof -
  show "hue3 m M (k / 6) = [Some M, Some (m + (M - m) * k), Some m]"
    unfolding hue3_def list.inject by (intro conjI refl hue_top hue_low hue_up) (use assms in \<open>auto simp: wrapHue_def field_simps\<close>)
  show "hue3 m M ((2 + k) / 6) = [Some m, Some M, Some (m + (M - m) * k)]"
    unfolding hue3_def list.inject by (intro conjI refl hue_top hue_low hue_up) (use assms in \<open>auto simp: wrapHue_def field_simps\<close>)
  show "hue3 m M ((4 - k) / 6) = [Some m, Some (m + (M - m) * k), Some M]"
    unfolding hue3_def list.inject by (intro conjI refl hue_top hue_low hue_down) (use assms in \<open>auto simp: wrapHue_def field_simps\<close>)
  assume "0 < k"
  from \<open>0 < k\<close> show "hue3 m M ((2 - k) / 6) = [Some (m + (M - m) * k), Some M, Some m]"
    unfolding hue3_def list.inject by (intro conjI refl hue_top hue_low hue_down) (use assms \<open>0 < k\<close> in \<open>auto simp: wrapHue_def field_simps\<close>)
  from \<open>0 < k\<close> show "hue3 m M ((4 + k) / 6) = [Some (m + (M - m) * k), Some m, Some M]"
    unfolding hue3_def list.inject by (intro conjI refl hue_top hue_low hue_up) (use assms \<open>0 < k\<close> in \<open>auto simp: wrapHue_def field_simps\<close>)
  from \<open>0 < k\<close> show "hue3 m M (1 - k / 6) = [Some M, Some m, Some (m + (M - m) * k)]"
    unfolding hue3_def list.inject by (intro conjI refl hue_top hue_low hue_down) (use assms in \<open>auto simp: wrapHue_def field_simps\<close>)
qed

section \<open>Hue, saturation and lightness of a colour\<close>

lemma saturation:
  assumes "0 \<le> m" "m < M" "M \<le> (1::rat)"
  defines "l \<equiv> (M + m) / 2"
  shows "\<exists>s. (if l < 1 / 2 then quotient (M - m) (M + m) else quotient (M - m) (2 - M - m)) = Some s \<and> 0 \<le> s \<and> s \<le> 1 \<and>
    (if l \<le> 1 / 2 then l * (s + 1) else l + s - l * s) = M"
proof (cases "l < 1 / 2")
  case True
  have "0 < M + m" using assms by simp
  then show ?thesis using True assms(1,2)
    by (intro exI [of _ "(M - m) / (M + m)"]) (auto simp: quotient_def l_def field_simps)
next
  case False
  let ?s = "(M - m) / (2 - M - m)"
  have d: "0 < 2 - M - m" using assms by simp
  have 1: "(1 - l) * ?s = (M - m) / 2" using d by (simp add: l_def field_simps)
  have 2: "l + x - l * x = l + (1 - l) * x" for x by (simp add: algebra_simps)
  have e: "l + ?s - l * ?s = M" unfolding 2 1 by (simp add: l_def field_simps)
  have 3: "l * (x + 1) = l + (1 - l) * x" if "l = 1 / 2" for x unfolding that by (simp add: field_simps)
  have "l * (?s + 1) = M" if "l = 1 / 2" using 3 [OF that, of ?s] e 2 [of ?s] by simp
  then show ?thesis using False assms(1-3) e
    using d by (intro exI [of _ ?s]) (auto simp: quotient_def field_simps)
qed

text \<open>The sector of a colour that is not grey, with its hue.\<close>

definition in_sector :: "rat \<Rightarrow> rat \<Rightarrow> rat \<Rightarrow> rat \<Rightarrow> rat \<Rightarrow> rat \<Rightarrow> bool" where
  "in_sector m M R G B H \<longleftrightarrow> 0 \<le> H \<and> H < 1 \<and> hue3 m M H = [Some R, Some G, Some B]"

lemma middle:
  assumes "m \<le> x" "x \<le> M" "m < (M::rat)"
  obtains k where "x = m + (M - m) * k" "0 \<le> k" "k \<le> 1"
proof
  show "x = m + (M - m) * ((x - m) / (M - m))" using assms by simp
qed (use assms in \<open>simp_all add: field_simps\<close>)

definition raw_hue :: "rat \<Rightarrow> rat \<Rightarrow> rat \<Rightarrow> rat \<Rightarrow> rat \<Rightarrow> rat" where
  "raw_hue m M R G B =
     (if R = M then (G - B) / (6 * (M - m))
      else if G = M then 1 / 3 + (B - R) / (6 * (M - m)) else 2 / 3 + (R - G) / (6 * (M - m)))"

lemma raw_hue_deltas:
  "d \<noteq> (0::rat) \<Longrightarrow> ((M - X) / 6 + d / 2) / d - ((M - Y) / 6 + d / 2) / d = (Y - X) / (6 * d)"
  by (simp add: field_simps)

lemma rgbToHsl_eq:
  assumes "min R (min G B) = m" "max R (max G B) = M" "m < M" "raw_hue m M R G B < 1"
  shows "rgbToHsl R G B =
    (Some ((if raw_hue m M R G B < 0 then raw_hue m M R G B + 1 else raw_hue m M R G B) * 360),
     if (M + m) / 2 < 1 / 2 then quotient (M - m) (M + m) else quotient (M - m) (2 - M - m), Some ((M + m) / 2))"
proof -
  have d: "M - m \<noteq> 0" using assms(3) by simp
  note r = raw_hue_deltas [OF d]
  have h: "(if R = M then ((M - B) / 6 + (M - m) / 2) / (M - m) - ((M - G) / 6 + (M - m) / 2) / (M - m)
      else if G = M then 1 / 3 + ((M - R) / 6 + (M - m) / 2) / (M - m) - ((M - B) / 6 + (M - m) / 2) / (M - m)
      else 2 / 3 + ((M - G) / 6 + (M - m) / 2) / (M - m) - ((M - R) / 6 + (M - m) / 2) / (M - m)) = raw_hue m M R G B"
    by (simp only: raw_hue_def r add_diff_eq [symmetric])
  show ?thesis using assms(4) d unfolding rgbToHsl_def Let_def assms(1,2) h by simp
qed

lemma rgbToHsl_sector:
  assumes "min R (min G B) = m" "max R (max G B) = M" "m < M"
  shows "\<exists>H. rgbToHsl R G B = (Some (H * 360),
      if (M + m) / 2 < 1 / 2 then quotient (M - m) (M + m) else quotient (M - m) (2 - M - m), Some ((M + m) / 2)) \<and>
    in_sector m M R G B H"
proof -
  let ?concl = "\<lambda>R G B. \<exists>H. rgbToHsl R G B = (Some (H * 360),
      if (M + m) / 2 < 1 / 2 then quotient (M - m) (M + m) else quotient (M - m) (2 - M - m), Some ((M + m) / 2)) \<and>
    in_sector m M R G B H"
  have conclude: "?concl R G B"
    if "H = (if raw_hue m M R G B < 0 then raw_hue m M R G B + 1 else raw_hue m M R G B)"
      "0 \<le> H" "H < 1" "raw_hue m M R G B < 1" "hue3 m M H = [Some R, Some G, Some B]" for H
    using rgbToHsl_eq [OF assms that(4)] that by (auto simp: in_sector_def)
  have b: "m \<le> R" "m \<le> G" "m \<le> B" "R \<le> M" "G \<le> M" "B \<le> M" using assms(1,2) by auto
  consider (S0) "R = M" "B = m" | (S5) "R = M" "G = m" "m < B" | (S2) "R = m" "G = M"
    | (S1) "R \<noteq> M" "B = m" "G = M" "m < R" | (S3) "R = m" "B = M" "G \<noteq> M"
    | (S4) "G = m" "B = M" "m < R" "R \<noteq> M"
    using assms b b(1-3) [unfolded le_less] by (auto simp: min_def max_def split: if_splits)
  then show ?thesis
  proof cases
    case S0
    obtain k where k: "G = m + (M - m) * k" "0 \<le> k" "k \<le> 1" using middle [OF b(2,5) assms(3)] .
    then have "raw_hue m M R G B = k / 6" using S0 assms(3) by (simp add: raw_hue_def field_simps)
    then show ?thesis using k S0 by (intro conclude [of "k / 6"]) (simp_all add: hue_sectors)
  next
    case S5
    obtain k where k: "B = m + (M - m) * k" "0 \<le> k" "k \<le> 1" using middle [OF b(3,6) assms(3)] .
    then have "0 < k" using S5 by (cases "k = 0") auto
    moreover have rh: "raw_hue m M R G B = - k / 6" using S5 k assms(3) by (simp add: raw_hue_def field_simps)
    ultimately show ?thesis using k S5
      by (intro conclude [of "1 - k / 6"], unfold rh) (simp_all add: hue_sectors)
  next
    case S2
    obtain k where k: "B = m + (M - m) * k" "0 \<le> k" "k \<le> 1" using middle [OF b(3,6) assms(3)] .
    then have "raw_hue m M R G B = (2 + k) / 6" using S2 assms(3) by (simp add: raw_hue_def field_simps)
    then show ?thesis using k S2 by (intro conclude [of "(2 + k) / 6"]) (simp_all add: hue_sectors)
  next
    case S1
    obtain k where k: "R = m + (M - m) * k" "0 \<le> k" "k \<le> 1" using middle [OF b(1,4) assms(3)] .
    then have "0 < k" using S1 by (cases "k = 0") auto
    moreover have "raw_hue m M R G B = (2 - k) / 6" using S1 k assms(3) by (simp add: raw_hue_def field_simps)
    ultimately show ?thesis using k S1 by (intro conclude [of "(2 - k) / 6"]) (simp_all add: hue_sectors)
  next
    case S3
    obtain k where k: "G = m + (M - m) * k" "0 \<le> k" "k \<le> 1" using middle [OF b(2,5) assms(3)] .
    then have "raw_hue m M R G B = (4 - k) / 6" using S3 assms(3) by (simp add: raw_hue_def field_simps)
    then show ?thesis using k S3 by (intro conclude [of "(4 - k) / 6"]) (simp_all add: hue_sectors)
  next
    case S4
    obtain k where k: "R = m + (M - m) * k" "0 \<le> k" "k \<le> 1" using middle [OF b(1,4) assms(3)] .
    then have "0 < k" using S4 by (cases "k = 0") auto
    moreover have "raw_hue m M R G B = (4 + k) / 6" using S4 k assms(3) by (simp add: raw_hue_def field_simps)
    ultimately show ?thesis using k S4 by (intro conclude [of "(4 + k) / 6"]) (simp_all add: hue_sectors)
  qed
qed

section \<open>Back to the components\<close>

lemma rem_small: "0 \<le> x \<Longrightarrow> x < m \<Longrightarrow> rem x m = x"
  by (auto simp: rem_def floor_eq_iff)

lemma rem_hue: "0 \<le> x \<Longrightarrow> x < 360 \<Longrightarrow> rem (rem x 360 + 360) 360 = x"
proof -
  assume x: "0 \<le> x" "x < 360"
  then have "\<lfloor>(x + 360) / 360\<rfloor> = 1" by (simp add: floor_eq_iff)
  then show ?thesis using x rem_small [of x 360] by (simp add: rem_def)
qed

lemma clamp_id: "0 \<le> x \<Longrightarrow> x \<le> hi \<Longrightarrow> clamp hi x = x"
  by (simp add: clamp_def)

lemma clampCssByte_int: "0 \<le> i \<Longrightarrow> i \<le> 255 \<Longrightarrow> clampCssByte (Some (of_int i)) = Some (of_int i)"
proof -
  assume "0 \<le> i" "i \<le> 255"
  moreover have "\<lfloor>of_int i + 1 / 2 :: rat\<rfloor> = i" by (simp add: floor_eq_iff)
  ultimately show ?thesis by (simp add: clampCssByte_def Math_round_def clamp_id)
qed

lemma hsla2rgba_hue3:
  assumes "0 \<le> H" "H < 1" "0 \<le> s" "s \<le> 1" "0 \<le> l" "l \<le> 1"
    and m2: "(if l \<le> 1 / 2 then l * (s + 1) else l + s - l * s) = M" and m1: "l * 2 - M = m"
  shows "hsla2rgba [Num (Some (H * 360)), Num (Some s), Num (Some l), Num a] [] =
    map (\<lambda>c. clampCssByte (map_option (\<lambda>x. x * 255) c)) (hue3 m M H) @ [a]"
proof -
  have "rem (rem (H * 360) 360 + 360) 360 / 360 = H" using assms(1,2) rem_hue [of "H * 360"] by simp
  then show ?thesis using assms
    by (simp add: hsla2rgba_def Let_def clampCssFloat_def clamp_id setRgba_def hue3_def m2 m1)
qed

lemma rgbToHsl_back:
  assumes "0 \<le> R" "0 \<le> G" "0 \<le> B" "R \<le> 1" "G \<le> 1" "B \<le> 1"
  shows "\<exists>H s l m M. rgbToHsl R G B = (Some (H * 360), Some s, Some l) \<and> 0 \<le> H \<and> H < 1 \<and> 0 \<le> s \<and> s \<le> 1 \<and>
    0 \<le> l \<and> l \<le> 1 \<and> (if l \<le> 1 / 2 then l * (s + 1) else l + s - l * s) = M \<and> l * 2 - M = m \<and>
    hue3 m M H = [Some R, Some G, Some B]"
proof -
  define m where "m = min R (min G B)"
  define M where "M = max R (max G B)"
  have mM: "0 \<le> m" "M \<le> 1" "m \<le> M" using assms by (auto simp: m_def M_def)
  show ?thesis
  proof (cases "m = M")
    case True
    then have eq: "R = M" "G = M" "B = M" by (auto simp: m_def M_def min_def max_def split: if_splits)
    have "rgbToHsl R G B = (Some (0 * 360), Some 0, Some M)" by (simp add: rgbToHsl_def eq)
    moreover have "hue3 M M 0 = [Some M, Some M, Some M]" using hue_sectors(1) [of 0 M M] by simp
    ultimately show ?thesis using eq mM True by (intro exI [of _ 0] exI [of _ M] exI conjI) auto
  next
    case False
    then have lt: "m < M" using mM by simp
    obtain H where H: "rgbToHsl R G B = (Some (H * 360),
      if (M + m) / 2 < 1 / 2 then quotient (M - m) (M + m) else quotient (M - m) (2 - M - m), Some ((M + m) / 2))"
      "in_sector m M R G B H"
      using rgbToHsl_sector [OF m_def [symmetric] M_def [symmetric] lt] by blast
    obtain s where s: "(if (M + m) / 2 < 1 / 2 then quotient (M - m) (M + m) else quotient (M - m) (2 - M - m)) = Some s"
      "0 \<le> s" "s \<le> 1" "(if (M + m) / 2 \<le> 1 / 2 then (M + m) / 2 * (s + 1) else (M + m) / 2 + s - (M + m) / 2 * s) = M"
      using saturation [OF mM(1) lt mM(2)] by blast
    have "rgbToHsl R G B = (Some (H * 360), Some s, Some ((M + m) / 2))" using H(1) unfolding s(1) .
    moreover have "0 \<le> (M + m) / 2" "(M + m) / 2 \<le> 1" "(M + m) / 2 * 2 - M = m" using mM by (simp_all add: field_simps)
    ultimately show ?thesis using H(2) s(2-4) unfolding in_sector_def by blast
  qed
qed

section \<open>Properties\<close>

text \<open>
  C20: converting a colour with byte components to hue, saturation and lightness and back gives the same
  colour, with its alpha value, on all six sectors of the hue circle and for greys.
\<close>

theorem hsl_roundtrip:
  assumes "r \<in> {0..255}" "g \<in> {0..255}" "b \<in> {0..255}"
  shows "hsla2rgba (map Num (rgba2hsla [num r, num g, num b, a])) [] = [num r, num g, num b, a]"
proof -
  let ?f = "\<lambda>i. of_int i / 255 :: rat"
  have "0 \<le> ?f r" "0 \<le> ?f g" "0 \<le> ?f b" "?f r \<le> 1" "?f g \<le> 1" "?f b \<le> 1" using assms by auto
  from rgbToHsl_back [OF this] obtain H s l m M where h:
    "rgbToHsl (?f r) (?f g) (?f b) = (Some (H * 360), Some s, Some l)" "0 \<le> H" "H < 1" "0 \<le> s" "s \<le> 1"
    "0 \<le> l" "l \<le> 1" "(if l \<le> 1 / 2 then l * (s + 1) else l + s - l * s) = M" "l * 2 - M = m"
    "hue3 m M H = [Some (?f r), Some (?f g), Some (?f b)]" by blast
  have "map Num (rgba2hsla [num r, num g, num b, a]) = [Num (Some (H * 360)), Num (Some s), Num (Some l), Num a]"
    by (simp add: rgba2hsla_def elem_def num_def h(1))
  then show ?thesis
    using hsla2rgba_hue3 [OF h(2-9), of a] h(10) assms clampCssByte_int by (simp add: num_def)
qed

theorem hsl_roundtrip_witness:
  "hsla2rgba (map Num (rgba2hsla [num 12, num 77, num 200, Some (1 / 2)])) [] = [num 12, num 77, num 200, Some (1 / 2)]"
  using hsl_roundtrip [of 12 77 200 "Some (1 / 2)"] by simp

end
