(* ===== verification/Color_Strings.thy ===== *)
theory Color_Strings
  imports Color_Hsl
begin

text \<open>
  Printing and parsing colours: digits are read back to the number they print, and the strings that
  \<^verbatim>\<open>stringify\<close> and \<^verbatim>\<open>toHex\<close> produce parse to the colour they were made from.
\<close>

section \<open>Digits\<close>

lemma of_char_digit [simp]: "d < 16 \<Longrightarrow> of_char (digit_char d) = (if d < 10 then 48 + d else 87 + d :: nat)"
  by (simp add: digit_char_def)

lemma digit_val_char [simp]: "d < 16 \<Longrightarrow> digit_val (digit_char d) = d"
  by (simp add: digit_val_def Let_def)

text \<open>Characters of printed numbers: they are none of the separators.\<close>

definition digit_like :: "char \<Rightarrow> bool" where
  "digit_like c \<longleftrightarrow> (of_char c :: nat) \<in> {48..57} \<union> {97..102}"

lemma digit_like_char [simp]: "d < 16 \<Longrightarrow> digit_like (digit_char d)"
  by (simp add: digit_like_def)

lemma digit_like_neq:
  assumes "digit_like c"
  shows "c \<noteq> CHR '' ''" "c \<noteq> CHR '',''" "c \<noteq> CHR ''(''" "c \<noteq> CHR '')''" "c \<noteq> CHR ''%''" "c \<noteq> CHR ''-''"
    "c \<noteq> CHR ''+''" "c \<noteq> CHR ''x''" "c \<noteq> CHR ''X''" "\<not> is_ws c" "lower c = c" "c \<noteq> CHR ''#''" "c \<noteq> CHR ''.''"
  using assms by (auto simp: digit_like_def is_ws_def lower_def Let_def)

lemma nat_digits_neq_Nil [simp]: "nat_digits radix n \<noteq> []"
  by (cases "n < radix \<or> radix < 2") auto

declare nat_digits.simps [simp del]

lemma nat_digits_like: "2 \<le> radix \<Longrightarrow> radix \<le> 16 \<Longrightarrow> list_all (\<lambda>c. digit_like c \<and> is_digit radix c) (nat_digits radix n)"
proof (induction radix n rule: nat_digits.induct)
  case (1 radix n)
  have m: "n mod radix < radix" using "1.prems" by simp
  then have m': "n mod radix < 16" using "1.prems" by linarith
  show ?case using 1 m m' by (subst nat_digits.simps) (auto simp: is_digit_def)
qed

lemma digits_val_snoc [simp]: "digits_val radix (ds @ [d]) = digits_val radix ds * radix + digit_val d"
  by (simp add: digits_val_def)

lemma digits_val_nat_digits: "2 \<le> radix \<Longrightarrow> radix \<le> 16 \<Longrightarrow> digits_val radix (nat_digits radix n) = n"
proof (induction radix n rule: nat_digits.induct)
  case (1 radix n)
  have m: "n mod radix < radix" using "1.prems" by simp
  then have m': "n mod radix < 16" using "1.prems" by linarith
  have "digits_val radix [c] = digit_val c" for c by (simp add: digits_val_def)
  then show ?case using 1 m' by (subst nat_digits.simps) auto
qed

lemma digits_val_Cons: "digits_val radix (d # ds) = digit_val d * radix ^ length ds + digits_val radix ds"
proof (induction ds rule: rev_induct)
  case Nil
  then show ?case by (simp add: digits_val_def)
next
  case (snoc x xs)
  have "digits_val radix ((d # xs) @ [x]) = digits_val radix (d # xs) * radix + digit_val x" by (rule digits_val_snoc)
  then show ?case using snoc by (simp add: algebra_simps)
qed

lemma digits_val_Nil [simp]: "digits_val radix [] = 0"
  by (simp add: digits_val_def)

lemma frac_val_Cons:
  "0 < radix \<Longrightarrow> frac_val radix (d # ds) = (of_nat (digit_val d) + frac_val radix ds) / of_nat radix"
  by (simp add: frac_val_def digits_val_Cons field_simps)

lemma frac_digits_facts:
  assumes "0 \<le> x" "x < 1"
  shows "list_all (\<lambda>c. digit_like c \<and> is_digit 10 c) (frac_digits k 10 x)"
    "x * 10 ^ k \<in> \<int> \<Longrightarrow> frac_val 10 (frac_digits k 10 x) = x"
proof -
  have "list_all (\<lambda>c. digit_like c \<and> is_digit 10 c) (frac_digits k 10 x) \<and>
    (x * 10 ^ k \<in> \<int> \<longrightarrow> frac_val 10 (frac_digits k 10 x) = x)"
    using assms
  proof (induction k arbitrary: x)
    case 0
    then show ?case by (auto simp: frac_val_def elim!: Ints_cases)
  next
    case (Suc k)
    define y where "y = x * 10"
    have y: "0 \<le> \<lfloor>y\<rfloor>" "\<lfloor>y\<rfloor> < 10" using Suc.prems by (auto simp: y_def floor_less_iff)
    define n where "n = nat \<lfloor>y\<rfloor>"
    have n: "n < 10" "of_nat n = (of_int \<lfloor>y\<rfloor> :: rat)" using y by (simp_all add: n_def nat_less_iff)
    have z: "0 \<le> y - of_int \<lfloor>y\<rfloor>" "y - of_int \<lfloor>y\<rfloor> < 1" by linarith+
    have i: "(y - of_int \<lfloor>y\<rfloor>) * 10 ^ k \<in> \<int>" if "x * 10 ^ Suc k \<in> \<int>"
    proof -
      have "(y - of_int \<lfloor>y\<rfloor>) * 10 ^ k = x * 10 ^ Suc k - of_int (\<lfloor>y\<rfloor> * 10 ^ k)"
        by (simp add: y_def algebra_simps)
      then show ?thesis using that by (simp only: Ints_diff Ints_of_int)
    qed
    note IH = Suc.IH [OF z]
    show ?case
    proof (cases "x = 0")
      case True
      then show ?thesis by (simp add: frac_val_def)
    next
      case False
      have fd: "frac_digits (Suc k) 10 x = digit_char n # frac_digits k 10 (y - of_int \<lfloor>y\<rfloor>)"
        using False by (simp add: Let_def y_def n_def)
      show ?thesis unfolding fd using IH i n by (simp add: is_digit_def frac_val_Cons y_def)
    qed
  qed
  then show "list_all (\<lambda>c. digit_like c \<and> is_digit 10 c) (frac_digits k 10 x)"
    "x * 10 ^ k \<in> \<int> \<Longrightarrow> frac_val 10 (frac_digits k 10 x) = x" by auto
qed

section \<open>Reading digits\<close>

lemma takeWhile_all: "list_all P xs \<Longrightarrow> takeWhile P (xs @ ys) = xs @ takeWhile P ys"
  "list_all P xs \<Longrightarrow> dropWhile P (xs @ ys) = dropWhile P ys"
  by (induction xs) auto

lemma digit_string_start:
  assumes "list_all (\<lambda>c. digit_like c \<and> is_digit radix c) ds" "ds \<noteq> []"
  shows "dropWhile is_ws (ds @ r) = ds @ r" "strip_sign (ds @ r) = (False, ds @ r)"
proof -
  obtain c cs where ds: "ds = c # cs" using assms(2) by (cases ds) auto
  have "digit_like c" using assms(1) ds by simp
  from digit_like_neq [OF this] show "dropWhile is_ws (ds @ r) = ds @ r" "strip_sign (ds @ r) = (False, ds @ r)"
    by (auto simp: ds strip_sign_def)
qed

lemma parseInt_digits:
  assumes "list_all (\<lambda>c. digit_like c \<and> is_digit radix c) ds" "ds \<noteq> []"
  shows "parseInt ds radix = Some (of_nat (digits_val radix ds))"
proof -
  have nx: "take 2 ds \<notin> {''0x'', ''0X''}"
    using assms digit_like_neq(8,9) by (cases ds; cases "tl ds") auto
  have t: "takeWhile (is_digit radix) ds = ds" using assms(1) by (auto simp: list_all_iff)
  show ?thesis
    using digit_string_start [OF assms, of "[]"] assms(2) nx by (simp add: parseInt_def Let_def with_sign_def t)
qed

lemma scan_simps:
  "scanFraction [] = ([], [])" "scanFraction (CHR ''.'' # cs) = (takeWhile (is_digit 10) cs, dropWhile (is_digit 10) cs)"
  "scanExponent [] = (0, [])" "pow10 0 = 1" "\<not> is_digit 10 CHR ''.''"
  by (simp_all add: scanFraction_def scanExponent_def pow10_def is_digit_def digit_val_def)

lemma parseFloat_toString:
  assumes "0 \<le> x" "x \<le> 1" "x * 10 ^ 20 \<in> \<int>"
  shows "parseFloat (toString 10 (Some x)) = Some x"
proof -
  define n where "n = nat \<lfloor>x\<rfloor>"
  define y where "y = x - of_nat n"
  have y: "0 \<le> y" "y < 1" "of_nat n + y = x" using assms by (auto simp: n_def y_def) linarith
  have "y * 10 ^ 20 = x * 10 ^ 20 - of_nat (n * 10 ^ 20)" by (simp add: y_def algebra_simps)
  then have i: "y * 10 ^ 20 \<in> \<int>" using assms(3) by (simp only: Ints_diff Ints_of_nat)
  note f = frac_digits_facts [OF y(1,2), of 20]
  let ?fp = "frac_digits 20 10 y" and ?ip = "nat_digits 10 n"
  have ip: "list_all (\<lambda>c. digit_like c \<and> is_digit 10 c) ?ip" by (rule nat_digits_like) simp_all
  have ip': "list_all (is_digit 10) ?ip" using ip by (simp add: list_all_iff)
  have fp: "takeWhile (is_digit 10) ?fp = ?fp" "dropWhile (is_digit 10) ?fp = []"
    using f(1) by (auto simp: list_all_iff)
  have s: "toString 10 (Some x) = ?ip @ (if ?fp = [] then [] else CHR ''.'' # ?fp)"
    using assms(1) by (simp add: toString_def Let_def n_def y_def)
  show ?thesis unfolding s parseFloat_def digit_string_start(1) [OF ip nat_digits_neq_Nil] scanFloat_def
      digit_string_start(2) [OF ip nat_digits_neq_Nil]
    using f(2) [OF i] y(3) takeWhile_all [OF ip']
    by (auto simp: Let_def fp scan_simps digits_val_nat_digits with_sign_def frac_val_def)
qed

section \<open>Separators\<close>

lemma split_on_free: "CHR '','' \<notin> set xs \<Longrightarrow> split_on CHR '','' xs = [xs]"
  by (induction xs) auto

lemma split_on_sep: "CHR '','' \<notin> set xs \<Longrightarrow> split_on CHR '','' (xs @ CHR '','' # ys) = xs # split_on CHR '','' ys"
  by (induction xs) auto

lemma index_of_first: "c \<notin> set xs \<Longrightarrow> index_of c (xs @ c # ys) = Some (length xs)"
  by (induction xs) auto

text \<open>Strings without separators that lower-casing leaves alone.\<close>

definition plain :: "string \<Rightarrow> bool" where
  "plain s \<longleftrightarrow> list_all (\<lambda>c. lower c = c \<and> c \<notin> {CHR '' '', CHR '','', CHR ''('', CHR '')'', CHR ''%''}) s"

lemma plain_digits: "list_all (\<lambda>c. digit_like c \<and> P c) ds \<Longrightarrow> plain ds"
  using digit_like_neq by (fastforce simp: plain_def list_all_iff)

lemma plain_append [simp]: "plain (xs @ ys) \<longleftrightarrow> plain xs \<and> plain ys"
  by (simp add: plain_def)

lemma plain_sep: "plain s \<Longrightarrow> CHR '','' \<notin> set s \<and> CHR ''('' \<notin> set s \<and> CHR '')'' \<notin> set s \<and> \<not> percentage s"
  by (auto simp: plain_def list_all_iff percentage_def dest: last_in_set)

lemma normalizeStr_plain: "plain s \<Longrightarrow> normalizeStr s = s"
  by (auto simp: plain_def normalizeStr_def list_all_iff intro!: map_idI)

lemma normalizeStr_append: "normalizeStr (s @ t) = normalizeStr s @ normalizeStr t"
  by (simp add: normalizeStr_def)

lemma table_no_paren: "CHR ''('' \<in> set s \<Longrightarrow> map_of kCSSColorTable s = None"
  using color_table_entry(3) [of s] by (cases "map_of kCSSColorTable s") auto

lemma parseString_call:
  assumes "plain f" "take 1 f \<noteq> ''#''" "f \<noteq> []"
    and s: "normalizeStr body = body" "CHR ''('' \<notin> set body" "CHR '')'' \<notin> set body"
  shows "parseString (f @ ''('' @ body @ '')'') = parseFunc f (split_on CHR '','' body)"
proof -
  let ?s = "f @ CHR ''('' # (body @ '')'')"
  have n: "normalizeStr (f @ ''('' @ body @ '')'') = ?s"
    using assms by (simp add: normalizeStr_append normalizeStr_plain) (simp add: normalizeStr_def lower_def)
  have o: "index_of CHR ''('' ?s = Some (length f)" using plain_sep [OF assms(1)] by (intro index_of_first) simp
  have e: "index_of CHR '')'' ((f @ ''('' @ body) @ CHR '')'' # []) = Some (length (f @ ''('' @ body))"
    using plain_sep [OF assms(1)] s by (intro index_of_first) simp
  have "take 1 ?s \<noteq> ''#''" using assms(2,3) by (cases f) auto
  then show ?thesis
    using o e table_no_paren [of ?s] unfolding parseString_def n by (simp add: Let_def)
qed

lemma toString_nat: "toString 10 (Some (of_nat n)) = nat_digits 10 n"
  by (simp add: toString_def Let_def eval_nat_numeral)

lemma toString_plain: "0 \<le> x \<Longrightarrow> plain (toString 10 (Some x))"
proof -
  assume x: "0 \<le> x"
  have "0 \<le> x - of_int \<lfloor>x\<rfloor>" "x - of_int \<lfloor>x\<rfloor> < 1" by linarith+
  from plain_digits [OF frac_digits_facts(1) [OF this, of 20]]
  have "plain (frac_digits 20 10 (x - of_int \<lfloor>x\<rfloor>))" .
  moreover have "plain (nat_digits 10 n)" for n by (rule plain_digits [OF nat_digits_like]) simp_all
  moreover have "plain ''.''" by (simp add: plain_def lower_def)
  ultimately show ?thesis using x plain_append [of "''.''"] by (auto simp: toString_def Let_def)
qed

section \<open>Hexadecimal colours\<close>

lemma nat_digits_one:
  "16 ^ k \<le> n \<Longrightarrow> n < 2 * 16 ^ k \<Longrightarrow> \<exists>ds. nat_digits 16 n = CHR ''1'' # ds \<and> length ds = k"
proof (induction k arbitrary: n)
  case 0
  then have "n = 1" by simp
  moreover have "digit_char 1 = CHR ''1''" by (simp add: digit_char_def char_of_def bit_iff_odd)
  ultimately show ?case by (subst nat_digits.simps) simp
next
  case (Suc k)
  have "16 ^ k \<le> n div 16" "n div 16 < 2 * 16 ^ k" using Suc.prems by (simp_all add: less_mult_imp_div_less)
  from Suc.IH [OF this] obtain ds where "nat_digits 16 (n div 16) = CHR ''1'' # ds" "length ds = k" by blast
  moreover have "\<not> n < 16" using Suc.prems(1) le_trans [of 16 "16 ^ Suc k" n] by simp
  ultimately show ?case by (subst nat_digits.simps) simp
qed

definition hex24 :: "nat \<Rightarrow> nat \<Rightarrow> nat \<Rightarrow> nat" where
  "hex24 r g b = r * 65536 + g * 256 + b"

lemma shift_byte: "r \<le> 255 \<Longrightarrow> k \<le> 16 \<Longrightarrow> shiftLeft (Some (of_nat r)) k = int r * 2 ^ k"
proof -
  assume r: "r \<le> 255" and k: "k \<le> 16"
  have t: "toInt32 (Some (of_nat r)) = int r" using r by (simp add: toInt32_def signed_take_bit_int_eq_self)
  have "int r * 2 ^ k \<le> 255 * 2 ^ 16" using r k by (intro mult_mono power_increasing) auto
  moreover have "- (2 ^ 31) \<le> int r * 2 ^ k" using order_trans [of "- (2 ^ 31)" 0 "int r * 2 ^ k"] by simp
  ultimately have "signed_take_bit 31 (int r * 2 ^ k) = int r * 2 ^ k" by (intro signed_take_bit_int_eq_self) simp_all
  then show ?thesis by (simp add: shiftLeft_def t push_bit_eq_mult)
qed

lemma hex_string:
  assumes "r \<le> 255" "g \<le> 255" "b \<le> 255"
  defines "ds \<equiv> drop 1 (nat_digits 16 (16777216 + hex24 r g b))"
  shows "length ds = 6" "list_all (\<lambda>c. digit_like c \<and> is_digit 16 c) ds" "digits_val 16 ds = hex24 r g b"
proof -
  let ?n = "16777216 + hex24 r g b"
  have "16 ^ 6 \<le> ?n" "?n < 2 * 16 ^ 6" using assms(1-3) by (simp_all add: hex24_def)
  from nat_digits_one [OF this] obtain es where es: "nat_digits 16 ?n = CHR ''1'' # es" "length es = 6" by blast
  have ds: "ds = es" by (simp add: ds_def es(1))
  show "length ds = 6" using es ds by simp
  show "list_all (\<lambda>c. digit_like c \<and> is_digit 16 c) ds" using nat_digits_like [of 16 ?n] es ds by simp
  have "digits_val 16 (CHR ''1'' # es) = ?n" using digits_val_nat_digits [of 16 ?n] es by simp
  moreover have "digit_val CHR ''1'' = 1" by (simp add: digit_val_def)
  ultimately show "digits_val 16 ds = hex24 r g b" by (simp add: digits_val_Cons es(2) ds)
qed

lemma and_byte: "(i :: int) AND 255 = i mod 256"
proof -
  have "i AND 255 = take_bit 8 i" by (simp add: take_bit_eq_mask mask_eq_exp_minus_1)
  then show ?thesis by (simp add: take_bit_eq_mod)
qed

lemma parseHex_digits:
  assumes "length ds = 6" "list_all (\<lambda>c. digit_like c \<and> is_digit 16 c) ds" "digits_val 16 ds = hex24 r g b"
    "r \<le> 255" "g \<le> 255" "b \<le> 255"
  shows "parseHex (CHR ''#'' # ds) = Cached [num (int r), num (int g), num (int b), Some 1]"
proof -
  let ?i = "int (hex24 r g b)"
  have le: "hex24 r g b \<le> 0xffffff" using assms(4-6) by (simp add: hex24_def)
  have p: "parseInt ds 16 = Some (of_nat (hex24 r g b))" using parseInt_digits [OF assms(2)] assms(1,3) by (cases ds) auto
  have t: "toInt32 (Some (of_nat (hex24 r g b))) = ?i" using le by (simp add: toInt32_def signed_take_bit_int_eq_self)
  have e: "hex24 r g b = b + (g + r * 256) * 256" by (simp add: hex24_def)
  have "hex24 r g b div 256 = g + r * 256" "hex24 r g b mod 256 = b" 
    using assms(6) unfolding e mod_mult_self1 by simp_all
  moreover from this have "hex24 r g b div 256 mod 256 = g" using assms(5) by simp
  ultimately have d: "hex24 r g b div 65536 = r" "hex24 r g b div 256 mod 256 = g" "hex24 r g b mod 256 = b"
    using assms(4-6) by (simp_all add: hex24_def)
  have di: "?i div 2 ^ 16 mod 256 = int r" "?i div 2 ^ 8 mod 256 = int g" "?i mod 256 = int b"
    using arg_cong [OF d(1), of int] arg_cong [OF d(2), of int] arg_cong [OF d(3), of int] assms(4)
    by (simp_all add: of_nat_div of_nat_mod)
  have c: "drop_bit 16 ?i AND 255 = int r" "drop_bit 8 ?i AND 255 = int g" "?i AND 255 = int b"
    by (simp_all only: and_byte drop_bit_eq_div di)
  have "inHexRange (Some (of_nat (hex24 r g b))) 0xffffff"
    using le by (simp add: inHexRange_def)
  then show ?thesis using assms(1) by (simp add: parseHex_def Let_def p t c)
qed

section \<open>Properties\<close>

lemma color_table_no_hash: "map_of kCSSColorTable (CHR ''#'' # ds) = None"
  using color_table_entry(4) [of "CHR ''#'' # ds"] by (cases "map_of kCSSColorTable (CHR ''#'' # ds)") auto

text \<open>
  C24: a printed colour parses to itself.  For byte components and an alpha value between 0 and 1 with
  at most 20 decimal places, the string that \<^verbatim>\<open>stringify\<close> prints is read back by the parser as
  exactly this colour.
\<close>

theorem stringify_parse_roundtrip:
  assumes "r \<le> 255" "g \<le> 255" "b \<le> 255" "0 \<le> a" "a \<le> 1" "a * 10 ^ 20 \<in> \<int>"
  shows "\<exists>s. stringify [num (int r), num (int g), num (int b), Some a] ''rgba'' = Some s \<and>
    reference s = Some [num (int r), num (int g), num (int b), Some a]"
proof -
  let ?n = "nat_digits 10" and ?a = "toString 10 (Some a)"
  let ?body = "?n r @ CHR '','' # ?n g @ CHR '','' # ?n b @ CHR '','' # ?a"
  have dl: "list_all (\<lambda>c. digit_like c \<and> is_digit 10 c) (?n n)" for n by (rule nat_digits_like) simp_all
  have pl: "plain (?n n)" "plain ?a" for n using plain_digits [OF dl] toString_plain [OF assms(4)] by auto
  have str: "stringify [num (int r), num (int g), num (int b), Some a] ''rgba'' = Some (''rgba'' @ ''('' @ ?body @ '')'')"
    using toString_nat by (simp add: stringify_def elem_def num_def Let_def)
  have comma: "normalizeStr (CHR '','' # xs) = CHR '','' # normalizeStr xs" for xs
    by (simp add: normalizeStr_def lower_def)
  have int: "parseCssInt (?n n) = num (int n)" if "n \<le> 255" for n
  proof -
    have "parseInt (?n n) 10 = Some (of_nat n)"
      using parseInt_digits [OF dl nat_digits_neq_Nil] by (simp add: digits_val_nat_digits)
    then show ?thesis
      using plain_sep [OF pl(1), of n] clampCssByte_int [of "int n"] that by (simp add: parseCssInt_def num_def)
  qed
  have float: "parseCssFloat (Str ?a) = Some a"
    using plain_sep [OF pl(2)] parseFloat_toString [OF assms(4-6)] assms(4,5)
    by (simp add: clampCssFloat_def clamp_id)
  have "parseString (''rgba'' @ ''('' @ ?body @ '')'') = parseFunc ''rgba'' (split_on CHR '','' ?body)"
    by (rule parseString_call) (use pl plain_sep [OF pl(1)] plain_sep [OF pl(2)] in
        \<open>auto simp: plain_def lower_def normalizeStr_append normalizeStr_plain comma\<close>)
  also have "split_on CHR '','' ?body = [?n r, ?n g, ?n b, ?a]"
    using plain_sep [OF pl(1)] plain_sep [OF pl(2)] by (simp add: split_on_sep split_on_free)
  finally show ?thesis
    unfolding str using assms(1-3) int float by (simp add: reference_def parseFunc_def parseRgb_def)
qed

theorem stringify_parse_roundtrip_witness:
  "\<exists>s. stringify [num 255, num 128, num 7, Some (1 / 4)] ''rgba'' = Some s \<and>
     reference s = Some [num 255, num 128, num 7, Some (1 / 4)]"
proof -
  have "(1 / 4 :: rat) * 10 ^ 20 = of_int (25 * 10 ^ 18)" by simp
  then have "(1 / 4 :: rat) * 10 ^ 20 \<in> \<int>" by (simp only: Ints_of_int)
  then show ?thesis using stringify_parse_roundtrip [of 255 128 7 "1 / 4"] by simp
qed

text \<open>
  \<^verbatim>\<open>toHex\<close> is inverse to parsing.  In every reachable state of the colour module, the six
  digits that \<^verbatim>\<open>toHex\<close> returns for a colour with byte components, written after a number sign,
  parse to the same components (and alpha 1).
\<close>

theorem toHex_parse_roundtrip:
  assumes "color_reach st own" "reference color = Some [num (int r), num (int g), num (int b), a]"
    "r \<le> 255" "g \<le> 255" "b \<le> 255"
  shows "\<exists>s. fst (toHex color st) = Some s \<and> length s = 6 \<and>
    reference (CHR ''#'' # s) = Some [num (int r), num (int g), num (int b), Some 1]"
proof -
  let ?s = "drop 1 (nat_digits 16 (16777216 + hex24 r g b))"
  note h = hex_string [OF assms(3-5)]
  have one: "shiftLeft (Some 1) 24 = 16777216" by (simp add: shiftLeft_def toInt32_def signed_take_bit_int_eq_self push_bit_eq_mult)
  have "shiftLeft (num (int r)) 16 = int r * 65536" "shiftLeft (num (int g)) 8 = int g * 256"
    using shift_byte [OF assms(3), of 16] shift_byte [OF assms(4), of 8] by (simp_all add: num_def)
  moreover have "toString 16 (Some (of_nat n)) = nat_digits 16 n" for n
    by (simp add: toString_def Let_def eval_nat_numeral)
  then have "toString 16 (Some (of_nat (16777216 + hex24 r g b))) = nat_digits 16 (16777216 + hex24 r g b)" .
  then have "toString 16 (Some (16777216 + of_nat r * 65536 + of_nat g * 256 + of_nat b)) =
      nat_digits 16 (16777216 + hex24 r g b)"
    by (simp add: hex24_def add.assoc)
  ultimately have "fst (toHex color st) = Some ?s"
    using parseNew_reference [OF assms(1), of color] assms(2) one
    by (simp add: toHex_def split_beta elem_def num_def)
  moreover have "parseString (CHR ''#'' # ?s) = parseHex (CHR ''#'' # ?s)"
    using normalizeStr_plain [OF plain_digits [OF h(2)]]
    by (simp add: parseString_def normalizeStr_def lower_def color_table_no_hash Let_def)
  ultimately show ?thesis
    using h parseHex_digits [OF h assms(3-5)] by (simp add: reference_def)
qed

theorem toHex_parse_roundtrip_witness:
  "\<exists>s. fst (toHex ''tomato'' color_init) = Some s \<and> length s = 6 \<and>
     reference (CHR ''#'' # s) = Some [num 255, num 99, num 71, Some 1]"
proof -
  have "reference ''tomato'' = Some [num (int 255), num (int 99), num (int 71), Some 1]"
    by (simp add: reference_def parseString_def normalizeStr_def lower_def kCSSColorTable_def num_def)
  from toHex_parse_roundtrip [OF color_reach.init this] show ?thesis by simp
qed

end
