(* ===== verification/Color_Props.thy ===== *)
theory Color_Props
  imports Color_Strings
begin

text \<open>
  The range of parsed colours, and the behaviour of the operations on strings that are no colours.
\<close>

section \<open>Ranges\<close>

definition byte :: "jsnum \<Rightarrow> bool" where
  "byte c \<longleftrightarrow> (\<exists>i \<in> {0..255}. c = num i)"

definition byte_or_nan :: "jsnum \<Rightarrow> bool" where
  "byte_or_nan c \<longleftrightarrow> c = None \<or> byte c"

lemma clampCssByte_byte [simp]: "byte_or_nan (clampCssByte c)"
proof (cases c)
  case (Some x)
  let ?i = "\<lfloor>x + 1 / 2\<rfloor>"
  have "clamp 255 (Math_round x) = of_int (max 0 (min 255 ?i))"
    by (auto simp: clamp_def Math_round_def)
  then show ?thesis using Some by (auto simp: clampCssByte_def byte_or_nan_def byte_def num_def)
qed (simp add: clampCssByte_def byte_or_nan_def)

lemma parseCssInt_byte [simp]: "byte_or_nan (parseCssInt s)"
  by (simp add: parseCssInt_def)

lemma byte_and [simp]: "byte (num (x AND 255))"
  by (simp add: byte_def num_def and_byte)

lemma byte_or [simp]:
  assumes "0 \<le> m" "m < 256" "0 \<le> n" "n < 256"
  shows "byte (num (x AND m OR y AND n))"
proof -
  have "x AND m \<le> m" "y AND n \<le> n" using assms by (simp_all add: AND_upper2)
  then have "x AND m < 2 ^ 8" "y AND n < 2 ^ 8" "0 \<le> x AND m" using assms by (simp_all add: AND_lower)
  then have "x AND m OR y AND n < 2 ^ 8" by (intro OR_upper)
  then show ?thesis using assms by (auto simp: byte_def num_def)
qed

lemma table_bytes: "map_of kCSSColorTable s = Some c \<Longrightarrow> i < 3 \<Longrightarrow> c ! i \<le> 255"
  using color_table_entry(1,2) [of s c] by simp

lemma parseHex_bytes:
  assumes "parseHex s = Cached c"
  shows "byte (c ! 0) \<and> byte (c ! 1) \<and> byte (c ! 2)"
  using assms by (auto simp: parseHex_def Let_def push_bit_and split: if_splits)

lemma hsla2rgba_bytes: "i < 3 \<Longrightarrow> byte_or_nan (hsla2rgba hsla [] ! i)"
  by (auto simp: hsla2rgba_def Let_def setRgba_def less_Suc_eq eval_nat_numeral)

lemma parseFunc_bytes:
  assumes "parseFunc f ps = Cached c" "i < 3"
  shows "byte_or_nan (c ! i)"
proof -
  have i: "i = 0 \<or> i = 1 \<or> i = 2" using assms(2) by auto
  have rgb: "parseRgb ps a = Cached c \<Longrightarrow> byte_or_nan (c ! i)" for ps a
    using i by (auto simp: parseRgb_def split: if_splits)
  show ?thesis using assms rgb hsla2rgba_bytes by (auto simp: parseFunc_def split: if_splits)
qed

text \<open>Evaluation of the parser on hexadecimal literals.\<close>

lemmas hex_eval = reference_def parseString_def normalizeStr_def lower_def char_of_def bit_iff_odd color_table_no_hash
  parseHex_def parseInt_def is_ws_def strip_sign_def is_digit_def digit_val_def digits_val_def with_sign_def
  inHexRange_def toInt32_def signed_take_bit_int_eq_self Let_def

section \<open>Properties\<close>

text \<open>
  C38: every colour that reaches the cache has byte components.  Whatever the notation (a name, three,
  four, six or eight hexadecimal digits, \<^verbatim>\<open>rgb\<close>, \<^verbatim>\<open>rgba\<close>, \<^verbatim>\<open>hsl\<close> or
  \<^verbatim>\<open>hsla\<close>), red, green and blue are integers from 0 to 255, or no number where the string has
  no number in that place; hexadecimal colours always have all three.
\<close>

theorem parsed_components_are_bytes:
  assumes "parseString s = Cached c"
  shows "length c = 4 \<and> (\<forall>i < 3. byte_or_nan (c ! i)) \<and>
    (take 1 (normalizeStr s) = ''#'' \<longrightarrow> (\<forall>i < 3. byte (c ! i)))"
proof -
  have four: "length c = 4" using parseString_four assms by blast
  have "(\<forall>i < 3. byte_or_nan (c ! i)) \<and> (take 1 (normalizeStr s) = ''#'' \<longrightarrow> (\<forall>i < 3. byte (c ! i)))"
  proof (cases "map_of kCSSColorTable (normalizeStr s)")
    case (Some n)
    have "byte (c ! i)" if "i < 3" for i
    proof -
      have "c = map (\<lambda>n. Some (of_nat n)) n" using assms Some by (simp add: parseString_def Let_def)
      then show ?thesis using that table_bytes [OF Some that] color_table_four [OF Some]
        by (auto simp: byte_def num_def intro!: bexI [of _ "int (n ! i)"])
    qed
    then show ?thesis by (simp add: byte_or_nan_def)
  next
    case None
    then have "parseHex (normalizeStr s) = Cached c \<or> (\<exists>f ps. parseFunc f ps = Cached c) \<and> take 1 (normalizeStr s) \<noteq> ''#''"
      using assms by (auto simp: parseString_def Let_def split: if_splits option.splits)
    then show ?thesis
    proof
      assume "parseHex (normalizeStr s) = Cached c"
      from parseHex_bytes [OF this] show ?thesis by (auto simp: byte_or_nan_def less_Suc_eq eval_nat_numeral)
    qed (use parseFunc_bytes in blast)
  qed
  then show ?thesis using four by simp
qed

theorem parsed_components_are_bytes_witness:
  "\<exists>c. parseString ''#FA8'' = Cached c \<and> (\<forall>i < 3. byte (c ! i))"
proof -
  have "\<exists>c. parseString ''#FA8'' = Cached c"
    by (simp add: hex_eval)
  then obtain c where "parseString ''#FA8'' = Cached c" by blast
  with parsed_components_are_bytes [OF this] show ?thesis by (auto simp: normalizeStr_def lower_def)
qed

text \<open>
  \<^verbatim>\<open>modifyHSL\<close> throws on a string that is no colour.  It tests the string where it means to
  test the parsed colour, so in every reachable state a non-empty string that does not parse makes it
  throw a type error, whatever the modification; \<^verbatim>\<open>modifyAlpha\<close> and \<^verbatim>\<open>lift\<close> return
  \<^verbatim>\<open>undefined\<close> in this case.
\<close>

theorem modifyHSL_throws_on_invalid:
  assumes "color_reach st own" "color \<noteq> []" "reference color = None"
  shows "fst (modifyHSL color h s l st) = Inl TypeError \<and> fst (modifyAlpha color a st) = None \<and>
    fst (lift color x st) = None"
  using parseNew_reference [OF assms(1), of color] assms(2,3)
  by (simp add: modifyHSL_def modifyAlpha_def lift_def split_beta)

theorem modifyHSL_throws_on_invalid_witness:
  "fst (modifyHSL ''nocolor'' (Some (Some 10)) None None color_init) = Inl TypeError"
  using modifyHSL_throws_on_invalid [OF color_reach.init, of "''nocolor''" "Some (Some 10)" None None]
  by (simp add: reference_def parseString_def normalizeStr_def lower_def kCSSColorTable_def)

end
