(* ===== verification/Cluster_Page.thy ===== *)
theory Cluster_Page
  imports Color_Props
begin

text \<open>
  The page that administrates the groups of the cluster (\<^verbatim>\<open>src/html/js/cluster.js\<close>): the
  select-all checkbox, the dialogs that add and delete a group, and the row colours.  The page state
  has what the handlers read and write; requests and alerts are recorded.  Showing and hiding with a
  duration of 0 takes effect at once.
\<close>

section \<open>Definitions\<close>

record row =
  checked :: bool
  selected :: bool

record page =
  header_checked :: bool
  rows :: "row list"
  addfade :: bool
  deletefade :: bool
  arrAdd :: "string list"
  requests :: "string list"
  alerts :: "string list"
  reloads :: nat

datatype event =
    ClickHeader | ClickRow nat
  | AddButton | AddOk string | AddNo
  | DeleteButton | DeleteOk string | DeleteNo | ModalClose
  | Response nat nat string

text \<open>The handler of the header checkbox, which the browser has toggled before.\<close>

definition selectAll :: "page \<Rightarrow> page" where
  "selectAll p = p\<lparr>rows := map (\<lambda>r. r\<lparr>checked := header_checked p, selected := \<not> selected r\<rparr>) (rows p)\<rparr>"

definition addGroup :: "string \<Rightarrow> page \<Rightarrow> page" where
  "addGroup ips p = p\<lparr>addfade := False, arrAdd := [], requests := requests p @ [''/addGroup?&ips='' @ ips]\<rparr>"

definition delGroup :: "string \<Rightarrow> page \<Rightarrow> page" where
  "delGroup i p = p\<lparr>deletefade := False, arrAdd := [], alerts := alerts p @ [i],
     requests := requests p @ [''/delGroup?&id='' @ i]\<rparr>"

text \<open>
  The handler of a response, the same for both requests.  The global variable \<^verbatim>\<open>key\<close> is a
  parameter: \<^term>\<open>None\<close> if it is not declared.
\<close>

definition onResponse :: "string option \<Rightarrow> nat \<Rightarrow> nat \<Rightarrow> string \<Rightarrow> page \<Rightarrow> js_error option \<times> page" where
  "onResponse key readyState status ret p =
     (if readyState = 4 \<and> status = 200
      then case key of
             None \<Rightarrow> (Some ReferenceError, p)
           | Some k \<Rightarrow>
               (None, p\<lparr>alerts := alerts p @ [if ret = k then ''Group add sucess,please refresh the page''
                                            else ''Group add fail,please wait and try again''],
                      reloads := reloads p + 1\<rparr>)
      else (None, p))"

fun handle :: "string option \<Rightarrow> event \<Rightarrow> page \<Rightarrow> js_error option \<times> page" where
  "handle key ClickHeader p = (None, selectAll (p\<lparr>header_checked := \<not> header_checked p\<rparr>))"
| "handle key (ClickRow i) p =
     (None, if i < length (rows p) then p\<lparr>rows := (rows p)[i := (rows p ! i)\<lparr>checked := \<not> checked (rows p ! i)\<rparr>]\<rparr> else p)"
| "handle key AddButton p = (None, p\<lparr>addfade := True\<rparr>)"
| "handle key (AddOk ips) p = (None, addGroup ips p)"
| "handle key AddNo p = (None, p\<lparr>addfade := False\<rparr>)"
| "handle key DeleteButton p = (None, p\<lparr>deletefade := True\<rparr>)"
| "handle key (DeleteOk i) p = (None, delGroup i p)"
| "handle key DeleteNo p = (None, p\<lparr>deletefade := False\<rparr>)"
| "handle key ModalClose p = (None, p\<lparr>addfade := False, deletefade := False\<rparr>)"
| "handle key (Response readyState status ret) p = onResponse key readyState status ret p"

fun run_page :: "string option \<Rightarrow> event list \<Rightarrow> page \<Rightarrow> page" where
  "run_page key [] p = p"
| "run_page key (e # es) p = run_page key es (snd (handle key e p))"

definition page_init :: "nat \<Rightarrow> page" where
  "page_init n = \<lparr>header_checked = False, rows = replicate n \<lparr>checked = False, selected = False\<rparr>,
     addfade = False, deletefade = False, arrAdd = [], requests = [], alerts = [], reloads = 0\<rparr>"

subsection \<open>Row colours\<close>

text \<open>The colour of a row and the colour of its cells, which cover the row once they are set.\<close>

record row_color =
  tr_color :: string
  td_color :: "string option"

definition shown :: "row_color \<Rightarrow> string" where
  "shown c = (case td_color c of None \<Rightarrow> tr_color c | Some d \<Rightarrow> d)"

text \<open>The initial colour of the row with the given index in the document.\<close>

definition stripe :: "nat \<Rightarrow> row_color" where
  "stripe i = \<lparr>tr_color = if odd i then ''#fff'' else ''#eef1f8'', td_color = None\<rparr>"

definition paint :: "string \<Rightarrow> row_color \<Rightarrow> row_color" where
  "paint c r = r\<lparr>tr_color := c, td_color := Some c\<rparr>"

text \<open>The hover handlers of the row with the given index in the table body.\<close>

definition mouseover :: "nat \<Rightarrow> row_color \<Rightarrow> row_color" where
  "mouseover i r = (if even i then paint ''#AEF2E5'' r else paint ''#AEF2E5'' r)"

definition mouseout :: "nat \<Rightarrow> row_color \<Rightarrow> row_color" where
  "mouseout i r = (if even i then paint ''#FFFFFF'' r else paint ''#eef1f8'' r)"

section \<open>Properties\<close>

lemma selected_follows_header:
  "\<forall>r \<in> set (rows p). selected r = header_checked p \<Longrightarrow>
   \<forall>r \<in> set (rows (snd (handle key e p))). selected r = header_checked (snd (handle key e p))"
proof (cases e)
  case (ClickRow i)
  assume p: "\<forall>r \<in> set (rows p). selected r = header_checked p"
  let ?r = "(rows p ! i)\<lparr>checked := \<not> checked (rows p ! i)\<rparr>"
  have "\<forall>r \<in> insert ?r (set (rows p)). selected r = header_checked p" if "i < length (rows p)" using p that by simp
  then have "\<forall>r \<in> set ((rows p)[i := ?r]). selected r = header_checked p" if "i < length (rows p)"
    using set_update_subset_insert [of "rows p" i ?r] that by blast
  then show ?thesis using ClickRow p by simp
qed (auto simp: selectAll_def addGroup_def delGroup_def onResponse_def split: option.splits)



text \<open>
  leaving a row restores its colour exactly when an odd number of rows precedes the table body.
  The initial colours count the rows of the document, the hover handlers count the rows of the body;
  with one header row before the body, the colours \<^verbatim>\<open>#fff\<close> and \<^verbatim>\<open>#FFFFFF\<close> parse to the
  same components.
\<close>

theorem hover_restores_color:
  "reference (shown (mouseout i (mouseover i (stripe (h + i))))) = reference (shown (stripe (h + i))) \<longleftrightarrow> odd h"
proof -
  have w: "reference ''#fff'' = Some [num 255, num 255, num 255, Some 1]"
    "reference ''#FFFFFF'' = Some [num 255, num 255, num 255, Some 1]"
    "reference ''#eef1f8'' = Some [num 238, num 241, num 248, Some 1]"
    by (simp_all add: hex_eval)
  show ?thesis
    by (cases "even i"; cases "even h") (simp_all add: mouseout_def mouseover_def paint_def stripe_def shown_def w num_def)
qed

end
