(* ===== verification/Component_Deps.thy ===== *)
theory Component_Deps
  imports Prelude
begin

text \<open>
  The order in which component models are created and merged (\<^verbatim>\<open>src/html/js/echarts.js\<close>, lines
  16146-16265): component types form a dependency graph, and the travel visits the types that an
  option mentions, and everything that depends on them, after their dependencies.  The function that
  gives the dependencies of a type is a parameter, and the calls of the callback are recorded.
\<close>

section \<open>Definitions\<close>

record vertex =
  predecessor :: "string list"
  successor :: "string list"
  originalDeps :: "string list"
  entryCount :: int

type_synonym graph = "string \<rightharpoonup> vertex"

definition createDependencyGraphItem :: "string \<Rightarrow> graph \<Rightarrow> graph" where
  "createDependencyGraphItem name g =
     (case g name of
        None \<Rightarrow> g(name \<mapsto> \<lparr>predecessor = [], successor = [], originalDeps = [], entryCount = 0\<rparr>)
      | Some _ \<Rightarrow> g)"

definition mod_vertex :: "string \<Rightarrow> (vertex \<Rightarrow> vertex) \<Rightarrow> graph \<Rightarrow> graph" where
  "mod_vertex name f g = g(name := map_option f (g name))"

definition getAvailableDependencies :: "string list \<Rightarrow> string list \<Rightarrow> string list" where
  "getAvailableDependencies deps full = filter (\<lambda>dep. dep \<in> set full) deps"

text \<open>The edge from one available dependency to the item \<open>name\<close>.\<close>

definition addEdge :: "string \<Rightarrow> string \<Rightarrow> graph \<Rightarrow> graph" where
  "addEdge name dep g =
     (let g = mod_vertex name
                (\<lambda>v. if dep \<in> set (predecessor v) then v else v\<lparr>predecessor := predecessor v @ [dep]\<rparr>) g;
          g = createDependencyGraphItem dep g
      in mod_vertex dep (\<lambda>v. if dep \<in> set (successor v) then v else v\<lparr>successor := successor v @ [name]\<rparr>) g)"

definition addItem :: "(string \<Rightarrow> string list) \<Rightarrow> string list \<Rightarrow> string \<Rightarrow> graph \<times> string list \<Rightarrow> graph \<times> string list" where
  "addItem deps full name gn =
     (let (g, noEntry) = gn;
          g = createDependencyGraphItem name g;
          available = getAvailableDependencies (deps name) full;
          g = mod_vertex name (\<lambda>v. v\<lparr>originalDeps := deps name, entryCount := int (length available)\<rparr>) g
      in (fold (addEdge name) available g, if available = [] then noEntry @ [name] else noEntry))"

definition makeDepndencyGraph :: "(string \<Rightarrow> string list) \<Rightarrow> string list \<Rightarrow> graph \<times> string list" where
  "makeDepndencyGraph deps full = fold (addItem deps full) full (Map.empty, [])"

record travel =
  tr_graph :: graph
  noEntryList :: "string list"
  targetNameSet :: "string set"
  calls :: "(string \<times> string list) list"

definition removeEdge :: "string \<Rightarrow> travel \<Rightarrow> travel" where
  "removeEdge succ st =
     (let st = st\<lparr>tr_graph := mod_vertex succ (\<lambda>v. v\<lparr>entryCount := entryCount v - 1\<rparr>) (tr_graph st)\<rparr>
      in if map_option entryCount (tr_graph st succ) = Some 0
         then st\<lparr>noEntryList := noEntryList st @ [succ]\<rparr> else st)"

definition removeEdgeAndAdd :: "string \<Rightarrow> travel \<Rightarrow> travel" where
  "removeEdgeAndAdd succ st = removeEdge succ (st\<lparr>targetNameSet := insert succ (targetNameSet st)\<rparr>)"

text \<open>One turn of the loop, for the type popped from the end of the list.\<close>

definition visit :: "travel \<Rightarrow> travel" where
  "visit st =
     (let curr = last (noEntryList st);
          st = st\<lparr>noEntryList := butlast (noEntryList st)\<rparr>;
          v = the (tr_graph st curr)
      in if curr \<in> targetNameSet st
         then fold removeEdgeAndAdd (successor v)
                (st\<lparr>calls := calls st @ [(curr, originalDeps v)], targetNameSet := targetNameSet st - {curr}\<rparr>)
         else fold removeEdge (successor v) st)"

fun travelLoop :: "nat \<Rightarrow> travel \<Rightarrow> travel option" where
  "travelLoop 0 st = None"
| "travelLoop (Suc n) st = (if noEntryList st = [] then Some st else travelLoop n (visit st))"

text \<open>
  The whole travel: the callback calls made, and whether it returns or throws; \<^term>\<open>None\<close> if the
  loop did not end after one turn per type and one more.
\<close>

definition topologicalTravel ::
  "(string \<Rightarrow> string list) \<Rightarrow> string list \<Rightarrow> string list \<Rightarrow> ((string \<times> string list) list \<times> unit result) option" where
  "topologicalTravel deps targets full =
     (if targets = [] then Some ([], Inr ())
      else let (g, noEntry) = makeDepndencyGraph deps full
           in map_option (\<lambda>st. (calls st, if targetNameSet st = {} then Inr () else Inl Error))
                (travelLoop (length full + 1)
                   \<lparr>tr_graph = g, noEntryList = noEntry, targetNameSet = set targets, calls = []\<rparr>))"

section \<open>The graph\<close>

abbreviation avail :: "(string \<Rightarrow> string list) \<Rightarrow> string list \<Rightarrow> string \<Rightarrow> string list" where
  "avail deps full n \<equiv> getAvailableDependencies (deps n) full"

definition succs :: "graph \<Rightarrow> string \<Rightarrow> string list" where
  "succs g n = (case g n of None \<Rightarrow> [] | Some v \<Rightarrow> successor v)"

definition entries :: "graph \<Rightarrow> string \<Rightarrow> int" where
  "entries g n = (case g n of None \<Rightarrow> 0 | Some v \<Rightarrow> entryCount v)"

definition origin :: "graph \<Rightarrow> string \<Rightarrow> string list" where
  "origin g n = (case g n of None \<Rightarrow> [] | Some v \<Rightarrow> originalDeps v)"

lemma create_observe [simp]:
  "succs (createDependencyGraphItem m g) n = succs g n"
  "entries (createDependencyGraphItem m g) n = entries g n"
  "origin (createDependencyGraphItem m g) n = origin g n"
  "dom (createDependencyGraphItem m g) = insert m (dom g)"
  by (auto simp: createDependencyGraphItem_def succs_def entries_def origin_def split: option.splits)

lemma dom_mod_vertex [simp]: "dom (mod_vertex m f g) = dom g"
  by (auto simp: mod_vertex_def)

lemma addEdge_observe:
  assumes "name \<in> dom g"
  shows "succs (addEdge name dep g) n = (if n = dep \<and> dep \<notin> set (succs g dep) then succs g n @ [name] else succs g n)"
    "entries (addEdge name dep g) n = entries g n" "origin (addEdge name dep g) n = origin g n"
    "dom (addEdge name dep g) = insert dep (dom g)"
  using assms
  by (auto simp: addEdge_def Let_def mod_vertex_def createDependencyGraphItem_def succs_def entries_def origin_def
      split: option.splits if_splits)

text \<open>All edges into one item: duplicates in the dependency list give several edges.\<close>

lemma addEdges_observe:
  assumes "name \<in> dom g"
  shows "entries (fold (addEdge name) ds g) n = entries g n \<and> origin (fold (addEdge name) ds g) n = origin g n \<and>
    dom (fold (addEdge name) ds g) = set ds \<union> dom g \<and>
    count_list (succs (fold (addEdge name) ds g) p) n \<le>
      count_list (succs g p) n + (if n = name then count_list ds p else 0)"
  using assms
proof (induction ds arbitrary: g)
  case (Cons d ds)
  note o = addEdge_observe [OF Cons.prems, of d]
  have "name \<in> dom (addEdge name d g)" using Cons.prems o by auto
  from Cons.IH [OF this] show ?case by (auto simp: o split: if_splits)
qed simp

lemma addEdges_count:
  assumes "name \<in> dom g" "name \<notin> set ds" "\<forall>p. p \<notin> set (succs g p)"
  shows "count_list (succs (fold (addEdge name) ds g) p) n =
      count_list (succs g p) n + (if n = name then count_list ds p else 0) \<and>
    (\<forall>p. p \<notin> set (succs (fold (addEdge name) ds g) p))"
  using assms
proof (induction ds arbitrary: g)
  case (Cons d ds)
  let ?g = "addEdge name d g"
  note o = addEdge_observe [OF Cons.prems(1), of d]
  have "name \<in> dom ?g" "\<forall>p. p \<notin> set (succs ?g p)" using Cons.prems o by auto
  note IH = Cons.IH [OF this(1) _ this(2)]
  show ?case using IH Cons.prems o by auto
qed simp

lemma addItem_observe:
  "addItem deps full name (g, ne) =
     (let g' = mod_vertex name (\<lambda>v. v\<lparr>originalDeps := deps name, entryCount := int (length (avail deps full name))\<rparr>)
                 (createDependencyGraphItem name g)
      in (fold (addEdge name) (avail deps full name) g', if avail deps full name = [] then ne @ [name] else ne))"
  by (simp add: addItem_def Let_def)

lemma enter_observe:
  fixes g :: graph and k :: int and name :: string and ds :: "string list"
  defines "g' \<equiv> mod_vertex name (\<lambda>v. v\<lparr>originalDeps := ds, entryCount := k\<rparr>) (createDependencyGraphItem name g)"
  shows "succs g' n = succs g n" "entries g' n = (if n = name then k else entries g n)"
    "origin g' n = (if n = name then ds else origin g n)" "dom g' = insert name (dom g)"
  by (auto simp: g'_def mod_vertex_def createDependencyGraphItem_def succs_def entries_def origin_def split: option.splits)

definition graph_of :: "(string \<Rightarrow> string list) \<Rightarrow> string list \<Rightarrow> string list \<Rightarrow> graph \<Rightarrow> bool" where
  "graph_of deps full xs g \<longleftrightarrow>
     (\<forall>n \<in> set xs. entries g n = int (length (avail deps full n)) \<and> origin g n = deps n \<and> n \<in> dom g) \<and>
     (\<forall>p n. count_list (succs g p) n \<le> (if n \<in> set xs then count_list (avail deps full n) p else 0))"

definition exact_edges :: "(string \<Rightarrow> string list) \<Rightarrow> string list \<Rightarrow> string list \<Rightarrow> graph \<Rightarrow> bool" where
  "exact_edges deps full xs g \<longleftrightarrow> (\<forall>p. p \<notin> set (succs g p)) \<and>
     (\<forall>p n. count_list (succs g p) n = (if n \<in> set xs then count_list (avail deps full n) p else 0))"

lemma addItem_graph:
  assumes g: "graph_of deps full xs g" and n: "name \<notin> set xs"
  shows "graph_of deps full (xs @ [name]) (fst (addItem deps full name (g, ne)))"
    "exact_edges deps full xs g \<Longrightarrow> name \<notin> set (deps name) \<Longrightarrow>
      exact_edges deps full (xs @ [name]) (fst (addItem deps full name (g, ne)))"
proof -
  let ?k = "int (length (avail deps full name))"
  let ?g = "mod_vertex name (\<lambda>v. v\<lparr>originalDeps := deps name, entryCount := ?k\<rparr>) (createDependencyGraphItem name g)"
  note e = enter_observe [where name = name and ds = "deps name" and k = ?k and g = g]
  have d: "name \<in> dom ?g" by (simp add: e)
  have eq: "fst (addItem deps full name (g, ne)) = fold (addEdge name) (avail deps full name) ?g"
    by (simp add: addItem_observe Let_def)
  note a = addEdges_observe [OF d, of "avail deps full name"]
  show "graph_of deps full (xs @ [name]) (fst (addItem deps full name (g, ne)))"
    unfolding graph_of_def eq
  proof (intro conjI allI ballI)
    fix m assume "m \<in> set (xs @ [name])"
    then show "entries (fold (addEdge name) (avail deps full name) ?g) m = int (length (avail deps full m))"
      "origin (fold (addEdge name) (avail deps full name) ?g) m = deps m"
      "m \<in> dom (fold (addEdge name) (avail deps full name) ?g)"
      using a g by (auto simp: e graph_of_def)
  next
    fix p m
    have "count_list (succs g p) m \<le> (if m \<in> set xs then count_list (avail deps full m) p else 0)"
      using g by (simp add: graph_of_def)
    then show "count_list (succs (fold (addEdge name) (avail deps full name) ?g) p) m
      \<le> (if m \<in> set (xs @ [name]) then count_list (avail deps full m) p else 0)"
      using conjunct2 [OF conjunct2 [OF conjunct2 [OF a [of m p]]]] n by (auto simp: e split: if_splits)
  qed
  show "exact_edges deps full (xs @ [name]) (fst (addItem deps full name (g, ne)))"
    if x: "exact_edges deps full xs g" and self: "name \<notin> set (deps name)"
  proof -
    have "name \<notin> set (avail deps full name)" using self by (simp add: getAvailableDependencies_def)
    moreover have "\<forall>p. p \<notin> set (succs ?g p)" using x by (simp add: e exact_edges_def)
    ultimately show ?thesis using addEdges_count [OF d] x n unfolding exact_edges_def eq by (auto simp: e)
  qed
qed

lemma build_graph:
  fixes deps :: "string \<Rightarrow> string list" and full :: "string list"
  assumes "distinct xs"
  defines "r \<equiv> fold (addItem deps full) xs (Map.empty, [])"
  shows "graph_of deps full xs (fst r) \<and> snd r = filter (\<lambda>n. avail deps full n = []) xs \<and>
    ((\<forall>n \<in> set xs. n \<notin> set (deps n)) \<longrightarrow> exact_edges deps full xs (fst r))"
  using assms(1) unfolding r_def
proof (induction xs rule: rev_induct)
  case Nil
  then show ?case by (simp add: graph_of_def exact_edges_def succs_def)
next
  case (snoc x xs)
  let ?r = "fold (addItem deps full) xs (Map.empty, [])"
  have IH: "graph_of deps full xs (fst ?r)" "snd ?r = filter (\<lambda>n. avail deps full n = []) xs"
    "(\<forall>n \<in> set xs. n \<notin> set (deps n)) \<Longrightarrow> exact_edges deps full xs (fst ?r)" using snoc by auto
  have f: "fold (addItem deps full) (xs @ [x]) (Map.empty, []) = addItem deps full x (fst ?r, snd ?r)" by simp
  have "snd (addItem deps full x (fst ?r, snd ?r)) = filter (\<lambda>n. avail deps full n = []) (xs @ [x])"
    using IH(2) by (simp add: addItem_observe Let_def)
  moreover have "x \<notin> set xs" using snoc.prems by simp
  ultimately show ?case using addItem_graph [OF IH(1), of x "snd ?r"] IH(3) unfolding f by auto
qed

section \<open>The loop over the successors\<close>

lemma removeEdge_observe:
  assumes "m \<in> dom (tr_graph st)"
  shows "succs (tr_graph (removeEdge m st)) n = succs (tr_graph st) n"
    "origin (tr_graph (removeEdge m st)) n = origin (tr_graph st) n"
    "dom (tr_graph (removeEdge m st)) = dom (tr_graph st)"
    "entries (tr_graph (removeEdge m st)) n = entries (tr_graph st) n - (if n = m then 1 else 0)"
    "noEntryList (removeEdge m st) = noEntryList st @ (if entries (tr_graph st) m = 1 then [m] else [])"
    "targetNameSet (removeEdge m st) = targetNameSet st" "calls (removeEdge m st) = calls st"
  using assms
  by (auto simp: removeEdge_def Let_def mod_vertex_def succs_def origin_def entries_def split: option.splits if_splits)

lemma removeEdges:
  assumes "set ms \<subseteq> dom (tr_graph st)" "\<forall>n. int (count_list ms n) \<le> entries (tr_graph st) n \<or> n \<notin> set ms"
  shows "\<exists>ps. distinct ps \<and> set ps = {n \<in> set ms. entries (tr_graph st) n = int (count_list ms n)} \<and>
    noEntryList (fold removeEdge ms st) = noEntryList st @ ps \<and>
    (\<forall>n. entries (tr_graph (fold removeEdge ms st)) n = entries (tr_graph st) n - int (count_list ms n) \<and>
         succs (tr_graph (fold removeEdge ms st)) n = succs (tr_graph st) n \<and>
         origin (tr_graph (fold removeEdge ms st)) n = origin (tr_graph st) n) \<and>
    dom (tr_graph (fold removeEdge ms st)) = dom (tr_graph st) \<and>
    targetNameSet (fold removeEdge ms st) = targetNameSet st \<and> calls (fold removeEdge ms st) = calls st"
  using assms
proof (induction ms arbitrary: st)
  case (Cons m ms)
  let ?st = "removeEdge m st"
  have m: "m \<in> dom (tr_graph st)" using Cons.prems(1) by simp
  note o = removeEdge_observe [OF m]
  have "set ms \<subseteq> dom (tr_graph ?st)" using Cons.prems(1) o by simp
  moreover have "\<forall>n. int (count_list ms n) \<le> entries (tr_graph ?st) n \<or> n \<notin> set ms"
  proof
    fix n
    show "int (count_list ms n) \<le> entries (tr_graph ?st) n \<or> n \<notin> set ms"
      using spec [OF Cons.prems(2), of n] by (auto simp: o(4))
  qed
  ultimately obtain ps where ps: "distinct ps" "set ps = {n \<in> set ms. entries (tr_graph ?st) n = int (count_list ms n)}"
    "noEntryList (fold removeEdge ms ?st) = noEntryList ?st @ ps"
    "\<forall>n. entries (tr_graph (fold removeEdge ms ?st)) n = entries (tr_graph ?st) n - int (count_list ms n) \<and>
         succs (tr_graph (fold removeEdge ms ?st)) n = succs (tr_graph ?st) n \<and>
         origin (tr_graph (fold removeEdge ms ?st)) n = origin (tr_graph ?st) n"
    "dom (tr_graph (fold removeEdge ms ?st)) = dom (tr_graph ?st)"
    "targetNameSet (fold removeEdge ms ?st) = targetNameSet ?st" "calls (fold removeEdge ms ?st) = calls ?st"
    using Cons.IH [of ?st] by blast
  have em: "int (count_list (m # ms) m) \<le> entries (tr_graph st) m" using Cons.prems(2) by (metis list.set_intros(1))
  let ?ps = "(if entries (tr_graph st) m = 1 then [m] else []) @ ps"
  have "m \<notin> set ps" if "entries (tr_graph st) m = 1"
    using that ps(2) em o(4) [of m] count_list_0_iff [of ms m] by auto
  then have "distinct ?ps" using ps(1) by simp
  moreover have "set ?ps = {n \<in> set (m # ms). entries (tr_graph st) n = int (count_list (m # ms) n)}"
    using ps(2) o(4) em count_list_0_iff [of ms m] by (auto split: if_splits)
  ultimately show ?case using ps o by (intro exI [of _ ?ps]) auto
qed simp

lemma removeEdgesAndAdd:
  "fold removeEdgeAndAdd ms st = fold removeEdge ms (st\<lparr>targetNameSet := set ms \<union> targetNameSet st\<rparr>)"
proof (induction ms arbitrary: st)
  case (Cons m ms)
  have "removeEdge m (st\<lparr>targetNameSet := T\<rparr>) = (removeEdge m st)\<lparr>targetNameSet := T\<rparr>" for T
    by (simp add: removeEdge_def Let_def)
  then show ?case using Cons by (simp add: removeEdgeAndAdd_def removeEdge_observe)
qed simp

section \<open>The travel\<close>

text \<open>
  The state after visiting the types \<open>P\<close> in this order, started with the targets \<open>T0\<close>: the
  remaining entry counts, the list of types without unvisited dependencies, and the names called.
\<close>

definition called :: "travel \<Rightarrow> string list" where
  "called st = map fst (calls st)"

definition visited :: "(string \<Rightarrow> string list) \<Rightarrow> string list \<Rightarrow> graph \<Rightarrow> string set \<Rightarrow> string list \<Rightarrow> travel \<Rightarrow> bool" where
  "visited deps full g0 T0 P st \<longleftrightarrow>
     (\<forall>n. succs (tr_graph st) n = succs g0 n \<and> origin (tr_graph st) n = origin g0 n) \<and> dom (tr_graph st) = dom g0 \<and>
     (\<forall>n. entries (tr_graph st) n = entries g0 n - (\<Sum>p \<in> set P. int (count_list (succs g0 p) n))) \<and>
     distinct (P @ noEntryList st) \<and>
     set (P @ noEntryList st) = {n \<in> set full. entries (tr_graph st) n = 0} \<and>
     (\<forall>ys y zs. P = ys @ y # zs \<longrightarrow> set (avail deps full y) \<subseteq> set ys) \<and>
     filter (\<lambda>n. n \<in> set (called st)) P = called st \<and>
     (\<forall>n \<in> set P. n \<in> set (called st) \<longleftrightarrow> n \<in> T0 \<or> (\<exists>p \<in> set (called st). n \<in> set (succs g0 p))) \<and>
     targetNameSet st = (T0 \<union> (\<Union>p \<in> set (called st). set (succs g0 p))) - set (called st) \<and>
     (\<forall>c \<in> set (calls st). snd c = deps (fst c))"

lemma visitedD:
  assumes "visited deps full g0 T0 P st"
  shows "entries (tr_graph st) n = entries g0 n - (\<Sum>p \<in> set P. int (count_list (succs g0 p) n))"
    "distinct P" "set (P @ noEntryList st) = {n \<in> set full. entries (tr_graph st) n = 0}"
    "P = ys @ y # zs \<Longrightarrow> set (avail deps full y) \<subseteq> set ys"
    "filter (\<lambda>n. n \<in> set (called st)) P = called st"
    "n \<in> set P \<Longrightarrow> n \<in> set (called st) \<longleftrightarrow> n \<in> T0 \<or> (\<exists>p \<in> set (called st). n \<in> set (succs g0 p))"
    "targetNameSet st = (T0 \<union> (\<Union>p \<in> set (called st). set (succs g0 p))) - set (called st)"
    "\<forall>c \<in> set (calls st). snd c = deps (fst c)"
  using assms unfolding visited_def by simp_all

lemma edge_count:
  assumes "graph_of deps full full g0"
  shows "count_list (succs g0 p) n \<le> (if n \<in> set full then count_list (avail deps full n) p else 0)"
  using assms by (simp add: graph_of_def)

lemma succs_full: "graph_of deps full full g0 \<Longrightarrow> n \<in> set (succs g0 p) \<Longrightarrow> n \<in> set full"
  using edge_count [of deps full g0 p n] count_list_0_iff [of "succs g0 p" n] by (auto split: if_splits)

lemma sum_count_list: "finite P \<Longrightarrow> (\<Sum>p \<in> P. count_list xs p) = length (filter (\<lambda>d. d \<in> P) xs)"
proof (induction xs)
  case (Cons a xs)
  have "(\<Sum>p \<in> P. count_list (a # xs) p) = (\<Sum>p \<in> P. count_list xs p + (if a = p then 1 else 0))"
    by (rule sum.cong) auto
  then show ?case using Cons by (simp add: sum.distrib)
qed simp

lemma remaining_entries:
  assumes "graph_of deps full full g0" "n \<in> set full" "finite P"
  shows "int (length (filter (\<lambda>d. d \<notin> P) (avail deps full n))) \<le> entries g0 n - (\<Sum>p \<in> P. int (count_list (succs g0 p) n))"
proof -
  let ?a = "avail deps full n"
  have "(\<Sum>p \<in> P. count_list (succs g0 p) n) \<le> (\<Sum>p \<in> P. count_list ?a p)"
    using edge_count [OF assms(1), of _ n] assms(2) by (intro sum_mono) simp
  also have "\<dots> = length (filter (\<lambda>d. d \<in> P) ?a)"
    by (rule sum_count_list [OF assms(3)])
  finally have "(\<Sum>p \<in> P. count_list (succs g0 p) n) \<le> length (filter (\<lambda>d. d \<in> P) ?a)" .
  moreover have "length (filter (\<lambda>d. d \<in> P) ?a) + length (filter (\<lambda>d. d \<notin> P) ?a) = length ?a"
    by (rule sum_length_filter_compl)
  moreover have "entries g0 n = int (length ?a)" using assms by (simp add: graph_of_def)
  ultimately show ?thesis by (simp flip: of_nat_sum)
qed

lemma all_deps_visited:
  assumes "graph_of deps full full g0" "n \<in> set full" "finite P"
    "entries g0 n - (\<Sum>p \<in> P. int (count_list (succs g0 p) n)) = 0"
  shows "set (avail deps full n) \<subseteq> P"
  using remaining_entries [OF assms(1-3)] assms(4) by (auto simp: filter_empty_conv)

lemma visit_eq:
  assumes "x = last (noEntryList st)" "x \<in> dom (tr_graph st)"
  shows "visit st = fold removeEdge (succs (tr_graph st) x)
    (if x \<in> targetNameSet st
     then st\<lparr>noEntryList := butlast (noEntryList st), calls := calls st @ [(x, origin (tr_graph st) x)],
             targetNameSet := set (succs (tr_graph st) x) \<union> (targetNameSet st - {x})\<rparr>
     else st\<lparr>noEntryList := butlast (noEntryList st)\<rparr>)"
  using assms by (auto simp: visit_def Let_def succs_def origin_def removeEdgesAndAdd)

lemma visited_visit:
  assumes g: "graph_of deps full full g0" and v: "visited deps full g0 T0 P st" and ne: "noEntryList st \<noteq> []"
  shows "visited deps full g0 T0 (P @ [last (noEntryList st)]) (visit st)"
proof -
  define x where "x = last (noEntryList st)"
  define ns where "ns = butlast (noEntryList st)"
  have nsc: "noEntryList st = ns @ [x]" using append_butlast_last_id [OF ne] by (simp add: x_def ns_def)
  let ?ms = "succs g0 x"
  have st: "\<And>n. succs (tr_graph st) n = succs g0 n" "\<And>n. origin (tr_graph st) n = origin g0 n" "dom (tr_graph st) = dom g0"
    "\<And>n. entries (tr_graph st) n = entries g0 n - (\<Sum>p \<in> set P. int (count_list (succs g0 p) n))"
    "distinct (P @ ns @ [x])" "set (P @ ns @ [x]) = {n \<in> set full. entries (tr_graph st) n = 0}"
    "\<And>ys y zs. P = ys @ y # zs \<Longrightarrow> set (avail deps full y) \<subseteq> set ys"
    "filter (\<lambda>n. n \<in> set (called st)) P = called st"
    "\<And>n. n \<in> set P \<Longrightarrow> n \<in> set (called st) \<longleftrightarrow> n \<in> T0 \<or> (\<exists>p \<in> set (called st). n \<in> set (succs g0 p))"
    "targetNameSet st = (T0 \<union> (\<Union>p \<in> set (called st). set (succs g0 p))) - set (called st)"
    "\<forall>c \<in> set (calls st). snd c = deps (fst c)"
    using v nsc unfolding visited_def by simp_all
  have cf: "x \<in> set full" "entries (tr_graph st) x = 0" "x \<notin> set P" using st(5,6) by auto
  have cd: "x \<in> dom (tr_graph st)" using cf(1) g st(3) by (simp add: graph_of_def)
  have cP: "set (called st) \<subseteq> set P" using st(8) by (metis filter_is_subset)
  have le: "int (count_list ?ms n) \<le> entries (tr_graph st) n \<or> n \<notin> set ?ms" for n
  proof (cases "n \<in> set full")
    case True
    have "(\<Sum>p \<in> set (x # P). int (count_list (succs g0 p) n)) =
        int (count_list ?ms n) + (\<Sum>p \<in> set P. int (count_list (succs g0 p) n))"
      using cf(3) by simp
    then show ?thesis using remaining_entries [OF g True, of "set (x # P)"] st(4) [of n] by simp
  qed (use succs_full [OF g] in blast)
  have free: "n \<notin> set ?ms" if "n \<in> set (P @ ns @ [x])" for n
    using le [of n] that count_list_0_iff [of ?ms n] unfolding st(6) by auto
  let ?T = "if x \<in> targetNameSet st then set ?ms \<union> (targetNameSet st - {x}) else targetNameSet st"
  let ?c = "if x \<in> targetNameSet st then calls st @ [(x, deps x)] else calls st"
  let ?st = "st\<lparr>noEntryList := ns, calls := ?c, targetNameSet := ?T\<rparr>"
  have ox: "origin g0 x = deps x" using g cf(1) by (simp add: graph_of_def)
  have vs: "visit st = fold removeEdge ?ms ?st"
    using visit_eq [OF x_def cd] by (simp add: st(1,2) ox ns_def)
  have sub: "set ?ms \<subseteq> dom (tr_graph ?st)"
    using succs_full [OF g] g st(3) by (auto simp: graph_of_def)
  have "\<forall>n. int (count_list ?ms n) \<le> entries (tr_graph ?st) n \<or> n \<notin> set ?ms" using le by simp
  from removeEdges [OF sub this] obtain ps where ps: "distinct ps"
    "set ps = {n \<in> set ?ms. entries (tr_graph st) n = int (count_list ?ms n)}"
    "noEntryList (visit st) = ns @ ps"
    "\<And>n. entries (tr_graph (visit st)) n = entries (tr_graph st) n - int (count_list ?ms n)"
    "\<And>n. succs (tr_graph (visit st)) n = succs g0 n" "\<And>n. origin (tr_graph (visit st)) n = origin g0 n"
    "dom (tr_graph (visit st)) = dom g0" "targetNameSet (visit st) = ?T" "calls (visit st) = ?c"
    unfolding vs [symmetric] by (auto simp: st(1-3))
  have cl: "called (visit st) = called st @ (if x \<in> targetNameSet st then [x] else [])"
    using ps(9) by (simp add: called_def)
  have xT: "x \<in> targetNameSet st \<longleftrightarrow> x \<in> T0 \<or> (\<exists>p \<in> set (called st). x \<in> set (succs g0 p))"
    using st(10) cP cf(3) by auto
  have xms: "x \<notin> set ?ms" using free [of x] by simp
  have "visited deps full g0 T0 (P @ [x]) (visit st)" unfolding visited_def
  proof (intro conjI allI ballI impI)
    fix n
    show "entries (tr_graph (visit st)) n = entries g0 n - (\<Sum>p \<in> set (P @ [x]). int (count_list (succs g0 p) n))"
      using ps(4) [of n] st(4) [of n] cf(3) by simp
  next
    have "set ps \<inter> set (P @ ns @ [x]) = {}" using ps(2) free by blast
    then show "distinct ((P @ [x]) @ noEntryList (visit st))" using ps(1,3) st(5) by auto
  next
    show "set ((P @ [x]) @ noEntryList (visit st)) = {n \<in> set full. entries (tr_graph (visit st)) n = 0}"
    proof (rule set_eqI)
      fix n
      have "n \<in> set ((P @ [x]) @ noEntryList (visit st)) \<longleftrightarrow> n \<in> set (P @ ns @ [x]) \<or> n \<in> set ps" using ps(3) by auto
      also have "\<dots> \<longleftrightarrow> n \<in> set full \<and> entries (tr_graph (visit st)) n = 0"
      proof (cases "n \<in> set ?ms")
        case True
        then show ?thesis using ps(2,4) free succs_full [OF g True] by auto
      next
        case False
        then show ?thesis using ps(2,4) st(6) count_list_0_iff [of ?ms n] by auto
      qed
      finally show "n \<in> set ((P @ [x]) @ noEntryList (visit st)) \<longleftrightarrow>
        n \<in> {n \<in> set full. entries (tr_graph (visit st)) n = 0}" by simp
    qed
  next
    fix ys y zs assume eq: "P @ [x] = ys @ y # zs"
    have "set (avail deps full x) \<subseteq> set P"
      using all_deps_visited [OF g cf(1), of "set P"] cf(2) st(4) [of x] by simp
    then show "set (avail deps full y) \<subseteq> set ys"
      using eq st(7) by (cases zs rule: rev_cases) auto
  next
    have "filter (\<lambda>n. n \<in> set (called st) \<or> n = x) P = filter (\<lambda>n. n \<in> set (called st)) P"
      using cf(3) by (intro filter_cong) auto
    then show "filter (\<lambda>n. n \<in> set (called (visit st))) (P @ [x]) = called (visit st)"
      using cl st(8) cP cf(3) by auto
  next
    fix n assume n: "n \<in> set (P @ [x])"
    then have "n \<notin> set ?ms" using free by auto
    then show "n \<in> set (called (visit st)) \<longleftrightarrow> n \<in> T0 \<or> (\<exists>p \<in> set (called (visit st)). n \<in> set (succs g0 p))"
      using cl st(9) [of n] xT n cP cf(3) by auto
  next
    show "targetNameSet (visit st) = (T0 \<union> (\<Union>p \<in> set (called (visit st)). set (succs g0 p))) - set (called (visit st))"
    proof (cases "x \<in> targetNameSet st")
      case True
      have "set ?ms \<inter> set (called st) = {}" using free cP by auto
      moreover have "called (visit st) = called st @ [x]" "targetNameSet (visit st) = set ?ms \<union> (targetNameSet st - {x})"
        using True ps(8) cl by simp_all
      ultimately show ?thesis using st(10) xms by auto
    next
      case False
      then have "called (visit st) = called st" "targetNameSet (visit st) = targetNameSet st" using ps(8) cl by simp_all
      then show ?thesis using st(10) by simp
    qed
  qed (use ps st(11) in \<open>auto split: if_splits\<close>)
  then show ?thesis by (simp add: x_def)
qed

lemma visited_init:
  assumes "graph_of deps full full g0" "distinct full"
  shows "visited deps full g0 T0 [] \<lparr>tr_graph = g0, noEntryList = filter (\<lambda>n. avail deps full n = []) full,
    targetNameSet = T0, calls = []\<rparr>"
  using assms by (auto simp: visited_def called_def graph_of_def)

lemma travelLoop_visits:
  assumes "graph_of deps full full g0"
  shows "visited deps full g0 T0 P st \<Longrightarrow> length full < length P + n \<Longrightarrow>
    \<exists>P' st'. travelLoop n st = Some st' \<and> visited deps full g0 T0 P' st' \<and> noEntryList st' = []"
proof (induction n arbitrary: P st)
  case 0
  have "distinct P" "set P \<subseteq> set full" using 0(1) by (auto simp: visited_def)
  then have "length P \<le> length full" by (metis card_length card_mono distinct_card finite_set le_trans)
  then show ?case using 0(2) by simp
next
  case (Suc n)
  show ?case
  proof (cases "noEntryList st = []")
    case True
    then show ?thesis using Suc.prems(1) by auto
  next
    case False
    then show ?thesis using Suc.IH [OF visited_visit [OF assms Suc.prems(1) False]] Suc.prems(2) by simp
  qed
qed

text \<open>The travel for targets: it returns, with every type visited that all of whose dependencies were.\<close>

lemma travel_result:
  assumes "distinct full" "targets \<noteq> []"
  obtains g0 P st where "graph_of deps full full g0" "(\<forall>n \<in> set full. n \<notin> set (deps n)) \<longrightarrow> exact_edges deps full full g0"
    "topologicalTravel deps targets full = Some (calls st, if targetNameSet st = {} then Inr () else Inl Error)"
    "visited deps full g0 (set targets) P st" "noEntryList st = []"
proof -
  obtain g0 ne where mk: "makeDepndencyGraph deps full = (g0, ne)" by fastforce
  have b: "graph_of deps full full g0" "ne = filter (\<lambda>n. avail deps full n = []) full"
    "(\<forall>n \<in> set full. n \<notin> set (deps n)) \<longrightarrow> exact_edges deps full full g0"
    using build_graph [OF assms(1), of deps full] mk by (simp_all add: makeDepndencyGraph_def)
  have "\<exists>P' st'. travelLoop (length full + 1) \<lparr>tr_graph = g0, noEntryList = ne, targetNameSet = set targets, calls = []\<rparr> = Some st' \<and>
      visited deps full g0 (set targets) P' st' \<and> noEntryList st' = []"
    unfolding b(2) by (rule travelLoop_visits [OF b(1) visited_init [OF b(1) assms(1)]]) simp
  then show ?thesis using that b(1,3) mk assms(2) unfolding topologicalTravel_def by (auto simp: Let_def)
qed

text \<open>Whatever the dependencies, the travel ends, and calls each type at most once.\<close>

lemma travel_ends:
  assumes "distinct full"
  shows "\<exists>cs r. topologicalTravel deps targets full = Some (cs, r) \<and> distinct (map fst cs) \<and>
    set (map fst cs) \<subseteq> set full"
proof (cases "targets = []")
  case True
  then show ?thesis by (simp add: topologicalTravel_def)
next
  case False
  obtain g0 P st where t: "topologicalTravel deps targets full = Some (calls st, if targetNameSet st = {} then Inr () else Inl Error)"
    "visited deps full g0 (set targets) P st"
    using travel_result [OF assms False] .
  have "distinct (called st)" using visitedD(2,5) [OF t(2)] by (metis distinct_filter)
  moreover have "set (called st) \<subseteq> set P" using visitedD(5) [OF t(2)] by (metis filter_is_subset)
  moreover have "set P \<subseteq> set full" using visitedD(3) [OF t(2)] by auto
  ultimately show ?thesis using t(1) by (auto simp: called_def)
qed

definition dep_edges :: "(string \<Rightarrow> string list) \<Rightarrow> string list \<Rightarrow> (string \<times> string) set" where
  "dep_edges deps full = {(d, n). n \<in> set full \<and> d \<in> set full \<and> d \<in> set (deps n)}"

lemma avail_set: "n \<in> set full \<Longrightarrow> d \<in> set (avail deps full n) \<longleftrightarrow> (d, n) \<in> dep_edges deps full"
  by (auto simp: getAvailableDependencies_def dep_edges_def)

lemma exact_succs:
  "exact_edges deps full full g0 \<Longrightarrow> n \<in> set (succs g0 p) \<longleftrightarrow> (p, n) \<in> dep_edges deps full"
  using count_list_0_iff [of "succs g0 p" n] count_list_0_iff [of "avail deps full n" p] avail_set [of n full p deps]
  by (auto simp: exact_edges_def dep_edges_def split: if_splits)

lemma dep_edges_wf: "acyclic (dep_edges deps full) \<Longrightarrow> wf (dep_edges deps full)"
proof -
  have "dep_edges deps full \<subseteq> set full \<times> set full" by (auto simp: dep_edges_def)
  then have "finite (dep_edges deps full)" by (rule finite_subset) simp
  then show "acyclic (dep_edges deps full) \<Longrightarrow> wf (dep_edges deps full)" by (rule finite_acyclic_wf)
qed

text \<open>Without cycles every type is visited.\<close>

lemma acyclic_all_visited:
  assumes g: "graph_of deps full full g0" "exact_edges deps full full g0" and v: "visited deps full g0 T P st"
    and ne: "noEntryList st = []" and ac: "acyclic (dep_edges deps full)"
  shows "set P = set full"
proof (rule ccontr)
  let ?U = "set full - set P"
  assume "set P \<noteq> set full"
  then have U: "?U \<noteq> {}" using v by (auto simp: visited_def)
  from dep_edges_wf [OF ac] obtain n where n: "n \<in> ?U" "\<And>d. (d, n) \<in> dep_edges deps full \<Longrightarrow> d \<notin> ?U"
    using U wf_eq_minimal by (metis (no_types, lifting) ex_in_conv)
  have sub: "set (avail deps full n) \<subseteq> set P" using n avail_set [of n full] by (auto simp: dep_edges_def)
  have "(\<Sum>p \<in> set P. int (count_list (succs g0 p) n)) = int (\<Sum>p \<in> set P. count_list (avail deps full n) p)"
    using g(2) n(1) by (simp add: exact_edges_def)
  also have "\<dots> = int (length (avail deps full n))"
    using sub sum_count_list [of "set P" "avail deps full n"] by (simp add: subset_iff)
  finally have "(\<Sum>p \<in> set P. int (count_list (succs g0 p) n)) = int (length (avail deps full n))" .
  moreover have "entries g0 n = int (length (avail deps full n))" using g(1) n(1) by (simp add: graph_of_def)
  moreover have e: "entries (tr_graph st) n = entries g0 n - (\<Sum>p \<in> set P. int (count_list (succs g0 p) n))"
    "set (P @ []) = {n \<in> set full. entries (tr_graph st) n = 0}"
    using visitedD(1,3) [OF v] ne by simp_all
  ultimately have "entries (tr_graph st) n = 0" by simp
  then have "n \<in> set P" using e(2) n(1) by simp
  then show False using n(1) by simp
qed

lemma called_dependents:
  assumes v: "visited deps full g0 T P st" and P: "set P = set full" and T: "T \<subseteq> set full"
    and ex: "exact_edges deps full full g0" and wf: "wf (dep_edges deps full)"
  shows "set (called st) = {n. \<exists>t \<in> T. (t, n) \<in> (dep_edges deps full)\<^sup>*}" "targetNameSet st = {}"
proof -
  let ?E = "dep_edges deps full"
  have sub: "set (called st) \<subseteq> set full" using visitedD(5) [OF v] P by (metis filter_is_subset)
  have cl: "n \<in> set (called st) \<longleftrightarrow> n \<in> T \<or> (\<exists>p \<in> set (called st). (p, n) \<in> ?E)" if "n \<in> set full" for n
    using visitedD(6) [OF v, of n] that P exact_succs [OF ex] by simp
  have step: "n \<in> set (called st)" if "p \<in> set (called st)" "(p, n) \<in> ?E" for p n
    using that cl [of n] by (auto simp: dep_edges_def)
  show "targetNameSet st = {}"
    unfolding visitedD(7) [OF v] using cl T step exact_succs [OF ex] by blast
  have "n \<in> set (called st)" if "(t, n) \<in> ?E\<^sup>*" "t \<in> T" for t n
    using that(1) by (induction rule: rtrancl_induct) (use that(2) T cl step in blast)+
  moreover have "n \<in> set (called st) \<longrightarrow> (\<exists>t \<in> T. (t, n) \<in> ?E\<^sup>*)" for n
    using wf
  proof (induction n rule: wf_induct_rule)
    case (less n)
    then show ?case using cl [of n] sub by (metis rtrancl.simps subsetD)
  qed
  ultimately show "set (called st) = {n. \<exists>t \<in> T. (t, n) \<in> ?E\<^sup>*}" by blast
qed

lemma before_in_distinct:
  assumes "distinct (as @ u # bs)" "w \<in> set as" "i < j" "j < length (as @ u # bs)" "(as @ u # bs) ! i = u"
  shows "(as @ u # bs) ! j \<noteq> w"
proof
  assume w: "(as @ u # bs) ! j = w"
  have "i = length as" using assms nth_eq_iff_index_eq [OF assms(1), of i "length as"] by simp
  then have "w \<in> set bs" using w assms(3,4) by (auto simp: nth_append nth_Cons' split: if_splits)
  then show False using assms(1,2) by auto
qed

section \<open>Properties\<close>

text \<open>
  C7: components are visited after their dependencies.  For distinct component types without cyclic
  dependencies, the travel over some of them returns normally; it calls the callback once for every
  target and for everything that depends on a target, directly or not, and for nothing else, with the
  declared dependencies; and no call comes before the call for one of its dependencies.
\<close>

theorem topological_travel_order:
  assumes "distinct full" "targets \<noteq> []" "set targets \<subseteq> set full" "acyclic (dep_edges deps full)"
  shows "\<exists>cs. topologicalTravel deps targets full = Some (cs, Inr ()) \<and> distinct (map fst cs) \<and>
    set (map fst cs) = {n. \<exists>t \<in> set targets. (t, n) \<in> (dep_edges deps full)\<^sup>*} \<and>
    (\<forall>c \<in> set cs. snd c = deps (fst c)) \<and>
    (\<forall>i j. i < j \<longrightarrow> j < length cs \<longrightarrow> fst (cs ! j) \<notin> set (deps (fst (cs ! i))))"
proof -
  obtain g0 P st where t: "graph_of deps full full g0" "(\<forall>n \<in> set full. n \<notin> set (deps n)) \<longrightarrow> exact_edges deps full full g0"
    "topologicalTravel deps targets full = Some (calls st, if targetNameSet st = {} then Inr () else Inl Error)"
    "visited deps full g0 (set targets) P st" "noEntryList st = []"
    using travel_result [OF assms(1,2)] .
  have "\<forall>n \<in> set full. n \<notin> set (deps n)" using assms(4) by (auto simp: acyclic_def dep_edges_def)
  then have ex: "exact_edges deps full full g0" using t(2) by simp
  note P = acyclic_all_visited [OF t(1) ex t(4,5) assms(4)]
  note cd = called_dependents [OF t(4) P assms(3) ex dep_edges_wf [OF assms(4)]]
  have sub: "filter (\<lambda>n. n \<in> set (called st)) P = called st" using visitedD(5) [OF t(4)] .
  then have dist: "distinct (called st)" using visitedD(2) [OF t(4)] by (metis distinct_filter)
  have order: "called st ! j \<notin> set (deps (called st ! i))" if ij: "i < j" "j < length (called st)" for i j
  proof
    let ?Q = "\<lambda>n. n \<in> set (called st)" and ?u = "called st ! i" and ?w = "called st ! j"
    assume "?w \<in> set (deps ?u)"
    have in_called: "?u \<in> set (called st)" "?w \<in> set (called st)" using ij by simp_all
    moreover have "set (called st) \<subseteq> set P" using sub by (metis filter_is_subset)
    ultimately have in_P: "?u \<in> set P" "?w \<in> set P" by auto
    then obtain ys zs where yz: "P = ys @ ?u # zs" by (meson split_list)
    have "?w \<in> set (avail deps full ?u)"
      using \<open>?w \<in> set (deps ?u)\<close> in_P P by (simp add: getAvailableDependencies_def)
    then have w: "?w \<in> set (filter ?Q ys)" using visitedD(4) [OF t(4) yz] in_called by auto
    have "called st = filter ?Q ys @ ?u # filter ?Q zs" using sub in_called(1) yz by (metis filter.simps(2) filter_append)
    then obtain as bs where ab: "called st = as @ ?u # bs" "?w \<in> set as" using w by blast
    have "(as @ ?u # bs) ! j \<noteq> ?w"
      by (rule before_in_distinct [where i = i]) (use ab dist ij in metis)+
    then show False using ab(1) by metis
  qed
  show ?thesis
    using t(3) cd dist visitedD(8) [OF t(4)] order by (intro exI [of _ "calls st"]) (auto simp: called_def)
qed

theorem topological_travel_order_witness:
  "let deps = (\<lambda>n. if n = ''legend'' then [''series''] else if n = ''series'' then [''grid'', ''xAxis''] else []);
       full = [''legend'', ''series'', ''grid'', ''title'']
   in \<exists>cs. topologicalTravel deps [''series'', ''grid''] full = Some (cs, Inr ()) \<and>
        set (map fst cs) = {n. \<exists>t \<in> {''series'', ''grid''}. (t, n) \<in> (dep_edges deps full)\<^sup>*}"
proof -
  let ?deps = "\<lambda>n. if n = ''legend'' then [''series''] else if n = ''series'' then [''grid'', ''xAxis''] else []"
  let ?full = "[''legend'', ''series'', ''grid'', ''title'']"
  let ?rank = "\<lambda>n. if n = ''legend'' then 2 else if n = ''series'' then 1 else (0::nat)"
  have "dep_edges ?deps ?full \<subseteq> measure ?rank" by (auto simp: dep_edges_def split: if_splits)
  then have "acyclic (dep_edges ?deps ?full)" using wf_acyclic wf_measure wf_subset by blast
  from topological_travel_order [OF _ _ _ this, of "[''series'', ''grid'']"] show ?thesis by (auto simp: Let_def)
qed

text \<open>
  C31: the travel throws when a target cannot be reached.  If a target is no known type, or lies in a
  set of types each of which has a dependency inside the set (a cycle), an error is thrown, and no such
  type is called before.
\<close>

theorem topological_travel_error:
  assumes "distinct full" "targets \<noteq> []"
    "set targets \<inter> S \<noteq> {}" "\<forall>n \<in> S. n \<notin> set full \<or> (\<exists>d \<in> S. d \<in> set full \<and> d \<in> set (deps n))"
  shows "\<exists>cs. topologicalTravel deps targets full = Some (cs, Inl Error) \<and> fst ` set cs \<inter> S = {}"
proof -
  obtain g0 P st where t: "topologicalTravel deps targets full = Some (calls st, if targetNameSet st = {} then Inr () else Inl Error)"
    "visited deps full g0 (set targets) P st"
    using travel_result [OF assms(1,2)] .
  have "set P \<inter> S = {}"
  proof -
    have "set ys \<inter> S = {}" if "P = ys @ zs" for ys zs
      using that
    proof (induction ys arbitrary: zs rule: rev_induct)
      case (snoc y ys)
      have "set ys \<inter> S = {}" using snoc.IH [of "y # zs"] snoc.prems by simp
      moreover have "set (avail deps full y) \<subseteq> set ys" using visitedD(4) [OF t(2), of ys y zs] snoc.prems by simp
      moreover have "y \<in> set full" using visitedD(3) [OF t(2)] snoc.prems by auto
      ultimately have "y \<notin> S" using assms(4) by (fastforce simp: getAvailableDependencies_def)
      then show ?case using \<open>set ys \<inter> S = {}\<close> by simp
    qed simp
    from this [of P "[]"] show ?thesis by simp
  qed
  moreover have "set (called st) \<subseteq> set P" using visitedD(5) [OF t(2)] by (metis filter_is_subset)
  ultimately have c: "set (called st) \<inter> S = {}" by blast
  then have "targetNameSet st \<noteq> {}" using visitedD(7) [OF t(2)] assms(3) by blast
  then show ?thesis using t(1) c by (auto simp: called_def)
qed

theorem topological_travel_error_witness:
  "\<exists>cs. topologicalTravel (\<lambda>n. if n = ''a'' then [''b''] else if n = ''b'' then [''a''] else []) [''c'', ''a''] [''a'', ''b'', ''c''] =
     Some (cs, Inl Error)"
  using topological_travel_error [of "[''a'', ''b'', ''c'']" "[''c'', ''a'']" "{''a'', ''b''}"
      "\<lambda>n. if n = ''a'' then [''b''] else if n = ''b'' then [''a''] else []"]
  by auto

end
