(* ===== verification/Class_Registry.thy ===== *)
theory Class_Registry
  imports Component_Deps "HOL-Library.AList"
begin

text \<open>
  The registry of component classes (\<^verbatim>\<open>src/html/js/echarts.js\<close>, lines 8685-8970 and
  16106-16143): classes are stored by main type, either directly or in a container of sub types.
  Classes are references; the storage object keeps its keys in the order of their first insertion.
  Type names are not property names of \<^verbatim>\<open>Object.prototype\<close> and no integers.
\<close>

section \<open>Definitions\<close>

type_synonym clz = nat

datatype stored = Single clz | Container "(string \<times> clz) list"

type_synonym storage = "(string \<times> stored) list"

record type_info =
  main :: string
  sub :: string

fun split_dot :: "string \<Rightarrow> string list" where
  "split_dot [] = [[]]"
| "split_dot (c # cs) =
     (if c = CHR ''.'' then [] # split_dot cs
      else case split_dot cs of [] \<Rightarrow> [[c]] | x # xs \<Rightarrow> (c # x) # xs)"

definition parseClassType :: "string \<Rightarrow> type_info" where
  "parseClassType t =
     (if t = [] then \<lparr>main = [], sub = []\<rparr>
      else let arr = split_dot t in \<lparr>main = arr ! 0, sub = if 1 < length arr then arr ! 1 else []\<rparr>)"

definition word_char :: "char \<Rightarrow> bool" where
  "word_char c \<longleftrightarrow>
     (let n = of_char c :: nat in 97 \<le> n \<and> n \<le> 122 \<or> 65 \<le> n \<and> n \<le> 90 \<or> 48 \<le> n \<and> n \<le> 57 \<or> n = 95)"

text \<open>The regular expression that component types have to match.\<close>

definition checkClassType :: "string \<Rightarrow> bool" where
  "checkClassType t \<longleftrightarrow>
     (let arr = split_dot t in length arr \<le> 2 \<and> list_all (\<lambda>w. w \<noteq> [] \<and> list_all word_char w) arr)"

definition IS_CONTAINER :: string where
  "IS_CONTAINER = ''___EC__COMPONENT__CONTAINER___''"

definition makeContainer :: "string \<Rightarrow> storage \<Rightarrow> (string \<times> clz) list" where
  "makeContainer m st = (case map_of st m of Some (Container cs) \<Rightarrow> cs | _ \<Rightarrow> [])"

text \<open>\<^verbatim>\<open>registerClass\<close>, with the type that the class or its prototype declares.\<close>

definition registerClass :: "string \<Rightarrow> clz \<Rightarrow> storage \<Rightarrow> storage result" where
  "registerClass fullType c st =
     (if fullType = [] then Inr st
      else if \<not> checkClassType fullType then Inl Error
      else let info = parseClassType fullType
           in if sub info = [] then Inr (AList.update (main info) (Single c) st)
              else if sub info \<noteq> IS_CONTAINER
              then Inr (AList.update (main info)
                     (Container (AList.update (sub info) c (makeContainer (main info) st))) st)
              else Inr st)"

definition getClass :: "string \<Rightarrow> string \<Rightarrow> bool \<Rightarrow> storage \<Rightarrow> clz option result" where
  "getClass mainType subType throwWhenNotFound st =
     (let c = (case map_of st mainType of
                 None \<Rightarrow> None
               | Some (Single c) \<Rightarrow> Some c
               | Some (Container cs) \<Rightarrow> if subType = [] then None else map_of cs subType)
      in if throwWhenNotFound \<and> c = None then Inl Error else Inr c)"

definition getClassesByMainType :: "string \<Rightarrow> storage \<Rightarrow> clz option list" where
  "getClassesByMainType t st =
     (case map_of st (main (parseClassType t)) of
        Some (Container cs) \<Rightarrow> map (\<lambda>kv. Some (snd kv)) cs
      | Some (Single c) \<Rightarrow> [Some c]
      | None \<Rightarrow> [None])"

definition hasClass :: "string \<Rightarrow> storage \<Rightarrow> bool" where
  "hasClass t st \<longleftrightarrow> map_of st (main (parseClassType t)) \<noteq> None"

definition getAllClassMainTypes :: "storage \<Rightarrow> string list" where
  "getAllClassMainTypes st = map fst st"

definition hasSubTypes :: "string \<Rightarrow> storage \<Rightarrow> bool" where
  "hasSubTypes t st \<longleftrightarrow>
     (case map_of st (main (parseClassType t)) of Some (Container _) \<Rightarrow> True | _ \<Rightarrow> False)"

text \<open>
  Defaulters compute a sub type from an option, which is a parameter; an absent sub type is the empty
  string.
\<close>

type_synonym 'o defaulters = "string \<rightharpoonup> ('o \<Rightarrow> string)"

definition registerSubTypeDefaulter :: "string \<Rightarrow> ('o \<Rightarrow> string) \<Rightarrow> 'o defaulters \<Rightarrow> 'o defaulters" where
  "registerSubTypeDefaulter t f ds = ds(main (parseClassType t) \<mapsto> f)"

definition determineSubType :: "string \<Rightarrow> string \<Rightarrow> 'o \<Rightarrow> storage \<Rightarrow> 'o defaulters \<Rightarrow> string" where
  "determineSubType componentType optionType opt st ds =
     (if optionType \<noteq> [] then optionType
      else case ds (main (parseClassType componentType)) of
             Some f \<Rightarrow> if hasSubTypes componentType st then f opt else optionType
           | None \<Rightarrow> optionType)"

text \<open>Unique ids: a counter with a random start.\<close>

fun digits :: "nat \<Rightarrow> string" where
  "digits n = (if n < 10 then [char_of (48 + n)] else digits (n div 10) @ [char_of (48 + n mod 10)])"

definition getUID :: "string \<Rightarrow> nat \<Rightarrow> string \<times> nat" where
  "getUID t base = (t @ ''_'' @ digits base, base + 1)"

definition registerAll :: "(string \<times> clz) list \<Rightarrow> storage \<Rightarrow> storage result" where
  "registerAll cs st =
     fold (\<lambda>(t, c) r. case r of Inl e \<Rightarrow> Inl e | Inr st \<Rightarrow> registerClass t c st) cs (Inr st)"

section \<open>Type names\<close>

lemma split_dot_free: "CHR ''.'' \<notin> set xs \<Longrightarrow> split_dot xs = [xs]"
  by (induction xs) auto

lemma split_dot_sep: "CHR ''.'' \<notin> set xs \<Longrightarrow> split_dot (xs @ CHR ''.'' # ys) = xs # split_dot ys"
  by (induction xs) auto

lemma word_char_dot: "list_all word_char w \<Longrightarrow> CHR ''.'' \<notin> set w"
  by (induction w) (auto simp: word_char_def)

definition name_ok :: "string \<Rightarrow> bool" where
  "name_ok w \<longleftrightarrow> w \<noteq> [] \<and> list_all word_char w"

text \<open>The full type of a main type and a sub type.\<close>

definition full_type :: "string \<Rightarrow> string \<Rightarrow> string" where
  "full_type m s = (if s = [] then m else m @ ''.'' @ s)"

lemma full_type_ok:
  assumes "name_ok m" "s = [] \<or> name_ok s"
  shows "checkClassType (full_type m s)" "parseClassType (full_type m s) = \<lparr>main = m, sub = s\<rparr>" "full_type m s \<noteq> []"
  using assms word_char_dot [of m] word_char_dot [of s]
  by (auto simp: checkClassType_def parseClassType_def full_type_def name_ok_def split_dot_free split_dot_sep Let_def)

section \<open>Registering and looking up\<close>

text \<open>
  A list of registrations that uses every main type either always with or always without a sub type.
\<close>

definition unmixed :: "(string \<times> string \<times> clz) list \<Rightarrow> bool" where
  "unmixed rs \<longleftrightarrow> (\<forall>(m, s, c) \<in> set rs. name_ok m \<and> (s = [] \<or> name_ok s) \<and> s \<noteq> IS_CONTAINER) \<and>
     (\<forall>(m, s, c) \<in> set rs. \<forall>(m', s', c') \<in> set rs. m = m' \<longrightarrow> (s = [] \<longleftrightarrow> s' = []))"

definition register_reg :: "(string \<times> string \<times> clz) list \<Rightarrow> storage \<Rightarrow> storage result" where
  "register_reg rs st = registerAll (map (\<lambda>(m, s, c). (full_type m s, c)) rs) st"

definition last_reg :: "(string \<times> string \<times> clz) list \<Rightarrow> string \<Rightarrow> string \<Rightarrow> clz option" where
  "last_reg rs m s = map_of (rev (map (\<lambda>(m, s, c). ((m, s), c)) rs)) (m, s)"

lemma last_reg_snoc [simp]:
  "last_reg (rs @ [(m, s, c)]) m' s' = (if m' = m \<and> s' = s then Some c else last_reg rs m' s')"
  by (auto simp: last_reg_def)

lemma registerAll_snoc:
  "registerAll (cs @ [(t, c)]) st = (case registerAll cs st of Inl e \<Rightarrow> Inl e | Inr st \<Rightarrow> registerClass t c st)"
  by (simp add: registerAll_def)

lemma register_reg_snoc:
  "register_reg (rs @ [(m, s, c)]) st = (case register_reg rs st of Inl e \<Rightarrow> Inl e | Inr st \<Rightarrow> registerClass (full_type m s) c st)"
  by (simp add: register_reg_def registerAll_snoc)

text \<open>What the storage holds after the registrations.\<close>

definition stores :: "(string \<times> string \<times> clz) list \<Rightarrow> storage \<Rightarrow> bool" where
  "stores rs st \<longleftrightarrow> distinct (map fst st) \<and> set (map fst st) = fst ` set rs \<and>
     (\<forall>m. case map_of st m of
            None \<Rightarrow> True
          | Some (Single c) \<Rightarrow> last_reg rs m [] = Some c \<and> (\<forall>(m', s, c) \<in> set rs. m' = m \<longrightarrow> s = [])
          | Some (Container cs) \<Rightarrow> (\<forall>s. map_of cs s = last_reg rs m s) \<and> (\<forall>(m', s, c) \<in> set rs. m' = m \<longrightarrow> s \<noteq> []))"

lemma last_reg_None: "m \<notin> fst ` set rs \<Longrightarrow> last_reg rs m s = None"
  by (auto simp: last_reg_def map_of_eq_None_iff image_iff)

lemma last_reg_SomeD: "last_reg rs m s = Some c \<Longrightarrow> (m, s, c) \<in> set rs"
  by (auto simp: last_reg_def dest!: map_of_SomeD)

lemma storesD:
  assumes "stores rs st"
  shows "distinct (map fst st)" "set (map fst st) = fst ` set rs"
    "map_of st m = Some (Single c) \<Longrightarrow> last_reg rs m [] = Some c \<and> (\<forall>s c'. (m, s, c') \<in> set rs \<longrightarrow> s = [])"
    "map_of st m = Some (Container cs) \<Longrightarrow> (\<forall>s. map_of cs s = last_reg rs m s) \<and> (\<forall>s c'. (m, s, c') \<in> set rs \<longrightarrow> s \<noteq> [])"
  using assms by (force simp: stores_def split: option.splits stored.splits)+

lemma stores_register:
  assumes st: "stores rs st" and u: "unmixed (rs @ [(m, s, c)])"
  shows "\<exists>st'. registerClass (full_type m s) c st = Inr st' \<and> stores (rs @ [(m, s, c)]) st'"
proof -
  have ok: "name_ok m" "s = [] \<or> name_ok s" "s \<noteq> IS_CONTAINER" using u by (auto simp: unmixed_def)
  have same: "s' = [] \<longleftrightarrow> s = []" if "(m, s', c') \<in> set rs" for s' c'
    using u that by (fastforce simp: unmixed_def)
  note f = full_type_ok [OF ok(1,2)]
  note D = storesD [OF st]
  show ?thesis
  proof (cases "s = []")
    case True
    have "stores (rs @ [(m, s, c)]) (AList.update m (Single c) st)"
      unfolding stores_def
    proof (intro conjI allI)
      show "distinct (map fst (AList.update m (Single c) st))" using D(1) by (rule distinct_update)
      show "set (map fst (AList.update m (Single c) st)) = fst ` set (rs @ [(m, s, c)])"
        using D(2) by (simp add: dom_update)
      fix m'
      show "case map_of (AList.update m (Single c) st) m' of None \<Rightarrow> True
        | Some (Single c') \<Rightarrow> last_reg (rs @ [(m, s, c)]) m' [] = Some c' \<and> (\<forall>(m'', s', c'') \<in> set (rs @ [(m, s, c)]). m'' = m' \<longrightarrow> s' = [])
        | Some (Container cs) \<Rightarrow> (\<forall>s'. map_of cs s' = last_reg (rs @ [(m, s, c)]) m' s') \<and>
            (\<forall>(m'', s', c'') \<in> set (rs @ [(m, s, c)]). m'' = m' \<longrightarrow> s' \<noteq> [])"
        using True same D(3,4) [of m'] by (auto simp: update_conv' split: option.splits stored.splits) blast+
    qed
    then show ?thesis using f ok True by (auto simp: registerClass_def Let_def)
  next
    case False
    have mc: "map_of (makeContainer m st) s' = last_reg rs m s'" for s'
    proof (cases "map_of st m")
      case None
      then have "m \<notin> fst ` set rs" using D(2) by (auto simp: map_of_eq_None_iff)
      then show ?thesis using None by (simp add: makeContainer_def last_reg_None)
    next
      case (Some v)
      then show ?thesis using D(3,4) [of m] same False last_reg_SomeD by (cases v) (fastforce simp: makeContainer_def)+
    qed
    let ?v = "Container (AList.update s c (makeContainer m st))"
    have "stores (rs @ [(m, s, c)]) (AList.update m ?v st)"
      unfolding stores_def
    proof (intro conjI allI)
      show "distinct (map fst (AList.update m ?v st))" using D(1) by (rule distinct_update)
      show "set (map fst (AList.update m ?v st)) = fst ` set (rs @ [(m, s, c)])"
        using D(2) by (simp add: dom_update)
      fix m'
      show "case map_of (AList.update m ?v st) m' of None \<Rightarrow> True
        | Some (Single c') \<Rightarrow> last_reg (rs @ [(m, s, c)]) m' [] = Some c' \<and> (\<forall>(m'', s', c'') \<in> set (rs @ [(m, s, c)]). m'' = m' \<longrightarrow> s' = [])
        | Some (Container cs) \<Rightarrow> (\<forall>s'. map_of cs s' = last_reg (rs @ [(m, s, c)]) m' s') \<and>
            (\<forall>(m'', s', c'') \<in> set (rs @ [(m, s, c)]). m'' = m' \<longrightarrow> s' \<noteq> [])"
        using False same D(3,4) [of m'] by (auto simp: update_conv' mc split: option.splits stored.splits) blast+
    qed
    then show ?thesis using f ok False by (auto simp: registerClass_def Let_def)
  qed
qed

lemma unmixed_append: "unmixed (rs @ qs) \<Longrightarrow> unmixed rs"
  by (fastforce simp: unmixed_def)

lemma stores_register_reg: "unmixed rs \<Longrightarrow> \<exists>st. register_reg rs [] = Inr st \<and> stores rs st"
proof (induction rs rule: rev_induct)
  case Nil
  then show ?case by (simp add: register_reg_def registerAll_def stores_def)
next
  case (snoc r rs)
  obtain m s c where r: "r = (m, s, c)" by (cases r)
  obtain st where "register_reg rs [] = Inr st" "stores rs st" using snoc unmixed_append by blast
  then show ?case using stores_register [of rs st m s c] snoc.prems by (auto simp: r register_reg_snoc)
qed

section \<open>Properties\<close>

text \<open>
  the registry returns the last registered class.  After any sequence of registrations with
  well-formed names in which a main type is used either always with or always without sub types, the
  lookup of a registered type returns the class of its last registration, the lookup of any other sub
  type of a container fails (and throws if asked to), and the main types are listed once each.
\<close>

theorem registry_lookup:
  assumes "unmixed rs"
  shows "\<exists>st. register_reg rs [] = Inr st \<and>
    (\<forall>m s c. last_reg rs m s = Some c \<longrightarrow> getClass m s b st = Inr (Some c)) \<and>
    (\<forall>m s c s'. (m, s, c) \<in> set rs \<longrightarrow> s \<noteq> [] \<longrightarrow> last_reg rs m s' = None \<longrightarrow>
       getClass m s' b st = (if b then Inl Error else Inr None)) \<and>
    distinct (getAllClassMainTypes st) \<and> set (getAllClassMainTypes st) = fst ` set rs"
proof -
  obtain st where st: "register_reg rs [] = Inr st" "stores rs st" using stores_register_reg [OF assms] by blast
  note D = storesD [OF st(2)]
  have known: "map_of st m \<noteq> None" if "(m, s, c) \<in> set rs" for m s c
  proof -
    have "m \<in> fst ` set st" using that D(2) image_eqI [of m fst "(m, s, c)" "set rs"] by simp
    then show ?thesis by (simp add: map_of_eq_None_iff)
  qed
  have "getClass m s b st = Inr (Some c)" if l: "last_reg rs m s = Some c" for m s c
  proof -
    have m: "(m, s, c) \<in> set rs" using last_reg_SomeD [OF l] .
    then obtain v where v: "map_of st m = Some v" using known by blast
    show ?thesis
    proof (cases v)
      case (Single c')
      then have "last_reg rs m [] = Some c'" "s = []" using D(3) [of m c'] v m by blast+
      then show ?thesis using l v Single by (simp add: getClass_def)
    next
      case (Container cs)
      then have "map_of cs s = Some c" "s \<noteq> []" using D(4) [of m cs] v m l by (simp, blast)
      then show ?thesis using v Container by (simp add: getClass_def)
    qed
  qed
  moreover have "getClass m s' b st = (if b then Inl Error else Inr None)"
    if r: "(m, s, c) \<in> set rs" "s \<noteq> []" "last_reg rs m s' = None" for m s c s'
  proof -
    obtain v where v: "map_of st m = Some v" using known [OF r(1)] by blast
    show ?thesis
    proof (cases v)
      case (Single c')
      then show ?thesis using D(3) [of m c'] v r by blast
    next
      case (Container cs)
      then have "map_of cs s' = None" using D(4) [of m cs] v r(3) by simp
      then show ?thesis using v Container by (simp add: getClass_def)
    qed
  qed
  ultimately show ?thesis using st(1) D(1,2) unfolding getAllClassMainTypes_def by blast
qed

theorem registry_lookup_witness:
  "\<exists>st. register_reg [(''series'', ''bar'', 1), (''grid'', [], 2), (''series'', ''bar'', 3)] [] = Inr st \<and>
     getClass ''series'' ''bar'' True st = Inr (Some 3) \<and> getClass ''series'' ''pie'' True st = Inl Error"
proof -
  let ?rs = "[(''series'', ''bar'', 1), (''grid'', [], 2), (''series'', ''bar'', 3)] :: (string \<times> string \<times> clz) list"
  have "unmixed ?rs" by (simp add: unmixed_def name_ok_def word_char_def IS_CONTAINER_def)
  from registry_lookup [OF this, of True] obtain st where st: "register_reg ?rs [] = Inr st"
    "\<forall>m s c. last_reg ?rs m s = Some c \<longrightarrow> getClass m s True st = Inr (Some c)"
    "\<forall>m s c s'. (m, s, c) \<in> set ?rs \<longrightarrow> s \<noteq> [] \<longrightarrow> last_reg ?rs m s' = None \<longrightarrow>
      getClass m s' True st = (if True then Inl Error else Inr None)"
    by (elim exE conjE)
  have "getClass ''series'' ''bar'' True st = Inr (Some 3)"
    by (rule st(2) [rule_format]) (simp add: last_reg_def)
  moreover have "getClass ''series'' ''pie'' True st = Inl Error"
    using st(3) [rule_format, of "''series''" "''bar''" 3 "''pie''"] by (simp add: last_reg_def)
  ultimately show ?thesis using st(1) by blast
qed

text \<open>
  C21: the models of all registered components can always be travelled.  Whatever classes have been
  registered, the list of all main types that the registry hands to the topological travel has no
  duplicates, so the travel ends for any targets and any dependencies.
\<close>

theorem registered_travel_terminates:
  assumes "registerAll cs [] = Inr st"
  shows "\<exists>calls r. topologicalTravel deps targets (getAllClassMainTypes st) = Some (calls, r) \<and>
    set (map fst calls) \<subseteq> set (getAllClassMainTypes st)"
proof -
  have "distinct (map fst st')" if "registerClass t c st = Inr st'" "distinct (map fst st)" for t c st st'
    using that by (auto simp: registerClass_def Let_def distinct_update split: if_splits)
  then have "distinct (map fst st)" using assms
  proof (induction cs arbitrary: st rule: rev_induct)
    case Nil
    then show ?case by (simp add: registerAll_def)
  next
    case (snoc x xs)
    then show ?case by (cases x) (auto simp: registerAll_snoc split: sum.splits)
  qed
  then show ?thesis unfolding getAllClassMainTypes_def using travel_ends by blast
qed

theorem registered_travel_terminates_witness:
  "\<exists>st calls r. registerAll [(''series.bar'', 1), (''grid'', 2)] [] = Inr st \<and>
     topologicalTravel (\<lambda>_. [''grid'', ''series'']) [''series''] (getAllClassMainTypes st) = Some (calls, r)"
proof -
  have "\<exists>st. registerAll [(''series.bar'', 1), (''grid'', 2)] [] = Inr st"
    by (simp add: registerAll_def registerClass_def checkClassType_def parseClassType_def word_char_def IS_CONTAINER_def Let_def)
  then obtain st where st: "registerAll [(''series.bar'', 1), (''grid'', 2)] [] = Inr st" by blast
  from registered_travel_terminates [OF st] st show ?thesis by blast
qed

end
