(* ===== verification/Raft.thy ===== *)
theory Raft
  imports Prelude
begin

text \<open>
  The handlers of a Raft server (\<^verbatim>\<open>src/source/raft/raft_server.cpp\<close> and
  \<^verbatim>\<open>src/star/raft/common.h\<close>).  Every handler is a function on the fields of the server that it
  reads and writes; what it hands to another fibre (\<^verbatim>\<open>go\<close>), to the network or to the channel
  of the key-value server is part of its result.  Timers are not modelled: \<^verbatim>\<open>update()\<close> only
  restarts them, and a timer may expire at any time.  The 32-bit integers do not overflow here.
  \<^term>\<open>None\<close> as the result of a handler stands for undefined behaviour of the program (an access
  outside the vector), and \<^term>\<open>None\<close> in a field of a reply for an uninitialised value.
\<close>

section \<open>Definitions\<close>

record LogEntry =
  le_index :: int
  le_term :: int
  le_value :: string

datatype State = Leader_State | Follower_State | Candidate_State

record AppendLogEntryArgs =
  ae_term :: int
  ae_leaderId :: int
  ae_prevLogIndex :: int
  ae_prevLogTerm :: int
  ae_entries :: "LogEntry list"
  ae_leaderCommit :: int

record AppendLogEntryReply =
  ar_term :: int
  ar_success :: bool
  ar_nextTryLog :: "int option"

record RequestVoteArgs =
  rv_term :: int
  rv_candidateId :: int
  rv_lastLogIndex :: int
  rv_lastLogTerm :: int

record RequestVoteReply =
  rr_term :: int
  rr_voteGranted :: bool

record InstallSnapshotArgs =
  is_term :: int
  is_leaderId :: int
  is_lastIncludeIndex :: int
  is_lastIncludeTerm :: int
  is_data :: "(string \<times> string) list"

text \<open>
  The server.  The number of servers and the configuration are fields too; \<^verbatim>\<open>chan\<close> is what has
  been sent to the key-value server, and \<^verbatim>\<open>snapshots\<close> the snapshots it was asked to install.
\<close>

record server =
  id :: int
  m_addrs_size :: nat
  prepare_vote :: bool
  prepare_try_vote_count :: int
  maxLogSize :: int
  leader_lease :: bool
  currentTerm :: int
  votedFor :: int
  log :: "LogEntry list"
  commitIndex :: int
  lastApplied :: int
  persisentLog :: int
  nextIndex :: "int list"
  matchIndex :: "int list"
  state :: State
  voteCount :: int
  prepareCount :: int
  winPreVote :: bool
  lease_time :: bool
  prepare_vote_try_count :: int
  is_async_log :: bool
  async_persisent_log_chan :: "LogEntry list"
  chan :: "LogEntry list"
  snapshots :: "(string \<times> string) list list"

definition log_back :: "server \<Rightarrow> LogEntry" where
  "log_back s = last (log s)"

definition baseIndex :: "server \<Rightarrow> int" where
  "baseIndex s = le_index (hd (log s))"

text \<open>The entry with a given index, counted from the base of the log.\<close>

definition entry :: "server \<Rightarrow> int \<Rightarrow> LogEntry" where
  "entry s i = log s ! nat (i - baseIndex s)"

definition majority :: "server \<Rightarrow> int" where
  "majority s = int (m_addrs_size s div 2)"

text \<open>
  The constructor.  \<^verbatim>\<open>recover()\<close> runs before the loop that finds the position of the server
  among the addresses, while \<^verbatim>\<open>id\<close> still has its default 0: of the log files of the working
  directory, \<open>files\<close>, it reads the one of server 0.  The entries it finds are sent to the key-value
  server.  Term and vote are not stored anywhere.
\<close>

definition Raft_Server ::
  "nat \<Rightarrow> nat \<Rightarrow> bool \<Rightarrow> int \<Rightarrow> int \<Rightarrow> bool \<Rightarrow> bool \<Rightarrow> (nat \<Rightarrow> LogEntry list) \<Rightarrow> server" where
  "Raft_Server i n pv tries maxLog lease async files =
     (let file = files 0;
          s = \<lparr>id = int i, m_addrs_size = n, prepare_vote = pv, prepare_try_vote_count = tries, maxLogSize = maxLog, leader_lease = lease,
               currentTerm = 0, votedFor = -1, log = file, commitIndex = 0, lastApplied = 0, persisentLog = 0,
               nextIndex = [], matchIndex = [], state = Follower_State, voteCount = 0, prepareCount = 1,
               winPreVote = False, lease_time = lease, prepare_vote_try_count = 0, is_async_log = async,
               async_persisent_log_chan = [], chan = [], snapshots = []\<rparr>;
          s = (if file = [] then s
               else s\<lparr>commitIndex := le_index (last file), chan := file, persisentLog := le_index (last file)\<rparr>);
          s = (if log s = [] then s\<lparr>log := [\<lparr>le_index = 0, le_term = 0, le_value = []\<rparr>]\<rparr> else s)
      in s\<lparr>lastApplied := commitIndex s\<rparr>)"

definition isUptoMe :: "server \<Rightarrow> int \<Rightarrow> int \<Rightarrow> bool" where
  "isUptoMe s index t \<longleftrightarrow>
     t > le_term (log_back s) \<or> (t = le_term (log_back s) \<and> index \<ge> le_index (log_back s))"

subsection \<open>Elections\<close>

definition requestVote :: "RequestVoteArgs \<Rightarrow> server \<Rightarrow> RequestVoteReply \<times> server" where
  "requestVote args s =
     (if rv_term args < currentTerm s \<or> lease_time s
      then (\<lparr>rr_term = currentTerm s, rr_voteGranted = False\<rparr>, s)
      else
        let s = (if rv_term args > currentTerm s
                 then s\<lparr>currentTerm := rv_term args, state := Follower_State, votedFor := -1\<rparr> else s)
        in if (votedFor s = -1 \<or> votedFor s = rv_candidateId args) \<and>
              isUptoMe s (rv_lastLogIndex args) (rv_lastLogTerm args)
           then (\<lparr>rr_term = currentTerm s, rr_voteGranted = True\<rparr>,
                 s\<lparr>state := Follower_State, votedFor := rv_candidateId args\<rparr>)
           else (\<lparr>rr_term = currentTerm s, rr_voteGranted = False\<rparr>, s))"

definition PrepareVote :: "RequestVoteArgs \<Rightarrow> server \<Rightarrow> RequestVoteReply" where
  "PrepareVote args s =
     \<lparr>rr_term = currentTerm s,
      rr_voteGranted = (rv_term args > currentTerm s \<or> isUptoMe s (rv_lastLogIndex args) (rv_lastLogTerm args))\<rparr>"

text \<open>The requests of an election; they are sent to every other server.\<close>

definition vote_args :: "int \<Rightarrow> server \<Rightarrow> RequestVoteArgs" where
  "vote_args t s = \<lparr>rv_term = t, rv_candidateId = id s, rv_lastLogIndex = le_index (log_back s),
     rv_lastLogTerm = le_term (log_back s)\<rparr>"

definition boardcastRequestVote :: "server \<Rightarrow> RequestVoteArgs option \<times> server" where
  "boardcastRequestVote s =
     (if state s = Candidate_State
      then let s = s\<lparr>state := Candidate_State, currentTerm := currentTerm s + 1, votedFor := id s, voteCount := 1\<rparr>
           in (Some (vote_args (currentTerm s) s), s\<lparr>winPreVote := False\<rparr>)
      else (None, s))"

datatype broadcast = Nothing | RequestVotes RequestVoteArgs | PrepareVotes RequestVoteArgs

definition requests :: "RequestVoteArgs option \<times> server \<Rightarrow> broadcast \<times> server" where
  "requests r = (case fst r of None \<Rightarrow> Nothing | Some args \<Rightarrow> RequestVotes args, snd r)"

definition boardcastPrepareVote :: "server \<Rightarrow> broadcast \<times> server" where
  "boardcastPrepareVote s =
     (if state s = Leader_State \<or> votedFor s \<noteq> id s then (Nothing, s)
      else if \<not> prepare_vote s then requests (boardcastRequestVote (s\<lparr>state := Candidate_State\<rparr>))
      else if state s = Candidate_State then requests (boardcastRequestVote s)
      else
        let s = s\<lparr>prepare_vote_try_count := prepare_vote_try_count s + 1\<rparr>
        in if prepare_vote_try_count s > prepare_try_vote_count s
           then let (b, s) = requests (boardcastRequestVote (s\<lparr>state := Candidate_State\<rparr>))
                in (b, s\<lparr>prepare_vote_try_count := 0\<rparr>)
           else if winPreVote s
           then let (b, s) = requests (boardcastRequestVote (s\<lparr>state := Candidate_State\<rparr>))
                in (b, s\<lparr>winPreVote := False\<rparr>)
           else let s = s\<lparr>prepareCount := 1, prepare_vote_try_count := prepare_vote_try_count s + 1\<rparr>
                in (PrepareVotes (vote_args (currentTerm s + 1) s), s))"

text \<open>The callback of the election timer.\<close>

definition electionTimeout :: "server \<Rightarrow> broadcast \<times> server" where
  "electionTimeout s = boardcastPrepareVote (s\<lparr>votedFor := id s\<rparr>)"

text \<open>What the fibre of a pre-vote request does with a reply.\<close>

definition handlePrepareVote :: "RequestVoteReply \<Rightarrow> server \<Rightarrow> broadcast \<times> server" where
  "handlePrepareVote reply s =
     (let s = (if rr_voteGranted reply then s\<lparr>prepareCount := prepareCount s + 1\<rparr> else s)
      in if prepareCount s > majority s
         then requests (boardcastRequestVote (s\<lparr>winPreVote := True, state := Candidate_State\<rparr>))
         else (Nothing, s))"

definition becomeLeader :: "server \<Rightarrow> server" where
  "becomeLeader s =
     s\<lparr>state := Leader_State, nextIndex := replicate (m_addrs_size s) (le_index (log_back s) + 1),
       matchIndex := replicate (m_addrs_size s) 0\<rparr>"

text \<open>A vote; the flag says whether the server has become leader and sends heartbeats.\<close>

definition handleRequestVote :: "RequestVoteReply \<Rightarrow> server \<Rightarrow> bool \<times> server" where
  "handleRequestVote reply s =
     (if rr_term reply < currentTerm s then (False, s)
      else if rr_term reply > currentTerm s
      then (False, s\<lparr>state := Follower_State, currentTerm := rr_term reply, votedFor := -1\<rparr>)
      else if state s = Candidate_State \<and> rr_voteGranted reply
      then let s = s\<lparr>voteCount := voteCount s + 1\<rparr>
           in if voteCount s > majority s then (True, becomeLeader s) else (False, s)
      else (False, s))"

subsection \<open>Replication\<close>

datatype message = Append AppendLogEntryArgs | Snapshot InstallSnapshotArgs

text \<open>
  The message for one other server; the snapshot comes from the key-value server.  \<^term>\<open>None\<close> is a
  read outside the log.
\<close>

definition heartBeat_for :: "(string \<times> string) list \<Rightarrow> server \<Rightarrow> nat \<Rightarrow> message option" where
  "heartBeat_for snap s i =
     (if nextIndex s ! i > baseIndex s
      then if nextIndex s ! i - 1 - baseIndex s \<ge> int (length (log s)) then None
           else Some (Append
                  \<lparr>ae_term = currentTerm s, ae_leaderId = id s, ae_prevLogIndex = nextIndex s ! i - 1,
                   ae_prevLogTerm = le_term (entry s (nextIndex s ! i - 1)),
                   ae_entries = (if nextIndex s ! i \<le> le_index (log_back s)
                                 then drop (nat (nextIndex s ! i - baseIndex s)) (log s) else []),
                   ae_leaderCommit = commitIndex s\<rparr>)
      else Some (Snapshot
                  \<lparr>is_term = currentTerm s, is_leaderId = id s, is_lastIncludeIndex = le_index (hd (log s)),
                   is_lastIncludeTerm = le_term (hd (log s)), is_data = snap\<rparr>))"

definition boardcastHeartBeat :: "(string \<times> string) list \<Rightarrow> server \<Rightarrow> (nat \<times> message) list option" where
  "boardcastHeartBeat snap s =
     (if state s = Leader_State
      then those (map (\<lambda>i. map_option (Pair i) (heartBeat_for snap s i))
                      (filter (\<lambda>i. int i \<noteq> id s) [0..<m_addrs_size s]))
      else Some [])"

text \<open>
  The search for the end of the previous term in the log, from index \<open>i\<close> down to the base.  The
  loop variable is unsigned: with a base of 0 the loop does not end at the base but reads outside the
  vector.  \<^term>\<open>Some None\<close> means that the loop ends without a result.
\<close>

function conflictLoop :: "server \<Rightarrow> int \<Rightarrow> int \<Rightarrow> int option option" where
  "conflictLoop s t i =
     (if i < baseIndex s then if baseIndex s = 0 then None else Some None
      else if i < 0 then None
      else if le_term (entry s i) \<noteq> t then Some (Some (i + 1))
      else conflictLoop s t (i - 1))"
  by pat_completeness auto
termination
  by (relation "measure (\<lambda>(s, t, i). nat (i + 1))") auto

declare conflictLoop.simps [simp del]

text \<open>The entries are taken over: everything after the previous index is replaced.\<close>

definition takeEntries :: "AppendLogEntryArgs \<Rightarrow> server \<Rightarrow> server" where
  "takeEntries args s =
     s\<lparr>log := take (nat (ae_prevLogIndex args - baseIndex s + 1)) (log s) @ ae_entries args\<rparr>"

text \<open>
  The parts of \<^verbatim>\<open>appendlog\<close>: a message of the current or a newer term grants the lease and moves
  the server to that term; then the previous entry is compared.  \<^verbatim>\<open>appendlog\<close> ends by starting
  \<^verbatim>\<open>persisent\<close>, which reads \<^verbatim>\<open>log[0]\<close>: a log that has become empty is undefined behaviour.
\<close>

definition newerTerm :: "AppendLogEntryArgs \<Rightarrow> server \<Rightarrow> server" where
  "newerTerm args s =
     (if ae_term args > currentTerm s
      then s\<lparr>lease_time := True, state := Follower_State, currentTerm := ae_term args, votedFor := ae_leaderId args\<rparr>
      else s\<lparr>lease_time := True\<rparr>)"

definition refuse :: "int option \<Rightarrow> server \<Rightarrow> AppendLogEntryReply \<times> server" where
  "refuse nxt s = (\<lparr>ar_term = currentTerm s, ar_success = False, ar_nextTryLog = nxt\<rparr>, s)"

definition accept :: "AppendLogEntryArgs \<Rightarrow> server \<Rightarrow> (AppendLogEntryReply \<times> server) option" where
  "accept args s =
     (let s = takeEntries args s;
          reply = \<lparr>ar_term = currentTerm s, ar_success = True,
                   ar_nextTryLog = Some (ae_prevLogIndex args + int (length (ae_entries args)))\<rparr>
      in if log s = [] then None
         else if commitIndex s < ae_leaderCommit args
         then Some (reply, s\<lparr>commitIndex := min (ae_leaderCommit args) (le_index (log_back s))\<rparr>)
         else Some (reply, s))"

definition compare :: "AppendLogEntryArgs \<Rightarrow> server \<Rightarrow> (AppendLogEntryReply \<times> server) option" where
  "compare args s =
     (let prev = ae_prevLogIndex args
      in if prev > le_index (log_back s) then Some (refuse (Some (le_index (log_back s) + 1)) s)
         else if prev \<ge> baseIndex s \<and> ae_prevLogTerm args \<noteq> le_term (entry s prev)
         then map_option (\<lambda>nxt. refuse nxt s) (conflictLoop s (le_term (entry s prev)) (prev - 1))
         else if prev \<ge> baseIndex s - 1 then accept args s
         else Some (refuse None s))"

definition appendlog :: "AppendLogEntryArgs \<Rightarrow> server \<Rightarrow> (AppendLogEntryReply \<times> server) option" where
  "appendlog args s =
     (if ae_term args < currentTerm s then Some (refuse (Some (le_index (log_back s) + 1)) s)
      else compare args (newerTerm args s))"

definition installsnapshot :: "InstallSnapshotArgs \<Rightarrow> server \<Rightarrow> int \<times> server" where
  "installsnapshot args s =
     (if is_term args < currentTerm s then (currentTerm s, s)
      else
        let s = (if is_term args > currentTerm s
                 then s\<lparr>state := Follower_State, currentTerm := is_term args, votedFor := -1\<rparr> else s)
        in (currentTerm s,
            if is_lastIncludeIndex args > commitIndex s
            then s\<lparr>lastApplied := is_lastIncludeIndex args, commitIndex := is_lastIncludeIndex args,
                   snapshots := snapshots s @ [is_data args],
                   log := [\<lparr>le_index = is_lastIncludeIndex args, le_term = currentTerm s, le_value = []\<rparr>]\<rparr>
            else s))"

text \<open>The commit rule of the leader, for the indices from \<open>n\<close> down.\<close>

definition replicated :: "server \<Rightarrow> int \<Rightarrow> int" where
  "replicated s n = 1 + int (length (filter (\<lambda>i. int i \<noteq> id s \<and> matchIndex s ! i \<ge> n) [0..<length (matchIndex s)]))"

function commitLoop :: "server \<Rightarrow> int \<Rightarrow> server" where
  "commitLoop s n =
     (if n > commitIndex s \<and> le_term (entry s n) = currentTerm s
      then if replicated s n > majority s then s\<lparr>commitIndex := n\<rparr> else commitLoop s (n - 1)
      else s)"
  by pat_completeness auto
termination
  by (relation "measure (\<lambda>(s, n). nat (n - commitIndex s))") auto

declare commitLoop.simps [simp del]

text \<open>
  What \<^verbatim>\<open>sendAppendLogEntry\<close> does with a reply of the server \<open>i\<close>; an uninitialised
  \<^verbatim>\<open>nextTryLog\<close> is an arbitrary value, given as a parameter.
\<close>

definition handleAppendReply ::
  "nat \<Rightarrow> AppendLogEntryArgs \<Rightarrow> AppendLogEntryReply \<Rightarrow> int \<Rightarrow> server \<Rightarrow> server" where
  "handleAppendReply i args reply junk s =
     (if state s \<noteq> Leader_State \<or> ae_term args \<noteq> currentTerm s then s
      else if ar_term reply > currentTerm s
      then s\<lparr>currentTerm := ar_term reply, state := Follower_State, votedFor := -1\<rparr>
      else
        let s = (if ar_success reply
                 then if ae_entries args \<noteq> []
                      then let nxt = le_index (last (ae_entries args)) + 1
                           in s\<lparr>nextIndex := (nextIndex s)[i := nxt], matchIndex := (matchIndex s)[i := nxt - 1]\<rparr>
                      else s
                 else s\<lparr>nextIndex := (nextIndex s)[i := min (case ar_nextTryLog reply of Some n \<Rightarrow> n | None \<Rightarrow> junk)
                                                        (le_index (log_back s))]\<rparr>)
        in commitLoop s (le_index (log_back s)))"

definition handleSnapshotReply :: "nat \<Rightarrow> InstallSnapshotArgs \<Rightarrow> int \<Rightarrow> server \<Rightarrow> server" where
  "handleSnapshotReply i args reply_term s =
     (if state s \<noteq> Leader_State \<or> is_term args \<noteq> currentTerm s then s
      else if reply_term > currentTerm s
      then s\<lparr>currentTerm := reply_term, state := Follower_State, votedFor := -1\<rparr>
      else s\<lparr>nextIndex := (nextIndex s)[i := is_lastIncludeIndex args + 1],
             matchIndex := (matchIndex s)[i := is_lastIncludeIndex args]\<rparr>)"

text \<open>
  A new command at the leader; the default entry \<^verbatim>\<open>{}\<close> if the server is not the leader.  The
  heartbeats that follow are \<^const>\<open>boardcastHeartBeat\<close>.
\<close>

definition start :: "string \<Rightarrow> server \<Rightarrow> LogEntry \<times> server" where
  "start v s =
     (if state s \<noteq> Leader_State then (\<lparr>le_index = -1, le_term = -1, le_value = []\<rparr>, s)
      else let e = \<lparr>le_index = le_index (log_back s) + 1, le_term = currentTerm s, le_value = v\<rparr>
           in (e, s\<lparr>log := log s @ [e]\<rparr>))"

text \<open>
  \<^verbatim>\<open>applyLog\<close> runs in a fibre of its own and holds the lock only at its two ends: it reads the
  range to apply, sends the entries, and stores the new \<^verbatim>\<open>lastApplied\<close>.
\<close>

definition applyRead :: "server \<Rightarrow> int \<times> int \<times> int" where
  "applyRead s = (lastApplied s, commitIndex s, baseIndex s)"

definition applySend :: "int \<times> int \<times> int \<Rightarrow> server \<Rightarrow> server" where
  "applySend r s =
     (case r of (lastapplied, commitindex, base) \<Rightarrow>
        let es = map (\<lambda>i. log s ! nat i)
                   (filter (\<lambda>i. i < int (length (log s))) [lastapplied - base + 1..commitindex - base]);
            s = s\<lparr>chan := chan s @ es\<rparr>
        in if is_async_log s
           then s\<lparr>async_persisent_log_chan := async_persisent_log_chan s @ es\<rparr> else s)"

definition applyStore :: "int \<times> int \<times> int \<Rightarrow> server \<Rightarrow> server" where
  "applyStore r s = s\<lparr>lastApplied := fst (snd r)\<rparr>"

definition applyLog :: "server \<Rightarrow> server" where
  "applyLog s = (let r = applyRead s in applyStore r (applySend r s))"

text \<open>
  \<^verbatim>\<open>persisent\<close>: when the persistent part of the log is long enough and the key-value server has
  created a snapshot, the log up to the last persistent entry is replaced by one entry.  The lock is
  released while the snapshot is written, so the check and the compaction are separate steps.
\<close>

definition persisentCheck :: "bool \<Rightarrow> server \<Rightarrow> (int \<times> int) option option" where
  "persisentCheck created s =
     (let pindex = persisentLog s
      in if pindex - baseIndex s < maxLogSize s then Some None
         else if pindex < baseIndex s \<or> pindex - baseIndex s \<ge> int (length (log s)) then None
         else if \<not> created then Some None
         else Some (Some (pindex, le_term (entry s pindex))))"

fun after :: "int \<Rightarrow> int \<Rightarrow> LogEntry list \<Rightarrow> LogEntry list" where
  "after t i [] = []"
| "after t i (e # es) = (if le_term e = t \<and> le_index e = i then es else after t i es)"

definition persisentCompact :: "int \<times> int \<Rightarrow> server \<Rightarrow> server" where
  "persisentCompact r s =
     (case r of (pindex, t) \<Rightarrow>
        s\<lparr>log := \<lparr>le_index = pindex, le_term = t, le_value = []\<rparr> # after t pindex (log s)\<rparr>)"

text \<open>The entries that \<^verbatim>\<open>persisentlog\<close> writes to the log file.\<close>

definition persisentlog :: "server \<Rightarrow> (LogEntry list \<times> server) option" where
  "persisentlog s =
     (if persisentLog s < lastApplied s \<and> persisentLog s + 1 < baseIndex s then None
      else let es = take (nat (lastApplied s - persisentLog s)) (drop (nat (persisentLog s + 1 - baseIndex s)) (log s))
           in Some (es, s\<lparr>persisentLog := persisentLog s + int (length es)\<rparr>))"

definition persisent :: "bool \<Rightarrow> server \<Rightarrow> (LogEntry list \<times> server) option" where
  "persisent created s =
     (case persisentCheck created s of
        None \<Rightarrow> None
      | Some None \<Rightarrow> Some ([], s)
      | Some (Some r) \<Rightarrow>
          (let s = persisentCompact r s in if is_async_log s then Some ([], s) else persisentlog s))"

text \<open>One round of the loop of \<^verbatim>\<open>async_persisent_log\<close>.\<close>

definition async_persisent_log :: "server \<Rightarrow> LogEntry list \<times> server" where
  "async_persisent_log s =
     (case async_persisent_log_chan s of
        [] \<Rightarrow> ([], s)
      | e # es \<Rightarrow> ([e], s\<lparr>async_persisent_log_chan := es, persisentLog := le_index e\<rparr>))"

text \<open>The callback of the leader's timer when the number \<open>live\<close> of connected servers is checked.\<close>

definition leaderTimeout ::
  "int \<Rightarrow> (string \<times> string) list \<Rightarrow> server \<Rightarrow> ((nat \<times> message) list \<times> server) option" where
  "leaderTimeout live snap s =
     (if live > majority s then map_option (\<lambda>ms. (ms, s)) (boardcastHeartBeat snap s)
      else Some ([], s\<lparr>state := Follower_State\<rparr>))"

definition leaseExpired :: "server \<Rightarrow> server" where
  "leaseExpired s = s\<lparr>lease_time := False\<rparr>"

end
