(* ===== verification/Raft_System.thy ===== *)
theory Raft_System
  imports Raft Transitions
begin

text \<open>
  A cluster of Raft servers: the servers, their log files and the calls and replies under way.  An
  event is the run of one handler of one server, or the result of one remote call.  The calls may be
  delivered in any order, a call or reply that is lost is one that is never delivered, and no call is
  delivered twice, as the fibre that makes it waits for one result.  Every handler runs under the lock
  of its server and is one step.  A step that reaches undefined behaviour has no result.

  \<^verbatim>\<open>votes\<close>, \<^verbatim>\<open>elected\<close> and \<^verbatim>\<open>tlog\<close> are history variables: they record the votes
  that were given (voter, term, candidate), the leaders of each term, and the log that the leader of
  each term had last, and no handler reads them.
\<close>

section \<open>Definitions\<close>

definition dummy :: LogEntry where
  "dummy = \<lparr>le_index = 0, le_term = 0, le_value = []\<rparr>"

record system =
  servers :: "server list"
  disk :: "LogEntry list list"
  calls :: "(nat \<times> RequestVoteArgs) list"
  replies :: "(nat \<times> RequestVoteArgs \<times> RequestVoteReply) list"
  appends :: "(nat \<times> AppendLogEntryArgs) list"
  areplies :: "(nat \<times> AppendLogEntryArgs \<times> AppendLogEntryReply) list"
  snaps :: "(nat \<times> InstallSnapshotArgs) list"
  sreplies :: "(nat \<times> InstallSnapshotArgs \<times> int) list"
  votes :: "(nat \<times> int \<times> nat) list"
  elected :: "(int \<times> nat) list"
  tlog :: "int \<Rightarrow> LogEntry list"

datatype event =
    ElectionTimeout nat
  | PrepareReply nat RequestVoteReply
  | RequestVote nat
  | VoteReply nat "(string \<times> string) list"
  | LeaderTimeout nat int "(string \<times> string) list"
  | HeartBeat nat "(string \<times> string) list"
  | AppendEntries nat
  | AppendReply nat int
  | InstallSnapshot nat
  | SnapshotReply nat
  | Start nat string "(string \<times> string) list"
  | ApplyLog nat
  | Persist nat bool
  | AsyncPersist nat
  | LeaseExpired nat
  | Restart nat

definition initial :: "nat \<Rightarrow> bool \<Rightarrow> int \<Rightarrow> int \<Rightarrow> bool \<Rightarrow> bool \<Rightarrow> system" where
  "initial n pv tries maxLog lease async =
     \<lparr>servers = map (\<lambda>i. Raft_Server i n pv tries maxLog lease async (\<lambda>_. [])) [0..<n],
      disk = replicate n [], calls = [], replies = [], appends = [], areplies = [], snaps = [], sreplies = [],
      votes = [], elected = [], tlog = (\<lambda>_. [dummy])\<rparr>"

definition put_server :: "nat \<Rightarrow> server \<Rightarrow> system \<Rightarrow> system" where
  "put_server i s y = y\<lparr>servers := (servers y)[i := s]\<rparr>"

definition remove_at :: "nat \<Rightarrow> 'a list \<Rightarrow> 'a list" where
  "remove_at k xs = take k xs @ drop (Suc k) xs"

text \<open>The other servers, to which a server sends its requests.\<close>

definition others :: "nat \<Rightarrow> system \<Rightarrow> nat list" where
  "others i y = filter (\<lambda>j. j \<noteq> i) [0..<length (servers y)]"

fun post :: "nat \<Rightarrow> broadcast \<Rightarrow> system \<Rightarrow> system" where
  "post i (RequestVotes args) y =
     y\<lparr>calls := calls y @ map (\<lambda>j. (j, args)) (others i y), votes := (i, rv_term args, i) # votes y\<rparr>"
| "post i b y = y"

text \<open>The heartbeats are calls of \<^verbatim>\<open>appendlog\<close> or \<^verbatim>\<open>installsnapshot\<close>.\<close>

fun send :: "(nat \<times> message) list \<Rightarrow> system \<Rightarrow> system" where
  "send [] y = y"
| "send ((j, Append args) # ms) y = send ms (y\<lparr>appends := (j, args) # appends y\<rparr>)"
| "send ((j, Snapshot args) # ms) y = send ms (y\<lparr>snaps := (j, args) # snaps y\<rparr>)"

definition save :: "nat \<Rightarrow> LogEntry list \<times> server \<Rightarrow> system \<Rightarrow> system" where
  "save i r y = put_server i (snd r) (y\<lparr>disk := (disk y)[i := disk y ! i @ fst r]\<rparr>)"

fun step :: "event \<Rightarrow> system \<Rightarrow> system option" where
  "step (ElectionTimeout i) y =
     (if i < length (servers y)
      then case electionTimeout (servers y ! i) of (b, s) \<Rightarrow> Some (post i b (put_server i s y)) else None)"
| "step (PrepareReply i r) y =
     (if i < length (servers y)
      then case handlePrepareVote r (servers y ! i) of (b, s) \<Rightarrow> Some (post i b (put_server i s y)) else None)"
| "step (RequestVote k) y =
     (if k < length (calls y)
      then case calls y ! k of (j, args) \<Rightarrow>
           (case requestVote args (servers y ! j) of (r, s) \<Rightarrow>
              Some (put_server j s (y\<lparr>calls := remove_at k (calls y), replies := (j, args, r) # replies y,
                votes := (if rr_voteGranted r then [(j, rv_term args, nat (rv_candidateId args))] else []) @ votes y\<rparr>)))
      else None)"
| "step (VoteReply k snap) y =
     (if k < length (replies y)
      then case replies y ! k of (j, args, r) \<Rightarrow>
             let i = nat (rv_candidateId args); y = y\<lparr>replies := remove_at k (replies y)\<rparr>
             in (case handleRequestVote r (servers y ! i) of (won, s) \<Rightarrow>
                   if won
                   then map_option
                     (\<lambda>ms. send ms (put_server i s (y\<lparr>elected := (currentTerm s, i) # elected y,
                                               tlog := (tlog y)(currentTerm s := log s)\<rparr>)))
                     (boardcastHeartBeat snap s)
                   else Some (put_server i s y))
      else None)"
| "step (LeaderTimeout i live snap) y =
     (if i < length (servers y)
      then map_option (\<lambda>(ms, s). send ms (put_server i s y)) (leaderTimeout live snap (servers y ! i)) else None)"
| "step (HeartBeat i snap) y =
     (if i < length (servers y)
      then map_option (\<lambda>ms. send ms y) (boardcastHeartBeat snap (servers y ! i)) else None)"
| "step (AppendEntries k) y =
     (if k < length (appends y)
      then case appends y ! k of (j, args) \<Rightarrow>
             map_option (\<lambda>(r, s). put_server j s (y\<lparr>appends := remove_at k (appends y), areplies := (j, args, r) # areplies y\<rparr>))
               (appendlog args (servers y ! j))
      else None)"
| "step (AppendReply k junk) y =
     (if k < length (areplies y)
      then case areplies y ! k of (j, args, r) \<Rightarrow>
             let i = nat (ae_leaderId args)
             in Some (put_server i (handleAppendReply j args r junk (servers y ! i)) (y\<lparr>areplies := remove_at k (areplies y)\<rparr>))
      else None)"
| "step (InstallSnapshot k) y =
     (if k < length (snaps y)
      then case snaps y ! k of (j, args) \<Rightarrow>
             (case installsnapshot args (servers y ! j) of (t, s) \<Rightarrow>
                Some (put_server j s (y\<lparr>snaps := remove_at k (snaps y), sreplies := (j, args, t) # sreplies y\<rparr>)))
      else None)"
| "step (SnapshotReply k) y =
     (if k < length (sreplies y)
      then case sreplies y ! k of (j, args, t) \<Rightarrow>
             let i = nat (is_leaderId args)
             in Some (put_server i (handleSnapshotReply j args t (servers y ! i)) (y\<lparr>sreplies := remove_at k (sreplies y)\<rparr>))
      else None)"
| "step (Start i v snap) y =
     (if i < length (servers y)
      then let s = servers y ! i; s' = snd (start v s);
               y' = (if state s = Leader_State then y\<lparr>tlog := (tlog y)(currentTerm s := log s')\<rparr> else y)
           in if state s = Leader_State
              then map_option (\<lambda>ms. send ms (put_server i s' y')) (boardcastHeartBeat snap s')
              else Some y
      else None)"
| "step (ApplyLog i) y =
     (if i < length (servers y) then Some (put_server i (applyLog (servers y ! i)) y) else None)"
| "step (Persist i created) y =
     (if i < length (servers y) then map_option (\<lambda>r. save i r y) (persisent created (servers y ! i)) else None)"
| "step (AsyncPersist i) y =
     (if i < length (servers y) then Some (save i (async_persisent_log (servers y ! i)) y) else None)"
| "step (LeaseExpired i) y =
     (if i < length (servers y) then Some (put_server i (leaseExpired (servers y ! i)) y) else None)"
| "step (Restart i) y =
     (if i < length (servers y)
      then let s = servers y ! i
           in Some (put_server i (Raft_Server i (m_addrs_size s) (prepare_vote s) (prepare_try_vote_count s) (maxLogSize s)
                             (leader_lease s) (is_async_log s) (\<lambda>j. if j = i then disk y ! i else [])) y)
      else None)"

abbreviation run :: "event list \<Rightarrow> system \<Rightarrow> system option" where "run \<equiv> runs step"

fun isRestart :: "event \<Rightarrow> bool" where
  "isRestart (Restart i) = True"
| "isRestart e = False"

text \<open>The states a cluster of \<open>n\<close> servers reaches as long as no server restarts.\<close>

inductive reachable :: "nat \<Rightarrow> bool \<Rightarrow> int \<Rightarrow> int \<Rightarrow> bool \<Rightarrow> bool \<Rightarrow> system \<Rightarrow> bool"
  for n pv tries maxLog lease async where
  start: "reachable n pv tries maxLog lease async (initial n pv tries maxLog lease async)"
| step: "reachable n pv tries maxLog lease async y \<Longrightarrow> \<not> isRestart e \<Longrightarrow> step e y = Some y' \<Longrightarrow>
    reachable n pv tries maxLog lease async y'"

lemma reachable_runs:
  "reachable n pv tries maxLog lease async y \<Longrightarrow>
     \<exists>es. list_all (\<lambda>e. \<not> isRestart e) es \<and> run es (initial n pv tries maxLog lease async) = Some y"
proof (induction rule: reachable.induct)
  case start
  then show ?case by (intro exI [of _ "[]"]) simp
next
  case (step y e y')
  then obtain es where "list_all (\<lambda>e. \<not> isRestart e) es" "run es (initial n pv tries maxLog lease async) = Some y" by blast
  then show ?case using step by (intro exI [of _ "es @ [e]"]) (simp add: runs_snoc)
qed

end
