(* ===== verification/Raft_Election.thy ===== *)
theory Raft_Election
  imports Raft_System
begin

text \<open>
  Elections of the cluster.  Handlers that neither start a candidacy, give a vote nor count one are
  \<open>quiet\<close>: they keep term and role, or raise the term and fall back to follower.  The invariant
  \<open>elections\<close> relates votes, counters and leaders and is kept by every event but a restart; a
  restart breaks it, since a server stores neither its term nor its vote.
\<close>

section \<open>Definitions\<close>

definition quiet :: "server \<Rightarrow> server \<Rightarrow> bool" where
  "quiet s s' \<longleftrightarrow> id s' = id s \<and> m_addrs_size s' = m_addrs_size s \<and>
     (currentTerm s' = currentTerm s \<and> votedFor s' \<in> {votedFor s, id s} \<and>
        (state s' = state s \<and> voteCount s' = voteCount s \<or> state s' = Follower_State) \<or>
      currentTerm s < currentTerm s' \<and> state s' = Follower_State)"

section \<open>Quiet handlers\<close>

lemma quiet_refl [simp]: "quiet s s"
  by (simp add: quiet_def)

lemma accept_same:
  assumes "accept args s = Some (r, s')"
  shows "\<exists>c. s' = s\<lparr>log := log (takeEntries args s), commitIndex := c\<rparr> \<and> log s' \<noteq> [] \<and> ar_success r \<and>
    (c = commitIndex s \<or> c = min (ae_leaderCommit args) (le_index (last (log s'))) \<and> commitIndex s < ae_leaderCommit args)"
proof (cases "commitIndex s < ae_leaderCommit args")
  case True
  then show ?thesis using assms
    by (intro exI [of _ "min (ae_leaderCommit args) (le_index (last (log (takeEntries args s))))"])
      (auto simp: accept_def takeEntries_def log_back_def Let_def split: if_splits)
next
  case False
  then show ?thesis using assms
    by (intro exI [of _ "commitIndex s"]) (auto simp: accept_def takeEntries_def Let_def split: if_splits)
qed

lemma compare_cases:
  assumes "compare args s = Some (r, s')"
  shows "s' = s \<and> \<not> ar_success r \<or>
    accept args s = Some (r, s') \<and> ae_prevLogIndex args \<le> le_index (log_back s) \<and>
    (ae_prevLogIndex args < baseIndex s \<or> ae_prevLogTerm args = le_term (entry s (ae_prevLogIndex args)))"
  using assms by (auto simp: compare_def refuse_def Let_def split: if_splits)

lemma quiet_appendlog:
  assumes "appendlog args s = Some (r, s')"
  shows "quiet s s'"
proof (cases "ae_term args < currentTerm s")
  case True
  then show ?thesis using assms by (simp add: appendlog_def refuse_def)
next
  case False
  then have "compare args (newerTerm args s) = Some (r, s')" using assms by (simp add: appendlog_def)
  from compare_cases [OF this] accept_same have
    "s' = newerTerm args s \<or> (\<exists>l c. s' = (newerTerm args s)\<lparr>log := l, commitIndex := c\<rparr>)" by blast
  then show ?thesis using False by (auto simp: newerTerm_def quiet_def split: if_splits)
qed

lemma quiet_installsnapshot: "quiet s (snd (installsnapshot args s))"
  by (auto simp: installsnapshot_def quiet_def Let_def)

lemma commitLoop_same [simp]:
  "id (commitLoop s n) = id s" "m_addrs_size (commitLoop s n) = m_addrs_size s"
  "currentTerm (commitLoop s n) = currentTerm s" "votedFor (commitLoop s n) = votedFor s"
  "state (commitLoop s n) = state s" "voteCount (commitLoop s n) = voteCount s" "log (commitLoop s n) = log s"
  "maxLogSize (commitLoop s n) = maxLogSize s" "persisentLog (commitLoop s n) = persisentLog s"
  "is_async_log (commitLoop s n) = is_async_log s"
  "async_persisent_log_chan (commitLoop s n) = async_persisent_log_chan s"
  by (induction s n rule: commitLoop.induct; subst commitLoop.simps; simp)+

lemma quiet_handleAppendReply: "quiet s (handleAppendReply i args r junk s)"
  by (auto simp: handleAppendReply_def quiet_def Let_def)

lemma quiet_handleSnapshotReply: "quiet s (handleSnapshotReply i args t s)"
  by (auto simp: handleSnapshotReply_def quiet_def)

lemma quiet_leaderTimeout: "leaderTimeout live snap s = Some (ms, s') \<Longrightarrow> quiet s s'"
  by (auto simp: leaderTimeout_def quiet_def split: if_splits)

lemma quiet_start: "quiet s (snd (start v s))"
  by (auto simp: start_def quiet_def Let_def)

lemma quiet_applyLog: "quiet s (applyLog s)"
  by (auto simp: applyLog_def applyStore_def applySend_def applyRead_def quiet_def Let_def)

lemma quiet_persisent: "persisent created s = Some (es, s') \<Longrightarrow> quiet s s'"
  by (auto simp: persisent_def persisentCompact_def persisentlog_def quiet_def Let_def
      split: option.splits if_splits prod.splits)

lemma quiet_async_persisent_log: "quiet s (snd (async_persisent_log s))"
  by (simp add: async_persisent_log_def quiet_def split: list.split)

lemma quiet_leaseExpired: "quiet s (leaseExpired s)"
  by (simp add: leaseExpired_def quiet_def)

lemmas quiet_handlers = quiet_appendlog quiet_installsnapshot quiet_handleAppendReply quiet_handleSnapshotReply
  quiet_leaderTimeout quiet_start quiet_applyLog quiet_persisent quiet_async_persisent_log quiet_leaseExpired

text \<open>A candidacy raises the term by one, with a vote for the server itself.\<close>

definition candidacy :: "server \<Rightarrow> RequestVoteArgs \<Rightarrow> server \<Rightarrow> bool" where
  "candidacy s args s' \<longleftrightarrow> id s' = id s \<and> m_addrs_size s' = m_addrs_size s \<and>
     currentTerm s' = currentTerm s + 1 \<and> votedFor s' = id s \<and> state s' = Candidate_State \<and> voteCount s' = 1 \<and>
     rv_term args = currentTerm s' \<and> rv_candidateId args = id s"

lemma electionTimeout_cases:
  assumes "electionTimeout s = (b, s')"
  shows "(\<exists>args. b = RequestVotes args \<and> candidacy s args s') \<or>
         (\<forall>args. b \<noteq> RequestVotes args) \<and> quiet s s'"
  using assms
  by (auto simp: electionTimeout_def boardcastPrepareVote_def boardcastRequestVote_def requests_def vote_args_def
      candidacy_def quiet_def Let_def split: if_splits)

lemma handlePrepareVote_cases:
  assumes "handlePrepareVote r s = (b, s')"
  shows "(\<exists>args. b = RequestVotes args \<and> candidacy s args s') \<or>
         (\<forall>args. b \<noteq> RequestVotes args) \<and> quiet s s'"
  using assms
  by (auto simp: handlePrepareVote_def boardcastRequestVote_def requests_def vote_args_def candidacy_def quiet_def
      Let_def split: if_splits)

lemma requestVote_refused: "requestVote args s = (r, s') \<Longrightarrow> \<not> rr_voteGranted r \<Longrightarrow> quiet s s'"
  by (auto simp: requestVote_def quiet_def Let_def split: if_splits)

lemma requestVote_granted:
  assumes "requestVote args s = (r, s')" "rr_voteGranted r"
  shows "rr_term r = rv_term args \<and> id s' = id s \<and> m_addrs_size s' = m_addrs_size s \<and> currentTerm s' = rv_term args \<and>
         votedFor s' = rv_candidateId args \<and> state s' = Follower_State \<and>
         (currentTerm s < rv_term args \<or>
          currentTerm s = rv_term args \<and> votedFor s \<in> {-1, rv_candidateId args})"
  using assms by (auto simp: requestVote_def Let_def split: if_splits)

lemma handleRequestVote_cases:
  assumes "handleRequestVote r s = (won, s')"
  shows "\<not> won \<and> quiet s s' \<or>
         rr_voteGranted r \<and> rr_term r = currentTerm s \<and> state s = Candidate_State \<and> voteCount s' = voteCount s + 1 \<and>
         id s' = id s \<and> m_addrs_size s' = m_addrs_size s \<and> currentTerm s' = currentTerm s \<and> votedFor s' = votedFor s \<and>
         log s' = log s \<and> won = (voteCount s' > majority s) \<and>
         state s' = (if won then Leader_State else Candidate_State)"
  using assms by (auto simp: handleRequestVote_def becomeLeader_def quiet_def majority_def Let_def split: if_splits)


section \<open>The invariant\<close>

text \<open>A pending call or reply, as voter, candidate and term.\<close>

definition call_key :: "nat \<times> RequestVoteArgs \<Rightarrow> nat \<times> nat \<times> int" where
  "call_key x = (case x of (j, args) \<Rightarrow> (j, nat (rv_candidateId args), rv_term args))"

definition reply_key :: "nat \<times> RequestVoteArgs \<times> RequestVoteReply \<Rightarrow> nat \<times> nat \<times> int" where
  "reply_key x = (case x of (j, args, r) \<Rightarrow> (j, nat (rv_candidateId args), rv_term args))"

definition pending :: "system \<Rightarrow> (nat \<times> nat \<times> int) list" where
  "pending y = map call_key (calls y) @ map reply_key (replies y)"

definition counted :: "system \<Rightarrow> nat \<Rightarrow> int \<Rightarrow> nat set" where
  "counted y c t = {v. (v, t, c) \<in> set (votes y) \<and> (v, c, t) \<notin> set (pending y)}"

definition servers_ok :: "nat \<Rightarrow> system \<Rightarrow> bool" where
  "servers_ok n y \<longleftrightarrow> length (servers y) = n \<and>
     (\<forall>i<n. id (servers y ! i) = int i \<and> m_addrs_size (servers y ! i) = n \<and> 0 \<le> currentTerm (servers y ! i))"

definition votes_ok :: "nat \<Rightarrow> system \<Rightarrow> bool" where
  "votes_ok n y \<longleftrightarrow>
     (\<forall>v t c. (v, t, c) \<in> set (votes y) \<longrightarrow> v < n \<and> c < n \<and> t \<le> currentTerm (servers y ! v) \<and>
        (t = currentTerm (servers y ! v) \<longrightarrow> votedFor (servers y ! v) \<in> {int c, int v})) \<and>
     (\<forall>v t c c'. (v, t, c) \<in> set (votes y) \<longrightarrow> (v, t, c') \<in> set (votes y) \<longrightarrow> c = c')"

definition pending_ok :: "nat \<Rightarrow> system \<Rightarrow> bool" where
  "pending_ok n y \<longleftrightarrow> distinct (pending y) \<and>
     (\<forall>v c t. (v, c, t) \<in> set (pending y) \<longrightarrow> v < n \<and> c < n \<and> c \<noteq> v \<and> t \<le> currentTerm (servers y ! c)) \<and>
     (\<forall>(j, args) \<in> set (calls y). 0 \<le> rv_candidateId args) \<and>
     (\<forall>(j, args, r) \<in> set (replies y). rr_voteGranted r \<longrightarrow>
        rr_term r = rv_term args \<and> (j, rv_term args, nat (rv_candidateId args)) \<in> set (votes y))"

definition leaders_ok :: "nat \<Rightarrow> system \<Rightarrow> bool" where
  "leaders_ok n y \<longleftrightarrow>
     (\<forall>c<n. state (servers y ! c) = Candidate_State \<longrightarrow> 0 < currentTerm (servers y ! c) \<and>
        (currentTerm (servers y ! c), c) \<notin> set (elected y) \<and>
        voteCount (servers y ! c) \<le> int (card (counted y c (currentTerm (servers y ! c))))) \<and>
     (\<forall>c<n. state (servers y ! c) = Leader_State \<longrightarrow> (currentTerm (servers y ! c), c) \<in> set (elected y)) \<and>
     (\<forall>t c. (t, c) \<in> set (elected y) \<longrightarrow> c < n \<and> 0 < t \<and> t \<le> currentTerm (servers y ! c) \<and>
        n div 2 < card {v. (v, t, c) \<in> set (votes y)})"

definition elections :: "nat \<Rightarrow> system \<Rightarrow> bool" where
  "elections n y \<longleftrightarrow> servers_ok n y \<and> votes_ok n y \<and> pending_ok n y \<and> leaders_ok n y"

lemmas elections_defs = elections_def servers_ok_def votes_ok_def pending_ok_def leaders_ok_def

lemma finite_voters: "votes_ok n y \<Longrightarrow> finite {v. (v, t, c) \<in> set (votes y)}"
  by (rule finite_subset [of _ "{..<n}"]) (auto simp: votes_ok_def)

lemma majorities_meet:
  assumes "A \<subseteq> {..<n}" "B \<subseteq> {..<n}" "n div 2 < card A" "n div 2 < card B"
  shows "A \<inter> B \<noteq> {}"
proof
  assume "A \<inter> B = {}"
  moreover have "finite A" "finite B" using assms finite_subset by blast+
  ultimately have "card (A \<union> B) = card A + card B" by (simp add: card_Un_disjoint)
  moreover have "card (A \<union> B) \<le> n" using card_mono [of "{..<n}" "A \<union> B"] assms by simp
  ultimately show False using assms by linarith
qed

lemma one_leader:
  assumes "elections n y" "(t, c) \<in> set (elected y)" "(t, c') \<in> set (elected y)"
  shows "c = c'"
proof -
  have "{v. (v, t, c) \<in> set (votes y)} \<inter> {v. (v, t, c') \<in> set (votes y)} \<noteq> {}"
    using assms by (intro majorities_meet [of _ n]) (auto simp: elections_defs)
  then show ?thesis using assms(1) by (auto simp: elections_def votes_ok_def)
qed

section \<open>The invariant is kept\<close>

lemma quiet_term: "quiet s s' \<Longrightarrow> currentTerm s \<le> currentTerm s'"
  by (auto simp: quiet_def)

lemma quiet_same_term:
  "quiet s s' \<Longrightarrow> currentTerm s' = currentTerm s \<Longrightarrow> votedFor s' \<in> {votedFor s, id s}"
  by (auto simp: quiet_def)

lemma quiet_role:
  "quiet s s' \<Longrightarrow> state s' \<noteq> Follower_State \<Longrightarrow>
     state s' = state s \<and> currentTerm s' = currentTerm s \<and> voteCount s' = voteCount s"
  by (auto simp: quiet_def)

text \<open>Terms and votes of the servers only move forward.\<close>

lemma votes_ok_step:
  assumes "servers_ok n y" "votes_ok n y" "i < n" "servers y' = (servers y)[i := s]" "votes y' = votes y"
    and "currentTerm (servers y ! i) \<le> currentTerm s"
    and "currentTerm s = currentTerm (servers y ! i) \<Longrightarrow> votedFor s \<in> {votedFor (servers y ! i), int i}"
  shows "votes_ok n y'"
  unfolding votes_ok_def
proof (intro conjI allI impI)
  fix v t c assume "(v, t, c) \<in> set (votes y')"
  then have V: "v < n" "c < n" "t \<le> currentTerm (servers y ! v)"
    "t = currentTerm (servers y ! v) \<Longrightarrow> votedFor (servers y ! v) \<in> {int c, int v}"
    using assms(2,5) by (auto simp: votes_ok_def)
  show "v < n" "c < n" by (fact V)+
  have len: "length (servers y) = n" using assms(1) by (simp add: servers_ok_def)
  show "t \<le> currentTerm (servers y' ! v)"
    using V(1,3) assms(3,4,6) len by (cases "v = i") auto
  show "votedFor (servers y' ! v) \<in> {int c, int v}" if "t = currentTerm (servers y' ! v)"
    using V that assms(3,4,6,7) len by (cases "v = i") auto
next
  fix v t c c' assume "(v, t, c) \<in> set (votes y')" "(v, t, c') \<in> set (votes y')"
  then show "c = c'" using assms(2,5) by (auto simp: votes_ok_def)
qed

lemma servers_ok_step:
  assumes "servers_ok n y" "i < n" "servers y' = (servers y)[i := s]"
    and "id s = id (servers y ! i)" "m_addrs_size s = m_addrs_size (servers y ! i)"
    and "currentTerm (servers y ! i) \<le> currentTerm s"
  shows "servers_ok n y'"
  using assms by (fastforce simp: servers_ok_def nth_list_update)

lemma pending_ok_granted:
  "pending_ok n y \<Longrightarrow> (j, args, r) \<in> set (replies y) \<Longrightarrow> rr_voteGranted r \<Longrightarrow>
     rr_term r = rv_term args \<and> (j, rv_term args, nat (rv_candidateId args)) \<in> set (votes y)"
  by (fastforce simp: pending_ok_def)

lemma pending_ok_step:
  assumes "servers_ok n y" "pending_ok n y" "i < n" "servers y' = (servers y)[i := s]"
    and "currentTerm (servers y ! i) \<le> currentTerm s"
    and "distinct (pending y')" "set (pending y') \<subseteq> set (pending y)" "set (calls y') \<subseteq> set (calls y)"
    and "set (votes y) \<subseteq> set (votes y')"
    and "\<And>j args r. (j, args, r) \<in> set (replies y') \<Longrightarrow> rr_voteGranted r \<Longrightarrow>
           (j, args, r) \<in> set (replies y) \<or>
           rr_term r = rv_term args \<and> (j, rv_term args, nat (rv_candidateId args)) \<in> set (votes y')"
  shows "pending_ok n y'"
proof -
  have len: "length (servers y) = n" using assms(1) by (simp add: servers_ok_def)
  have "v < n \<and> c < n \<and> c \<noteq> v \<and> t \<le> currentTerm (servers y' ! c)" if "(v, c, t) \<in> set (pending y')" for v c t
  proof -
    have "v < n \<and> c < n \<and> c \<noteq> v \<and> t \<le> currentTerm (servers y ! c)"
      using that assms(2,7) by (fastforce simp: pending_ok_def)
    then show ?thesis using assms(3,4,5) len by (cases "c = i") auto
  qed
  moreover have "\<forall>(j, args) \<in> set (calls y'). 0 \<le> rv_candidateId args"
    using assms(2,8) by (fastforce simp: pending_ok_def)
  moreover have "rr_term r = rv_term args \<and> (j, rv_term args, nat (rv_candidateId args)) \<in> set (votes y')"
    if "(j, args, r) \<in> set (replies y')" "rr_voteGranted r" for j args r
    using assms(10) [OF that] pending_ok_granted [OF assms(2) _ that(2)] assms(9) by blast
  ultimately show ?thesis using assms(6) by (simp add: pending_ok_def Ball_def)
qed

text \<open>
  What has to be shown of the one server that an event changes; the voters of the other candidates
  may only become more.
\<close>

lemma leaders_ok_step:
  assumes inv: "servers_ok n y" "leaders_ok n y" and i: "i < n" and y': "servers y' = (servers y)[i := s]"
    and trm: "currentTerm (servers y ! i) \<le> currentTerm s"
    and voters: "\<And>t c. card {v. (v, t, c) \<in> set (votes y)} \<le> card {v. (v, t, c) \<in> set (votes y')}"
    and counted: "\<And>t c. c \<noteq> i \<Longrightarrow> card (counted y c t) \<le> card (counted y' c t)"
    and el: "set (elected y) \<subseteq> set (elected y')"
    and el': "\<And>t c. (t, c) \<in> set (elected y') \<Longrightarrow> (t, c) \<in> set (elected y) \<or>
        c = i \<and> 0 < t \<and> t \<le> currentTerm s \<and> n div 2 < card {v. (v, t, c) \<in> set (votes y')}"
    and cand: "state s = Candidate_State \<Longrightarrow> 0 < currentTerm s \<and> (currentTerm s, i) \<notin> set (elected y') \<and>
        voteCount s \<le> int (card (counted y' i (currentTerm s)))"
    and lead: "state s = Leader_State \<Longrightarrow> (currentTerm s, i) \<in> set (elected y')"
  shows "leaders_ok n y'"
  unfolding leaders_ok_def
proof (intro conjI allI impI)
  have len: "length (servers y) = n" using inv by (simp add: servers_ok_def)
  note at_i [simp] = y' nth_list_update_eq [OF i [folded len]]
  fix c assume c: "c < n" "state (servers y' ! c) = Candidate_State"
  have *: "0 < currentTerm (servers y' ! c) \<and> (currentTerm (servers y' ! c), c) \<notin> set (elected y') \<and>
      voteCount (servers y' ! c) \<le> int (card (counted y' c (currentTerm (servers y' ! c))))"
  proof (cases "c = i")
    case True then show ?thesis using cand c by simp
  next
    case False
    then have "0 < currentTerm (servers y' ! c)" "(currentTerm (servers y' ! c), c) \<notin> set (elected y)"
      "voteCount (servers y' ! c) \<le> int (card (counted y c (currentTerm (servers y' ! c))))"
      using inv(2) c by (auto simp: leaders_ok_def)
    then show ?thesis using counted [OF False, of "currentTerm (servers y' ! c)"] el' False by force
  qed
  then show "0 < currentTerm (servers y' ! c)" "(currentTerm (servers y' ! c), c) \<notin> set (elected y')"
    "voteCount (servers y' ! c) \<le> int (card (counted y' c (currentTerm (servers y' ! c))))" by auto
next
  have len: "length (servers y) = n" using inv by (simp add: servers_ok_def)
  fix c assume "c < n" "state (servers y' ! c) = Leader_State"
  then show "(currentTerm (servers y' ! c), c) \<in> set (elected y')"
    using lead inv(2) el y' len i by (cases "c = i") (auto simp: leaders_ok_def)
next
  have len: "length (servers y) = n" using inv by (simp add: servers_ok_def)
  fix t c assume "(t, c) \<in> set (elected y')"
  then consider "(t, c) \<in> set (elected y)"
    | "c = i" "0 < t" "t \<le> currentTerm s" "n div 2 < card {v. (v, t, c) \<in> set (votes y')}" using el' by blast
  then have "c < n \<and> 0 < t \<and> t \<le> currentTerm (servers y' ! c) \<and> n div 2 < card {v. (v, t, c) \<in> set (votes y')}"
  proof cases
    case 1
    then have "c < n" "0 < t" "t \<le> currentTerm (servers y ! c)" "n div 2 < card {v. (v, t, c) \<in> set (votes y)}"
      using inv(2) by (auto simp: leaders_ok_def)
    then show ?thesis using voters [where t = t and c = c] trm y' len i by (cases "c = i") auto
  next
    case 2 then show ?thesis using y' len i by simp
  qed
  then show "c < n" "0 < t" "t \<le> currentTerm (servers y' ! c)" "n div 2 < card {v. (v, t, c) \<in> set (votes y')}" by auto
qed

lemma counted_mono:
  "votes_ok n y' \<Longrightarrow> (\<And>v. v \<in> counted y c t \<Longrightarrow> v \<in> counted y' c t) \<Longrightarrow> card (counted y c t) \<le> card (counted y' c t)"
  by (intro card_mono) (auto intro: finite_subset [OF _ finite_voters] simp: counted_def)

lemma voters_mono:
  "votes_ok n y' \<Longrightarrow> set (votes y) \<subseteq> set (votes y') \<Longrightarrow>
     card {v. (v, t, c) \<in> set (votes y)} \<le> card {v. (v, t, c) \<in> set (votes y')}"
  by (intro card_mono finite_voters) auto

text \<open>A quiet step; pending calls and replies may disappear.\<close>

lemma leaders_ok_quiet:
  assumes inv: "servers_ok n y" "leaders_ok n y" and votes: "votes_ok n y'"
    and i: "i < n" and q: "quiet (servers y ! i) s" and y': "servers y' = (servers y)[i := s]"
    and same: "votes y' = votes y" "elected y' = elected y"
    and pend: "set (pending y') \<subseteq> set (pending y)"
  shows "leaders_ok n y'"
proof (rule leaders_ok_step [OF inv i y' quiet_term [OF q]])
  have mono: "card (counted y c t) \<le> card (counted y' c t)" for c t
    using pend same by (intro counted_mono [OF votes]) (auto simp: counted_def)
  show "card (counted y c t) \<le> card (counted y' c t)" for t c by (rule mono)
  show "0 < currentTerm s \<and> (currentTerm s, i) \<notin> set (elected y') \<and>
      voteCount s \<le> int (card (counted y' i (currentTerm s)))" if "state s = Candidate_State"
  proof -
    have "0 < currentTerm s \<and> (currentTerm s, i) \<notin> set (elected y) \<and>
        voteCount s \<le> int (card (counted y i (currentTerm s)))"
      using quiet_role [OF q] that inv(2) i by (auto simp: leaders_ok_def)
    then show ?thesis using mono [of i "currentTerm s"] same by auto
  qed
  show "(currentTerm s, i) \<in> set (elected y')" if "state s = Leader_State"
    using quiet_role [OF q] that inv(2) i same by (auto simp: leaders_ok_def)
qed (use same in auto)

lemma elections_quiet:
  assumes "elections n y" "i < n" "quiet (servers y ! i) s" "servers y' = (servers y)[i := s]"
    and "votes y' = votes y" "elected y' = elected y"
    and "distinct (pending y')" "set (pending y') \<subseteq> set (pending y)" "set (calls y') \<subseteq> set (calls y)"
    and "\<And>j args r. (j, args, r) \<in> set (replies y') \<Longrightarrow> rr_voteGranted r \<Longrightarrow> (j, args, r) \<in> set (replies y)"
  shows "elections n y'"
  unfolding elections_def
proof (intro conjI)
  have inv: "servers_ok n y" "votes_ok n y" "pending_ok n y" "leaders_ok n y"
    using assms(1) by (auto simp: elections_def)
  note t = quiet_term [OF assms(3)]
  show "servers_ok n y'"
    by (rule servers_ok_step [OF inv(1) assms(2,4)]) (use assms(3) t in \<open>auto simp: quiet_def\<close>)
  show V: "votes_ok n y'"
    by (rule votes_ok_step [OF inv(1,2) assms(2,4,5) t])
      (use quiet_same_term [OF assms(3)] inv(1) assms(2) in \<open>auto simp: servers_ok_def\<close>)
  show "pending_ok n y'"
    by (rule pending_ok_step [OF inv(1,3) assms(2,4) t assms(7,8,9)]) (use assms(5,10) in auto)
  show "leaders_ok n y'"
    by (rule leaders_ok_quiet [OF inv(1,4) V assms(2,3,4,5,6,8)])
qed

text \<open>A server becomes a candidate.\<close>

lemma candidacy_pending:
  assumes "servers_ok n y" "i < n" "candidacy (servers y ! i) args s"
  shows "pending (post i (RequestVotes args) (put_server i s y)) =
           map call_key (calls y) @ map (\<lambda>j. (j, i, currentTerm (servers y ! i) + 1)) (others i y) @
           map reply_key (replies y)"
    and "set (pending (post i (RequestVotes args) (put_server i s y))) =
           set (pending y) \<union> {(j, i, currentTerm (servers y ! i) + 1) | j. j < n \<and> j \<noteq> i}"
proof -
  show "pending (post i (RequestVotes args) (put_server i s y)) =
      map call_key (calls y) @ map (\<lambda>j. (j, i, currentTerm (servers y ! i) + 1)) (others i y) @
      map reply_key (replies y)"
    using assms by (simp add: pending_def put_server_def call_key_def others_def comp_def candidacy_def servers_ok_def)
  then show "set (pending (post i (RequestVotes args) (put_server i s y))) =
      set (pending y) \<union> {(j, i, currentTerm (servers y ! i) + 1) | j. j < n \<and> j \<noteq> i}"
    using assms by (auto simp: pending_def others_def servers_ok_def)
qed

lemma candidacy_pending_ok:
  assumes I: "servers_ok n y" "pending_ok n y" and i: "i < n" and c: "candidacy (servers y ! i) args s"
  shows "pending_ok n (post i (RequestVotes args) (put_server i s y))" (is "pending_ok n ?y")
proof -
  let ?T = "currentTerm (servers y ! i) + 1"
  note pend = candidacy_pending [OF I(1) i c]
  have len: "length (servers y) = n" using I(1) by (simp add: servers_ok_def)
  have s: "currentTerm s = ?T" "0 \<le> rv_candidateId args" using c I(1) i by (auto simp: candidacy_def servers_ok_def)
  have ss: "servers ?y = (servers y)[i := s]" by (simp add: put_server_def)
  have old: "(v, i, t) \<in> set (pending y) \<Longrightarrow> t < ?T" for v t
    using I(2) by (fastforce simp: pending_ok_def)
  have "distinct (pending ?y)"
    using I(2) old unfolding pend by (fastforce simp: pending_ok_def pending_def distinct_map inj_on_def others_def)
  moreover have "v < n \<and> c < n \<and> c \<noteq> v \<and> t \<le> currentTerm (servers ?y ! c)" if "(v, c, t) \<in> set (pending ?y)" for v c t
  proof (cases "(v, c, t) \<in> set (pending y)")
    case True
    then have "v < n \<and> c < n \<and> c \<noteq> v \<and> t \<le> currentTerm (servers y ! c)" using I(2) by (auto simp: pending_ok_def)
    then show ?thesis using ss s len by (cases "c = i") auto
  next
    case False
    then show ?thesis using that pend(2) ss s len i by auto
  qed
  moreover have "\<forall>(j, args) \<in> set (calls ?y). 0 \<le> rv_candidateId args"
    using I(2) s(2) by (auto simp: pending_ok_def put_server_def)
  moreover have "rr_term r = rv_term a \<and> (j, rv_term a, nat (rv_candidateId a)) \<in> set (votes ?y)"
    if "(j, a, r) \<in> set (replies ?y)" "rr_voteGranted r" for j a r
    using pending_ok_granted [OF I(2)] that by (auto simp: put_server_def)
  ultimately show ?thesis by (simp add: pending_ok_def Ball_def)
qed

lemma elections_candidacy:
  assumes inv: "elections n y" and i: "i < n" and c: "candidacy (servers y ! i) args s"
  shows "elections n (post i (RequestVotes args) (put_server i s y))" (is "elections n ?y")
proof -
  let ?T = "currentTerm (servers y ! i) + 1"
  have I: "servers_ok n y" "votes_ok n y" "pending_ok n y" "leaders_ok n y"
    using inv by (auto simp: elections_def)
  note pend = candidacy_pending(2) [OF I(1) i c]
  have len: "length (servers y) = n" and T0: "0 \<le> currentTerm (servers y ! i)"
    using I(1) i by (auto simp: servers_ok_def)
  have s: "currentTerm s = ?T" "votedFor s = int i" "rv_term args = ?T" "state s = Candidate_State" "voteCount s = 1"
    using c I(1) i by (auto simp: candidacy_def servers_ok_def)
  have ss: "servers ?y = (servers y)[i := s]" by (simp add: put_server_def)
  have vs: "votes ?y = (i, ?T, i) # votes y" "elected ?y = elected y" using s by (auto simp: put_server_def)
  have V: "votes_ok n ?y"
    unfolding votes_ok_def vs ss using I(2) i len s by (fastforce simp: votes_ok_def nth_list_update)
  have "leaders_ok n ?y"
  proof (rule leaders_ok_step [OF I(1,4) i ss])
    show "card (counted y c t) \<le> card (counted ?y c t)" if "c \<noteq> i" for t c
      by (rule counted_mono [OF V]) (use that vs pend in \<open>auto simp: counted_def\<close>)
    have "i \<in> counted ?y i ?T" using I(3) vs(1) pend by (auto simp: counted_def pending_ok_def)
    then have "0 < card (counted ?y i ?T)"
      using finite_subset [OF _ finite_voters [OF V], of "counted ?y i ?T" ?T i] card_gt_0_iff
      by (fastforce simp: counted_def)
    moreover have "(?T, i) \<notin> set (elected y)" using I(4) by (fastforce simp: leaders_ok_def)
    ultimately show "0 < currentTerm s \<and> (currentTerm s, i) \<notin> set (elected ?y) \<and>
      voteCount s \<le> int (card (counted ?y i (currentTerm s)))" using s T0 vs by simp
  qed (use s vs voters_mono [OF V, of y] in auto)
  moreover have "servers_ok n ?y"
    by (rule servers_ok_step [OF I(1) i ss]) (use c in \<open>auto simp: candidacy_def\<close>)
  ultimately show ?thesis using V candidacy_pending_ok [OF I(1,3) i c] by (simp add: elections_def)
qed

text \<open>A server gives a vote: the call becomes a reply.\<close>

lemma mset_remove_at: "k < length xs \<Longrightarrow> mset (remove_at k xs) + {#xs ! k#} = mset xs"
  by (subst (3) id_take_nth_drop [of k xs]) (auto simp: remove_at_def)

lemma in_remove_at: "x \<in> set (remove_at k xs) \<Longrightarrow> x \<in> set xs"
  by (auto simp: remove_at_def dest: in_set_takeD in_set_dropD)

lemma answered_pending:
  assumes "k < length (calls y)" "calls y ! k = (j, args)"
    and "calls y' = remove_at k (calls y)" "replies y' = (j, args, r) # replies y"
  shows "mset (pending y') = mset (pending y)"
  using assms mset_remove_at [OF assms(1), THEN arg_cong [where f = "image_mset call_key"]]
  by (auto simp: pending_def call_key_def reply_key_def)

lemma elections_grant:
  assumes inv: "elections n y" and k: "k < length (calls y)" "calls y ! k = (j, args)"
    and r: "requestVote args (servers y ! j) = (r, s)" "rr_voteGranted r"
    and y': "servers y' = (servers y)[j := s]" "calls y' = remove_at k (calls y)" "replies y' = (j, args, r) # replies y"
      "votes y' = (j, rv_term args, nat (rv_candidateId args)) # votes y" "elected y' = elected y"
  shows "elections n y'"
proof -
  define c where "c = nat (rv_candidateId args)"
  have I: "servers_ok n y" "votes_ok n y" "pending_ok n y" "leaders_ok n y"
    using inv by (auto simp: elections_def)
  have "(j, args) \<in> set (calls y)" using k nth_mem by fastforce
  then have "(j, c, rv_term args) \<in> set (pending y)" "rv_candidateId args = int c"
    using I(3) by (force simp: pending_def call_key_def c_def pending_ok_def)+
  then have j: "j < n" "c < n" "c \<noteq> j" "rv_candidateId args = int c" using I(3) by (auto simp: pending_ok_def)
  note g = requestVote_granted [OF r]
  have len: "length (servers y) = n" using I(1) by (simp add: servers_ok_def)
  have pend: "set (pending y') = set (pending y)" "distinct (pending y')"
    using answered_pending [OF k y'(2,3)] I(3) by (auto simp: pending_ok_def dest: mset_eq_setD mset_eq_imp_distinct_iff)
  have trm: "currentTerm (servers y ! j) \<le> currentTerm s" using g by auto
  have old: "c' = c \<and> currentTerm (servers y ! j) = rv_term args"
    if "(j, t, c') \<in> set (votes y)" "t = rv_term args" for t c'
  proof -
    have "t \<le> currentTerm (servers y ! j)"
      "t = currentTerm (servers y ! j) \<Longrightarrow> votedFor (servers y ! j) \<in> {int c', int j}"
      using I(2) that(1) by (auto simp: votes_ok_def)
    then show ?thesis using g j that(2) by auto
  qed
  have V: "votes_ok n y'"
  proof -
    have "v < n \<and> d < n \<and> t \<le> currentTerm (servers y' ! v) \<and>
        (t = currentTerm (servers y' ! v) \<longrightarrow> votedFor (servers y' ! v) \<in> {int d, int v})"
      if "(v, t, d) \<in> set (votes y')" for v t d
      using that I(2) old g j trm len unfolding y'(1,4) c_def [symmetric]
      by (cases "v = j") (fastforce simp: votes_ok_def)+
    moreover have "d = d'" if "(v, t, d) \<in> set (votes y')" "(v, t, d') \<in> set (votes y')" for v t d d'
      using that I(2) old unfolding y'(4) c_def [symmetric] votes_ok_def by auto
    ultimately show ?thesis unfolding votes_ok_def by blast
  qed
  have "leaders_ok n y'"
  proof (rule leaders_ok_step [OF I(1,4) j(1) y'(1) trm])
    show "card (counted y c t) \<le> card (counted y' c t)" for t c
      by (rule counted_mono [OF V]) (use y' pend in \<open>auto simp: counted_def\<close>)
  qed (use y' g voters_mono [OF V, of y] in auto)
  moreover have "servers_ok n y'"
    by (rule servers_ok_step [OF I(1) j(1) y'(1)]) (use g in auto)
  moreover have "pending_ok n y'"
    by (rule pending_ok_step [OF I(1,3) j(1) y'(1) trm pend(2)]) (use pend y' g in \<open>auto dest: in_remove_at\<close>)
  ultimately show ?thesis using V by (simp add: elections_def)
qed

text \<open>A candidate counts a vote, and may become leader.\<close>

lemma elections_count:
  assumes inv: "elections n y" and k: "k < length (replies y)" "replies y ! k = (j, args, r)"
    and i: "i = nat (rv_candidateId args)"
    and s: "rr_voteGranted r" "rr_term r = currentTerm (servers y ! i)" "state (servers y ! i) = Candidate_State"
      "voteCount s = voteCount (servers y ! i) + 1" "id s = id (servers y ! i)" "m_addrs_size s = m_addrs_size (servers y ! i)"
      "currentTerm s = currentTerm (servers y ! i)" "votedFor s = votedFor (servers y ! i)"
      "won = (voteCount s > majority (servers y ! i))" "state s = (if won then Leader_State else Candidate_State)"
    and y': "servers y' = (servers y)[i := s]" "calls y' = calls y" "replies y' = remove_at k (replies y)"
      "votes y' = votes y" "elected y' = (if won then [(currentTerm s, i)] else []) @ elected y"
  shows "elections n y'"
proof -
  have I: "servers_ok n y" "votes_ok n y" "pending_ok n y" "leaders_ok n y"
    using inv by (auto simp: elections_def)
  let ?T = "currentTerm (servers y ! i)"
  have rep: "(j, args, r) \<in> set (replies y)" using k nth_mem by fastforce
  then have vote: "rv_term args = ?T" "(j, ?T, i) \<in> set (votes y)"
    using pending_ok_granted [OF I(3) rep s(1)] s(2) i by auto
  have "mset (pending y) = mset (pending y') + {#(j, i, ?T)#}"
    using mset_remove_at [OF k(1), THEN arg_cong [where f = "image_mset reply_key"]] y' k vote i
    by (auto simp: pending_def reply_key_def)
  then have "distinct ((j, i, ?T) # pending y')" "set (pending y) = insert (j, i, ?T) (set (pending y'))"
    using I(3) mset_eq_imp_distinct_iff [of "pending y" "(j, i, ?T) # pending y'"]
      mset_eq_setD [of "pending y" "(j, i, ?T) # pending y'"] by (auto simp: pending_ok_def)
  then have pend: "(j, i, ?T) \<notin> set (pending y')" "distinct (pending y')"
    "set (pending y) = insert (j, i, ?T) (set (pending y'))" by auto
  have "i < n" using I(3) pend(3) by (auto simp: pending_ok_def)
  note si = this
  have V: "votes_ok n y'"
    by (rule votes_ok_step [OF I(1,2) si y'(1,4)]) (use s in auto)
  have fin: "finite (counted y i ?T)"
    by (rule finite_subset [OF _ finite_voters [OF I(2)]]) (auto simp: counted_def)
  have new: "counted y' i ?T = insert j (counted y i ?T)" "j \<notin> counted y i ?T"
    using pend vote y' by (auto simp: counted_def)
  have cnt: "voteCount s \<le> int (card (counted y' i ?T))"
    using I(4) s(3,4) si new fin by (auto simp: leaders_ok_def)
  have fresh: "(?T, i) \<notin> set (elected y)" "0 < ?T" using I(4) s(3) si by (auto simp: leaders_ok_def)
  have win: "n div 2 < card {v. (v, ?T, i) \<in> set (votes y')}" if won
  proof -
    have "card (counted y' i ?T) \<le> card {v. (v, ?T, i) \<in> set (votes y')}"
      by (intro card_mono finite_voters [OF V]) (auto simp: counted_def)
    then show ?thesis using cnt s(9) that I(1) si by (simp add: majority_def servers_ok_def)
  qed
  have "leaders_ok n y'"
  proof (rule leaders_ok_step [OF I(1,4) si y'(1)])
    show "card (counted y c t) \<le> card (counted y' c t)" for t c
      by (rule counted_mono [OF V]) (use y' pend in \<open>auto simp: counted_def\<close>)
  qed (use y' s fresh cnt win in \<open>auto split: if_splits\<close>)
  moreover have "servers_ok n y'"
    by (rule servers_ok_step [OF I(1) si y'(1)]) (use s in auto)
  moreover have "pending_ok n y'"
    by (rule pending_ok_step [OF I(1,3) si y'(1) _ pend(2)]) (use pend y' s in \<open>auto dest: in_remove_at\<close>)
  ultimately show ?thesis using V by (simp add: elections_def)
qed

section \<open>Every event but a restart keeps the invariant\<close>

lemma elections_cong:
  assumes "servers y' = servers y" "calls y' = calls y" "replies y' = replies y" "votes y' = votes y" "elected y' = elected y"
  shows "elections n y' = elections n y"
proof -
  have "pending y' = pending y" "counted y' = counted y"
    using assms by (auto simp: pending_def counted_def fun_eq_iff)
  then show ?thesis using assms by (simp add: elections_defs)
qed

lemma send_same [simp]:
  "servers (send ms y) = servers y" "calls (send ms y) = calls y" "replies (send ms y) = replies y"
  "votes (send ms y) = votes y" "elected (send ms y) = elected y" "disk (send ms y) = disk y"
  "tlog (send ms y) = tlog y" "areplies (send ms y) = areplies y" "sreplies (send ms y) = sreplies y"
  by (induction ms y rule: send.induct) auto

lemma put_same [simp]:
  "servers (put_server i s y) = (servers y)[i := s]" "calls (put_server i s y) = calls y" "replies (put_server i s y) = replies y"
  "votes (put_server i s y) = votes y" "elected (put_server i s y) = elected y" "disk (put_server i s y) = disk y"
  "tlog (put_server i s y) = tlog y" "appends (put_server i s y) = appends y" "areplies (put_server i s y) = areplies y"
  "snaps (put_server i s y) = snaps y" "sreplies (put_server i s y) = sreplies y"
  by (auto simp: put_server_def)

lemma elections_send [simp]: "elections n (send ms y) = elections n y"
  by (rule elections_cong) auto

lemma elections_put:
  assumes "elections n y" "quiet (servers y ! i) s" "servers z = servers y"
    and "calls z = calls y" "replies z = replies y" "votes z = votes y" "elected z = elected y"
  shows "elections n (put_server i s z)"
proof (cases "i < n")
  case True
  have "pending (put_server i s z) = pending y" using assms by (simp add: pending_def)
  then show ?thesis using assms
    by (intro elections_quiet [OF assms(1) True assms(2)]) (auto simp: elections_defs)
next
  case False
  then have "length (servers y) \<le> i" using assms(1) by (simp add: elections_def servers_ok_def)
  then show ?thesis using elections_cong [of "put_server i s z" y] assms by (simp add: list_update_beyond)
qed

lemma post_same: "(\<And>args. b \<noteq> RequestVotes args) \<Longrightarrow> post i b y = y"
  by (cases b) auto

lemma elections_post:
  assumes "elections n y" "i < length (servers y)"
    and "(\<exists>args. b = RequestVotes args \<and> candidacy (servers y ! i) args s) \<or>
         (\<forall>args. b \<noteq> RequestVotes args) \<and> quiet (servers y ! i) s"
  shows "elections n (post i b (put_server i s y))"
  using assms(3)
proof
  assume "\<exists>args. b = RequestVotes args \<and> candidacy (servers y ! i) args s"
  then show ?thesis using elections_candidacy assms(1,2) by (auto simp: elections_def servers_ok_def)
next
  assume "(\<forall>args. b \<noteq> RequestVotes args) \<and> quiet (servers y ! i) s"
  then show ?thesis using elections_put [OF assms(1)] by (simp add: post_same)
qed

lemma elections_requestVote:
  assumes inv: "elections n y" and e: "step (RequestVote k) y = Some y'"
  shows "elections n y'"
proof -
  obtain j args r s where k: "k < length (calls y)" "calls y ! k = (j, args)"
    "requestVote args (servers y ! j) = (r, s)"
    and y': "y' = put_server j s (y\<lparr>calls := remove_at k (calls y), replies := (j, args, r) # replies y,
      votes := (if rr_voteGranted r then [(j, rv_term args, nat (rv_candidateId args))] else []) @ votes y\<rparr>)"
    using e by (auto split: if_splits prod.splits)
  show ?thesis
  proof (cases "rr_voteGranted r")
    case True
    show ?thesis by (rule elections_grant [OF inv k True]) (use y' True in auto)
  next
    case False
    have "(j, args) \<in> set (calls y)" using k nth_mem by fastforce
    then have "(j, nat (rv_candidateId args), rv_term args) \<in> set (pending y)"
      by (force simp: pending_def call_key_def)
    then have "j < n" using inv by (auto simp: elections_def pending_ok_def)
    moreover have "mset (pending y') = mset (pending y)"
      by (rule answered_pending [OF k(1,2)]) (use y' in auto)
    then have "set (pending y') = set (pending y)" "distinct (pending y') = distinct (pending y)"
      by (auto dest: mset_eq_setD mset_eq_imp_distinct_iff)
    ultimately show ?thesis using y' False inv
      by (intro elections_quiet [OF inv _ requestVote_refused [OF k(3) False]])
        (auto simp: elections_defs dest: in_remove_at)
  qed
qed

lemma elections_voteReply:
  assumes inv: "elections n y" and e: "step (VoteReply k snap) y = Some y'"
  shows "elections n y'"
proof -
  obtain j args r i won s where k: "k < length (replies y)" "replies y ! k = (j, args, r)"
    and i: "i = nat (rv_candidateId args)" and h: "handleRequestVote r (servers y ! i) = (won, s)"
    and y': "servers y' = (servers y)[i := s]" "calls y' = calls y" "replies y' = remove_at k (replies y)"
      "votes y' = votes y" "elected y' = (if won then [(currentTerm s, i)] else []) @ elected y"
    using e by (auto simp: Let_def split: if_splits prod.splits)
  from handleRequestVote_cases [OF h] show ?thesis
  proof
    assume q: "\<not> won \<and> quiet (servers y ! i) s"
    have "(j, args, r) \<in> set (replies y)" using k nth_mem by fastforce
    then have "(j, i, rv_term args) \<in> set (pending y)"
      using i by (force simp: pending_def reply_key_def)
    then have "i < n" using inv by (auto simp: elections_def pending_ok_def)
    moreover have "mset (pending y) = mset (pending y') + {#(j, i, rv_term args)#}"
      using mset_remove_at [OF k(1), THEN arg_cong [where f = "image_mset reply_key"]] y' k i
      by (auto simp: pending_def reply_key_def)
    then have "set (pending y') \<subseteq> set (pending y)" "distinct (pending y) \<Longrightarrow> distinct (pending y')"
      using mset_eq_imp_distinct_iff [of "pending y" "(j, i, rv_term args) # pending y'"]
        mset_eq_setD [of "pending y" "(j, i, rv_term args) # pending y'"] by auto
    ultimately show ?thesis using y' q inv
      by (intro elections_quiet [OF inv]) (auto simp: elections_defs dest: in_remove_at)
  next
    assume *: "rr_voteGranted r \<and> rr_term r = currentTerm (servers y ! i) \<and> state (servers y ! i) = Candidate_State \<and>
      voteCount s = voteCount (servers y ! i) + 1 \<and> id s = id (servers y ! i) \<and>
      m_addrs_size s = m_addrs_size (servers y ! i) \<and> currentTerm s = currentTerm (servers y ! i) \<and>
      votedFor s = votedFor (servers y ! i) \<and> log s = log (servers y ! i) \<and>
      won = (voteCount s > majority (servers y ! i)) \<and> state s = (if won then Leader_State else Candidate_State)"
    show ?thesis by (rule elections_count [OF inv k i _ _ _ _ _ _ _ _ _ _ y']) (use * in auto)
  qed
qed

lemma quiet_installsnapshot': "installsnapshot args s = (t, s') \<Longrightarrow> quiet s s'"
  using quiet_installsnapshot [of s args] by simp

lemma elections_step:
  assumes inv: "elections n y" and e: "step e y = Some y'" "\<not> isRestart e"
  shows "elections n y'"
proof (cases e)
  case (ElectionTimeout i)
  with e inv show ?thesis
    by (auto split: if_splits prod.splits intro!: elections_post electionTimeout_cases)
next
  case (PrepareReply i r)
  with e inv show ?thesis
    by (auto split: if_splits prod.splits intro!: elections_post handlePrepareVote_cases)
next
  case (AppendEntries k)
  with e show ?thesis
    by (auto split: if_splits prod.splits intro!: elections_put [OF inv] intro: quiet_handlers)
next
  case (AppendReply k junk)
  with e show ?thesis
    by (auto simp: Let_def split: if_splits prod.splits intro!: elections_put [OF inv] intro: quiet_handlers)
next
  case (InstallSnapshot k)
  with e show ?thesis
    by (auto split: if_splits prod.splits intro!: elections_put [OF inv] intro: quiet_installsnapshot')
next
  case (SnapshotReply k)
  with e show ?thesis
    by (auto simp: Let_def split: if_splits prod.splits intro!: elections_put [OF inv] intro: quiet_handlers)
next
  case (LeaderTimeout i live snap)
  with e show ?thesis
    by (auto split: if_splits prod.splits intro!: elections_put [OF inv] intro: quiet_handlers)
next
  case (HeartBeat i snap)
  with e inv show ?thesis by (auto split: if_splits)
next
  case (Start i v snap)
  with e show ?thesis
    using inv by (auto simp: Let_def split: if_splits intro!: elections_put [OF inv] intro: quiet_handlers)
next
  case (ApplyLog i)
  with e show ?thesis by (auto split: if_splits intro!: elections_put [OF inv] intro: quiet_handlers)
next
  case (Persist i created)
  with e show ?thesis
    by (auto simp: save_def split: if_splits intro!: elections_put [OF inv] intro: quiet_handlers)
next
  case (AsyncPersist i)
  with e show ?thesis
    by (auto simp: save_def split: if_splits intro!: elections_put [OF inv] intro: quiet_handlers)
next
  case (LeaseExpired i)
  with e show ?thesis by (auto split: if_splits intro!: elections_put [OF inv] intro: quiet_handlers)
next
  case (RequestVote k)
  show ?thesis using e(1) unfolding RequestVote by (rule elections_requestVote [OF inv])
next
  case (VoteReply k snap)
  show ?thesis using e(1) unfolding VoteReply by (rule elections_voteReply [OF inv])
next
  case (Restart i)
  with e show ?thesis by simp
qed

lemma elections_initial: "elections n (initial n pv tries maxLog lease async)"
  by (auto simp: elections_defs initial_def Raft_Server_def pending_def Let_def)

interpretation voting: step_invariant step "\<lambda>e. \<not> isRestart e" "elections n" for n
  by unfold_locales (rule elections_step)

lemma elections_reachable: "reachable n pv tries maxLog lease async y \<Longrightarrow> elections n y"
  by (blast dest: reachable_runs intro: voting.runs_inv elections_initial)

lemma reachable_run:
  "reachable n pv tries maxLog lease async y \<Longrightarrow> list_all (\<lambda>e. \<not> isRestart e) es \<Longrightarrow> run es y = Some y' \<Longrightarrow>
     reachable n pv tries maxLog lease async y'"
  by (induction es arbitrary: y) (auto split: option.splits intro: reachable.step)

section \<open>Elections\<close>

text \<open>
  C1: Election safety.  In a cluster of any size and any configuration, whatever calls are delivered,
  delayed or lost and whichever timers expire, two servers that are leaders in the same term are the
  same server, as long as no server restarts.
\<close>

theorem election_safety:
  assumes "reachable n pv tries maxLog lease async y"
    and "i < n" "j < n" "state (servers y ! i) = Leader_State" "state (servers y ! j) = Leader_State"
    and "currentTerm (servers y ! i) = currentTerm (servers y ! j)"
  shows "i = j"
proof -
  note inv = elections_reachable [OF assms(1)]
  then have "(currentTerm (servers y ! i), i) \<in> set (elected y)" "(currentTerm (servers y ! i), j) \<in> set (elected y)"
    using assms(2-6) by (auto simp: elections_def leaders_ok_def)
  then show ?thesis by (rule one_leader [OF inv])
qed

definition three_servers :: system where
  "three_servers = initial 3 False 5 50 False False"

definition first_election :: "event list" where
  "first_election = [ElectionTimeout 0, RequestVote 0, VoteReply 0 []]"

lemma first_election_runs:
  "\<exists>y. run first_election three_servers = Some y \<and> reachable 3 False 5 50 False False y \<and>
     state (servers y ! 0) = Leader_State \<and> currentTerm (servers y ! 0) = 1"
proof -
  have "case run first_election three_servers of None \<Rightarrow> False
    | Some y \<Rightarrow> state (servers y ! 0) = Leader_State \<and> currentTerm (servers y ! 0) = 1"
    by code_simp
  then obtain y where y: "run first_election three_servers = Some y" "state (servers y ! 0) = Leader_State"
    "currentTerm (servers y ! 0) = 1" by (auto split: option.splits)
  moreover have "reachable 3 False 5 50 False False y"
    by (rule reachable_run [OF reachable.start _ y(1) [unfolded three_servers_def]]) (simp add: first_election_def)
  ultimately show ?thesis by blast
qed

theorem election_safety_witness:
  "\<exists>y. reachable 3 False 5 50 False False y \<and>
     {j. j < 3 \<and> state (servers y ! j) = Leader_State \<and> currentTerm (servers y ! j) = 1} = {0}"
proof -
  obtain y where y: "reachable 3 False 5 50 False False y" "state (servers y ! 0) = Leader_State"
    "currentTerm (servers y ! 0) = 1" using first_election_runs by blast
  have "{j. j < 3 \<and> state (servers y ! j) = Leader_State \<and> currentTerm (servers y ! j) = 1} = {0}"
    using election_safety [OF y(1), of 0] y(2,3) by auto
  then show ?thesis using y(1) by blast
qed


lemma requestVote_newer:
  assumes "\<not> lease_time v" "currentTerm v < rv_term args" "isUptoMe v (rv_lastLogIndex args) (rv_lastLogTerm args)"
  shows "fst (requestVote args v) = \<lparr>rr_term = rv_term args, rr_voteGranted = True\<rparr>"
  using assms by (simp add: requestVote_def isUptoMe_def log_back_def Let_def)

lemma count_votes:
  assumes "list_all (\<lambda>r. rr_voteGranted r \<and> rr_term r = t) rs" "currentTerm s = t"
    and "state s = Leader_State \<or> state s = Candidate_State \<and> voteCount s + int (length rs) > majority s \<and> rs \<noteq> []"
  shows "state (fold (\<lambda>r s. snd (handleRequestVote r s)) rs s) = Leader_State \<and>
         currentTerm (fold (\<lambda>r s. snd (handleRequestVote r s)) rs s) = t"
  using assms
proof (induction rs arbitrary: s)
  case (Cons r rs)
  define s' where "s' = snd (handleRequestVote r s)"
  have s': "currentTerm s' = t" "majority s' = majority s"
    "state s' = Leader_State \<or> state s' = Candidate_State \<and> voteCount s' + int (length rs) > majority s' \<and> rs \<noteq> []"
    using Cons.prems
    by (auto simp: s'_def handleRequestVote_def becomeLeader_def majority_def Let_def neq_Nil_conv)
      (cases rs; simp)+
  then show ?case using Cons.IH [of s'] Cons.prems(1) by (simp add: s'_def)
qed auto



end
