(* ===== verification/Raft_Log.thy ===== *)
theory Raft_Log
  imports Raft_Election "HOL-Library.Sublist"
begin

text \<open>
  The logs of a cluster that writes its log synchronously (\<^verbatim>\<open>async_log\<close> off, the default).  The
  invariant \<open>logs\<close> says that every log, up to any of its entries, is a prefix of the log of the
  leader of that entry's term, recorded in \<^const>\<open>tlog\<close>; the log matching property follows.  In this
  configuration nothing is ever written to the log file, and no log is compacted.
\<close>

section \<open>Definitions\<close>

definition wf_log :: "LogEntry list \<Rightarrow> bool" where
  "wf_log l \<longleftrightarrow> l \<noteq> [] \<and> hd l = dummy \<and> (\<forall>k<length l. le_index (l ! k) = int k)"

definition log_ok :: "(int \<Rightarrow> LogEntry list) \<Rightarrow> LogEntry list \<Rightarrow> bool" where
  "log_ok lead l \<longleftrightarrow> wf_log l \<and> (\<forall>k<length l. prefix (take (Suc k) l) (lead (le_term (l ! k))))"

text \<open>An append that the leader of its term has sent: a segment of the log of that leader.\<close>

definition append_ok :: "system \<Rightarrow> nat \<times> AppendLogEntryArgs \<Rightarrow> bool" where
  "append_ok y x \<longleftrightarrow> (case x of (j, args) \<Rightarrow>
     let l = tlog y (ae_term args); p = nat (ae_prevLogIndex args)
     in (\<exists>i. (ae_term args, i) \<in> set (elected y) \<and> i \<noteq> j) \<and> 0 \<le> ae_prevLogIndex args \<and> p < length l \<and>
        ae_prevLogTerm args = le_term (l ! p) \<and> prefix (take (Suc p) l @ ae_entries args) l)"

definition server_ok :: "(int \<Rightarrow> LogEntry list) \<Rightarrow> server \<Rightarrow> bool" where
  "server_ok lead s \<longleftrightarrow> log_ok lead (log s) \<and> 0 \<le> commitIndex s \<and> persisentLog s = 0 \<and> 0 < maxLogSize s \<and>
     \<not> is_async_log s \<and> async_persisent_log_chan s = [] \<and>
     (state s = Leader_State \<longrightarrow> log s = lead (currentTerm s))"

definition logs :: "nat \<Rightarrow> system \<Rightarrow> bool" where
  "logs n y \<longleftrightarrow> (\<forall>i<n. server_ok (tlog y) (servers y ! i)) \<and> (\<forall>t. log_ok (tlog y) (tlog y t)) \<and>
     (\<forall>t. (\<forall>i. (t, i) \<notin> set (elected y)) \<longrightarrow> tlog y t = [dummy]) \<and>
     (\<forall>x \<in> set (appends y). append_ok y x) \<and> (\<forall>(j, args) \<in> set (snaps y). is_lastIncludeIndex args = 0) \<and>
     disk y = replicate n []"

section \<open>Logs that agree with the leaders\<close>

lemma wf_log_last: "wf_log l \<Longrightarrow> le_index (last l) = int (length l) - 1"
  by (auto simp: wf_log_def last_conv_nth of_nat_diff Suc_le_eq)

lemma wf_log_prefix:
  assumes "prefix l' l" "l' \<noteq> []" "wf_log l"
  shows "wf_log l'"
proof -
  obtain r where "l = l' @ r" using assms(1) by (auto simp: prefix_def)
  then have "hd l = hd l'" "length l' \<le> length l" "\<And>k. k < length l' \<Longrightarrow> l' ! k = l ! k"
    using assms(2) by (auto simp: nth_append)
  then show ?thesis using assms(2,3) order_less_le_trans by (auto simp: wf_log_def)
qed

lemma log_ok_prefix: "prefix l' l \<Longrightarrow> l' \<noteq> [] \<Longrightarrow> log_ok lead l \<Longrightarrow> log_ok lead l'"
proof -
  assume a: "prefix l' l" "l' \<noteq> []" "log_ok lead l"
  have "prefix (take (Suc k) l') (lead (le_term (l' ! k)))" if "k < length l'" for k
  proof -
    have "l' ! k = l ! k" "take (Suc k) l' = take (Suc k) l" "k < length l"
      using a(1) that by (auto simp: prefix_def nth_append)
    then show ?thesis using a(3) by (simp add: log_ok_def)
  qed
  then show ?thesis using a wf_log_prefix by (auto simp: log_ok_def)
qed

text \<open>Two logs that have an entry of the same index and term are equal up to it.\<close>

lemma log_ok_match:
  assumes "log_ok lead l" "log_ok lead l'" "k < length l" "k < length l'" "le_term (l ! k) = le_term (l' ! k)"
  shows "take (Suc k) l = take (Suc k) l'"
proof -
  have "prefix (take (Suc k) l) (lead (le_term (l ! k)))" "prefix (take (Suc k) l') (lead (le_term (l ! k)))"
    using assms unfolding log_ok_def by metis+
  then show ?thesis using assms(3,4) by (auto simp: prefix_def append_eq_append_conv)
qed

text \<open>The record of a term may grow, and it may start when its leader is elected.\<close>

lemma log_ok_grow:
  assumes "log_ok lead l" "prefix (lead t) l'"
  shows "log_ok (lead(t := l')) l"
  using assms prefix_order.trans by (fastforce simp: log_ok_def)

lemma log_ok_start:
  assumes "log_ok lead l" "lead t = [dummy]" "0 < t"
  shows "log_ok (lead(t := l')) l"
proof -
  have "le_term (l ! k) \<noteq> t" if k: "k < length l" for k
  proof
    assume t: "le_term (l ! k) = t"
    then have "prefix (take (Suc k) l) [dummy]" using assms(1,2) k by (auto simp: log_ok_def)
    then have "length (take (Suc k) l) \<le> 1" using prefix_length_le by fastforce
    then have "k = 0" using k by auto
    then have "l ! k = dummy" using assms(1) k by (auto simp: log_ok_def wf_log_def hd_conv_nth)
    then show False using t assms(3) by (simp add: dummy_def)
  qed
  then show ?thesis using assms(1) by (auto simp: log_ok_def)
qed

section \<open>Handlers that keep the log\<close>

definition neutral :: "server \<Rightarrow> server \<Rightarrow> bool" where
  "neutral s s' \<longleftrightarrow> log s' = log s \<and> commitIndex s \<le> commitIndex s' \<and> persisentLog s' = persisentLog s \<and>
     maxLogSize s' = maxLogSize s \<and> is_async_log s' = is_async_log s \<and>
     async_persisent_log_chan s' = async_persisent_log_chan s \<and>
     (state s' = Leader_State \<longrightarrow> state s = Leader_State \<and> currentTerm s' = currentTerm s)"

lemma neutral_refl [simp]: "neutral s s"
  by (simp add: neutral_def)

lemma server_ok_neutral: "server_ok lead s \<Longrightarrow> neutral s s' \<Longrightarrow> server_ok lead s'"
  by (auto simp: server_ok_def neutral_def)

lemma neutral_electionTimeout: "electionTimeout s = (b, s') \<Longrightarrow> neutral s s'"
  by (auto simp: electionTimeout_def boardcastPrepareVote_def boardcastRequestVote_def requests_def neutral_def
      Let_def split: if_splits)

lemma neutral_handlePrepareVote: "handlePrepareVote r s = (b, s') \<Longrightarrow> neutral s s'"
  by (auto simp: handlePrepareVote_def boardcastRequestVote_def requests_def neutral_def Let_def split: if_splits)

lemma neutral_requestVote: "requestVote args s = (r, s') \<Longrightarrow> neutral s s'"
  by (auto simp: requestVote_def neutral_def Let_def split: if_splits)

lemma neutral_handleRequestVote: "handleRequestVote r s = (False, s') \<Longrightarrow> neutral s s'"
  by (auto simp: handleRequestVote_def neutral_def Let_def split: if_splits)

lemma neutral_leaderTimeout: "leaderTimeout live snap s = Some (ms, s') \<Longrightarrow> neutral s s'"
  by (auto simp: leaderTimeout_def neutral_def split: if_splits)

lemma commitLoop_mono: "commitIndex s \<le> commitIndex (commitLoop s n)"
  by (induction s n rule: commitLoop.induct; subst commitLoop.simps; simp)

lemma neutral_handleAppendReply: "neutral s (handleAppendReply i args r junk s)"
  using order_trans [OF _ commitLoop_mono] by (auto simp: handleAppendReply_def neutral_def Let_def)

lemma neutral_handleSnapshotReply: "neutral s (handleSnapshotReply i args t s)"
  by (auto simp: handleSnapshotReply_def neutral_def)

lemma neutral_installsnapshot:
  "installsnapshot args s = (t, s') \<Longrightarrow> is_lastIncludeIndex args \<le> commitIndex s \<Longrightarrow> neutral s s'"
  by (auto simp: installsnapshot_def neutral_def Let_def split: if_splits)

lemma neutral_applyLog: "\<not> is_async_log s \<Longrightarrow> neutral s (applyLog s)"
  by (auto simp: applyLog_def applyStore_def applySend_def applyRead_def neutral_def Let_def)

lemma neutral_leaseExpired: "neutral s (leaseExpired s)"
  by (simp add: leaseExpired_def neutral_def)

lemmas neutral_handlers = neutral_electionTimeout neutral_handlePrepareVote neutral_requestVote
  neutral_handleRequestVote neutral_leaderTimeout neutral_handleAppendReply neutral_handleSnapshotReply
  neutral_installsnapshot neutral_applyLog neutral_leaseExpired

text \<open>The log of a server with the invariant starts at index 0, so nothing is persisted or compacted.\<close>

lemma server_ok_base: "server_ok lead s \<Longrightarrow> baseIndex s = 0"
  by (auto simp: server_ok_def log_ok_def wf_log_def baseIndex_def dummy_def)

lemma server_ok_back: "server_ok lead s \<Longrightarrow> le_index (log_back s) = int (length (log s)) - 1"
  by (simp add: server_ok_def log_ok_def log_back_def wf_log_last)

lemma persisent_nothing: "server_ok lead s \<Longrightarrow> persisent created s = Some ([], s)"
  using server_ok_base [of lead s] by (simp add: persisent_def persisentCheck_def server_ok_def)

lemma async_nothing: "server_ok lead s \<Longrightarrow> async_persisent_log s = ([], s)"
  by (simp add: async_persisent_log_def server_ok_def)

section \<open>The invariant is kept\<close>

lemma logs_neutral:
  assumes "logs n y" "length (servers y) = n" "neutral (servers y ! i) s"
    and "servers y' = (servers y)[i := s]" "tlog y' = tlog y" "elected y' = elected y" "disk y' = disk y"
    and "set (appends y') \<subseteq> set (appends y)" "set (snaps y') \<subseteq> set (snaps y)"
  shows "logs n y'"
proof -
  have "server_ok (tlog y') (servers y' ! c)" if "c < n" for c
    using assms that server_ok_neutral [of "tlog y" "servers y ! i" s] by (cases "c = i") (auto simp: logs_def)
  moreover have "append_ok y' x = append_ok y x" for x using assms by (simp add: append_ok_def split: prod.split)
  ultimately show ?thesis using assms by (fastforce simp: logs_def)
qed

lemma heartBeat_sends:
  assumes s: "server_ok (tlog y) s" "state s = Leader_State" "(currentTerm s, i) \<in> set (elected y)" "id s = int i"
    and h: "heartBeat_for snap s j = Some m" "j \<noteq> i"
  shows "case m of Append args \<Rightarrow> append_ok y (j, args) | Snapshot args \<Rightarrow> is_lastIncludeIndex args = 0"
proof -
  note base = server_ok_base [OF s(1)] and last = server_ok_back [OF s(1)]
  have l: "log s = tlog y (currentTerm s)" using s by (simp add: server_ok_def)
  let ?p = "nat (nextIndex s ! j - 1)"
  have "prefix (take (Suc ?p) (log s) @ drop (nat (nextIndex s ! j)) (log s)) (log s)" if "nextIndex s ! j > 0"
    using that by (simp add: Suc_nat_eq_nat_zadd1 append_take_drop_id)
  moreover have "prefix (take (Suc ?p) (log s)) (log s)" by (simp add: take_is_prefix)
  ultimately show ?thesis
    using h s(3) base last unfolding append_ok_def
    by (auto simp: heartBeat_for_def Let_def l [symmetric] baseIndex_def entry_def split: if_splits)
qed

lemma those_SomeD: "those xs = Some ys \<Longrightarrow> y \<in> set ys \<Longrightarrow> Some y \<in> set xs"
  by (induction xs arbitrary: ys) (auto split: option.splits)

lemma boardcastHeartBeat_sends:
  assumes "boardcastHeartBeat snap s = Some ms" "(j, m) \<in> set ms"
  shows "int j \<noteq> id s \<and> heartBeat_for snap s j = Some m \<and> state s = Leader_State"
proof -
  have l: "state s = Leader_State" using assms by (auto simp: boardcastHeartBeat_def split: if_splits)
  then have "those (map (\<lambda>i. map_option (Pair i) (heartBeat_for snap s i))
      (filter (\<lambda>i. int i \<noteq> id s) [0..<m_addrs_size s])) = Some ms"
    using assms(1) by (simp add: boardcastHeartBeat_def)
  from those_SomeD [OF this assms(2)] show ?thesis using l by (auto dest!: sym [of "Some _"])
qed

lemma send_appends:
  "set (appends (send ms y)) = set (appends y) \<union> {(j, args) | j args. (j, Append args) \<in> set ms}"
  "set (snaps (send ms y)) = set (snaps y) \<union> {(j, args) | j args. (j, Snapshot args) \<in> set ms}"
  by (induction ms y rule: send.induct) auto

lemma logs_send:
  assumes "elections n y" "logs n y" "i < n" "boardcastHeartBeat snap (servers y ! i) = Some ms"
  shows "logs n (send ms y)"
proof -
  let ?s = "servers y ! i"
  have i: "id ?s = int i" using assms(1,3) by (simp add: elections_def servers_ok_def)
  have m: "case m of Append args \<Rightarrow> append_ok y (j, args) | Snapshot args \<Rightarrow> is_lastIncludeIndex args = 0"
    if "(j, m) \<in> set ms" for j m
  proof -
    have *: "j \<noteq> i" "heartBeat_for snap ?s j = Some m" "state ?s = Leader_State"
      using boardcastHeartBeat_sends [OF assms(4) that] i by auto
    then have "(currentTerm ?s, i) \<in> set (elected y)" using assms(1,3) by (auto simp: elections_def leaders_ok_def)
    then show ?thesis using heartBeat_sends [OF _ *(3) _ i *(2,1)] assms(2,3) by (auto simp: logs_def)
  qed
  have "append_ok (send ms y) x = append_ok y x" for x by (simp add: append_ok_def split: prod.split)
  then show ?thesis using assms(2) m [of _ "Append _"] m [of _ "Snapshot _"] unfolding logs_def
    by (auto simp: send_appends)
qed

lemma start_logs:
  assumes inv: "elections n y" "logs n y" and i: "i < n" "state (servers y ! i) = Leader_State"
    and s': "s' = snd (start v (servers y ! i))"
  shows "logs n (put_server i s' (y\<lparr>tlog := (tlog y)(currentTerm (servers y ! i) := log s')\<rparr>))" (is "logs n ?y")
proof -
  let ?s = "servers y ! i" let ?t = "currentTerm ?s"
  define e where "e = \<lparr>le_index = le_index (log_back ?s) + 1, le_term = ?t, le_value = v\<rparr>"
  have ok: "server_ok (tlog y) ?s" using inv i by (simp add: logs_def)
  have l: "log s' = tlog y ?t @ [e]" "currentTerm s' = ?t" "log ?s = tlog y ?t"
    using i ok by (auto simp: s' start_def e_def Let_def server_ok_def)
  have grow: "log_ok (tlog ?y) l" if "log_ok (tlog y) l" for l using that l by (simp add: log_ok_grow)
  have "wf_log (log s')"
    using ok server_ok_back [OF ok] unfolding l(1) l(3) [symmetric]
    by (auto simp: server_ok_def log_ok_def wf_log_def nth_append less_Suc_eq e_def)
  moreover have "prefix (take (Suc k) (log s')) (tlog ?y (le_term (log s' ! k)))" if "k < length (log s')" for k
  proof (cases "k < length (tlog y ?t)")
    case True
    then have "prefix (take (Suc k) (tlog y ?t)) (tlog ?y (le_term (tlog y ?t ! k)))"
      using grow [of "tlog y ?t"] inv(2) by (auto simp: logs_def log_ok_def)
    then show ?thesis using True l by (simp add: nth_append)
  next
    case False
    then have "k = length (tlog y ?t)" using that l by simp
    then show ?thesis using l by (simp add: e_def)
  qed
  ultimately have new: "log_ok (tlog ?y) (log s')" by (simp add: log_ok_def)
  have other: "server_ok (tlog ?y) (servers y ! c)" if "c < n" "c \<noteq> i" for c
  proof -
    have "currentTerm (servers y ! c) \<noteq> ?t" if "state (servers y ! c) = Leader_State"
      using one_leader [OF inv(1), of ?t c i] \<open>c < n\<close> \<open>c \<noteq> i\<close> i that inv(1) by (auto simp: elections_def leaders_ok_def)
    then show ?thesis using inv(2) that(1) grow by (auto simp: logs_def server_ok_def)
  qed
  have me: "server_ok (tlog ?y) s'"
    using ok new i(2) l by (auto simp: server_ok_def s' start_def Let_def)
  have app: "append_ok ?y x" if "append_ok y x" for x
    using that l(1) prefix_order.trans [of _ "tlog y ?t" "tlog y ?t @ [e]"]
    by (auto simp: append_ok_def Let_def nth_append split: prod.splits)
  have el: "(?t, i) \<in> set (elected y)" using inv(1) i by (auto simp: elections_def leaders_ok_def)
  have len: "length (servers y) = n" using inv(1) by (simp add: elections_def servers_ok_def)
  have "server_ok (tlog ?y) (servers ?y ! c)" if "c < n" for c
    using me other that len i by (cases "c = i") auto
  moreover have "log_ok (tlog ?y) (tlog ?y t)" for t using new grow inv(2) by (auto simp: logs_def)
  moreover have "\<forall>t. (\<forall>i. (t, i) \<notin> set (elected ?y)) \<longrightarrow> tlog ?y t = [dummy]"
    using inv(2) el by (auto simp: logs_def)
  ultimately show ?thesis using inv(2) app by (auto simp: logs_def)
qed

lemma won_logs:
  assumes inv: "elections n y" "logs n y" "elections n y'" and i: "i < n"
    and s: "log s = log (servers y ! i)" "neutral (servers y ! i) (s\<lparr>state := Follower_State\<rparr>)"
    and y': "servers y' = (servers y)[i := s]" "elected y' = (currentTerm s, i) # elected y"
      "tlog y' = (tlog y)(currentTerm s := log s)" "disk y' = disk y" "appends y' = appends y" "snaps y' = snaps y"
    and new: "(currentTerm s, i) \<notin> set (elected y)"
  shows "logs n y'"
proof -
  let ?t = "currentTerm s"
  have len: "length (servers y) = n" using inv(1) by (simp add: elections_def servers_ok_def)
  have fresh: "(?t, c) \<notin> set (elected y)" for c
    using one_leader [OF inv(3), of ?t c i] new y'(2) by auto
  then have d: "tlog y ?t = [dummy]" using inv(2) by (auto simp: logs_def)
  have "0 < ?t" using inv(3) y'(2) by (auto simp: elections_def leaders_ok_def)
  then have start: "log_ok (tlog y') l" if "log_ok (tlog y) l" for l
    using log_ok_start [OF that d] y'(3) by simp
  have me: "server_ok (tlog y') s"
    using inv(2) i s start y'(3) by (auto simp: logs_def server_ok_def neutral_def)
  have other: "server_ok (tlog y') (servers y ! c)" if "c < n" for c
    using inv(1,2) that fresh start y'(3) by (auto simp: logs_def server_ok_def elections_def leaders_ok_def)
  have "server_ok (tlog y') (servers y' ! c)" if "c < n" for c
    using me other that y'(1) len by (cases "c = i") auto
  moreover have "append_ok y' x" if "append_ok y x" for x
    using that fresh y'(2,3) by (auto simp: append_ok_def Let_def split: prod.splits)
  moreover have "log_ok (tlog y') (tlog y' t)" for t
    using start inv(2) me y'(3) by (auto simp: logs_def server_ok_def)
  ultimately show ?thesis using inv(2) y' by (auto simp: logs_def)
qed

text \<open>An accepted append leaves a prefix of the log of the sender; any other append keeps the log.\<close>

lemma appendlog_accepts:
  assumes ok: "server_ok (tlog y) s" "append_ok y (j, args)" "log_ok (tlog y) (tlog y (ae_term args))"
    and a: "ae_prevLogIndex args \<le> le_index (log_back s)"
      "ae_prevLogTerm args = le_term (entry s (ae_prevLogIndex args))"
  shows "prefix (log (takeEntries args s)) (tlog y (ae_term args)) \<and> log (takeEntries args s) \<noteq> []"
proof -
  let ?l = "tlog y (ae_term args)" let ?p = "nat (ae_prevLogIndex args)"
  have p: "0 \<le> ae_prevLogIndex args" "?p < length ?l" "ae_prevLogTerm args = le_term (?l ! ?p)"
    "prefix (take (Suc ?p) ?l @ ae_entries args) ?l" using ok(2) by (auto simp: append_ok_def Let_def)
  have b: "baseIndex s = 0" "?p < length (log s)"
    using server_ok_base [OF ok(1)] server_ok_back [OF ok(1)] a(1) p(1) by auto
  have "take (Suc ?p) (log s) = take (Suc ?p) ?l"
    by (rule log_ok_match [OF _ ok(3)]) (use ok(1) p b a(2) in \<open>auto simp: server_ok_def entry_def\<close>)
  moreover have "nat (ae_prevLogIndex args + 1) = Suc ?p" using p(1) by simp
  ultimately have "log (takeEntries args s) = take (Suc ?p) ?l @ ae_entries args"
    using b by (simp add: takeEntries_def)
  then show ?thesis using p by auto
qed

lemma newerTerm_same:
  "log (newerTerm args s) = log s" "commitIndex (newerTerm args s) = commitIndex s"
  "persisentLog (newerTerm args s) = persisentLog s" "maxLogSize (newerTerm args s) = maxLogSize s"
  "is_async_log (newerTerm args s) = is_async_log s"
  "async_persisent_log_chan (newerTerm args s) = async_persisent_log_chan s"
  "log_back (newerTerm args s) = log_back s" "baseIndex (newerTerm args s) = baseIndex s"
  "entry (newerTerm args s) = entry s" "log (takeEntries args (newerTerm args s)) = log (takeEntries args s)"
  by (auto simp: newerTerm_def log_back_def baseIndex_def entry_def fun_eq_iff takeEntries_def)

lemma newerTerm_role:
  "state (newerTerm args s) = Leader_State \<Longrightarrow> ae_term args \<ge> currentTerm s \<Longrightarrow>
     state s = Leader_State \<and> currentTerm s = ae_term args"
  by (auto simp: newerTerm_def split: if_splits)

lemma appendlog_fails: "appendlog args s = Some (r, s') \<Longrightarrow> \<not> ar_success r \<Longrightarrow> neutral s s'"
  using compare_cases [of args "newerTerm args s" r s'] accept_same [of args "newerTerm args s" r s']
  by (auto simp: appendlog_def refuse_def neutral_def newerTerm_def split: if_splits)

lemma appendlog_success:
  assumes "appendlog args s = Some (r, s')" "ar_success r"
  shows "ae_term args \<ge> currentTerm s \<and> ae_prevLogIndex args \<le> le_index (log_back s) \<and>
    (ae_prevLogIndex args < baseIndex s \<or> ae_prevLogTerm args = le_term (entry s (ae_prevLogIndex args))) \<and>
    (\<exists>c. s' = (newerTerm args s)\<lparr>log := log (takeEntries args s), commitIndex := c\<rparr> \<and>
       log (takeEntries args s) \<noteq> [] \<and>
       (c = commitIndex s \<or>
        c = min (ae_leaderCommit args) (le_index (last (log (takeEntries args s)))) \<and> commitIndex s < ae_leaderCommit args))"
proof -
  have le: "ae_term args \<ge> currentTerm s" "compare args (newerTerm args s) = Some (r, s')"
    using assms by (auto simp: appendlog_def refuse_def split: if_splits)
  from compare_cases [OF le(2)] assms(2) have *: "accept args (newerTerm args s) = Some (r, s')"
    "ae_prevLogIndex args \<le> le_index (log_back s)"
    "ae_prevLogIndex args < baseIndex s \<or> ae_prevLogTerm args = le_term (entry s (ae_prevLogIndex args))"
    by (auto simp: newerTerm_same)
  from accept_same [OF *(1)] le(1) *(2,3) show ?thesis by (auto simp: newerTerm_same)
qed

lemma append_logs:
  assumes inv: "elections n y" "logs n y" and j: "j < n" and x: "append_ok y (j, args)"
    and a: "appendlog args (servers y ! j) = Some (r, s)"
    and y': "servers y' = (servers y)[j := s]" "tlog y' = tlog y" "elected y' = elected y" "disk y' = disk y"
      "set (appends y') \<subseteq> set (appends y)" "snaps y' = snaps y"
  shows "logs n y'"
proof (cases "ar_success r")
  case False
  then show ?thesis using inv y' appendlog_fails [OF a]
    by (intro logs_neutral [OF inv(2)]) (auto simp: elections_def servers_ok_def)
next
  case True
  let ?s = "servers y ! j" let ?l = "log (takeEntries args (servers y ! j))"
  have ok: "server_ok (tlog y) ?s" and L: "log_ok (tlog y) (tlog y (ae_term args))" using inv(2) j by (auto simp: logs_def)
  obtain c where c: "ae_prevLogIndex args \<le> le_index (log_back ?s)" "ae_term args \<ge> currentTerm ?s"
    "ae_prevLogTerm args = le_term (entry ?s (ae_prevLogIndex args))"
    "s = (newerTerm args ?s)\<lparr>log := ?l, commitIndex := c\<rparr>"
    "c = commitIndex ?s \<or> c = min (ae_leaderCommit args) (le_index (last ?l)) \<and> commitIndex ?s < ae_leaderCommit args"
    using appendlog_success [OF a True] server_ok_base [OF ok] x by (auto simp: append_ok_def Let_def)
  have log: "log_ok (tlog y) ?l"
    using log_ok_prefix [OF _ _ L] appendlog_accepts [OF ok x L c(1,3)] by simp
  have "state s \<noteq> Leader_State"
  proof
    assume "state s = Leader_State"
    then have "state ?s = Leader_State \<and> currentTerm ?s = ae_term args"
      using newerTerm_role [OF _ c(2)] c(4) by simp
    then have "(ae_term args, j) \<in> set (elected y)"
      using inv(1) j by (auto simp: elections_def leaders_ok_def)
    moreover obtain i where "(ae_term args, i) \<in> set (elected y)" "i \<noteq> j" using x by (auto simp: append_ok_def Let_def)
    ultimately show False using one_leader [OF inv(1)] by blast
  qed
  moreover have "0 \<le> le_index (last ?l)"
    using log wf_log_last [of ?l] by (cases ?l) (auto simp: log_ok_def wf_log_def)
  ultimately have "server_ok (tlog y) s"
    using ok log c(4,5) by (auto simp: server_ok_def newerTerm_same(2-6))
  moreover have "append_ok y' x = append_ok y x" for x using y' by (simp add: append_ok_def split: prod.split)
  moreover have "length (servers y) = n" using inv(1) by (simp add: elections_def servers_ok_def)
  ultimately show ?thesis using inv(2) y' j by (auto simp: logs_def nth_list_update)
qed

section \<open>Every event but a restart keeps the logs\<close>

lemma logs_put:
  assumes "elections n y" "logs n y" "neutral (servers y ! i) s" "servers z = servers y" "tlog z = tlog y"
    and "elected z = elected y" "disk z = disk y" "set (appends z) \<subseteq> set (appends y)" "set (snaps z) \<subseteq> set (snaps y)"
  shows "logs n (put_server i s z)"
  using assms by (intro logs_neutral [OF assms(2)]) (auto simp: elections_def servers_ok_def)

lemma post_logs [simp]: "logs n (post i b y) = logs n y"
  by (cases b) (auto simp: logs_def append_ok_def)

lemma save_nothing: "i < length (disk y) \<Longrightarrow> save i ([], s) y = put_server i s y"
  by (simp add: save_def)

lemma logs_voteReply:
  assumes inv: "elections n y" "logs n y" and e: "step (VoteReply k snap) y = Some y'"
  shows "logs n y'"
proof -
  obtain j args r i won s where k: "k < length (replies y)" "replies y ! k = (j, args, r)"
    and i: "i = nat (rv_candidateId args)" and h: "handleRequestVote r (servers y ! i) = (won, s)"
    and y': "won \<Longrightarrow> \<exists>ms. boardcastHeartBeat snap s = Some ms \<and>
        y' = send ms (put_server i s (y\<lparr>replies := remove_at k (replies y), elected := (currentTerm s, i) # elected y,
                                 tlog := (tlog y)(currentTerm s := log s)\<rparr>))"
      "\<not> won \<Longrightarrow> y' = put_server i s (y\<lparr>replies := remove_at k (replies y)\<rparr>)"
    using e by (auto simp: Let_def split: if_splits prod.splits)
  have "(j, args, r) \<in> set (replies y)" using k nth_mem by fastforce
  then have "(j, i, rv_term args) \<in> set (pending y)" using i by (force simp: pending_def reply_key_def)
  then have si: "i < n" using inv by (auto simp: elections_def pending_ok_def)
  have len: "length (servers y) = n" using inv(1) by (simp add: elections_def servers_ok_def)
  show ?thesis
  proof (cases won)
    case False
    then show ?thesis using h y'(2) by (auto intro!: logs_put [OF inv] neutral_handleRequestVote)
  next
    case True
    then obtain ms where ms: "boardcastHeartBeat snap s = Some ms"
      and y': "y' = send ms (put_server i s (y\<lparr>replies := remove_at k (replies y), elected := (currentTerm s, i) # elected y,
                                 tlog := (tlog y)(currentTerm s := log s)\<rparr>))" (is "_ = send ms ?z") using y'(1) by blast
    have E: "elections n ?z" using elections_voteReply [OF inv(1) e] y' by simp
    have s: "log s = log (servers y ! i)" "neutral (servers y ! i) (s\<lparr>state := Follower_State\<rparr>)"
      "currentTerm s = currentTerm (servers y ! i)" "state (servers y ! i) = Candidate_State"
      using h True by (auto simp: handleRequestVote_def becomeLeader_def neutral_def Let_def split: if_splits)
    have "logs n ?z"
      by (rule won_logs [OF inv E si s(1,2)]) (use s inv(1) si in \<open>auto simp: elections_def leaders_ok_def\<close>)
    then show ?thesis unfolding y' by (rule logs_send [OF E _ si]) (use ms len si in simp)
  qed
qed

lemma logs_start:
  assumes inv: "elections n y" "logs n y" and e: "step (Start i v snap) y = Some y'"
  shows "logs n y'"
proof (cases "state (servers y ! i) = Leader_State")
  case False
  then show ?thesis using e inv by (auto simp: Let_def split: if_splits)
next
  case True
  let ?s = "snd (start v (servers y ! i))"
  let ?z = "put_server i ?s (y\<lparr>tlog := (tlog y)(currentTerm (servers y ! i) := log ?s)\<rparr>)"
  obtain ms where ms: "boardcastHeartBeat snap ?s = Some ms" "y' = send ms ?z" "i < length (servers y)"
    using e True by (auto simp: Let_def split: if_splits)
  have i: "i < n" using ms(3) inv(1) by (simp add: elections_def servers_ok_def)
  have E: "elections n ?z" using elections_step [OF inv(1) e] ms(2) by simp
  show ?thesis unfolding ms(2)
    by (rule logs_send [OF E start_logs [OF inv i True refl] i]) (use ms in simp)
qed

lemma logs_appendEntries:
  assumes inv: "elections n y" "logs n y" and e: "step (AppendEntries k) y = Some y'"
  shows "logs n y'"
proof -
  obtain j args r s where k: "k < length (appends y)" "appends y ! k = (j, args)"
    "appendlog args (servers y ! j) = Some (r, s)"
    "y' = put_server j s (y\<lparr>appends := remove_at k (appends y), areplies := (j, args, r) # areplies y\<rparr>)"
    using e by (auto split: if_splits prod.splits)
  have "(j, args) \<in> set (appends y)" using k nth_mem by fastforce
  then have x: "append_ok y (j, args)" using inv(2) by (auto simp: logs_def)
  show ?thesis
  proof (cases "j < n")
    case True
    show ?thesis by (rule append_logs [OF inv True x k(3)]) (use k in \<open>auto dest: in_remove_at\<close>)
  next
    case False
    then have "servers y' = (servers y)[j := servers y ! j]" using k(4) inv(1)
      by (simp add: elections_def servers_ok_def list_update_beyond)
    then show ?thesis using k(4) inv by (intro logs_neutral [OF inv(2), of j "servers y ! j"])
        (auto simp: elections_def servers_ok_def dest: in_remove_at)
  qed
qed

lemma logs_installSnapshot:
  assumes inv: "elections n y" "logs n y" and e: "step (InstallSnapshot k) y = Some y'"
  shows "logs n y'"
proof -
  obtain j args t s where k: "k < length (snaps y)" "snaps y ! k = (j, args)"
    "installsnapshot args (servers y ! j) = (t, s)"
    "y' = put_server j s (y\<lparr>snaps := remove_at k (snaps y), sreplies := (j, args, t) # sreplies y\<rparr>)"
    using e by (auto split: if_splits prod.splits)
  have "(j, args) \<in> set (snaps y)" using k nth_mem by fastforce
  then have zero: "is_lastIncludeIndex args = 0" using inv(2) by (auto simp: logs_def)
  have len: "length (servers y) = n" using inv(1) by (simp add: elections_def servers_ok_def)
  show ?thesis
  proof (cases "j < n")
    case True
    then have "neutral (servers y ! j) s"
      using neutral_installsnapshot [OF k(3)] zero inv(2) by (auto simp: logs_def server_ok_def)
    then show ?thesis using k(4) by (auto intro!: logs_put [OF inv] dest: in_remove_at)
  next
    case False
    then have "servers y' = (servers y)[j := servers y ! j]" using k(4) len by (simp add: list_update_beyond)
    then show ?thesis using k(4) inv len
      by (intro logs_neutral [OF inv(2), of j "servers y ! j"]) (auto dest: in_remove_at)
  qed
qed

lemma logs_step:
  assumes inv: "elections n y" "logs n y" and e: "step e y = Some y'" "\<not> isRestart e"
  shows "logs n y'"
proof -
  have len: "length (servers y) = n" "length (disk y) = n"
    using inv by (auto simp: elections_def servers_ok_def logs_def)
  have ok: "server_ok (tlog y) (servers y ! i)" if "i < n" for i using inv(2) that by (simp add: logs_def)
  have same: "put_server i (servers y ! i) y = y" for i by (simp add: put_server_def)
  show ?thesis
  proof (cases e)
    case (VoteReply k snap)
    show ?thesis using e(1) unfolding VoteReply by (rule logs_voteReply [OF inv])
  next
    case (Start i v snap)
    show ?thesis using e(1) unfolding Start by (rule logs_start [OF inv])
  next
    case (AppendEntries k)
    show ?thesis using e(1) unfolding AppendEntries by (rule logs_appendEntries [OF inv])
  next
    case (InstallSnapshot k)
    show ?thesis using e(1) unfolding InstallSnapshot by (rule logs_installSnapshot [OF inv])
  next
    case (LeaderTimeout i live snap)
    then obtain ms s where ms: "leaderTimeout live snap (servers y ! i) = Some (ms, s)" "y' = send ms (put_server i s y)" "i < n"
      using e(1) len by (auto split: if_splits)
    show ?thesis
    proof (cases "live > majority (servers y ! i)")
      case True
      then show ?thesis using ms inv by (auto simp: leaderTimeout_def same intro!: logs_send)
    next
      case False
      then show ?thesis using ms by (auto simp: leaderTimeout_def intro!: logs_put [OF inv] simp: neutral_def)
    qed
  next
    case (HeartBeat i snap)
    then show ?thesis using e(1) inv len by (auto split: if_splits intro!: logs_send)
  next
    case (Persist i created)
    then have "i < n" using e(1) len by (auto split: if_splits)
    then show ?thesis using e(1) len inv persisent_nothing [OF ok [of i], of created] Persist
      by (simp add: save_nothing same)
  next
    case (AsyncPersist i)
    then have "i < n" using e(1) len by (auto split: if_splits)
    then show ?thesis using e(1) len inv async_nothing [OF ok [of i]] AsyncPersist
      by (simp add: save_nothing same)
  next
    case (ApplyLog i)
    then have i: "i < n" "y' = put_server i (applyLog (servers y ! i)) y" using e(1) len by (auto split: if_splits)
    then have "neutral (servers y ! i) (applyLog (servers y ! i))"
      using ok [OF i(1)] neutral_applyLog by (simp add: server_ok_def)
    then show ?thesis unfolding i(2) by (rule logs_put [OF inv]) auto
  next
    case (Restart i)
    then show ?thesis using e(2) by simp
  qed (use e(1) in \<open>auto simp: Let_def split: if_splits prod.splits
         intro!: logs_put [OF inv] intro: neutral_handlers dest: in_remove_at\<close>)
qed

lemma logs_initial: "0 < maxLog \<Longrightarrow> logs n (initial n pv tries maxLog lease False)"
  by (auto simp: logs_def initial_def Raft_Server_def server_ok_def log_ok_def wf_log_def dummy_def Let_def)

interpretation logging: step_invariant step "\<lambda>e. \<not> isRestart e" "\<lambda>y. elections n y \<and> logs n y" for n
  by unfold_locales (use logs_step elections_step in blast)

lemma logs_reachable:
  assumes "reachable n pv tries maxLog lease False y" "0 < maxLog"
  shows "logs n y"
  using logging.runs_inv reachable_runs [OF assms(1)] elections_initial logs_initial [OF assms(2)] by blast

section \<open>Theorems\<close>

text \<open>
  C2: Log matching.  In a cluster that writes its log synchronously and in which no server restarts, if
  two servers have entries of the same term at the same position then their logs are equal up to and
  including that entry; the position of an entry is its index.
\<close>

theorem log_matching:
  assumes "reachable n pv tries maxLog lease False y" "0 < maxLog" "i < n" "j < n"
    and "k < length (log (servers y ! i))" "k < length (log (servers y ! j))"
    and "le_term (log (servers y ! i) ! k) = le_term (log (servers y ! j) ! k)"
  shows "take (Suc k) (log (servers y ! i)) = take (Suc k) (log (servers y ! j)) \<and>
         le_index (log (servers y ! i) ! k) = int k"
proof -
  have ok: "log_ok (tlog y) (log (servers y ! i))" "log_ok (tlog y) (log (servers y ! j))"
    using logs_reachable [OF assms(1,2)] assms(3,4) by (auto simp: logs_def server_ok_def)
  then show ?thesis using log_ok_match [OF ok assms(5-7)] assms(5) by (auto simp: log_ok_def wf_log_def)
qed

text \<open>A run in which the leader replicates one command to server 1.\<close>

definition replication :: "event list" where
  "replication = [Start 0 ''x'' [], AppendEntries 1, AppendReply 0 0]"

lemma replication_runs:
  "\<exists>y. run (first_election @ replication) three_servers = Some y \<and> reachable 3 False 5 50 False False y \<and>
     map le_value (log (servers y ! 0)) = ['''', ''x''] \<and> log (servers y ! 1) = log (servers y ! 0) \<and>
     commitIndex (servers y ! 0) = 1"
proof -
  have "case run (first_election @ replication) three_servers of None \<Rightarrow> False
    | Some y \<Rightarrow> map le_value (log (servers y ! 0)) = ['''', ''x''] \<and> log (servers y ! 1) = log (servers y ! 0) \<and>
        commitIndex (servers y ! 0) = 1"
    by code_simp
  then obtain y where y: "run (first_election @ replication) three_servers = Some y"
    "map le_value (log (servers y ! 0)) = ['''', ''x'']" "log (servers y ! 1) = log (servers y ! 0)"
    "commitIndex (servers y ! 0) = 1" by (auto split: option.splits)
  moreover have "reachable 3 False 5 50 False False y"
    by (rule reachable_run [OF reachable.start _ y(1) [unfolded three_servers_def]])
      (simp add: first_election_def replication_def)
  ultimately show ?thesis by (intro exI [of _ y] conjI)
qed

theorem log_matching_witness:
  "\<exists>y. reachable 3 False 5 50 False False y \<and> length (log (servers y ! 0)) = 2 \<and>
     take 2 (log (servers y ! 0)) = take 2 (log (servers y ! 1))"
proof -
  obtain y where y: "reachable 3 False 5 50 False False y" "map le_value (log (servers y ! 0)) = ['''', ''x'']"
    "log (servers y ! 1) = log (servers y ! 0)" using replication_runs by (elim exE conjE) (rule that)
  have len: "length (log (servers y ! 0)) = 2" using arg_cong [OF y(2), of length] by simp
  have "take (Suc 1) (log (servers y ! 0)) = take (Suc 1) (log (servers y ! 1))"
    by (rule log_matching [OF y(1), THEN conjunct1]) (use len y(3) in auto)
  then show ?thesis using y(1) len by (auto simp: numeral_2_eq_2)
qed

text \<open>
  Without asynchronous logging nothing is ever written to a log file: whatever a cluster does,
  as long as no server restarts, the log files of all servers are empty, committed entries included.
  (\<^verbatim>\<open>persisent\<close> returns before \<^verbatim>\<open>persisentlog\<close> as long as the persistent part is short, and only
  \<^verbatim>\<open>persisentlog\<close> makes it longer.)
\<close>

theorem sync_log_never_persisted:
  assumes "reachable n pv tries maxLog lease False y" "0 < maxLog"
  shows "disk y = replicate n [] \<and> list_all (\<lambda>s. persisentLog s = 0) (servers y)"
proof -
  have "length (servers y) = n"
    using elections_reachable [OF assms(1)] by (simp add: elections_def servers_ok_def)
  then show ?thesis using logs_reachable [OF assms] by (auto simp: logs_def server_ok_def list_all_length)
qed

theorem sync_log_never_persisted_witness:
  "\<exists>y. reachable 3 False 5 50 False False y \<and> commitIndex (servers y ! 0) = 1 \<and> disk y = replicate 3 []"
proof -
  obtain y where y: "reachable 3 False 5 50 False False y" "commitIndex (servers y ! 0) = 1"
    using replication_runs by (elim exE conjE) (rule that)
  then show ?thesis using sync_log_never_persisted [OF y(1)] by auto
qed

end
