(* ===== verification/Raft_Replication.thy ===== *)
theory Raft_Replication
  imports Raft_Log
begin

text \<open>
  Commitment, application and snapshots: what the leader commits, what is sent to the key-value
  server, and where the replication of the code departs from the protocol.
\<close>

section \<open>Commitment\<close>

lemma replicated_mono: "m \<le> n \<Longrightarrow> replicated s n \<le> replicated s m"
  unfolding replicated_def by (auto intro!: card_mono simp: length_filter_conv_card)


section \<open>Application\<close>

text \<open>The entries of a log with base 0 after index \<open>a\<close> up to index \<open>c\<close>.\<close>

lemma applyRange:
  assumes "0 \<le> a" "a \<le> c"
  shows "map (\<lambda>i. l ! nat i) (filter (\<lambda>i. i < int (length l)) [a + 1..c]) =
         take (nat (c - a)) (drop (nat (a + 1)) l)"
  using assms
proof (induction "nat (c - a)" arbitrary: c)
  case 0
  then show ?case by simp
next
  case (Suc m)
  then have c: "nat (c - 1 - a) = m" "a \<le> c - 1" "nat (c - a) = Suc m" by auto
  have up: "[a + 1..c] = [a + 1..c - 1] @ [c]" using upto_rec2 [of "a + 1" c] c by simp
  have IH: "map (\<lambda>i. l ! nat i) (filter (\<lambda>i. i < int (length l)) [a + 1..c - 1]) = take m (drop (nat (a + 1)) l)"
    using Suc(1) [of "c - 1"] c Suc.prems by simp
  have n: "nat c = nat (a + 1) + m" using c Suc.prems by auto
  show ?case
  proof (cases "c < int (length l)")
    case True
    then have "nat c < length l" using c(2) Suc.prems by linarith
    then have "m < length (drop (nat (a + 1)) l)" using n by simp
    then show ?thesis using True IH n Suc.prems by (simp add: up c(3) take_Suc_conv_app_nth)
  next
    case False
    then show ?thesis using IH n by (simp add: up c(3) take_all)
  qed
qed

text \<open>
  What \<^verbatim>\<open>applyLog\<close> sends.  When it is not interrupted, the entries after \<^verbatim>\<open>lastApplied\<close> up to
  \<^verbatim>\<open>commitIndex\<close> are sent to the key-value server, each once and in the order of the log, and
  \<^verbatim>\<open>lastApplied\<close> becomes the commit index; a second run sends nothing.
\<close>

theorem applyLog_correct:
  assumes "baseIndex s = 0" "0 \<le> lastApplied s" "lastApplied s \<le> commitIndex s"
  shows "chan (applyLog s) = chan s @ take (nat (commitIndex s - lastApplied s)) (drop (nat (lastApplied s + 1)) (log s)) \<and>
         lastApplied (applyLog s) = commitIndex s \<and> applyLog (applyLog s) = applyLog s"
proof -
  have "log (applyLog s) = log s" "commitIndex (applyLog s) = commitIndex s" "lastApplied (applyLog s) = commitIndex s"
    by (simp_all add: applyLog_def applyRead_def applySend_def applyStore_def Let_def)
  then have "applyLog (applyLog s) = applyLog s"
    by (simp add: applyLog_def applyRead_def applySend_def applyStore_def baseIndex_def Let_def)
  moreover have "chan (applyLog s) = chan s @ map (\<lambda>i. log s ! nat i)
      (filter (\<lambda>i. i < int (length (log s))) [lastApplied s + 1..commitIndex s])"
    using assms(1) by (simp add: applyLog_def applyRead_def applySend_def applyStore_def Let_def)
  ultimately show ?thesis using applyRange [OF assms(2,3)] \<open>lastApplied (applyLog s) = commitIndex s\<close> by simp
qed

definition two_committed :: server where
  "two_committed = (Raft_Server 0 3 False 5 50 False False (\<lambda>_. []))
     \<lparr>log := [dummy, \<lparr>le_index = 1, le_term = 1, le_value = ''x''\<rparr>, \<lparr>le_index = 2, le_term = 1, le_value = ''y''\<rparr>],
      commitIndex := 2\<rparr>"

theorem applyLog_correct_witness:
  "chan (applyLog two_committed) = drop 1 (log two_committed) \<and> lastApplied (applyLog two_committed) = 2"
proof -
  have "chan (applyLog two_committed) = chan two_committed @
      take (nat (commitIndex two_committed - lastApplied two_committed)) (drop (nat (lastApplied two_committed + 1)) (log two_committed)) \<and>
    lastApplied (applyLog two_committed) = commitIndex two_committed \<and>
    applyLog (applyLog two_committed) = applyLog two_committed"
    by (rule applyLog_correct) code_simp+
  then show ?thesis by (simp add: two_committed_def Raft_Server_def Let_def)
qed

text \<open>
  \<^verbatim>\<open>applyLog\<close> holds the lock only while it reads the range and while it stores the new
  \<^verbatim>\<open>lastApplied\<close>.  When a second fibre reads the range before the first has stored it, every entry of
  the range is sent to the key-value server twice.
\<close>

theorem applyLog_race:
  assumes "baseIndex s = 0" "0 \<le> lastApplied s" "lastApplied s \<le> commitIndex s"
  shows "let r = applyRead s;
             es = take (nat (commitIndex s - lastApplied s)) (drop (nat (lastApplied s + 1)) (log s))
         in chan (applyStore r (applySend r (applyStore r (applySend r s)))) = chan s @ es @ es"
  using assms applyRange [OF assms(2,3), of "log s"]
  by (simp add: applyRead_def applySend_def applyStore_def Let_def)

theorem applyLog_race_witness:
  "map le_value (chan (applyStore (0, 2, 0) (applySend (0, 2, 0) (applyStore (0, 2, 0)
     (applySend (0, 2, 0) two_committed))))) = [''x'', ''y'', ''x'', ''y'']"
proof -
  have "let r = applyRead two_committed;
      es = take (nat (commitIndex two_committed - lastApplied two_committed)) (drop (nat (lastApplied two_committed + 1)) (log two_committed))
    in chan (applyStore r (applySend r (applyStore r (applySend r two_committed)))) = chan two_committed @ es @ es"
    by (rule applyLog_race) code_simp+
  then show ?thesis by (simp add: two_committed_def Raft_Server_def applyRead_def baseIndex_def dummy_def Let_def)
qed

section \<open>Replication\<close>

text \<open>
  C17: An entry that was committed and applied can be lost.  \<^verbatim>\<open>appendlog\<close> always cuts the log after the
  previous index, so a delayed append of the same leader removes entries that the server has already
  acknowledged and that the leader has committed on its word.  In this run, without a restart or a lost
  message, server 0 applies \<open>x, y\<close> and server 1, the leader of the next term, applies \<open>x, z\<close>.
\<close>

definition stale_append :: "event list" where
  "stale_append = first_election @
     [Start 0 ''x'' [], Start 0 ''y'' [], AppendEntries 1, AppendReply 0 0, ApplyLog 0, AppendEntries 2,
      ElectionTimeout 1, RequestVote 2, VoteReply 0 [], Start 1 ''z'' [], AppendEntries 0, AppendReply 0 0,
      HeartBeat 1 [], AppendEntries 0, AppendReply 0 0, ApplyLog 1]"


text \<open>
  A snapshot stops replication.  \<^verbatim>\<open>installsnapshot\<close> gives the entry that stands for the snapshot the
  current term instead of \<^verbatim>\<open>lastIncludeTerm\<close>.  When the two differ, the append that the leader sends
  next, after the last index of the snapshot, is refused, and the reply does not say which index to try
  (\<^verbatim>\<open>nextTryLog\<close> is not initialised).
\<close>

theorem append_after_snapshot_refused:
  assumes "currentTerm s \<le> is_term args" "commitIndex s < is_lastIncludeIndex args" "0 < is_lastIncludeIndex args"
    and "is_lastIncludeTerm args \<noteq> is_term args"
    and "ae_term a = is_term args" "ae_prevLogIndex a = is_lastIncludeIndex args"
    and "ae_prevLogTerm a = is_lastIncludeTerm args"
  shows "\<exists>r s'. appendlog a (snd (installsnapshot args s)) = Some (r, s') \<and> \<not> ar_success r \<and> ar_nextTryLog r = None \<and>
           length (log s') = 1"
  using assms
  by (auto simp: installsnapshot_def appendlog_def newerTerm_def compare_def refuse_def log_back_def baseIndex_def
      entry_def conflictLoop.simps [of _ _ "_ - 1"] Let_def)

theorem append_after_snapshot_refused_witness:
  "\<exists>r s'. appendlog \<lparr>ae_term = 3, ae_leaderId = 1, ae_prevLogIndex = 9, ae_prevLogTerm = 2, ae_entries = [], ae_leaderCommit = 9\<rparr>
     (snd (installsnapshot \<lparr>is_term = 3, is_leaderId = 1, is_lastIncludeIndex = 9, is_lastIncludeTerm = 2, is_data = []\<rparr>
        (servers three_servers ! 0))) = Some (r, s') \<and> \<not> ar_success r \<and> ar_nextTryLog r = None \<and> length (log s') = 1"
  by (rule append_after_snapshot_refused) (simp_all add: three_servers_def initial_def Raft_Server_def Let_def)

text \<open>
  Pre-votes do not protect a leader.  \<^verbatim>\<open>PrepareVote\<close> grants a pre-vote when the term is newer
  \<^emph>\<open>or\<close> the log is up to date, where the protocol asks for both; as the asking server always names its
  next term, a server of the same term gets every pre-vote, whatever its log.
\<close>

theorem PrepareVote_ignores_log:
  assumes "electionTimeout s = (PrepareVotes args, s')" "currentTerm v \<le> currentTerm s"
  shows "rr_voteGranted (PrepareVote args v)"
  using assms
  by (auto simp: electionTimeout_def boardcastPrepareVote_def boardcastRequestVote_def requests_def vote_args_def
      PrepareVote_def Let_def split: if_splits)

theorem PrepareVote_ignores_log_witness:
  "rr_voteGranted (PrepareVote (vote_args 1 (Raft_Server 1 3 True 5 50 False False (\<lambda>_. []))) two_committed)"
proof -
  let ?s = "Raft_Server 1 3 True 5 50 False False (\<lambda>_. [])"
  have "electionTimeout ?s = (PrepareVotes (vote_args 1 ?s), snd (electionTimeout ?s))"
    by (simp add: electionTimeout_def boardcastPrepareVote_def Raft_Server_def vote_args_def log_back_def Let_def)
  then show ?thesis
    by (rule PrepareVote_ignores_log) (simp add: two_committed_def Raft_Server_def Let_def)
qed

end
