(* ===== verification/Number_Utils.thy ===== *)
theory Number_Utils
  imports Prelude "HOL-Library.Extended_Nat" Complex_Main
begin

text \<open>
  The number utilities of the chart library (\<^verbatim>\<open>src/html/js/echarts.js\<close>, \<^verbatim>\<open>linearMap\<close> to
  \<^verbatim>\<open>getLeastCommonMultiple\<close>).  Numbers are exact: rationals where the code only divides, reals where it
  takes logarithms; \<^verbatim>\<open>toFixed\<close>, which only repairs rounding errors, has no counterpart.  \<^term>\<open>None\<close> is
  \<^verbatim>\<open>NaN\<close> in the lists of values.
\<close>

section \<open>Definitions\<close>

definition linearMap :: "rat \<Rightarrow> rat \<times> rat \<Rightarrow> rat \<times> rat \<Rightarrow> bool \<Rightarrow> rat" where
  "linearMap val domain rng clamp =
     (let (d0, d1) = domain; (r0, r1) = rng; subDomain = d1 - d0; subRange = r1 - r0
      in if subDomain = 0 then if subRange = 0 then r0 else (r0 + r1) / 2
         else if clamp \<and> subDomain > 0 \<and> val \<le> d0 then r0
         else if clamp \<and> subDomain > 0 \<and> val \<ge> d1 then r1
         else if clamp \<and> \<not> subDomain > 0 \<and> val \<ge> d0 then r0
         else if clamp \<and> \<not> subDomain > 0 \<and> val \<le> d1 then r1
         else if \<not> clamp \<and> val = d0 then r0
         else if \<not> clamp \<and> val = d1 then r1
         else (val - d0) / subDomain * subRange + r0)"

subsection \<open>Percentages\<close>

definition orZeroNaN :: "rat option \<Rightarrow> rat" where
  "orZeroNaN v = (case v of None \<Rightarrow> 0 | Some x \<Rightarrow> x)"

text \<open>The index of the first largest remainder.\<close>

fun maxRemainder :: "rat list \<Rightarrow> nat \<Rightarrow> (rat \<times> nat) option \<Rightarrow> (rat \<times> nat) option" where
  "maxRemainder [] i best = best"
| "maxRemainder (r # rs) i best =
     maxRemainder rs (i + 1) (case best of None \<Rightarrow> Some (r, i)
                              | Some (m, j) \<Rightarrow> if r > m then Some (r, i) else Some (m, j))"

text \<open>
  The loop that hands out the remaining seats; on an empty list \<^verbatim>\<open>maxId\<close> stays \<^verbatim>\<open>null\<close> and no seat
  is changed.
\<close>

function giveSeats :: "int \<Rightarrow> int \<Rightarrow> int list \<Rightarrow> rat list \<Rightarrow> int list" where
  "giveSeats target current seats remainder =
     (if current < target
      then case maxRemainder remainder 0 None of
             None \<Rightarrow> giveSeats target (current + 1) seats remainder
           | Some (_, i) \<Rightarrow> giveSeats target (current + 1) (seats[i := seats ! i + 1]) (remainder[i := 0])
      else seats)"
  by pat_completeness auto
termination
  by (relation "measure (\<lambda>(target, current, seats, remainder). nat (target - current))") auto

declare giveSeats.simps [simp del]

definition getPercentSeats :: "rat option list \<Rightarrow> nat \<Rightarrow> rat list" where
  "getPercentSeats valueList precision =
     (let sum = foldl (\<lambda>acc val. acc + orZeroNaN val) 0 valueList
      in if sum = 0 then []
         else let digits = 10 ^ precision;
                  votesPerQuota = map (\<lambda>val. orZeroNaN val / sum * of_nat digits * 100) valueList;
                  targetSeats = int digits * 100;
                  seats = map floor votesPerQuota;
                  currentSum = foldl (+) 0 seats;
                  remainder = map2 (\<lambda>votes seat. votes - of_int seat) votesPerQuota seats
              in map (\<lambda>seat. of_int seat / of_nat digits) (giveSeats targetSeats currentSum seats remainder))"

definition getPercentWithPrecision :: "rat option list \<Rightarrow> nat \<Rightarrow> nat \<Rightarrow> rat" where
  "getPercentWithPrecision valueList idx precision =
     (if idx \<ge> length valueList \<or> valueList ! idx = None \<or> valueList ! idx = Some 0 then 0
      else let seats = getPercentSeats valueList precision in if idx < length seats then seats ! idx else 0)"

subsection \<open>Quantities\<close>

definition quantityExponent :: "real \<Rightarrow> int" where
  "quantityExponent val =
     (if val = 0 then 0
      else let exp = \<lfloor>ln val / ln 10\<rfloor> in if val / 10 powi exp \<ge> 10 then exp + 1 else exp)"

definition quantity :: "real \<Rightarrow> real" where
  "quantity val = 10 powi quantityExponent val"

definition nice :: "real \<Rightarrow> bool \<Rightarrow> real" where
  "nice val rounded =
     (let exponent = quantityExponent val; exp10 = 10 powi exponent; f = val / exp10;
          nf = (if rounded
                then if f < 3 / 2 then 1 else if f < 5 / 2 then 2 else if f < 4 then 3 else if f < 7 then 5 else 10
                else if f < 1 then 1 else if f < 2 then 2 else if f < 3 then 3 else if f < 5 then 5 else 10)
      in nf * exp10)"

text \<open>\<^term>\<open>None\<close> stands for \<^verbatim>\<open>NaN\<close>, the result of a read outside the array.\<close>

definition quantile :: "rat list \<Rightarrow> rat \<Rightarrow> rat option" where
  "quantile ascArr p =
     (let H = (of_nat (length ascArr) - 1) * p + 1; h = \<lfloor>H\<rfloor>; e = H - of_int h;
          rd = (\<lambda>i. if 0 \<le> i \<and> nat i < length ascArr then Some (ascArr ! nat i) else None)
      in case rd (h - 1) of
           None \<Rightarrow> None
         | Some v \<Rightarrow> if e = 0 then Some v else map_option (\<lambda>w. v + e * (w - v)) (rd h))"

fun getGreatestCommonDividor :: "nat \<Rightarrow> nat \<Rightarrow> nat" where
  "getGreatestCommonDividor a b = (if b = 0 then a else getGreatestCommonDividor b (a mod b))"

declare getGreatestCommonDividor.simps [simp del]

definition getLeastCommonMultiple :: "nat option \<Rightarrow> nat option \<Rightarrow> nat option" where
  "getLeastCommonMultiple a b =
     (case a of None \<Rightarrow> b | Some x \<Rightarrow>
      (case b of None \<Rightarrow> a | Some y \<Rightarrow> Some (x * y div getGreatestCommonDividor x y)))"

text \<open>The remainder of JavaScript takes the sign of the dividend.\<close>

definition radian_rem :: "real \<Rightarrow> real \<Rightarrow> real" where
  "radian_rem x m = (if x \<ge> 0 then x - m * of_int \<lfloor>x / m\<rfloor> else x - m * of_int \<lceil>x / m\<rceil>)"

definition remRadian :: "real \<Rightarrow> real" where
  "remRadian radian = (let pi2 = pi * 2 in radian_rem (radian_rem radian pi2 + pi2) pi2)"

section \<open>Linear maps\<close>

text \<open>
  A linear map can be undone: mapping a value from one interval to another without clamping and
  back gives the value again, whichever way the intervals are directed.
\<close>

theorem linearMap_roundtrip:
  assumes "d0 \<noteq> d1" "r0 \<noteq> r1"
  shows "linearMap (linearMap v (d0, d1) (r0, r1) False) (r0, r1) (d0, d1) False = v"
proof -
  have "linearMap x (a, b) (c, d) False = (x - a) / (b - a) * (d - c) + c" if "a \<noteq> b" for x a b c d :: rat
    using that by (auto simp: linearMap_def)
  then show ?thesis using assms by simp
qed

theorem linearMap_roundtrip_witness:
  "linearMap (linearMap 7 (2, 12) (100, 0) False) (100, 0) (2, 12) False = 7"
  by (rule linearMap_roundtrip) simp_all

text \<open>
  A clamped map stays between the ends of the range and agrees with the unclamped map on the domain.
\<close>

theorem linearMap_clamped:
  "min r0 r1 \<le> linearMap v (d0, d1) (r0, r1) True \<and> linearMap v (d0, d1) (r0, r1) True \<le> max r0 r1"
proof -
  have between: "min r0 r1 \<le> t * (r1 - r0) + r0 \<and> t * (r1 - r0) + r0 \<le> max r0 r1" if "0 \<le> t" "t \<le> 1" for t :: rat
  proof -
    have "t * (r1 - r0) + r0 = (1 - t) * r0 + t * r1" by (simp add: algebra_simps)
    moreover have "(1 - t) * min r0 r1 + t * min r0 r1 \<le> (1 - t) * r0 + t * r1"
      "(1 - t) * r0 + t * r1 \<le> (1 - t) * max r0 r1 + t * max r0 r1"
      using that by (intro add_mono mult_left_mono; simp)+
    ultimately show ?thesis by (simp add: algebra_simps)
  qed
  have "0 \<le> (v - d0) / (d1 - d0) \<and> (v - d0) / (d1 - d0) \<le> 1"
    if "d0 < v \<and> v < d1 \<or> d1 < v \<and> v < d0"
    using that by (auto simp: divide_simps)
  then show ?thesis using between [of "(v - d0) / (d1 - d0)"]
    by (auto simp: linearMap_def Let_def min_def max_def)
qed

section \<open>Percentages\<close>

lemma foldl_orZero: "foldl (\<lambda>acc val. acc + orZeroNaN val) a vs = a + sum_list (map orZeroNaN vs)"
  by (induction vs arbitrary: a) (auto simp: add.assoc)

lemma foldl_plus_int: "foldl (+) (a :: int) xs = a + sum_list xs"
  by (induction xs arbitrary: a) (auto simp: add.assoc)

text \<open>The largest remainder is found.\<close>

lemma maxRemainder_Some:
  "maxRemainder rs i (Some (m, j)) = Some (m', j') \<Longrightarrow>
     m \<le> m' \<and> (\<forall>r\<in>set rs. r \<le> m') \<and> ((m', j') = (m, j) \<or> i \<le> j' \<and> j' < i + length rs \<and> rs ! (j' - i) = m')"
proof (induction rs arbitrary: i m j)
  case (Cons r rs)
  let ?b = "if r > m then (r, i) else (m, j)"
  have *: "maxRemainder rs (i + 1) (Some ?b) = Some (m', j')" using Cons.prems by (auto split: if_splits)
  from Cons.IH [of "i + 1" "fst ?b" "snd ?b"] * show ?case
    by (auto simp: nth_Cons' split: if_splits)
qed auto

lemma maxRemainder_first:
  assumes "rs \<noteq> []"
  obtains m j where "maxRemainder rs 0 None = Some (m, j)" "j < length rs" "rs ! j = m" "\<forall>r\<in>set rs. r \<le> m"
proof -
  obtain r rs' where rs: "rs = r # rs'" using assms by (cases rs) auto
  have "maxRemainder rs' 1 (Some (r, 0)) \<noteq> None" for rs'
  proof -
    have "maxRemainder xs i (Some b) \<noteq> None" for xs i b
      by (induction xs arbitrary: i b) (auto split: prod.splits)
    then show ?thesis by blast
  qed
  then obtain m j where mj: "maxRemainder rs' 1 (Some (r, 0)) = Some (m, j)" by fastforce
  from maxRemainder_Some [OF this] have "j < length rs" "rs ! j = m" "\<forall>r\<in>set rs. r \<le> m"
    using rs by (auto simp: nth_Cons')
  then show ?thesis using that mj rs by simp
qed

lemma sum_list_update_int: "i < length xs \<Longrightarrow> sum_list (xs[i := xs ! i + 1]) = sum_list xs + (1 :: int)"
  by (induction xs arbitrary: i) (auto split: nat.split)

lemma length_filter_update:
  "j < length xs \<Longrightarrow> P (xs ! j) \<Longrightarrow> \<not> P y \<Longrightarrow> length (filter P xs) = Suc (length (filter P (xs[j := y])))"
  by (induction xs arbitrary: j) (auto simp: nth_Cons' split: nat.split)

text \<open>
  Enough positive remainders are left for the seats that are still to be given, so every party gets at
  most one seat beyond its automatic ones.
\<close>

lemma giveSeats_correct:
  assumes "current = sum_list seats" "current \<le> target" "length remainder = length seats" "seats \<noteq> []"
    and "target - current < int (length (filter (\<lambda>r. r > 0) remainder)) \<or> target = current"
  shows "sum_list (giveSeats target current seats remainder) = target \<and>
         length (giveSeats target current seats remainder) = length seats \<and>
         (\<forall>i<length seats. giveSeats target current seats remainder ! i = seats ! i \<or>
            giveSeats target current seats remainder ! i = seats ! i + 1 \<and> remainder ! i > 0)"
  using assms
proof (induction target current seats remainder rule: giveSeats.induct)
  case (1 target current seats remainder)
  show ?case
  proof (cases "current < target")
    case False
    then show ?thesis using 1 by (subst (1 2 3 4) giveSeats.simps) auto
  next
    case True
    obtain m j where mj: "maxRemainder remainder 0 None = Some (m, j)" "j < length remainder" "remainder ! j = m"
      "\<forall>r\<in>set remainder. r \<le> m" using maxRemainder_first [of remainder] 1 by (metis length_0_conv)
    have "filter (\<lambda>r. r > 0) remainder \<noteq> []" using 1 True by auto
    then have pos: "0 < m" using mj(4) by (fastforce simp: filter_empty_conv)
    let ?s = "seats[j := seats ! j + 1]" let ?r = "remainder[j := 0]"
    have g: "giveSeats target current seats remainder = giveSeats target (current + 1) ?s ?r"
      using True mj(1) by (subst giveSeats.simps) simp
    have len: "length (filter (\<lambda>r. r > 0) remainder) = Suc (length (filter (\<lambda>r. r > 0) ?r))"
      using mj(2,3) pos by (intro length_filter_update) auto
    have IH: "sum_list (giveSeats target (current + 1) ?s ?r) = target \<and>
         length (giveSeats target (current + 1) ?s ?r) = length ?s \<and>
         (\<forall>i<length ?s. giveSeats target (current + 1) ?s ?r ! i = ?s ! i \<or>
            giveSeats target (current + 1) ?s ?r ! i = ?s ! i + 1 \<and> ?r ! i > 0)"
      using 1 True mj len by (intro 1(2) [OF True mj(1) refl]) (auto simp: sum_list_update_int)
    show ?thesis unfolding g using IH mj pos 1(5)
      by (auto simp: nth_list_update split: if_splits)
  qed
qed

lemma sum_remainders:
  "list_all (\<lambda>r. 0 \<le> r \<and> r < 1) rs \<Longrightarrow>
     sum_list rs = (0 :: rat) \<or> sum_list rs < of_nat (length (filter (\<lambda>r. r > 0) rs))"
proof (induction rs)
  case (Cons r rs)
  then show ?case by (cases "r = 0") (auto simp: order_le_less)
qed simp

lemma near_floor:
  fixes x :: rat
  assumes "n = \<lfloor>x\<rfloor> \<or> n = \<lfloor>x\<rfloor> + 1 \<and> frac x > 0"
  shows "\<bar>of_int n - x\<bar> < 1"
proof -
  have f: "of_int \<lfloor>x\<rfloor> \<le> x" "x < of_int \<lfloor>x\<rfloor> + 1" by linarith+
  show ?thesis
  proof (cases "n = \<lfloor>x\<rfloor>")
    case True
    then show ?thesis unfolding abs_less_iff using f by linarith
  next
    case False
    then have "n = \<lfloor>x\<rfloor> + 1" "of_int \<lfloor>x\<rfloor> < x" using assms by (auto simp: frac_def)
    then show ?thesis unfolding abs_less_iff using f by (simp; linarith)
  qed
qed

lemma sum_list_shares:
  fixes s :: rat
  shows "sum_list (map (\<lambda>v. f v / s * c * d) vs) = sum_list (map f vs) / s * c * d"
  by (induction vs) (auto simp: add_divide_distrib ring_distribs)

text \<open>
  C28: The percentages add up to exactly 100.  For any list of values, missing ones included, whose sum
  is not 0 and any precision, \<^verbatim>\<open>getPercentSeats\<close> returns one percentage per value, their sum is 100,
  and each differs from the exact share of its value by less than one unit of the last digit.
\<close>

theorem getPercentSeats_sum_100:
  assumes "sum_list (map orZeroNaN vs) \<noteq> 0"
  shows "sum_list (getPercentSeats vs p) = 100 \<and>
         list_all2 (\<lambda>v seat. \<bar>seat - orZeroNaN v / sum_list (map orZeroNaN vs) * 100\<bar> < 1 / 10 ^ p) vs (getPercentSeats vs p)"
proof -
  define s where "s = sum_list (map orZeroNaN vs)"
  define d where "d = (10 :: nat) ^ p"
  define q where "q = map (\<lambda>v. orZeroNaN v / s * of_nat d * 100) vs"
  define g where "g = giveSeats (int d * 100) (sum_list (map floor q)) (map floor q) (map2 (\<lambda>a b. a - of_int b) q (map floor q))"
  have d0: "0 < (of_nat d :: rat)" by (simp add: d_def)
  have res: "getPercentSeats vs p = map (\<lambda>x. of_int x / of_nat d) g"
    using assms by (simp add: getPercentSeats_def foldl_orZero foldl_plus_int g_def q_def s_def d_def Let_def)
  have rem: "map2 (\<lambda>a b. a - of_int b) q (map floor q) = map frac q"
    by (simp add: map2_map_map frac_def zip_map2 zip_same_conv_map comp_def)
  have sq: "sum_list q = of_int (int d * 100)"
    unfolding q_def sum_list_shares s_def [symmetric] using assms by (simp add: s_def [symmetric])
  have fr: "sum_list (map frac q) = of_int (int d * 100 - sum_list (map floor q))"
    unfolding of_int_diff sq [symmetric] frac_def by (induction q) auto
  have "list_all (\<lambda>r. 0 \<le> r \<and> r < 1) (map frac q)" by (auto simp: list_all_iff frac_lt_1)
  from sum_remainders [OF this] have enough:
    "int d * 100 - sum_list (map floor q) < int (length (filter (\<lambda>r. r > 0) (map frac q))) \<or> int d * 100 = sum_list (map floor q)"
    unfolding fr by (metis eq_iff_diff_eq_0 of_int_0_eq_iff of_int_less_iff of_int_of_nat_eq)
  moreover have "0 \<le> sum_list (map frac q)" by (rule sum_list_nonneg) auto
  then have "sum_list (map floor q) \<le> int d * 100" unfolding fr by (simp only: of_int_0_le_iff)
  moreover have "vs \<noteq> []" using assms by auto
  ultimately have G: "sum_list g = int d * 100" "length g = length q"
    "\<forall>i<length q. g ! i = \<lfloor>q ! i\<rfloor> \<or> g ! i = \<lfloor>q ! i\<rfloor> + 1 \<and> frac (q ! i) > 0"
    using giveSeats_correct [of "sum_list (map floor q)" "map floor q" "int d * 100" "map frac q"]
    unfolding g_def rem by (auto simp: q_def)
  have "sum_list (map (\<lambda>x. of_int x / of_nat d) xs) = of_int (sum_list xs) / (of_nat d :: rat)" for xs
    by (induction xs) (auto simp: add_divide_distrib)
  then have "sum_list (getPercentSeats vs p) = 100" using G(1) d0 by (simp add: res)
  moreover have "\<bar>of_int (g ! i) / of_nat d - orZeroNaN (vs ! i) / s * 100\<bar> < 1 / of_nat d" if "i < length vs" for i
  proof -
    have "i < length q" using that by (simp add: q_def)
    with G(3) have "g ! i = \<lfloor>q ! i\<rfloor> \<or> g ! i = \<lfloor>q ! i\<rfloor> + 1 \<and> frac (q ! i) > 0" by blast
    then have "\<bar>of_int (g ! i) - q ! i\<bar> < 1" by (rule near_floor)
    moreover have "of_int (g ! i) / of_nat d - orZeroNaN (vs ! i) / s * 100 = (of_int (g ! i) - q ! i) / of_nat d"
      using d0 that by (simp add: q_def field_simps)
    ultimately show ?thesis using d0 by (simp add: abs_div divide_strict_right_mono)
  qed
  ultimately show ?thesis using G(2) by (auto simp: list_all2_conv_all_nth res q_def s_def d_def)
qed

theorem getPercentSeats_sum_100_witness:
  "getPercentSeats [Some 1, None, Some 1, Some 1] 2 = [3334 / 100, 0, 3333 / 100, 3333 / 100] \<and>
   sum_list (getPercentSeats [Some 1, None, Some 1, Some 1] 2) = 100"
proof -
  have "getPercentSeats [Some 1, None, Some 1, Some 1] 2 = [3334 / 100, 0, 3333 / 100, 3333 / 100]" by code_simp
  then show ?thesis using getPercentSeats_sum_100 [of "[Some 1, None, Some 1, Some 1]" 2] by (simp add: orZeroNaN_def)
qed

section \<open>Quantities\<close>

lemma quantityExponent_bounds:
  assumes "0 < val"
  shows "10 powi quantityExponent val \<le> val" "val < 10 powi (quantityExponent val + 1)"
proof -
  define e where "e = \<lfloor>ln val / ln 10\<rfloor>"
  have p: "(10 :: real) powi n = exp (of_int n * ln 10)" for n :: int
    by (simp add: powr_real_of_int' [symmetric] powr_def)
  have "of_int e \<le> ln val / ln 10" "ln val / ln 10 < of_int (e + 1)" unfolding e_def by linarith+
  then have "of_int e * ln 10 \<le> ln val" "ln val < of_int (e + 1) * ln 10"
    by (auto simp: pos_le_divide_eq pos_divide_less_eq)
  then have b: "10 powi e \<le> val" "val < 10 powi (e + 1)"
    unfolding p using assms by (metis exp_le_cancel_iff exp_less_cancel_iff exp_ln)+
  then have "\<not> val / 10 powi e \<ge> 10" by (simp add: power_int_add divide_simps)
  then have "quantityExponent val = e" using assms by (simp add: quantityExponent_def e_def Let_def)
  then show "10 powi quantityExponent val \<le> val" "val < 10 powi (quantityExponent val + 1)" using b by auto
qed

text \<open>
  Nice numbers are close.  For a positive value, rounding up gives a number above the value and at
  most twice as large; rounding to the nearest gives one between 2/3 and 10/7 of the value; in both
  cases it is 1, 2, 3, 5 or 10 times the power of ten below the value.
\<close>

theorem nice_bounds:
  assumes "0 < val"
  shows "val < nice val False \<and> nice val False \<le> 2 * val \<and>
         2 / 3 * val \<le> nice val True \<and> nice val True \<le> 10 / 7 * val \<and>
         nice val False / quantity val \<in> {2, 3, 5, 10} \<and> nice val True / quantity val \<in> {1, 2, 3, 5, 10}"
proof -
  define e where "e = (10 :: real) powi quantityExponent val"
  define f where "f = val / e"
  have e: "0 < e" by (simp add: e_def)
  have "e \<le> val" "val < 10 * e"
    using quantityExponent_bounds [OF assms] by (auto simp: e_def power_int_add)
  then have f: "1 \<le> f" "f < 10" "val = f * e" using e by (auto simp: f_def divide_simps)
  define up where "up = (if f < 1 then 1 else if f < 2 then 2 else if f < 3 then 3 else if f < 5 then 5 else 10 :: real)"
  define near where
    "near = (if f < 3 / 2 then 1 else if f < 5 / 2 then 2 else if f < 4 then 3 else if f < 7 then 5 else 10 :: real)"
  have n: "nice val False = up * e" "nice val True = near * e" "quantity val = e"
    by (auto simp: nice_def quantity_def Let_def e_def f_def up_def near_def)
  have b: "f < up" "up \<le> 2 * f" "2 / 3 * f \<le> near" "near \<le> 10 / 7 * f" "up \<in> {2, 3, 5, 10}" "near \<in> {1, 2, 3, 5, 10}"
    using f by (auto simp: up_def near_def)
  have "f * e < up * e" "up * e \<le> 2 * f * e" "2 / 3 * f * e \<le> near * e" "near * e \<le> 10 / 7 * f * e"
    using b(1-4) e by (auto simp only: mult_less_cancel_right_pos mult_le_cancel_right_pos)
  then have "val < up * e" "up * e \<le> 2 * val" "2 / 3 * val \<le> near * e" "near * e \<le> 10 / 7 * val"
    using f(3) by auto
  moreover have "up * e / e = up" "near * e / e = near" using e by auto
  ultimately show ?thesis unfolding n using b(5,6) by simp
qed

theorem nice_bounds_witness: "(7 :: real) < nice 7 False \<and> nice 7 False \<le> 2 * 7"
  using nice_bounds [of 7] by simp

text \<open>The greatest common divisor, and the least common multiple of two numbers that are given.\<close>

theorem gcd_lcm_correct:
  "getGreatestCommonDividor a b = gcd a b \<and> getLeastCommonMultiple (Some a) (Some b) = Some (lcm a b)"
proof -
  have "getGreatestCommonDividor a b = gcd a b" for a b
  proof (induction a b rule: getGreatestCommonDividor.induct)
    case (1 a b)
    then show ?case by (subst getGreatestCommonDividor.simps) (simp add: gcd_red_nat [of a b])
  qed
  then show ?thesis by (simp add: getLeastCommonMultiple_def lcm_nat_def)
qed

text \<open>An angle is brought between 0 and a full turn, and differs from it by full turns.\<close>

theorem remRadian_range:
  "0 \<le> remRadian x \<and> remRadian x < 2 * pi \<and> (\<exists>k :: int. remRadian x = x + of_int k * (2 * pi))"
proof -
  let ?m = "pi * 2"
  have m: "0 < ?m" by simp
  have r: "\<exists>k :: int. radian_rem y ?m = y + of_int k * ?m" for y
    by (rule exI [of _ "if y \<ge> 0 then - \<lfloor>y / ?m\<rfloor> else - \<lceil>y / ?m\<rceil>"]) (simp add: radian_rem_def)
  have pos: "0 \<le> radian_rem y ?m \<and> radian_rem y ?m < ?m" if "0 \<le> y" for y
  proof -
    have "of_int \<lfloor>y / ?m\<rfloor> \<le> y / ?m" "y / ?m < of_int \<lfloor>y / ?m\<rfloor> + 1" by linarith+
    then have "of_int \<lfloor>y / ?m\<rfloor> * ?m \<le> y" "y < (of_int \<lfloor>y / ?m\<rfloor> + 1) * ?m"
      using m pos_le_divide_eq pos_divide_less_eq by blast+
    then show ?thesis using that by (simp add: radian_rem_def algebra_simps)
  qed
  have low: "- ?m < radian_rem x ?m"
  proof (cases "x \<ge> 0")
    case True then show ?thesis using pos [of x] m by linarith
  next
    case False
    have "of_int \<lceil>x / ?m\<rceil> < x / ?m + 1" by linarith
    then have "of_int \<lceil>x / ?m\<rceil> - 1 < x / ?m" by linarith
    then have "(of_int \<lceil>x / ?m\<rceil> - 1) * ?m < x" using m pos_less_divide_eq by blast
    then show ?thesis using False by (simp add: radian_rem_def algebra_simps)
  qed
  then have "0 \<le> remRadian x \<and> remRadian x < ?m"
    using pos [of "radian_rem x ?m + ?m"] by (simp add: remRadian_def Let_def)
  moreover obtain k l :: int where "radian_rem x ?m = x + of_int k * ?m" "remRadian x = radian_rem x ?m + ?m + of_int l * ?m"
    using r unfolding remRadian_def Let_def by metis
  then have "remRadian x = x + of_int (k + l + 1) * (2 * pi)" by (simp add: algebra_simps)
  ultimately show ?thesis by (metis mult.commute)
qed

section \<open>Quantiles\<close>

text \<open>
  For a sorted, non-empty list and a \<open>p\<close> between 0 and 1 the quantile is a number between the
  first and the last element; for 0 it is the first and for 1 the last element.
\<close>

theorem quantile_between:
  assumes "sorted xs" "xs \<noteq> []" "0 \<le> p" "p \<le> 1"
  shows "\<exists>v. quantile xs p = Some v \<and> hd xs \<le> v \<and> v \<le> last xs" "quantile xs 0 = Some (hd xs)"
    "quantile xs 1 = Some (last xs)"
proof -
  define n where "n = length xs - 1"
  have n: "length xs = Suc n" "(of_nat (length xs) - 1 :: rat) = of_nat n" using assms(2) by (cases xs; simp add: n_def)+
  have ends: "hd xs = xs ! 0" "last xs = xs ! n" using assms(2) by (auto simp: hd_conv_nth last_conv_nth n_def)
  define k where "k = \<lfloor>of_nat n * p\<rfloor>"
  define e where "e = of_nat n * p - of_int k"
  have e: "0 \<le> e" "e < 1" unfolding e_def k_def by linarith+
  have "0 \<le> of_nat n * p" "of_nat n * p \<le> of_nat n" using assms(3,4) by (auto intro: mult_left_le)
  then have k: "0 \<le> k" "k \<le> int n" unfolding k_def by (auto simp: floor_le_iff) 
  have q: "quantile xs p = (if e = 0 then Some (xs ! nat k)
      else if nat (k + 1) < length xs then Some (xs ! nat k + e * (xs ! nat (k + 1) - xs ! nat k)) else None)"
    using k n by (auto simp: quantile_def Let_def k_def e_def)
  have mono: "i \<le> j \<Longrightarrow> j \<le> n \<Longrightarrow> xs ! i \<le> xs ! j" for i j using assms(1) n(1) by (simp add: sorted_nth_mono)
  show "\<exists>v. quantile xs p = Some v \<and> hd xs \<le> v \<and> v \<le> last xs"
  proof (cases "e = 0")
    case True
    then show ?thesis using q k mono ends by simp
  next
    case False
    have "k < int n"
    proof (rule ccontr)
      assume "\<not> k < int n"
      then have "k = int n" using k by simp
      then show False using \<open>of_nat n * p \<le> of_nat n\<close> e False by (simp add: e_def)
    qed
    then have i: "nat (k + 1) \<le> n" "nat (k + 1) < length xs" using n by auto
    let ?a = "xs ! nat k" let ?b = "xs ! nat (k + 1)"
    have ab: "xs ! 0 \<le> ?a" "?a \<le> ?b" "?b \<le> xs ! n" using mono i k by auto
    have "0 \<le> e * (?b - ?a)" "e * (?b - ?a) \<le> ?b - ?a" using e ab by (auto intro: mult_left_le_one_le)
    then show ?thesis using q False i ab ends by simp
  qed
  show "quantile xs 0 = Some (hd xs)" "quantile xs 1 = Some (last xs)"
    using n ends by (auto simp: quantile_def Let_def)
qed

theorem quantile_between_witness:
  "\<exists>v. quantile [1, 4, 10] (1 / 4) = Some v \<and> (1 :: rat) \<le> v \<and> v \<le> 10"
  using quantile_between(1) [of "[1, 4, 10]" "1 / 4"] by simp

end
