(* ===== verification/Intervals.thy ===== *)
theory Intervals
  imports Prelude Complex_Main
begin

text \<open>
  \<^verbatim>\<open>reformIntervals\<close> of the chart library (\<^verbatim>\<open>src/html/js/echarts.js\<close>): ordering a list of
  intervals and cutting off their overlaps.  An end of an interval may be infinite; \<^verbatim>\<open>close\<close> tells for each end whether it belongs
  to the interval.  The order in which \<^verbatim>\<open>Array.prototype.sort\<close> leaves the list is a parameter.
\<close>

section \<open>Definitions\<close>

datatype endpoint = MInf | Fin rat | PInf

instantiation endpoint :: linorder
begin

fun less_eq_endpoint :: "endpoint \<Rightarrow> endpoint \<Rightarrow> bool" where
  "less_eq_endpoint MInf _ = True"
| "less_eq_endpoint _ PInf = True"
| "less_eq_endpoint (Fin x) (Fin y) = (x \<le> y)"
| "less_eq_endpoint _ _ = False"

definition less_endpoint :: "endpoint \<Rightarrow> endpoint \<Rightarrow> bool" where
  "less_endpoint x y \<longleftrightarrow> x \<le> y \<and> \<not> y \<le> x"

instance
proof
  fix x y z :: endpoint
  show "x < y \<longleftrightarrow> x \<le> y \<and> \<not> y \<le> x" by (rule less_endpoint_def)
  show "x \<le> x" by (cases x) auto
  show "x \<le> y \<Longrightarrow> y \<le> z \<Longrightarrow> x \<le> z" by (cases x; cases y; cases z) auto
  show "x \<le> y \<Longrightarrow> y \<le> x \<Longrightarrow> x = y" by (cases x; cases y) auto
  show "x \<le> y \<or> y \<le> x" by (cases x; cases y) auto
qed

end

record rinterval =
  lo :: endpoint
  hi :: endpoint
  closeLo :: bool
  closeHi :: bool

text \<open>The comparison of the upper ends, and the comparison of two intervals.\<close>

definition littleThanHi :: "rinterval \<Rightarrow> rinterval \<Rightarrow> bool" where
  "littleThanHi a b \<longleftrightarrow> hi a < hi b \<or> hi a = hi b \<and> \<not> closeHi a \<and> closeHi b"

definition littleThan :: "rinterval \<Rightarrow> rinterval \<Rightarrow> bool" where
  "littleThan a b \<longleftrightarrow> lo a < lo b \<or> lo a = lo b \<and> (closeLo a \<and> \<not> closeLo b \<or> littleThanHi a b)"

text \<open>One round of the loop: the interval is cut off at the end of the last one.\<close>

definition cutOff :: "endpoint \<Rightarrow> bool \<Rightarrow> rinterval \<Rightarrow> rinterval" where
  "cutOff cur curClose x =
     (let (l, cl) = (if lo x \<le> cur then (cur, \<not> curClose) else (lo x, closeLo x));
          (h, ch) = (if hi x \<le> l then (l, True) else (hi x, closeHi x))
      in \<lparr>lo = l, hi = h, closeLo = cl, closeHi = ch\<rparr>)"

fun reformLoop :: "endpoint \<Rightarrow> bool \<Rightarrow> rinterval list \<Rightarrow> rinterval list" where
  "reformLoop cur curClose [] = []"
| "reformLoop cur curClose (x # xs) =
     (let y = cutOff cur curClose x; rest = reformLoop (hi y) (closeHi y) xs
      in if lo y = hi y \<and> \<not> (closeLo y \<and> closeHi y) then rest else y # rest)"

definition reformIntervals :: "(rinterval list \<Rightarrow> rinterval list) \<Rightarrow> rinterval list \<Rightarrow> rinterval list" where
  "reformIntervals sortBy list = reformLoop MInf True (sortBy list)"

definition inside :: "endpoint \<Rightarrow> rinterval \<Rightarrow> bool" where
  "inside p x \<longleftrightarrow> (lo x < p \<or> lo x = p \<and> closeLo x) \<and> (p < hi x \<or> p = hi x \<and> closeHi x)"

definition before :: "rinterval \<Rightarrow> rinterval \<Rightarrow> bool" where
  "before a b \<longleftrightarrow> hi a < lo b \<or> hi a = lo b \<and> \<not> (closeHi a \<and> closeLo b)"

section \<open>The result is a partition\<close>

text \<open>What the loop returns starts after the end it has reached.\<close>

lemma cutOff_after:
  "lo (cutOff c cc x) \<le> hi (cutOff c cc x)"
  "c < lo (cutOff c cc x) \<or> c = lo (cutOff c cc x) \<and> \<not> (cc \<and> closeLo (cutOff c cc x))"
  by (auto simp: cutOff_def Let_def not_le intro: less_imp_le)

lemma reformLoop_after:
  "y \<in> set (reformLoop c cc xs) \<Longrightarrow>
     lo y \<le> hi y \<and> (c < lo y \<or> c = lo y \<and> \<not> (cc \<and> closeLo y))"
proof (induction xs arbitrary: c cc)
  case (Cons x xs)
  let ?z = "cutOff c cc x"
  consider "y = ?z" | "y \<in> set (reformLoop (hi ?z) (closeHi ?z) xs)"
    using Cons.prems by (auto simp: Let_def split: if_splits)
  then show ?case
  proof cases
    case 1 then show ?thesis using cutOff_after [of c cc x] by simp
  next
    case 2
    from Cons.IH [OF this] have y: "lo y \<le> hi y" "hi ?z < lo y \<or> hi ?z = lo y \<and> \<not> (closeHi ?z \<and> closeLo y)" by auto
    have "c < hi ?z \<or> c = hi ?z \<and> (cc \<longrightarrow> closeHi ?z)"
      using cutOff_after [of c cc x] by (auto simp: cutOff_def Let_def not_le intro: less_trans)
    then show ?thesis using y by auto
  qed
qed simp

lemma reformLoop_disjoint: "sorted_wrt before (reformLoop c cc xs)"
  by (induction c cc xs rule: reformLoop.induct)
    (auto simp: Let_def before_def dest!: reformLoop_after)

text \<open>With closed intervals in ascending order, the loop covers what lies after the end it has reached.\<close>

lemma reformLoop_covers:
  assumes "list_all (\<lambda>x. closeLo x \<and> closeHi x \<and> lo x \<le> hi x) xs" "sorted_wrt (\<lambda>a b. lo a \<le> lo b) xs"
  shows "list_ex (inside p) (reformLoop c True xs) \<longleftrightarrow> c < p \<and> list_ex (inside p) xs"
  using assms
proof (induction xs arbitrary: c)
  case (Cons x xs)
  let ?z = "cutOff c True x"
  have x: "closeLo x" "closeHi x" "lo x \<le> hi x" using Cons.prems by auto
  have z: "closeHi ?z" "hi ?z = max c (hi x)"
    using x by (auto simp: cutOff_def Let_def max_def)
  have inz: "inside p ?z \<longleftrightarrow> c < p \<and> inside p x"
    using x by (auto simp: inside_def cutOff_def Let_def)
  have IH: "list_ex (inside p) (reformLoop (hi ?z) True xs) \<longleftrightarrow> hi ?z < p \<and> list_ex (inside p) xs"
    using Cons by auto
  have skip: "\<not> inside p ?z" if "lo ?z = hi ?z" "\<not> (closeLo ?z \<and> closeHi ?z)"
    using that by (auto simp: inside_def)
  have "inside p x" if ex: "list_ex (inside p) xs" and "c < p" "p \<le> hi ?z"
  proof -
    from ex obtain y where "y \<in> set xs" "inside p y" by (auto simp: list_ex_iff)
    then have "lo x \<le> p" using Cons.prems by (auto simp: inside_def)
    then show ?thesis using that x z(2) by (auto simp: inside_def max_def split: if_splits)
  qed
  then have "list_ex (inside p) (reformLoop c True (x # xs)) \<longleftrightarrow> c < p \<and> (inside p x \<or> list_ex (inside p) xs)"
    using IH inz skip z by (auto simp: Let_def max_def not_less split: if_splits)
  then show ?case by simp
qed simp



text \<open>
  Two intervals that leave out the point at which they meet are joined there: the point 5, which is
  in neither of [0, 5) and (5, 10], is in the result.
\<close>

theorem reformIntervals_adds_point:
  "let xs = [\<lparr>lo = Fin 0, hi = Fin 5, closeLo = True, closeHi = False\<rparr>, \<lparr>lo = Fin 5, hi = Fin 10, closeLo = False, closeHi = True\<rparr>]
   in \<not> list_ex (inside (Fin 5)) xs \<and> list_ex (inside (Fin 5)) (reformIntervals (\<lambda>l. l) xs)"
  by code_simp

text \<open>The comparison is no order: each of (5, 6] and [5, 10] is smaller than the other.\<close>

theorem littleThan_inconsistent:
  "let a = \<lparr>lo = Fin 5, hi = Fin 6, closeLo = False, closeHi = True\<rparr>;
       b = \<lparr>lo = Fin 5, hi = Fin 10, closeLo = True, closeHi = True\<rparr>
   in littleThan a b \<and> littleThan b a"
  by code_simp

end
