(* ===== verification/Easing.thy ===== *)
theory Easing
  imports Prelude Complex_Main
begin

text \<open>
  The easing functions of the animations (\<^verbatim>\<open>easingFuncs\<close> of \<^verbatim>\<open>src/html/js/echarts.js\<close>), on real
  numbers.  The assignments to \<^verbatim>\<open>k\<close> inside the expressions of the source are \<open>let\<close> bindings.
\<close>

section \<open>Definitions\<close>

definition linear :: "real \<Rightarrow> real" where "linear k = k"

definition quadraticIn :: "real \<Rightarrow> real" where "quadraticIn k = k * k"

definition quadraticOut :: "real \<Rightarrow> real" where "quadraticOut k = k * (2 - k)"

definition quadraticInOut :: "real \<Rightarrow> real" where
  "quadraticInOut k =
     (let k = k * 2 in if k < 1 then 1 / 2 * k * k else let k = k - 1 in - (1 / 2) * (k * (k - 2) - 1))"

definition cubicIn :: "real \<Rightarrow> real" where "cubicIn k = k * k * k"

definition cubicOut :: "real \<Rightarrow> real" where "cubicOut k = (let k = k - 1 in k * k * k + 1)"

definition cubicInOut :: "real \<Rightarrow> real" where
  "cubicInOut k = (let k = k * 2 in if k < 1 then 1 / 2 * k * k * k else let k = k - 2 in 1 / 2 * (k * k * k + 2))"

definition quarticIn :: "real \<Rightarrow> real" where "quarticIn k = k * k * k * k"

definition quarticOut :: "real \<Rightarrow> real" where "quarticOut k = (let k = k - 1 in 1 - (k * k * k * k))"

definition quarticInOut :: "real \<Rightarrow> real" where
  "quarticInOut k =
     (let k = k * 2 in if k < 1 then 1 / 2 * k * k * k * k else let k = k - 2 in - (1 / 2) * (k * k * k * k - 2))"

definition quinticIn :: "real \<Rightarrow> real" where "quinticIn k = k * k * k * k * k"

definition quinticOut :: "real \<Rightarrow> real" where "quinticOut k = (let k = k - 1 in k * k * k * k * k + 1)"

definition quinticInOut :: "real \<Rightarrow> real" where
  "quinticInOut k =
     (let k = k * 2
      in if k < 1 then 1 / 2 * k * k * k * k * k else let k = k - 2 in 1 / 2 * (k * k * k * k * k + 2))"

definition sinusoidalIn :: "real \<Rightarrow> real" where "sinusoidalIn k = 1 - cos (k * pi / 2)"

definition sinusoidalOut :: "real \<Rightarrow> real" where "sinusoidalOut k = sin (k * pi / 2)"

definition sinusoidalInOut :: "real \<Rightarrow> real" where "sinusoidalInOut k = 1 / 2 * (1 - cos (pi * k))"

definition exponentialIn :: "real \<Rightarrow> real" where
  "exponentialIn k = (if k = 0 then 0 else 1024 powr (k - 1))"

definition exponentialOut :: "real \<Rightarrow> real" where
  "exponentialOut k = (if k = 1 then 1 else 1 - 2 powr (- 10 * k))"

definition exponentialInOut :: "real \<Rightarrow> real" where
  "exponentialInOut k =
     (if k = 0 then 0 else if k = 1 then 1
      else let k = k * 2
           in if k < 1 then 1 / 2 * 1024 powr (k - 1) else 1 / 2 * (- (2 powr (- 10 * (k - 1))) + 2))"

definition circularIn :: "real \<Rightarrow> real" where "circularIn k = 1 - sqrt (1 - k * k)"

definition circularOut :: "real \<Rightarrow> real" where "circularOut k = (let k = k - 1 in sqrt (1 - k * k))"

definition circularInOut :: "real \<Rightarrow> real" where
  "circularInOut k =
     (let k = k * 2
      in if k < 1 then - (1 / 2) * (sqrt (1 - k * k) - 1) else let k = k - 2 in 1 / 2 * (sqrt (1 - k * k) + 1))"

text \<open>The amplitude and the shift that the elastic functions compute from \<^verbatim>\<open>a\<close> and \<^verbatim>\<open>p\<close>.\<close>

definition elastic_a :: real where
  "elastic_a = (let a = 1 / 10 in if a = 0 \<or> a < 1 then 1 else a)"

definition elastic_s :: real where
  "elastic_s = (let a = 1 / 10 :: real; p = 4 / 10 in if a = 0 \<or> a < 1 then p / 4 else p * arcsin (1 / a) / (2 * pi))"

definition elasticIn :: "real \<Rightarrow> real" where
  "elasticIn k =
     (if k = 0 then 0 else if k = 1 then 1
      else let k = k - 1 in - (elastic_a * 2 powr (10 * k) * sin ((k - elastic_s) * (2 * pi) / (4 / 10))))"

definition elasticOut :: "real \<Rightarrow> real" where
  "elasticOut k =
     (if k = 0 then 0 else if k = 1 then 1
      else elastic_a * 2 powr (- 10 * k) * sin ((k - elastic_s) * (2 * pi) / (4 / 10)) + 1)"

definition elasticInOut :: "real \<Rightarrow> real" where
  "elasticInOut k =
     (if k = 0 then 0 else if k = 1 then 1
      else let k = k * 2
           in if k < 1
              then let k = k - 1 in - (1 / 2) * (elastic_a * 2 powr (10 * k) * sin ((k - elastic_s) * (2 * pi) / (4 / 10)))
              else let k = k - 1
                   in elastic_a * 2 powr (- 10 * k) * sin ((k - elastic_s) * (2 * pi) / (4 / 10)) * (1 / 2) + 1)"

definition backIn :: "real \<Rightarrow> real" where
  "backIn k = (let s = 170158 / 100000 in k * k * ((s + 1) * k - s))"

definition backOut :: "real \<Rightarrow> real" where
  "backOut k = (let s = 170158 / 100000; k = k - 1 in k * k * ((s + 1) * k + s) + 1)"

definition backInOut :: "real \<Rightarrow> real" where
  "backInOut k =
     (let s = 170158 / 100000 * (1525 / 1000); k = k * 2
      in if k < 1 then 1 / 2 * (k * k * ((s + 1) * k - s))
         else let k = k - 2 in 1 / 2 * (k * k * ((s + 1) * k + s) + 2))"

definition bounceOut :: "real \<Rightarrow> real" where
  "bounceOut k =
     (if k < 1 / (275 / 100) then 75625 / 10000 * k * k
      else if k < 2 / (275 / 100) then let k = k - (15 / 10) / (275 / 100) in 75625 / 10000 * k * k + 75 / 100
      else if k < (25 / 10) / (275 / 100)
      then let k = k - (225 / 100) / (275 / 100) in 75625 / 10000 * k * k + 9375 / 10000
      else let k = k - (2625 / 1000) / (275 / 100) in 75625 / 10000 * k * k + 984375 / 1000000)"

definition bounceIn :: "real \<Rightarrow> real" where "bounceIn k = 1 - bounceOut (1 - k)"

definition bounceInOut :: "real \<Rightarrow> real" where
  "bounceInOut k = (if k < 1 / 2 then bounceIn (k * 2) * (1 / 2) else bounceOut (k * 2 - 1) * (1 / 2) + 1 / 2)"

text \<open>The table of the functions.\<close>

definition easingFuncs :: "(string \<times> (real \<Rightarrow> real)) list" where
  "easingFuncs =
     [(''linear'', linear),
      (''quadraticIn'', quadraticIn), (''quadraticOut'', quadraticOut), (''quadraticInOut'', quadraticInOut),
      (''cubicIn'', cubicIn), (''cubicOut'', cubicOut), (''cubicInOut'', cubicInOut),
      (''quarticIn'', quarticIn), (''quarticOut'', quarticOut), (''quarticInOut'', quarticInOut),
      (''quinticIn'', quinticIn), (''quinticOut'', quinticOut), (''quinticInOut'', quinticInOut),
      (''sinusoidalIn'', sinusoidalIn), (''sinusoidalOut'', sinusoidalOut), (''sinusoidalInOut'', sinusoidalInOut),
      (''exponentialIn'', exponentialIn), (''exponentialOut'', exponentialOut),
      (''exponentialInOut'', exponentialInOut),
      (''circularIn'', circularIn), (''circularOut'', circularOut), (''circularInOut'', circularInOut),
      (''elasticIn'', elasticIn), (''elasticOut'', elasticOut), (''elasticInOut'', elasticInOut),
      (''backIn'', backIn), (''backOut'', backOut), (''backInOut'', backInOut),
      (''bounceIn'', bounceIn), (''bounceOut'', bounceOut), (''bounceInOut'', bounceInOut)]"

section \<open>Laws of the easing functions\<close>

named_theorems easing_defs \<open>definitions of the easing functions\<close>

lemmas [easing_defs] = linear_def quadraticIn_def quadraticOut_def quadraticInOut_def cubicIn_def cubicOut_def
  cubicInOut_def quarticIn_def quarticOut_def quarticInOut_def quinticIn_def quinticOut_def quinticInOut_def
  sinusoidalIn_def sinusoidalOut_def sinusoidalInOut_def exponentialIn_def exponentialOut_def exponentialInOut_def
  circularIn_def circularOut_def circularInOut_def elasticIn_def elasticOut_def elasticInOut_def
  backIn_def backOut_def backInOut_def bounceIn_def bounceOut_def bounceInOut_def

text \<open>A family: the function that ends, and the one that joins the two.\<close>

definition reversed :: "(real \<Rightarrow> real) \<Rightarrow> (real \<Rightarrow> real) \<Rightarrow> bool" where
  "reversed f g \<longleftrightarrow> (\<forall>k. g k = 1 - f (1 - k))"

lemma easing_ends: "list_all (\<lambda>(n, f). f 0 = 0 \<and> f 1 = 1) easingFuncs"
  unfolding easingFuncs_def by (simp add: easing_defs powr_minus)

lemma reversed_polynomials:
  "reversed quadraticIn quadraticOut" "reversed cubicIn cubicOut" "reversed quarticIn quarticOut"
  "reversed quinticIn quinticOut" "reversed backIn backOut" "reversed bounceIn bounceOut"
  "reversed circularIn circularOut"
  by (auto simp: reversed_def easing_defs Let_def algebra_simps)

lemma powr_1024: "(1024 :: real) powr x = 2 powr (10 * x)"
proof -
  have "(1024 :: real) = 2 powr 10" by simp
  then show ?thesis by (simp only: powr_powr)
qed

lemma reversed_sinusoidal: "reversed sinusoidalIn sinusoidalOut"
  by (simp add: reversed_def easing_defs left_diff_distrib diff_divide_distrib cos_diff)

lemma reversed_exponential: "reversed exponentialIn exponentialOut"
  by (auto simp: reversed_def easing_defs powr_1024)

text \<open>With the amplitude 1 the elastic functions are damped cosines.\<close>

lemma elastic_wave: "elastic_a = 1" "sin ((k - elastic_s) * (2 * pi) / (4 / 10)) = - cos (5 * pi * k)"
proof -
  have "(k - elastic_s) * (2 * pi) / (4 / 10) = 5 * pi * k - pi / 2"
    by (simp add: elastic_s_def Let_def field_simps)
  then show "sin ((k - elastic_s) * (2 * pi) / (4 / 10)) = - cos (5 * pi * k)" by (simp only: sin_diff) simp
qed (simp add: elastic_a_def Let_def)

lemma reversed_elastic: "reversed elasticIn elasticOut"
  unfolding reversed_def easing_defs elastic_wave Let_def by simp

text \<open>A function that joins the two is symmetric about its middle.\<close>

lemma reversed_sym:
  assumes "f (1 / 2) = 1 / 2" "\<And>k. k < 1 / 2 \<Longrightarrow> f (1 - k) = 1 - f k"
  shows "reversed f f"
  unfolding reversed_def
proof
  fix k :: real
  consider "k < 1 / 2" | "k = 1 / 2" | "1 - k < 1 / 2" by linarith
  then show "f k = 1 - f (1 - k)"
  proof cases
    case 2
    then have "1 - k = 1 / 2" by simp
    then show ?thesis unfolding \<open>1 - k = 1 / 2\<close> unfolding 2 assms(1) by simp
  qed (use assms(2) [of k] assms(2) [of "1 - k"] in auto)
qed

lemma symmetric_polynomials:
  "reversed quadraticInOut quadraticInOut" "reversed cubicInOut cubicInOut" "reversed quarticInOut quarticInOut"
  "reversed quinticInOut quinticInOut" "reversed backInOut backInOut"
  by (rule reversed_sym; simp add: easing_defs Let_def field_simps)+

lemma symmetric_circular: "reversed circularInOut circularInOut"
  by (rule reversed_sym) (simp_all add: easing_defs Let_def algebra_simps)

lemma symmetric_sinusoidal: "reversed sinusoidalInOut sinusoidalInOut"
  by (auto simp: reversed_def easing_defs right_diff_distrib cos_diff field_simps)

lemma symmetric_exponential: "reversed exponentialInOut exponentialInOut"
  by (rule reversed_sym) (auto simp: easing_defs powr_1024 Let_def algebra_simps)

lemma elastic_halves:
  "elasticInOut (1 / 2) = 1 / 2"
  "k < 1 / 2 \<Longrightarrow> k \<noteq> 0 \<Longrightarrow> elasticInOut k = 1 / 2 * (2 powr (10 * (2 * k - 1)) * cos (5 * pi * (2 * k - 1)))"
  "1 / 2 < k \<Longrightarrow> k \<noteq> 1 \<Longrightarrow> elasticInOut k = 1 - 1 / 2 * (2 powr (10 * (1 - 2 * k)) * cos (5 * pi * (2 * k - 1)))"
  unfolding elasticInOut_def elastic_wave Let_def by (auto simp: algebra_simps)

lemma symmetric_elastic: "reversed elasticInOut elasticInOut"
proof (rule reversed_sym)
  fix k :: real assume k: "k < 1 / 2"
  have "cos (5 * pi * (2 * (1 - k) - 1)) = cos (- (5 * pi * (2 * k - 1)))"
    by (rule arg_cong [of _ _ cos]) (simp add: algebra_simps)
  then have c: "cos (5 * pi * (2 * (1 - k) - 1)) = cos (5 * pi * (2 * k - 1))" by (simp only: cos_minus)
  have e: "1 - 2 * (1 - k) = 2 * k - 1" by simp
  show "elasticInOut (1 - k) = 1 - elasticInOut k"
  proof (cases "k = 0")
    case True
    then show ?thesis by (simp add: elasticInOut_def)
  next
    case False
    then show ?thesis
      using elastic_halves(2) [OF k False] elastic_halves(3) [of "1 - k", unfolded c e] k by simp
  qed
qed (rule elastic_halves(1))

lemma symmetric_bounce: "reversed bounceInOut bounceInOut"
proof -
  have "bounceOut 0 = 0" by (simp add: bounceOut_def)
  then show ?thesis by (intro reversed_sym) (auto simp: bounceInOut_def bounceIn_def algebra_simps)
qed

text \<open>
  C34: The laws of the easing functions.  Every function of the table maps 0 to 0 and 1 to 1, so an
  animation starts and ends at its key frames.  In each of the ten families the function that eases out
  is the reverse of the one that eases in, and the one that does both is its own reverse.
\<close>

theorem easing_laws:
  "list_all (\<lambda>(n, f). f 0 = 0 \<and> f 1 = 1) easingFuncs \<and>
   list_all (\<lambda>(f, g, h). reversed f g \<and> reversed h h)
     [(quadraticIn, quadraticOut, quadraticInOut), (cubicIn, cubicOut, cubicInOut),
      (quarticIn, quarticOut, quarticInOut), (quinticIn, quinticOut, quinticInOut),
      (sinusoidalIn, sinusoidalOut, sinusoidalInOut), (exponentialIn, exponentialOut, exponentialInOut),
      (circularIn, circularOut, circularInOut), (elasticIn, elasticOut, elasticInOut),
      (backIn, backOut, backInOut), (bounceIn, bounceOut, bounceInOut)]"
  using easing_ends
  by (simp add: reversed_polynomials reversed_sinusoidal reversed_exponential reversed_elastic
      symmetric_polynomials symmetric_circular symmetric_sinusoidal symmetric_exponential symmetric_elastic
      symmetric_bounce)

end
