(* ===== verification/Curves.thy ===== *)
theory Curves
  imports Geometry
begin

text \<open>
  Quadratic and cubic Bezier curves (\<^verbatim>\<open>src/html/js/echarts.js\<close>, lines 3142-3484): values, derivatives,
  roots, extrema, subdivision, projection of a point and length, over the real numbers.  A quotient
  by zero is \<^term>\<open>None\<close>, which like \<^verbatim>\<open>Infinity\<close> and \<^verbatim>\<open>NaN\<close> lies in no interval.  The functions that fill
  an array write its first places one after the other; they return the number of values found and the
  array, of which the caller may still read older entries.
\<close>

section \<open>Definitions\<close>

definition EPSILON :: real where "EPSILON = 1 / 10 ^ 8"

definition EPSILON_NUMERIC :: real where "EPSILON_NUMERIC = 1 / 10 ^ 4"

definition isAroundZero :: "real \<Rightarrow> bool" where
  "isAroundZero val \<longleftrightarrow> val > - EPSILON \<and> val < EPSILON"

definition isNotAroundZero :: "real \<Rightarrow> bool" where
  "isNotAroundZero val \<longleftrightarrow> val > EPSILON \<or> val < - EPSILON"

definition cubicAt :: "real \<Rightarrow> real \<Rightarrow> real \<Rightarrow> real \<Rightarrow> real \<Rightarrow> real" where
  "cubicAt p0 p1 p2 p3 t =
     (let onet = 1 - t
      in onet * onet * (onet * p0 + 3 * t * p1) + t * t * (t * p3 + 3 * onet * p2))"

definition cubicDerivativeAt :: "real \<Rightarrow> real \<Rightarrow> real \<Rightarrow> real \<Rightarrow> real \<Rightarrow> real" where
  "cubicDerivativeAt p0 p1 p2 p3 t =
     (let onet = 1 - t
      in 3 * (((p1 - p0) * onet + 2 * (p2 - p1) * t) * onet + (p3 - p2) * t * t))"

text \<open>Quotients, values between 0 and 1, the real cube root, and the array that a function has filled.\<close>

definition quot :: "real \<Rightarrow> real \<Rightarrow> real option" where
  "quot x y = (if y = 0 then None else Some (x / y))"

definition between01 :: "real option \<Rightarrow> real list" where
  "between01 t = (case t of None \<Rightarrow> [] | Some t \<Rightarrow> if t \<ge> 0 \<and> t \<le> 1 then [t] else [])"

definition cbrt :: "real \<Rightarrow> real" where
  "cbrt Y = (if Y < 0 then - ((- Y) powr (1 / 3)) else Y powr (1 / 3))"

definition store :: "real list \<Rightarrow> real list \<Rightarrow> real list" where
  "store ws array = ws @ drop (length ws) array"

definition found :: "real list \<Rightarrow> real list \<Rightarrow> nat \<times> real list" where
  "found ws array = (length ws, store ws array)"

subsection \<open>Cubic curves\<close>

definition cubicRootAt :: "real \<Rightarrow> real \<Rightarrow> real \<Rightarrow> real \<Rightarrow> real \<Rightarrow> real list \<Rightarrow> nat \<times> real list" where
  "cubicRootAt p0 p1 p2 p3 val roots =
     (let a = p3 + 3 * (p1 - p2) - p0;
          b = 3 * (p2 - p1 * 2 + p0);
          c = 3 * (p1 - p0);
          d = p0 - val;
          A = b * b - 3 * a * c;
          B = b * c - 9 * a * d;
          C = c * c - 3 * b * d
      in if isAroundZero A \<and> isAroundZero B
         then if isAroundZero b then (0, store [0] roots)
              else found (between01 (quot (- c) b)) roots
         else let disc = B * B - 4 * A * C
              in if isAroundZero disc
                 then let K = quot B A;
                          t1 = (case (quot (- b) a, K) of (Some q, Some k) \<Rightarrow> Some (q + k) | _ \<Rightarrow> None);
                          t2 = map_option (\<lambda>k. - k / 2) K
                      in found (between01 t1 @ between01 t2) roots
                 else if disc > 0
                 then let discSqrt = sqrt disc;
                          Y1 = cbrt (A * b + 1.5 * a * (- B + discSqrt));
                          Y2 = cbrt (A * b + 1.5 * a * (- B - discSqrt))
                      in found (between01 (quot (- b - (Y1 + Y2)) (3 * a))) roots
                 else let T = (2 * A * b - 3 * a * B) / (2 * sqrt (A * A * A));
                          theta = arccos T / 3;
                          ASqrt = sqrt A;
                          tmp = cos theta
                      in found (between01 (quot (- b - 2 * ASqrt * tmp) (3 * a)) @
                                between01 (quot (- b + ASqrt * (tmp + sqrt 3 * sin theta)) (3 * a)) @
                                between01 (quot (- b + ASqrt * (tmp - sqrt 3 * sin theta)) (3 * a))) roots)"

definition cubicExtrema :: "real \<Rightarrow> real \<Rightarrow> real \<Rightarrow> real \<Rightarrow> real list \<Rightarrow> nat \<times> real list" where
  "cubicExtrema p0 p1 p2 p3 extrema =
     (let b = 6 * p2 - 12 * p1 + 6 * p0;
          a = 9 * p1 + 3 * p3 - 3 * p0 - 9 * p2;
          c = 3 * p1 - 3 * p0
      in if isAroundZero a
         then found (if isNotAroundZero b then between01 (quot (- c) b) else []) extrema
         else let disc = b * b - 4 * a * c
              in if isAroundZero disc then (0, store [- b / (2 * a)] extrema)
                 else if disc > 0
                 then let discSqrt = sqrt disc
                      in found (between01 (Some ((- b + discSqrt) / (2 * a))) @
                                between01 (Some ((- b - discSqrt) / (2 * a)))) extrema
                 else (0, extrema))"

definition cubicSubdivide :: "real \<Rightarrow> real \<Rightarrow> real \<Rightarrow> real \<Rightarrow> real \<Rightarrow> real list" where
  "cubicSubdivide p0 p1 p2 p3 t =
     (let p01 = (p1 - p0) * t + p0;
          p12 = (p2 - p1) * t + p1;
          p23 = (p3 - p2) * t + p2;
          p012 = (p12 - p01) * t + p01;
          p123 = (p23 - p12) * t + p12;
          p0123 = (p123 - p012) * t + p012
      in [p0, p01, p012, p0123, p0123, p123, p23, p3])"

subsection \<open>Quadratic curves\<close>

definition quadraticAt :: "real \<Rightarrow> real \<Rightarrow> real \<Rightarrow> real \<Rightarrow> real" where
  "quadraticAt p0 p1 p2 t = (let onet = 1 - t in onet * (onet * p0 + 2 * t * p1) + t * t * p2)"

definition quadraticDerivativeAt :: "real \<Rightarrow> real \<Rightarrow> real \<Rightarrow> real \<Rightarrow> real" where
  "quadraticDerivativeAt p0 p1 p2 t = 2 * ((1 - t) * (p1 - p0) + t * (p2 - p1))"

definition quadraticRootAt :: "real \<Rightarrow> real \<Rightarrow> real \<Rightarrow> real \<Rightarrow> real list \<Rightarrow> nat \<times> real list" where
  "quadraticRootAt p0 p1 p2 val roots =
     (let a = p0 - 2 * p1 + p2;
          b = 2 * (p1 - p0);
          c = p0 - val
      in if isAroundZero a
         then found (if isNotAroundZero b then between01 (quot (- c) b) else []) roots
         else let disc = b * b - 4 * a * c
              in if isAroundZero disc then found (between01 (Some (- b / (2 * a)))) roots
                 else if disc > 0
                 then let discSqrt = sqrt disc
                      in found (between01 (Some ((- b + discSqrt) / (2 * a))) @
                                between01 (Some ((- b - discSqrt) / (2 * a)))) roots
                 else (0, roots))"

definition quadraticExtremum :: "real \<Rightarrow> real \<Rightarrow> real \<Rightarrow> real" where
  "quadraticExtremum p0 p1 p2 =
     (let divider = p0 + p2 - 2 * p1 in if divider = 0 then 0.5 else (p0 - p1) / divider)"

definition quadraticSubdivide :: "real \<Rightarrow> real \<Rightarrow> real \<Rightarrow> real \<Rightarrow> real list" where
  "quadraticSubdivide p0 p1 p2 t =
     (let p01 = (p1 - p0) * t + p0;
          p12 = (p2 - p1) * t + p1;
          p012 = (p12 - p01) * t + p01
      in [p0, p01, p012, p012, p12, p2])"

subsection \<open>Projection and length\<close>

text \<open>
  The first loop of the projection looks at the parameters \<open>0, 0.05, ..., 0.95\<close>; \<^term>\<open>None\<close> as the best
  distance stands for \<^verbatim>\<open>Infinity\<close>.  The curve is a function here, as the loops of the quadratic and of
  the cubic case are the same.
\<close>

definition less_inf :: "real \<Rightarrow> real option \<Rightarrow> bool" where
  "less_inf d m = (case m of None \<Rightarrow> True | Some m \<Rightarrow> d < m)"

fun sampleLoop :: "(real \<Rightarrow> vec) \<Rightarrow> vec \<Rightarrow> real list \<Rightarrow> real \<times> real option \<Rightarrow> real \<times> real option" where
  "sampleLoop crv v0 [] (t, d) = (t, d)"
| "sampleLoop crv v0 (s # ss) (t, d) =
     (let d1 = distanceSquare v0 (crv s)
      in sampleLoop crv v0 ss (if less_inf d1 d then (s, Some d1) else (t, d)))"

fun refineLoop :: "(real \<Rightarrow> vec) \<Rightarrow> vec \<Rightarrow> nat \<Rightarrow> real \<Rightarrow> real \<Rightarrow> real option \<Rightarrow> real \<times> real option" where
  "refineLoop crv v0 0 interval t d = (t, d)"
| "refineLoop crv v0 (Suc i) interval t d =
     (if interval < EPSILON_NUMERIC then (t, d)
      else let prev = t - interval;
               nxt = t + interval;
               d1 = distanceSquare (crv prev) v0
           in if prev \<ge> 0 \<and> less_inf d1 d then refineLoop crv v0 i interval prev (Some d1)
              else let d2 = distanceSquare (crv nxt) v0
                   in if nxt \<le> 1 \<and> less_inf d2 d then refineLoop crv v0 i interval nxt (Some d2)
                      else refineLoop crv v0 i (interval * 0.5) t d)"

definition projectPoint :: "(real \<Rightarrow> vec) \<Rightarrow> vec \<Rightarrow> real option \<times> vec" where
  "projectPoint crv v0 =
     (let (t, _) = sampleLoop crv v0 (map (\<lambda>i. real i * 0.05) [0..<20]) (0, None);
          (t, d) = refineLoop crv v0 32 0.005 t None
      in (map_option sqrt d, crv t))"

text \<open>The points of a curve.\<close>

definition cubicPoint :: "vec \<Rightarrow> vec \<Rightarrow> vec \<Rightarrow> vec \<Rightarrow> real \<Rightarrow> vec" where
  "cubicPoint p0 p1 p2 p3 t = (cubicAt (fst p0) (fst p1) (fst p2) (fst p3) t, cubicAt (snd p0) (snd p1) (snd p2) (snd p3) t)"

definition quadraticPoint :: "vec \<Rightarrow> vec \<Rightarrow> vec \<Rightarrow> real \<Rightarrow> vec" where
  "quadraticPoint p0 p1 p2 t = (quadraticAt (fst p0) (fst p1) (fst p2) t, quadraticAt (snd p0) (snd p1) (snd p2) t)"

definition cubicProjectPoint :: "vec \<Rightarrow> vec \<Rightarrow> vec \<Rightarrow> vec \<Rightarrow> vec \<Rightarrow> real option \<times> vec" where
  "cubicProjectPoint p0 p1 p2 p3 v = projectPoint (cubicPoint p0 p1 p2 p3) v"

definition quadraticProjectPoint :: "vec \<Rightarrow> vec \<Rightarrow> vec \<Rightarrow> vec \<Rightarrow> real option \<times> vec" where
  "quadraticProjectPoint p0 p1 p2 v = projectPoint (quadraticPoint p0 p1 p2) v"

fun lengthLoop :: "(real \<Rightarrow> vec) \<Rightarrow> real \<Rightarrow> nat list \<Rightarrow> vec \<Rightarrow> real \<Rightarrow> real" where
  "lengthLoop crv stp [] p d = d"
| "lengthLoop crv stp (i # is) p d =
     (let v = crv (real i * stp);
          dx = fst v - fst p;
          dy = snd v - snd p
      in lengthLoop crv stp is v (d + sqrt (dx * dx + dy * dy)))"

definition cubicLength :: "vec \<Rightarrow> vec \<Rightarrow> vec \<Rightarrow> vec \<Rightarrow> nat \<Rightarrow> real" where
  "cubicLength p0 p1 p2 p3 iteration =
     lengthLoop (cubicPoint p0 p1 p2 p3) (1 / real iteration) [1..<Suc iteration] p0 0"

definition quadraticLength :: "vec \<Rightarrow> vec \<Rightarrow> vec \<Rightarrow> nat \<Rightarrow> real" where
  "quadraticLength p0 p1 p2 iteration =
     lengthLoop (quadraticPoint p0 p1 p2) (1 / real iteration) [1..<Suc iteration] p0 0"

section \<open>Roots\<close>

text \<open>A number that the comparisons with \<^const>\<open>EPSILON\<close> classify rightly.\<close>

definition clear :: "real \<Rightarrow> bool" where
  "clear v \<longleftrightarrow> v = 0 \<or> \<bar>v\<bar> > EPSILON"

lemma clear_iff:
  assumes "clear v"
  shows "isAroundZero v \<longleftrightarrow> v = 0" "isNotAroundZero v \<longleftrightarrow> v \<noteq> 0"
  using assms by (auto simp: clear_def isAroundZero_def isNotAroundZero_def EPSILON_def abs_if split: if_splits)

lemma set_between01: "set (between01 t) = {s. t = Some s \<and> 0 \<le> s \<and> s \<le> 1}"
  by (auto simp: between01_def split: option.splits)

lemma found_values [simp]: "(case found ws array of (n, array) \<Rightarrow> take n array) = ws"
  by (simp add: found_def store_def)

text \<open>The values that a call has found.\<close>

definition values_of :: "nat \<times> real list \<Rightarrow> real list" where
  "values_of r = take (fst r) (snd r)"

lemma values_of_found [simp]: "values_of (found ws array) = ws" "values_of (0, array) = []"
  by (simp_all add: values_of_def found_def store_def)

text \<open>
  With \<open>u = 3 a t + b\<close> the cubic polynomial is \<open>u ^ 3 - 3 A u + Q\<close> up to a factor, and
  \<open>Q\<^sup>2 = 4 A ^ 3 + 9 a\<^sup>2 disc\<close>.
\<close>

lemma depressed:
  fixes a b c d t :: real
  shows "27 * a * a * (a * t ^ 3 + b * t ^ 2 + c * t + d) =
    (3 * a * t + b) ^ 3 - 3 * (b * b - 3 * a * c) * (3 * a * t + b) + (2 * (b * b - 3 * a * c) * b - 3 * a * (b * c - 9 * a * d))"
  by algebra

lemma depressed_square:
  fixes a b c d :: real
  defines "A \<equiv> b * b - 3 * a * c" and "B \<equiv> b * c - 9 * a * d" and "C \<equiv> c * c - 3 * b * d"
  shows "(2 * A * b - 3 * a * B)\<^sup>2 = 4 * A ^ 3 + 9 * a\<^sup>2 * (B * B - 4 * A * C)"
  unfolding A_def B_def C_def by algebra

lemma cbrt_cube: "cbrt Y ^ 3 = Y"
proof -
  have "(x powr (1 / 3)) ^ 3 = x" if "x \<ge> 0" for x :: real
    using that by (cases "x = 0") (simp_all add: powr_power)
  from this [of Y] this [of "- Y"] show ?thesis by (simp add: cbrt_def power_minus_odd)
qed

lemma cube_inj: "x ^ 3 = y ^ 3 \<Longrightarrow> x = (y :: real)"
  by (metis odd_numeral odd_real_root_power_cancel)

text \<open>The zeros of \<open>u ^ 3 - 3 A u + Q\<close>, by the sign of \<open>Q\<^sup>2 - 4 A ^ 3\<close>.\<close>

lemma zeros_double:
  fixes A Q u :: real
  assumes "A \<noteq> 0" "Q\<^sup>2 = 4 * A ^ 3"
  shows "u ^ 3 - 3 * A * u + Q = 0 \<longleftrightarrow> u = - Q / A \<or> u = Q / (2 * A)"
proof -
  define q where "q = Q / (2 * A)"
  have Q: "Q = 2 * A * q" using assms(1) by (simp add: q_def)
  have "4 * A\<^sup>2 * (q\<^sup>2 - A) = 0" using assms(2) unfolding Q by algebra
  then have A: "A = q\<^sup>2" using assms(1) by simp
  have "u ^ 3 - 3 * A * u + Q = (u + 2 * q) * (u - q)\<^sup>2" unfolding Q A by algebra
  moreover have "- Q / A = - (2 * q)" using Q assms(1) by simp
  ultimately show ?thesis using q_def by (simp add: eq_neg_iff_add_eq_0)
qed

lemma zeros_single:
  fixes v w u :: real
  assumes "v \<noteq> w"
  shows "u ^ 3 - 3 * (v * w) * u + (v ^ 3 + w ^ 3) = 0 \<longleftrightarrow> u = - (v + w)"
proof -
  have "u ^ 3 - 3 * (v * w) * u + (v ^ 3 + w ^ 3) = (u + (v + w)) * (((u - v)\<^sup>2 + (u - w)\<^sup>2 + (v - w)\<^sup>2) / 2)"
    by (simp add: field_simps) algebra
  moreover have "(v - w)\<^sup>2 > 0" using assms by simp
  then have "(u - v)\<^sup>2 + (u - w)\<^sup>2 + (v - w)\<^sup>2 > 0" by (simp add: add_nonneg_pos)
  then have "((u - v)\<^sup>2 + (u - w)\<^sup>2 + (v - w)\<^sup>2) / 2 \<noteq> 0" by simp
  ultimately show ?thesis by (simp only: mult_eq_0_iff eq_neg_iff_add_eq_0) simp
qed

lemma zeros_triple:
  fixes A Q u :: real
  assumes "A > 0" "Q\<^sup>2 \<le> 4 * A ^ 3"
  defines "s \<equiv> sqrt A" and "theta \<equiv> arccos (Q / (2 * sqrt (A * A * A))) / 3"
  shows "u ^ 3 - 3 * A * u + Q = 0 \<longleftrightarrow>
    u = - (2 * s * cos theta) \<or> u = s * (cos theta + sqrt 3 * sin theta) \<or> u = s * (cos theta - sqrt 3 * sin theta)"
proof -
  have s: "s > 0" "s\<^sup>2 = A" using assms(1) by (simp_all add: s_def)
  then have s3: "sqrt (A * A * A) = s ^ 3"
    by (intro real_sqrt_unique) (simp_all add: power2_eq_square power3_eq_cube mult_ac, use assms(1) in simp)
  define T where "T = Q / (2 * s ^ 3)"
  have "4 * (s ^ 3)\<^sup>2 = 4 * A ^ 3" using s(2) by (simp add: power_mult [symmetric] mult.commute flip: s(2))
  then have "T\<^sup>2 \<le> 1" using assms(1,2) s(1) by (simp add: T_def power_divide power_mult_distrib)
  then have "\<bar>T\<bar> \<le> 1" by (simp add: abs_square_le_1)
  then have "cos (3 * theta) = T" unfolding theta_def s3 T_def [symmetric] by (simp add: cos_arccos abs_le_iff)
  then have T: "4 * cos theta ^ 3 - 3 * cos theta = T" by (simp add: cos_treble_cos)
  let ?c = "cos theta" and ?r = "sqrt 3 * sin theta"
  have r: "?r\<^sup>2 = 3 - 3 * ?c\<^sup>2" by (simp add: power_mult_distrib sin_squared_eq)
  have Q: "Q = 2 * s ^ 3 * (4 * ?c ^ 3 - 3 * ?c)" using s(1) unfolding T T_def by simp
  have "(u + 2 * s * ?c) * ((u - s * (?c + ?r)) * (u - s * (?c - ?r))) =
      (u + 2 * s * ?c) * (u\<^sup>2 - 2 * s * ?c * u + s\<^sup>2 * (?c\<^sup>2 - ?r\<^sup>2))"
    by algebra
  also have "\<dots> = u ^ 3 - 3 * s\<^sup>2 * u + 2 * s ^ 3 * (4 * ?c ^ 3 - 3 * ?c)" unfolding r by algebra
  finally have "(u + 2 * s * ?c) * ((u - s * (?c + ?r)) * (u - s * (?c - ?r))) = u ^ 3 - 3 * A * u + Q"
    using Q s(2) by simp
  then have "u ^ 3 - 3 * A * u + Q = 0 \<longleftrightarrow> u + 2 * s * ?c = 0 \<or> u - s * (?c + ?r) = 0 \<or> u - s * (?c - ?r) = 0"
    by (metis mult_eq_0_iff)
  then show ?thesis by (simp only: eq_neg_iff_add_eq_0 right_minus_eq)
qed

text \<open>The values that \<^verbatim>\<open>cubicRootAt\<close> finds are the zeros of the polynomial, in each of its branches.\<close>

lemma cubicAt_poly:
  "cubicAt p0 p1 p2 p3 t - val =
     (p3 + 3 * (p1 - p2) - p0) * t ^ 3 + 3 * (p2 - p1 * 2 + p0) * t ^ 2 + 3 * (p1 - p0) * t + (p0 - val)"
  unfolding cubicAt_def Let_def by algebra

lemma from_depressed:
  fixes a :: real
  assumes "a \<noteq> 0"
  shows "3 * a * t + b = u \<longleftrightarrow> t = (u - b) / (3 * a)"
  using assms by (auto simp: field_simps)

lemma cubic_zero_iff:
  fixes a b c d t :: real
  assumes "a \<noteq> 0"
  shows "a * t ^ 3 + b * t ^ 2 + c * t + d = 0 \<longleftrightarrow>
    (3 * a * t + b) ^ 3 - 3 * (b * b - 3 * a * c) * (3 * a * t + b) +
      (2 * (b * b - 3 * a * c) * b - 3 * a * (b * c - 9 * a * d)) = 0"
  using depressed [of a t b c d] assms by (metis mult_eq_0_iff zero_neq_numeral)

text \<open>
  The arguments for which the comparisons with \<^const>\<open>EPSILON\<close> are right and the polynomial is cubic, and
  not just a multiple of \<open>t ^ 3\<close>.
\<close>

definition clear_cubic :: "real \<Rightarrow> real \<Rightarrow> real \<Rightarrow> real \<Rightarrow> real \<Rightarrow> bool" where
  "clear_cubic p0 p1 p2 p3 val \<longleftrightarrow>
     (let a = p3 + 3 * (p1 - p2) - p0;
          b = 3 * (p2 - p1 * 2 + p0);
          c = 3 * (p1 - p0);
          d = p0 - val;
          A = b * b - 3 * a * c;
          B = b * c - 9 * a * d;
          C = c * c - 3 * b * d
      in a \<noteq> 0 \<and> clear A \<and> clear B \<and> clear b \<and> clear (B * B - 4 * A * C) \<and> (b \<noteq> 0 \<or> c \<noteq> 0 \<or> d \<noteq> 0))"

lemma cubicRootAt_roots:
  assumes "clear_cubic p0 p1 p2 p3 val"
  shows "set (values_of (cubicRootAt p0 p1 p2 p3 val roots)) = {t. 0 \<le> t \<and> t \<le> 1 \<and> cubicAt p0 p1 p2 p3 t = val}"
proof -
  define a b c d where abcd: "a = p3 + 3 * (p1 - p2) - p0" "b = 3 * (p2 - p1 * 2 + p0)" "c = 3 * (p1 - p0)" "d = p0 - val"
  define A B C where ABC: "A = b * b - 3 * a * c" "B = b * c - 9 * a * d" "C = c * c - 3 * b * d"
  define Q disc where Q: "Q = 2 * A * b - 3 * a * B" and disc: "disc = B * B - 4 * A * C"
  have ok: "a \<noteq> 0" "clear A" "clear B" "clear b" "clear disc" "b \<noteq> 0 \<or> c \<noteq> 0 \<or> d \<noteq> 0"
    using assms unfolding clear_cubic_def Let_def abcd [symmetric] ABC [symmetric] disc [symmetric] by auto
  have root: "cubicAt p0 p1 p2 p3 t = val \<longleftrightarrow> (3 * a * t + b) ^ 3 - 3 * A * (3 * a * t + b) + Q = 0" for t
    using cubicAt_poly [of p0 p1 p2 p3 t val] cubic_zero_iff [OF ok(1), of t b c d]
    unfolding abcd [symmetric] ABC [symmetric] Q by (metis right_minus_eq)
  have Q2: "Q\<^sup>2 = 4 * A ^ 3 + 9 * a\<^sup>2 * disc" using depressed_square [of b a c d] unfolding Q disc ABC .
  show ?thesis
  proof (cases "A = 0 \<and> B = 0")
    case True
    then have ac: "b * b = 3 * a * c" "b * c = 9 * a * d" "Q = 0" by (simp_all add: ABC Q)
    then have "b \<noteq> 0" using ok(1,6) by auto
    moreover have "- c / b = (0 - b) / (3 * a)" using ac(1) ok(1) \<open>b \<noteq> 0\<close> by (simp add: field_simps)
    ultimately show ?thesis
      unfolding cubicRootAt_def Let_def abcd [symmetric] ABC [symmetric]
      using True ok root ac(3) from_depressed [OF ok(1), of _ b 0] by (auto simp: clear_iff set_between01 quot_def)
  next
    case False
    then have branch: "\<not> (isAroundZero A \<and> isAroundZero B)" using ok clear_iff by simp
    consider "disc = 0" | "disc > 0" | "disc < 0" by linarith
    then show ?thesis
    proof cases
      case 1
      then have "A \<noteq> 0" using False disc by auto
      have "- b / a + B / A = (- Q / A - b) / (3 * a)" "- (B / A) / 2 = (Q / (2 * A) - b) / (3 * a)"
        using ok(1) \<open>A \<noteq> 0\<close> by (simp_all add: Q field_simps)
      then show ?thesis
        unfolding cubicRootAt_def Let_def abcd [symmetric] ABC [symmetric] disc [symmetric]
        using 1 branch ok(1,5) \<open>A \<noteq> 0\<close> root zeros_double [OF \<open>A \<noteq> 0\<close>, of Q] Q2 from_depressed [OF ok(1)]
        by (auto simp: clear_iff set_between01 quot_def)
    next
      case 2
      define v w where vw: "v = cbrt (A * b + 1.5 * a * (- B + sqrt disc))" "w = cbrt (A * b + 1.5 * a * (- B - sqrt disc))"
      have cubes: "v ^ 3 = A * b + 1.5 * a * (- B + sqrt disc)" "w ^ 3 = A * b + 1.5 * a * (- B - sqrt disc)"
        by (simp_all add: vw cbrt_cube)
      then have "v \<noteq> w" using 2 ok(1) by auto
      have "v ^ 3 + w ^ 3 = Q" using cubes by (simp add: Q field_simps)
      have "(v * w) ^ 3 = (Q\<^sup>2 - 9 * a\<^sup>2 * (sqrt disc)\<^sup>2) / 4"
        unfolding power_mult_distrib cubes Q by (simp add: field_simps) algebra
      then have "(v * w) ^ 3 = A ^ 3" using 2 Q2 by simp
      then have "v * w = A" by (rule cube_inj)
      have "3 * a * t + b = - (v + w) \<longleftrightarrow> t = (- b - (v + w)) / (3 * a)" for t
        using from_depressed [OF ok(1), of t b "- (v + w)"] by (simp only: minus_diff_commute)
      then show ?thesis
        unfolding cubicRootAt_def Let_def abcd [symmetric] ABC [symmetric] disc [symmetric] vw [symmetric]
        using 2 branch ok(1,5) root zeros_single [OF \<open>v \<noteq> w\<close>] \<open>v * w = A\<close> \<open>v ^ 3 + w ^ 3 = Q\<close>
        by (auto simp: clear_iff set_between01 quot_def)
    next
      case 3
      have "9 * a\<^sup>2 * disc < 0" using 3 ok(1) by (simp add: mult_less_0_iff zero_less_mult_iff)
      then have lt: "Q\<^sup>2 < 4 * A ^ 3" using Q2 by simp
      then have "A ^ 3 > 0" using zero_le_power2 [of Q] by linarith
      then have "A > 0" by (simp add: zero_less_power_eq)
      define s theta where st: "s = sqrt A" "theta = arccos (Q / (2 * sqrt (A * A * A))) / 3"
      have u: "3 * a * t + b = - (2 * s * cos theta) \<longleftrightarrow> t = (- b - 2 * s * cos theta) / (3 * a)"
        "3 * a * t + b = s * e \<longleftrightarrow> t = (- b + s * e) / (3 * a)" for t e
        using from_depressed [OF ok(1), of t b] by (simp_all only: minus_diff_commute uminus_add_conv_diff)
      have roots: "cubicAt p0 p1 p2 p3 t = val \<longleftrightarrow>
          t = (- b - 2 * s * cos theta) / (3 * a) \<or> t = (- b + s * (cos theta + sqrt 3 * sin theta)) / (3 * a) \<or>
          t = (- b + s * (cos theta - sqrt 3 * sin theta)) / (3 * a)" for t
        unfolding root zeros_triple [OF \<open>A > 0\<close> less_imp_le [OF lt]] st [symmetric] u ..
      have "\<not> isAroundZero disc" "\<not> disc > 0" using 3 ok(5) clear_iff by auto
      then show ?thesis
        unfolding cubicRootAt_def Let_def abcd [symmetric] ABC [symmetric] disc [symmetric] Q [symmetric] st [symmetric]
        using branch ok(1) by (auto simp: roots set_between01 quot_def)
    qed
  qed
qed

text \<open>
  C32: \<^verbatim>\<open>cubicRootAt\<close> finds exactly the parameters between 0 and 1 at which a cubic curve has a given value:
  no root is missed and no other value is returned, in the case of one, two and three real roots.
\<close>

theorem cubicRootAt_exact:
  assumes "clear_cubic p0 p1 p2 p3 val"
  shows "set (values_of (cubicRootAt p0 p1 p2 p3 val roots)) = {t. 0 \<le> t \<and> t \<le> 1 \<and> cubicAt p0 p1 p2 p3 t = val}"
  using assms by (rule cubicRootAt_roots)

theorem cubicRootAt_exact_witness:
  "set (values_of (cubicRootAt 0 0 0 1 (1 / 8) [-1, -1, -1])) = {1 / 2}"
proof -
  have "clear_cubic 0 0 0 1 (1 / 8)" by (simp add: clear_cubic_def clear_def EPSILON_def)
  moreover have "cubicAt 0 0 0 1 t = 1 / 8 \<longleftrightarrow> t = 1 / 2" for t
  proof -
    have "cubicAt 0 0 0 1 t = t ^ 3" "1 / 8 = (1 / 2 :: real) ^ 3" by (simp_all add: cubicAt_def power3_eq_cube)
    then show ?thesis using cube_inj [of t "1 / 2"] by metis
  qed
  ultimately show ?thesis using cubicRootAt_exact [of 0 0 0 1 "1 / 8" "[-1, -1, -1]"] by auto
qed

text \<open>
  On a straight cubic curve whose control points are evenly spaced, \<^verbatim>\<open>cubicRootAt\<close> finds no root at all,
  although the curve takes every value between its ends.
\<close>

theorem cubicRootAt_misses_line:
  "fst (cubicRootAt p (p + h) (p + 2 * h) (p + 3 * h) (p + 3 * h * t) roots) = 0 \<and>
   cubicAt p (p + h) (p + 2 * h) (p + 3 * h) t = p + 3 * h * t"
proof -
  have e: "p + 3 * h + 3 * ((p + h) - (p + 2 * h)) - p = 0" "3 * ((p + 2 * h) - (p + h) * 2 + p) = 0" by simp_all
  have z: "isAroundZero 0" by (simp add: isAroundZero_def EPSILON_def)
  have "fst (cubicRootAt p (p + h) (p + 2 * h) (p + 3 * h) (p + 3 * h * t) roots) = 0"
    unfolding cubicRootAt_def Let_def e by (simp add: z)
  moreover have "cubicAt p (p + h) (p + 2 * h) (p + 3 * h) t = p + 3 * h * t" unfolding cubicAt_def Let_def by algebra
  ultimately show ?thesis ..
qed

text \<open>Quadratic equations.\<close>

lemma quadratic_zero_iff:
  fixes a b c t :: real
  assumes "a \<noteq> 0"
  shows "a * t\<^sup>2 + b * t + c = 0 \<longleftrightarrow>
    b * b - 4 * a * c \<ge> 0 \<and> (t = (- b + sqrt (b * b - 4 * a * c)) / (2 * a) \<or> t = (- b - sqrt (b * b - 4 * a * c)) / (2 * a))"
proof -
  have "a * t\<^sup>2 + b * t + c = 0 \<longleftrightarrow> (2 * a * t + b)\<^sup>2 = b * b - 4 * a * c"
  proof -
    have "4 * a * (a * t\<^sup>2 + b * t + c) = (2 * a * t + b)\<^sup>2 - (b * b - 4 * a * c)" by algebra
    then show ?thesis using assms by (metis mult_eq_0_iff right_minus_eq zero_neq_numeral)
  qed
  also have "\<dots> \<longleftrightarrow> b * b - 4 * a * c \<ge> 0 \<and>
      (2 * a * t + b = sqrt (b * b - 4 * a * c) \<or> 2 * a * t + b = - sqrt (b * b - 4 * a * c))"
    by (smt (verit, ccfv_SIG) power2_eq_iff real_sqrt_pow2 zero_le_power2)
  also have "\<dots> \<longleftrightarrow> b * b - 4 * a * c \<ge> 0 \<and>
      (t = (- b + sqrt (b * b - 4 * a * c)) / (2 * a) \<or> t = (- b - sqrt (b * b - 4 * a * c)) / (2 * a))"
    using assms by (auto simp: field_simps)
  finally show ?thesis .
qed

lemma quadraticAt_poly: "quadraticAt p0 p1 p2 t - val = (p0 - 2 * p1 + p2) * t\<^sup>2 + 2 * (p1 - p0) * t + (p0 - val)"
  unfolding quadraticAt_def Let_def by algebra

text \<open>
  \<^verbatim>\<open>quadraticRootAt\<close> finds exactly the parameters between 0 and 1 at which a quadratic curve has a given
  value, also where the curve is a line; the curve must not be constant.
\<close>

theorem quadraticRootAt_exact:
  assumes "clear (p0 - 2 * p1 + p2)" "clear (2 * (p1 - p0))" "p0 \<noteq> p1 \<or> p1 \<noteq> p2"
    "clear ((2 * (p1 - p0)) * (2 * (p1 - p0)) - 4 * (p0 - 2 * p1 + p2) * (p0 - val))"
  shows "set (values_of (quadraticRootAt p0 p1 p2 val roots)) = {t. 0 \<le> t \<and> t \<le> 1 \<and> quadraticAt p0 p1 p2 t = val}"
proof -
  define a b c where abc: "a = p0 - 2 * p1 + p2" "b = 2 * (p1 - p0)" "c = p0 - val"
  define disc where disc: "disc = b * b - 4 * a * c"
  have ok: "clear a" "clear b" "clear disc" using assms unfolding abc disc by auto
  have root: "quadraticAt p0 p1 p2 t = val \<longleftrightarrow> a * t\<^sup>2 + b * t + c = 0" for t
    using quadraticAt_poly [of p0 p1 p2 t val] unfolding abc by (metis right_minus_eq)
  show ?thesis
  proof (cases "a = 0")
    case True
    then have "b \<noteq> 0" using assms(3) by (auto simp: abc)
    then have "a * t\<^sup>2 + b * t + c = 0 \<longleftrightarrow> t = - c / b" for t using True by (auto simp: field_simps eq_neg_iff_add_eq_0)
    then show ?thesis unfolding quadraticRootAt_def Let_def abc [symmetric]
      using True \<open>b \<noteq> 0\<close> ok root by (auto simp: clear_iff set_between01 quot_def)
  next
    case False
    then show ?thesis unfolding quadraticRootAt_def Let_def abc [symmetric] disc [symmetric]
      using ok root quadratic_zero_iff [OF False, of _ b c, folded disc] by (auto simp: clear_iff set_between01)
  qed
qed

theorem quadraticRootAt_exact_witness: "set (values_of (quadraticRootAt 0 1 0 (3 / 8) [])) = {1 / 4, 3 / 4}"
proof -
  have root: "quadraticAt 0 1 0 t = 3 / 8 \<longleftrightarrow> t = 1 / 4 \<or> t = 3 / 4" for t
  proof -
    have "quadraticAt 0 1 0 t - 3 / 8 = - 2 * ((t - 1 / 4) * (t - 3 / 4))"
      unfolding quadraticAt_def Let_def by (simp add: field_simps)
    then have "quadraticAt 0 1 0 t = 3 / 8 \<longleftrightarrow> (t - 1 / 4) * (t - 3 / 4) = 0" by linarith
    then show ?thesis by (simp only: mult_eq_0_iff right_minus_eq)
  qed
  have "set (values_of (quadraticRootAt 0 1 0 (3 / 8) [])) = {t. 0 \<le> t \<and> t \<le> 1 \<and> quadraticAt 0 1 0 t = 3 / 8}"
    by (rule quadraticRootAt_exact) (simp_all add: clear_def EPSILON_def)
  then show ?thesis unfolding root by force
qed

section \<open>Subdivision\<close>

lemma cubicAt_monomials:
  "cubicAt p0 p1 p2 p3 t = p0 + 3 * ((p1 - p0) * t) + 3 * ((p2 - 2 * p1 + p0) * t\<^sup>2) + (p3 - 3 * p2 + 3 * p1 - p0) * t ^ 3"
  unfolding cubicAt_def Let_def by algebra

lemma cubicAt_reverse: "cubicAt p3 p2 p1 p0 (1 - t) = cubicAt p0 p1 p2 p3 t"
  unfolding cubicAt_def Let_def by algebra

lemma cubic_first_part:
  fixes p0 p1 p2 p3 t s :: real
  defines "p01 \<equiv> (p1 - p0) * t + p0" and "p12 \<equiv> (p2 - p1) * t + p1" and "p23 \<equiv> (p3 - p2) * t + p2"
  defines "p012 \<equiv> (p12 - p01) * t + p01" and "p123 \<equiv> (p23 - p12) * t + p12"
  shows "cubicAt p0 p01 p012 ((p123 - p012) * t + p012) s = cubicAt p0 p1 p2 p3 (t * s)"
proof -
  have "p01 - p0 = (p1 - p0) * t" "p012 - 2 * p01 + p0 = (p2 - 2 * p1 + p0) * t\<^sup>2"
    "(p123 - p012) * t + p012 - 3 * p012 + 3 * p01 - p0 = (p3 - 3 * p2 + 3 * p1 - p0) * t ^ 3"
    unfolding assms by algebra+
  then show ?thesis unfolding cubicAt_monomials by (simp add: power_mult_distrib mult.assoc)
qed

text \<open>
  Subdividing a cubic curve at \<open>t\<close> gives the control points of two curves that trace its two parts.
\<close>

theorem cubicSubdivide_traces:
  "case cubicSubdivide p0 p1 p2 p3 t of [a0, a1, a2, a3, b0, b1, b2, b3] \<Rightarrow>
     cubicAt a0 a1 a2 a3 s = cubicAt p0 p1 p2 p3 (t * s) \<and>
     cubicAt b0 b1 b2 b3 s = cubicAt p0 p1 p2 p3 (t + (1 - t) * s) | _ \<Rightarrow> False"
proof -
  have swap: "(x - y) * (1 - t) + y = (y - x) * t + x" for x y :: real by (simp add: algebra_simps)
  have "1 - (1 - t) * (1 - s) = t + (1 - t) * s" by (simp add: algebra_simps)
  then have "cubicAt p3 p2 p1 p0 ((1 - t) * (1 - s)) = cubicAt p0 p1 p2 p3 (t + (1 - t) * s)"
    using cubicAt_reverse [of p0 p1 p2 p3 "(1 - t) * (1 - s)"] by simp
  then show ?thesis
    using cubic_first_part [of p0 p1 t p2 p3 s] cubic_first_part [of p3 p2 "1 - t" p1 p0 "1 - s"]
    by (simp add: cubicSubdivide_def Let_def swap cubicAt_reverse)
qed

theorem quadraticSubdivide_traces:
  "case quadraticSubdivide p0 p1 p2 t of [a0, a1, a2, b0, b1, b2] \<Rightarrow>
     quadraticAt a0 a1 a2 s = quadraticAt p0 p1 p2 (t * s) \<and>
     quadraticAt b0 b1 b2 s = quadraticAt p0 p1 p2 (t + (1 - t) * s) | _ \<Rightarrow> False"
  unfolding quadraticSubdivide_def quadraticAt_def Let_def list.case by (intro conjI; algebra)

section \<open>Projection and length\<close>

lemma sampleLoop_range:
  "set ss \<subseteq> {0..1} \<Longrightarrow> 0 \<le> t \<Longrightarrow> t \<le> 1 \<Longrightarrow> fst (sampleLoop crv v ss (t, d)) \<in> {0..1}"
  by (induction crv v ss "(t, d)" arbitrary: t d rule: sampleLoop.induct) (auto simp: Let_def)

text \<open>What the second loop has found is the distance at its parameter.\<close>

lemma refineLoop_distance:
  assumes "0 \<le> t" "t \<le> 1" "\<forall>e. d = Some e \<longrightarrow> e = distanceSquare (crv t) v" "0 < interval"
  shows "\<exists>t' d'. refineLoop crv v i interval t d = (t', d') \<and> 0 \<le> t' \<and> t' \<le> 1 \<and>
    (\<forall>e. d' = Some e \<longrightarrow> e = distanceSquare (crv t') v) \<and> (d \<noteq> None \<longrightarrow> d' \<noteq> None)"
  using assms
proof (induction crv v i interval t d rule: refineLoop.induct)
  case (2 crv v i interval t d)
  show ?case
  proof (cases "interval < EPSILON_NUMERIC")
    case True
    then show ?thesis using "2.prems" by simp
  next
    case False
    consider "t - interval \<ge> 0 \<and> less_inf (distanceSquare (crv (t - interval)) v) d"
      | "\<not> (t - interval \<ge> 0 \<and> less_inf (distanceSquare (crv (t - interval)) v) d)"
        "t + interval \<le> 1 \<and> less_inf (distanceSquare (crv (t + interval)) v) d"
      | "\<not> (t - interval \<ge> 0 \<and> less_inf (distanceSquare (crv (t - interval)) v) d)"
        "\<not> (t + interval \<le> 1 \<and> less_inf (distanceSquare (crv (t + interval)) v) d)" by blast
    then show ?thesis
    proof cases
      case 1
      then show ?thesis using "2.IH"(1) [OF False refl refl refl 1] "2.prems" False by (auto simp: Let_def)
    next
      case 2
      then show ?thesis using "2.IH"(2) [OF False refl refl refl 2(1) refl 2(2)] "2.prems" False by (auto simp: Let_def)
    next
      case 3
      then show ?thesis using "2.IH"(3) [OF False refl refl refl 3(1) refl 3(2)] "2.prems" False by (auto simp: Let_def)
    qed
  qed
qed simp

lemma refineLoop_start:
  assumes "0 \<le> t" "t \<le> 1"
  shows "\<exists>t' d'. refineLoop crv v (Suc i) 0.005 t None = (t', Some d') \<and> 0 \<le> t' \<and> t' \<le> 1 \<and> d' = distanceSquare (crv t') v"
proof -
  let ?i = "0.005 :: real"
  have first: "refineLoop crv v (Suc i) ?i t None =
      (if t \<ge> ?i then refineLoop crv v i ?i (t - ?i) (Some (distanceSquare (crv (t - ?i)) v))
       else refineLoop crv v i ?i (t + ?i) (Some (distanceSquare (crv (t + ?i)) v)))"
    using assms by (simp add: less_inf_def EPSILON_NUMERIC_def Let_def)
  show ?thesis
  proof (cases "t \<ge> ?i")
    case True
    then show ?thesis unfolding first
      using refineLoop_distance [of "t - ?i" "Some (distanceSquare (crv (t - ?i)) v)" crv v ?i i] assms by auto
  next
    case False
    then show ?thesis unfolding first
      using refineLoop_distance [of "t + ?i" "Some (distanceSquare (crv (t + ?i)) v)" crv v ?i i] assms by auto
  qed
qed

lemma projectPoint_on_curve:
  "\<exists>t. 0 \<le> t \<and> t \<le> 1 \<and> projectPoint crv v = (Some (vec_distance (crv t) v), crv t)"
proof -
  let ?ss = "map (\<lambda>i. real i * 0.05) [0..<20]"
  obtain t0 d0 where s: "sampleLoop crv v ?ss (0, None) = (t0, d0)" by fastforce
  have "set ?ss \<subseteq> {0..1}" by auto
  then have "t0 \<in> {0..1}" using sampleLoop_range [of ?ss 0 crv v None] s by force
  moreover have "(32 :: nat) = Suc 31" by simp
  ultimately obtain t d where "refineLoop crv v 32 0.005 t0 None = (t, Some d)" "0 \<le> t" "t \<le> 1" "d = distanceSquare (crv t) v"
    using refineLoop_start [of t0 crv v 31] by (auto simp only: atLeastAtMost_iff)
  then show ?thesis using s
    by (intro exI [of _ t]) (simp add: projectPoint_def vec_distance_def distanceSquare_def Let_def del: upt_rec_numeral)
qed

text \<open>
  The projection of a point on a cubic curve always returns, and what it returns is the distance of
  the given point from the point it stores, which is a point of the curve between its ends.
\<close>

theorem cubicProjectPoint_on_curve:
  "\<exists>t. 0 \<le> t \<and> t \<le> 1 \<and>
       cubicProjectPoint p0 p1 p2 p3 v = (Some (vec_distance (cubicPoint p0 p1 p2 p3 t) v), cubicPoint p0 p1 p2 p3 t)"
  unfolding cubicProjectPoint_def by (rule projectPoint_on_curve)

section \<open>Length\<close>

lemma vec_distance_triangle: "vec_distance p q \<le> vec_distance p v + vec_distance v q"
  using real_sqrt_sum_squares_triangle_ineq [of "fst p - fst v" "fst v - fst q" "snd p - snd v" "snd v - snd q"]
  by (simp add: vec_distance_def power2_eq_square)

lemma vec_distance_commute: "vec_distance p q = vec_distance q p"
  by (simp add: vec_distance_def algebra_simps)

lemma lengthLoop_triangle:
  "d + vec_distance p (last (p # map (\<lambda>i. crv (real i * stp)) is)) \<le> lengthLoop crv stp is p d"
proof (induction "is" arbitrary: p d)
  case (Cons i "is")
  let ?v = "crv (real i * stp)"
  have "vec_distance ?v p = sqrt ((fst ?v - fst p) * (fst ?v - fst p) + (snd ?v - snd p) * (snd ?v - snd p))"
    by (simp add: vec_distance_def)
  then show ?case
    using Cons [of "d + vec_distance ?v p" ?v]
      vec_distance_triangle [of p "last (p # map (\<lambda>i. crv (real i * stp)) (i # is))" ?v]
    by (simp add: Let_def vec_distance_commute [of p ?v])
qed (simp add: vec_distance_def)

text \<open>The measured length of a curve is at least the distance of its ends.\<close>

theorem cubicLength_lower_bound:
  assumes "0 < n"
  shows "vec_distance p0 p3 \<le> cubicLength p0 p1 p2 p3 n"
proof -
  have "last (p0 # map (\<lambda>i. cubicPoint p0 p1 p2 p3 (real i * (1 / real n))) [1..<Suc n]) = p3"
    using assms by (simp add: cubicPoint_def cubicAt_def prod_eq_iff)
  then show ?thesis
    using lengthLoop_triangle [of 0 p0 "cubicPoint p0 p1 p2 p3" "1 / real n" "[1..<Suc n]"] by (simp add: cubicLength_def)
qed

end
