(* ===== verification/Curve_Bounds.thy ===== *)
theory Curve_Bounds
  imports Curves
begin

text \<open>
  Bounding boxes of lines, curves and arcs (\<^verbatim>\<open>src/html/js/echarts.js\<close>, lines 9885-10001).  A function
  that fills \<^verbatim>\<open>min\<close> and \<^verbatim>\<open>max\<close> returns the two vectors; \<^term>\<open>None\<close> as the range of one coordinate stands for the
  initial \<^verbatim>\<open>Infinity\<close> and \<^verbatim>\<open>-Infinity\<close>.
\<close>

section \<open>Definitions\<close>

type_synonym box = "vec \<times> vec"

fun fromPoints :: "vec list \<Rightarrow> box option" where
  "fromPoints [] = None"
| "fromPoints (p # ps) = Some (fold (\<lambda>q (lo, hi). (vec_min lo q, vec_max hi q)) ps (p, p))"

definition fromLine :: "vec \<Rightarrow> vec \<Rightarrow> box" where
  "fromLine p0 p1 = (vec_min p0 p1, vec_max p0 p1)"

fun widen :: "real list \<Rightarrow> (real \<times> real) option \<Rightarrow> (real \<times> real) option" where
  "widen [] r = r"
| "widen (x # xs) r = widen xs (case r of None \<Rightarrow> Some (x, x) | Some (lo, hi) \<Rightarrow> Some (min x lo, max x hi))"

text \<open>One coordinate of a cubic curve: the values at the extrema, then those at the ends.\<close>

definition cubicRange :: "real \<Rightarrow> real \<Rightarrow> real \<Rightarrow> real \<Rightarrow> real list \<Rightarrow> (real \<times> real) option" where
  "cubicRange x0 x1 x2 x3 arr =
     widen [x0, x3] (widen (map (cubicAt x0 x1 x2 x3) (values_of (cubicExtrema x0 x1 x2 x3 arr))) None)"

definition box_of :: "(real \<times> real) option \<Rightarrow> (real \<times> real) option \<Rightarrow> box option" where
  "box_of r1 r2 = (case (r1, r2) of
     (Some (x0, x1), Some (y0, y1)) \<Rightarrow> Some ((x0, y0), (x1, y1)) | _ \<Rightarrow> None)"

definition fromCubic :: "vec \<Rightarrow> vec \<Rightarrow> vec \<Rightarrow> vec \<Rightarrow> real list \<Rightarrow> real list \<Rightarrow> box option" where
  "fromCubic p0 p1 p2 p3 xDim yDim =
     box_of (cubicRange (fst p0) (fst p1) (fst p2) (fst p3) xDim) (cubicRange (snd p0) (snd p1) (snd p2) (snd p3) yDim)"

definition quadraticRange :: "real \<Rightarrow> real \<Rightarrow> real \<Rightarrow> real \<times> real" where
  "quadraticRange x0 x1 x2 =
     (let tx = max (min (quadraticExtremum x0 x1 x2) 1) 0;
          x = quadraticAt x0 x1 x2 tx
      in (min (min x0 x2) x, max (max x0 x2) x))"

definition fromQuadratic :: "vec \<Rightarrow> vec \<Rightarrow> vec \<Rightarrow> box" where
  "fromQuadratic p0 p1 p2 =
     (let (x0, x1) = quadraticRange (fst p0) (fst p1) (fst p2);
          (y0, y1) = quadraticRange (snd p0) (snd p1) (snd p2)
      in ((x0, y0), (x1, y1)))"

text \<open>The remainder \<^verbatim>\<open>angle % PI2\<close> has the sign of the angle.\<close>

definition rem2pi :: "real \<Rightarrow> real" where
  "rem2pi angle =
     (if angle \<ge> 0 then angle - 2 * pi * of_int \<lfloor>angle / (2 * pi)\<rfloor>
      else - (- angle - 2 * pi * of_int \<lfloor>- angle / (2 * pi)\<rfloor>))"

definition positiveAngle :: "real \<Rightarrow> real" where
  "positiveAngle angle = (let a = rem2pi angle in if a < 0 then a + 2 * pi else a)"

definition arcPoint :: "vec \<Rightarrow> real \<Rightarrow> real \<Rightarrow> real \<Rightarrow> vec" where
  "arcPoint c r1 r2 angle = (cos angle * r1 + fst c, sin angle * r2 + snd c)"

text \<open>The two angles between which the loop of \<^verbatim>\<open>fromArc\<close> looks for extremities.\<close>

definition arcAngles :: "real \<Rightarrow> real \<Rightarrow> bool \<Rightarrow> real \<times> real" where
  "arcAngles startAngle endAngle anticlockwise =
     (let s = positiveAngle startAngle;
          e = positiveAngle endAngle;
          (s, e) = (if s > e \<and> \<not> anticlockwise then (s, e + 2 * pi)
                    else if s < e \<and> anticlockwise then (s + 2 * pi, e) else (s, e))
      in if anticlockwise then (e, s) else (s, e))"

function arcLoop :: "vec \<Rightarrow> real \<Rightarrow> real \<Rightarrow> real \<Rightarrow> real \<Rightarrow> real \<Rightarrow> box \<Rightarrow> box" where
  "arcLoop c r1 r2 s e angle (lo, hi) =
     (if angle < e
      then arcLoop c r1 r2 s e (angle + pi / 2)
             (if angle > s then let q = arcPoint c r1 r2 angle in (vec_min q lo, vec_max q hi) else (lo, hi))
      else (lo, hi))"
  by pat_completeness auto
termination
proof (relation "measure (\<lambda>(c, r1, r2, s, e, angle, box). nat \<lceil>(e - angle) / (pi / 2)\<rceil>)", goal_cases)
  case (2 c r1 r2 s e angle lo hi)
  have "(e - (angle + pi / 2)) / (pi / 2) = (e - angle) / (pi / 2) - 1" by (simp add: field_simps)
  moreover have "(e - angle) / (pi / 2) > 0" using 2 by simp
  ultimately show ?case by (simp add: nat_less_iff)
qed simp

declare arcLoop.simps [simp del]

definition fromArc :: "vec \<Rightarrow> real \<Rightarrow> real \<Rightarrow> real \<Rightarrow> real \<Rightarrow> bool \<Rightarrow> box" where
  "fromArc c r1 r2 startAngle endAngle anticlockwise =
     (let diff = \<bar>startAngle - endAngle\<bar>
      in if rem2pi diff < 1 / 10 ^ 4 \<and> diff > 1 / 10 ^ 4
         then ((fst c - r1, snd c - r2), (fst c + r1, snd c + r2))
         else let p = arcPoint c r1 r2 startAngle;
                  q = arcPoint c r1 r2 endAngle;
                  (s, e) = arcAngles startAngle endAngle anticlockwise
              in arcLoop c r1 r2 s e 0 (vec_min p q, vec_max p q))"

section \<open>Extreme values\<close>

definition in_box :: "vec \<Rightarrow> box \<Rightarrow> bool" where
  "in_box p b \<longleftrightarrow> fst (fst b) \<le> fst p \<and> fst p \<le> fst (snd b) \<and> snd (fst b) \<le> snd p \<and> snd p \<le> snd (snd b)"

text \<open>On an interval a differentiable function is largest at an end or where its derivative is zero.\<close>

lemma largest_at:
  fixes f f' :: "real \<Rightarrow> real"
  assumes "\<And>x. (f has_field_derivative f' x) (at x)" "l \<le> t" "t \<le> r"
  shows "\<exists>s. l \<le> s \<and> s \<le> r \<and> (s = l \<or> s = r \<or> f' s = 0) \<and> f t \<le> f s"
proof -
  have c: "\<forall>x. l \<le> x \<and> x \<le> r \<longrightarrow> isCont f x" using assms(1) DERIV_isCont by blast
  obtain M where M: "\<forall>x. l \<le> x \<and> x \<le> r \<longrightarrow> f x \<le> M" "\<exists>x. l \<le> x \<and> x \<le> r \<and> f x = M"
    using isCont_eq_Ub [OF _ c] assms(2,3) by auto
  then obtain s where s: "l \<le> s" "s \<le> r" "f s = M" by blast
  have "f' s = 0" if "l < s" "s < r"
  proof (rule DERIV_local_max [OF assms(1)])
    show "0 < min (s - l) (r - s)" using that by simp
    show "\<forall>y. \<bar>s - y\<bar> < min (s - l) (r - s) \<longrightarrow> f y \<le> f s" using M(1) s(3) by (auto simp: abs_if split: if_splits)
  qed
  then show ?thesis using s M(1) assms(2,3) by (intro exI [of _ s]) force
qed

lemma smallest_at:
  fixes f f' :: "real \<Rightarrow> real"
  assumes "\<And>x. (f has_field_derivative f' x) (at x)" "l \<le> t" "t \<le> r"
  shows "\<exists>s. l \<le> s \<and> s \<le> r \<and> (s = l \<or> s = r \<or> f' s = 0) \<and> f s \<le> f t"
  using largest_at [of "\<lambda>x. - f x" "\<lambda>x. - f' x" l t r] assms DERIV_minus by force

text \<open>If the derivative does not change its sign, the ends are enough.\<close>

lemma extreme_at_ends:
  fixes f f' :: "real \<Rightarrow> real"
  assumes "\<And>x. (f has_field_derivative f' x) (at x)" "l \<le> t" "t \<le> r" "(\<forall>x. 0 \<le> f' x) \<or> (\<forall>x. f' x \<le> 0)"
  shows "min (f l) (f r) \<le> f t \<and> f t \<le> max (f l) (f r)"
  using assms(4)
proof
  assume "\<forall>x. 0 \<le> f' x"
  then have "f x \<le> f y" if "x \<le> y" for x y
    using DERIV_nonneg_imp_nondecreasing [OF that] assms(1) by blast
  then show ?thesis using assms(2,3) by fastforce
next
  assume "\<forall>x. f' x \<le> 0"
  then have "f y \<le> f x" if "x \<le> y" for x y
    using DERIV_nonpos_imp_nonincreasing [OF that] assms(1) by blast
  then show ?thesis using assms(2,3) by fastforce
qed

lemma widen_Some: "widen xs (Some (lo, hi)) = Some (fold min xs lo, fold max xs hi)"
  by (induction xs arbitrary: lo hi) auto

lemma widen_None: "widen (xs @ [x]) None = Some (Min (set (xs @ [x])), Max (set (xs @ [x])))"
proof (cases xs)
  case (Cons y ys)
  then show ?thesis
    using Min.set_eq_fold [of y "ys @ [x]"] Max.set_eq_fold [of y "ys @ [x]"] by (simp add: widen_Some)
qed simp

lemma widen_append: "widen (xs @ ys) r = widen ys (widen xs r)"
  by (induction xs arbitrary: r) auto

section \<open>Curves\<close>

lemma cubicAt_deriv: "(cubicAt p0 p1 p2 p3 has_field_derivative cubicDerivativeAt p0 p1 p2 p3 t) (at t)"
proof -
  have "((\<lambda>t. cubicAt p0 p1 p2 p3 t) has_field_derivative cubicDerivativeAt p0 p1 p2 p3 t) (at t)"
    unfolding cubicAt_monomials
    by (rule derivative_eq_intros refl)+ (simp add: cubicDerivativeAt_def Let_def algebra_simps power2_eq_square)
  then show ?thesis .
qed

lemma quadraticAt_deriv: "(quadraticAt p0 p1 p2 has_field_derivative quadraticDerivativeAt p0 p1 p2 t) (at t)"
proof -
  have "((\<lambda>t. quadraticAt p0 p1 p2 t) has_field_derivative quadraticDerivativeAt p0 p1 p2 t) (at t)"
    unfolding quadraticAt_def Let_def
    by (rule derivative_eq_intros refl)+ (simp add: quadraticDerivativeAt_def algebra_simps)
  then show ?thesis .
qed

text \<open>The arguments for which \<^verbatim>\<open>cubicExtrema\<close> compares rightly.\<close>

definition clear_extrema :: "real \<Rightarrow> real \<Rightarrow> real \<Rightarrow> real \<Rightarrow> bool" where
  "clear_extrema p0 p1 p2 p3 \<longleftrightarrow>
     (let b = 6 * p2 - 12 * p1 + 6 * p0;
          a = 9 * p1 + 3 * p3 - 3 * p0 - 9 * p2;
          c = 3 * p1 - 3 * p0
      in clear a \<and> clear b \<and> clear (b * b - 4 * a * c))"

lemma cubicDerivative_poly:
  "cubicDerivativeAt p0 p1 p2 p3 t =
     (9 * p1 + 3 * p3 - 3 * p0 - 9 * p2) * t\<^sup>2 + (6 * p2 - 12 * p1 + 6 * p0) * t + (3 * p1 - 3 * p0)"
  unfolding cubicDerivativeAt_def Let_def by algebra

lemma cubicExtrema_found:
  assumes "clear_extrema p0 p1 p2 p3"
  shows "(\<forall>t. 0 \<le> t \<and> t \<le> 1 \<and> cubicDerivativeAt p0 p1 p2 p3 t = 0 \<longrightarrow> t \<in> set (values_of (cubicExtrema p0 p1 p2 p3 arr))) \<or>
    (\<forall>t. 0 \<le> cubicDerivativeAt p0 p1 p2 p3 t) \<or> (\<forall>t. cubicDerivativeAt p0 p1 p2 p3 t \<le> 0)" (is "?found \<or> ?sign")
proof -
  define a b c where abc: "a = 9 * p1 + 3 * p3 - 3 * p0 - 9 * p2" "b = 6 * p2 - 12 * p1 + 6 * p0" "c = 3 * p1 - 3 * p0"
  define disc where disc: "disc = b * b - 4 * a * c"
  have ok: "clear a" "clear b" "clear disc" using assms unfolding clear_extrema_def Let_def abc [symmetric] disc by auto
  note deriv = cubicDerivative_poly [of p0 p1 p2 p3, folded abc]
  note unfold = cubicExtrema_def Let_def abc [symmetric] disc [symmetric]
  consider "a = 0" "b = 0" | "a = 0" "b \<noteq> 0" | "a \<noteq> 0" "disc = 0" | "a \<noteq> 0" "disc > 0" | "a \<noteq> 0" "disc < 0" by linarith
  then show ?thesis
  proof cases
    case 1
    then show ?thesis unfolding deriv by auto
  next
    case 2
    then have "a * t\<^sup>2 + b * t + c = 0 \<longleftrightarrow> t = - c / b" for t by (auto simp: field_simps eq_neg_iff_add_eq_0)
    then have ?found unfolding deriv unfold using 2 ok by (simp add: clear_iff set_between01 quot_def)
    then show ?thesis ..
  next
    case 3
    then have "4 * a * (a * t\<^sup>2 + b * t + c) = (2 * a * t + b)\<^sup>2" for t unfolding disc by algebra
    then have "0 \<le> 4 * (a * (a * t\<^sup>2 + b * t + c))" for t by (metis mult.assoc zero_le_power2)
    then have ?sign unfolding deriv using 3(1) by (cases "a > 0") (auto simp: zero_le_mult_iff)
    then show ?thesis ..
  next
    case 4
    then have ?found unfolding deriv unfold
      using ok quadratic_zero_iff [OF 4(1), of _ b c, folded disc] by (auto simp: clear_iff set_between01)
    then show ?thesis ..
  next
    case 5
    then have ?found unfolding deriv unfold using quadratic_zero_iff [OF 5(1), of _ b c, folded disc] by auto
    then show ?thesis ..
  qed
qed

text \<open>The exact range of a function on an interval, and the smallest box around a curve.\<close>

definition exact_range :: "(real \<Rightarrow> real) \<Rightarrow> real \<Rightarrow> real \<Rightarrow> real \<Rightarrow> real \<Rightarrow> bool" where
  "exact_range f l r lo hi \<longleftrightarrow>
     (\<forall>t. l \<le> t \<and> t \<le> r \<longrightarrow> lo \<le> f t \<and> f t \<le> hi) \<and>
     (\<exists>t. l \<le> t \<and> t \<le> r \<and> f t = lo) \<and> (\<exists>t. l \<le> t \<and> t \<le> r \<and> f t = hi)"

definition smallest_box :: "(real \<Rightarrow> vec) \<Rightarrow> real \<Rightarrow> real \<Rightarrow> box \<Rightarrow> bool" where
  "smallest_box crv l r b \<longleftrightarrow>
     (\<forall>t. l \<le> t \<and> t \<le> r \<longrightarrow> in_box (crv t) b) \<and>
     (\<forall>b'. (\<forall>t. l \<le> t \<and> t \<le> r \<longrightarrow> in_box (crv t) b') \<longrightarrow> in_box (fst b) b' \<and> in_box (snd b) b')"

lemma smallest_box_ranges:
  assumes "exact_range (\<lambda>t. fst (crv t)) l r x0 x1" "exact_range (\<lambda>t. snd (crv t)) l r y0 y1"
  shows "smallest_box crv l r ((x0, y0), (x1, y1))"
  using assms by (auto simp: smallest_box_def exact_range_def in_box_def)

lemma cubicRange_exact:
  assumes "clear_extrema p0 p1 p2 p3"
  shows "\<exists>lo hi. cubicRange p0 p1 p2 p3 arr = Some (lo, hi) \<and> exact_range (cubicAt p0 p1 p2 p3) 0 1 lo hi"
proof -
  let ?f = "cubicAt p0 p1 p2 p3"
  let ?E = "values_of (cubicExtrema p0 p1 p2 p3 arr)"
  let ?S = "set (map ?f ?E @ [p0, p3])"
  have ends: "?f 0 = p0" "?f 1 = p3" by (simp_all add: cubicAt_def)
  have E: "set ?E \<subseteq> {0..1}"
    by (auto simp: cubicExtrema_def Let_def set_between01 split: if_splits)
  have "\<forall>x \<in> ?S. \<exists>t. 0 \<le> t \<and> t \<le> 1 \<and> ?f t = x"
  proof
    fix x assume "x \<in> ?S"
    then consider t where "t \<in> set ?E" "x = ?f t" | "x = ?f 0" | "x = ?f 1" using ends by auto
    then show "\<exists>t. 0 \<le> t \<and> t \<le> 1 \<and> ?f t = x"
    proof cases
      case (1 t)
      then show ?thesis using E by (intro exI [of _ t]) auto
    next
      case 2
      then show ?thesis by (intro exI [of _ 0]) simp
    next
      case 3
      then show ?thesis by (intro exI [of _ 1]) simp
    qed
  qed
  then have attained: "\<exists>t. 0 \<le> t \<and> t \<le> 1 \<and> ?f t = Min ?S" "\<exists>t. 0 \<le> t \<and> t \<le> 1 \<and> ?f t = Max ?S"
    by (metis List.finite_set Min_in Max_in append_is_Nil_conv list.distinct(1) set_empty)+
  have bounded: "Min ?S \<le> ?f t \<and> ?f t \<le> Max ?S" if t: "0 \<le> t" "t \<le> 1" for t
    using cubicExtrema_found [OF assms, of arr]
  proof
    assume found: "\<forall>t. 0 \<le> t \<and> t \<le> 1 \<and> cubicDerivativeAt p0 p1 p2 p3 t = 0 \<longrightarrow> t \<in> set ?E"
    have S: "?f s \<in> ?S" if "0 \<le> s" "s \<le> 1" "s = 0 \<or> s = 1 \<or> cubicDerivativeAt p0 p1 p2 p3 s = 0" for s
      using that found ends by auto
    obtain u v where "0 \<le> u" "u \<le> 1" "u = 0 \<or> u = 1 \<or> cubicDerivativeAt p0 p1 p2 p3 u = 0" "?f t \<le> ?f u"
      and "0 \<le> v" "v \<le> 1" "v = 0 \<or> v = 1 \<or> cubicDerivativeAt p0 p1 p2 p3 v = 0" "?f v \<le> ?f t"
      using largest_at [OF cubicAt_deriv t, of p0 p1 p2 p3] smallest_at [OF cubicAt_deriv t, of p0 p1 p2 p3] by blast
    moreover from this have "?f u \<le> Max ?S" "Min ?S \<le> ?f v" using S by (blast intro: Max_ge Min_le List.finite_set)+
    ultimately show ?thesis by linarith
  next
    assume "(\<forall>t. 0 \<le> cubicDerivativeAt p0 p1 p2 p3 t) \<or> (\<forall>t. cubicDerivativeAt p0 p1 p2 p3 t \<le> 0)"
    then have "min p0 p3 \<le> ?f t \<and> ?f t \<le> max p0 p3" using extreme_at_ends [OF cubicAt_deriv t, of p0 p1 p2 p3] ends by simp
    moreover have "p0 \<in> ?S" "p3 \<in> ?S" by simp_all
    then have "Min ?S \<le> p0" "Min ?S \<le> p3" "p0 \<le> Max ?S" "p3 \<le> Max ?S" by (blast intro: Min_le Max_ge List.finite_set)+
    ultimately show ?thesis by linarith
  qed
  have "cubicRange p0 p1 p2 p3 arr = widen ((map ?f ?E @ [p0]) @ [p3]) None"
    unfolding cubicRange_def by (simp add: widen_append)
  then have "cubicRange p0 p1 p2 p3 arr = Some (Min ?S, Max ?S)" unfolding widen_None by simp
  then show ?thesis using bounded attained by (auto simp: exact_range_def)
qed

text \<open>
  The bounding box of a cubic curve is the smallest box that contains the curve.
\<close>

theorem fromCubic_smallest:
  assumes "clear_extrema (fst p0) (fst p1) (fst p2) (fst p3)" "clear_extrema (snd p0) (snd p1) (snd p2) (snd p3)"
  shows "\<exists>b. fromCubic p0 p1 p2 p3 xDim yDim = Some b \<and> smallest_box (cubicPoint p0 p1 p2 p3) 0 1 b"
proof -
  obtain x0 x1 where x: "cubicRange (fst p0) (fst p1) (fst p2) (fst p3) xDim = Some (x0, x1)"
      "exact_range (cubicAt (fst p0) (fst p1) (fst p2) (fst p3)) 0 1 x0 x1"
    using cubicRange_exact [OF assms(1)] by blast
  obtain y0 y1 where y: "cubicRange (snd p0) (snd p1) (snd p2) (snd p3) yDim = Some (y0, y1)"
      "exact_range (cubicAt (snd p0) (snd p1) (snd p2) (snd p3)) 0 1 y0 y1"
    using cubicRange_exact [OF assms(2)] by blast
  have "smallest_box (cubicPoint p0 p1 p2 p3) 0 1 ((x0, y0), (x1, y1))"
    using x(2) y(2) by (intro smallest_box_ranges) (simp_all add: cubicPoint_def)
  then show ?thesis using x(1) y(1) by (simp add: fromCubic_def box_of_def)
qed

theorem fromCubic_smallest_witness:
  "\<exists>b. fromCubic (0, 0) (0, 1) (1, 1) (1, 0) [] [] = Some b \<and>
       smallest_box (cubicPoint (0, 0) (0, 1) (1, 1) (1, 0)) 0 1 b"
  by (rule fromCubic_smallest) (simp_all add: clear_extrema_def clear_def EPSILON_def)

lemma quadraticRange_exact:
  assumes "quadraticRange x0 x1 x2 = (lo, hi)"
  shows "exact_range (quadraticAt x0 x1 x2) 0 1 lo hi"
proof -
  let ?f = "quadraticAt x0 x1 x2" and ?m = "max (min (quadraticExtremum x0 x1 x2) 1) 0"
  have m: "0 \<le> ?m" "?m \<le> 1" by simp_all
  have ends: "?f 0 = x0" "?f 1 = x2" by (simp_all add: quadraticAt_def)
  have r: "lo = min (min x0 x2) (?f ?m)" "hi = max (max x0 x2) (?f ?m)"
    using assms by (simp_all add: quadraticRange_def Let_def)
  have attained: "\<exists>t. 0 \<le> t \<and> t \<le> 1 \<and> ?f t = lo" "\<exists>t. 0 \<le> t \<and> t \<le> 1 \<and> ?f t = hi"
    using m ends unfolding r min_def max_def by (metis order_refl zero_le_one)+
  have bounded: "lo \<le> ?f t \<and> ?f t \<le> hi" if t: "0 \<le> t" "t \<le> 1" for t
  proof (cases "x0 + x2 - 2 * x1 = 0")
    case True
    then have "quadraticDerivativeAt x0 x1 x2 s = 2 * (x1 - x0)" for s
      unfolding quadraticDerivativeAt_def by algebra
    then have "min x0 x2 \<le> ?f t \<and> ?f t \<le> max x0 x2"
      using extreme_at_ends [OF quadraticAt_deriv t, of x0 x1 x2] ends linorder_linear [of x0 x1] by simp
    then show ?thesis unfolding r by linarith
  next
    case False
    then have "quadraticDerivativeAt x0 x1 x2 s = 0 \<longleftrightarrow> s = quadraticExtremum x0 x1 x2" for s
      by (auto simp: quadraticDerivativeAt_def quadraticExtremum_def field_simps)
    then have "lo \<le> ?f s \<and> ?f s \<le> hi" if "0 \<le> s" "s \<le> 1" "s = 0 \<or> s = 1 \<or> quadraticDerivativeAt x0 x1 x2 s = 0" for s
      using that ends unfolding r by auto
    moreover obtain u v where "0 \<le> u" "u \<le> 1" "u = 0 \<or> u = 1 \<or> quadraticDerivativeAt x0 x1 x2 u = 0" "?f t \<le> ?f u"
      and "0 \<le> v" "v \<le> 1" "v = 0 \<or> v = 1 \<or> quadraticDerivativeAt x0 x1 x2 v = 0" "?f v \<le> ?f t"
      using largest_at [OF quadraticAt_deriv t, of x0 x1 x2] smallest_at [OF quadraticAt_deriv t, of x0 x1 x2] by blast
    ultimately show ?thesis by fastforce
  qed
  show ?thesis using bounded attained by (simp add: exact_range_def)
qed

theorem fromQuadratic_smallest: "smallest_box (quadraticPoint p0 p1 p2) 0 1 (fromQuadratic p0 p1 p2)"
proof -
  obtain x0 x1 y0 y1 where r: "quadraticRange (fst p0) (fst p1) (fst p2) = (x0, x1)" "quadraticRange (snd p0) (snd p1) (snd p2) = (y0, y1)"
    by fastforce
  then have "smallest_box (quadraticPoint p0 p1 p2) 0 1 ((x0, y0), (x1, y1))"
    using quadraticRange_exact by (intro smallest_box_ranges) (simp_all add: quadraticPoint_def)
  then show ?thesis using r by (simp add: fromQuadratic_def)
qed

section \<open>Arcs\<close>

lemma positiveAngle_spec: "0 \<le> positiveAngle x \<and> positiveAngle x < 2 * pi \<and> (\<exists>k :: int. positiveAngle x = x + 2 * pi * of_int k)"
proof -
  have r: "0 \<le> y - 2 * pi * of_int \<lfloor>y / (2 * pi)\<rfloor> \<and> y - 2 * pi * of_int \<lfloor>y / (2 * pi)\<rfloor> < 2 * pi" for y :: real
    using floor_divide_lower [of "2 * pi" y] floor_divide_upper [of "2 * pi" y] by (simp add: algebra_simps)
  show ?thesis
  proof (cases "x \<ge> 0")
    case True
    then have p: "positiveAngle x = x - 2 * pi * of_int \<lfloor>x / (2 * pi)\<rfloor>"
      using r [of x] by (simp add: positiveAngle_def rem2pi_def Let_def)
    show ?thesis unfolding p using r [of x] by (intro conjI exI [of _ "- \<lfloor>x / (2 * pi)\<rfloor>"]) simp_all
  next
    case False
    let ?k = "\<lfloor>- x / (2 * pi)\<rfloor>"
    have p: "positiveAngle x = x + 2 * pi * of_int (if x + 2 * pi * of_int ?k < 0 then ?k + 1 else ?k)"
      using False by (simp add: positiveAngle_def rem2pi_def Let_def algebra_simps)
    show ?thesis unfolding p using r [of "- x"] by (intro conjI exI) (auto simp: algebra_simps)
  qed
qed

lemma arcPoint_period: "arcPoint c r1 r2 (x + 2 * pi * of_int k) = arcPoint c r1 r2 x"
  by (simp add: arcPoint_def cos_add sin_add)

text \<open>The angles between which the loop runs are those of the arc, shifted by a multiple of \<open>2 \<pi>\<close>.\<close>

lemma arcAngles_spec:
  assumes "x \<le> y" "y < x + 2 * pi" "arcAngles x y False = (s, e)"
  shows "0 \<le> s \<and> (\<exists>k :: int. s = x + 2 * pi * of_int k \<and> e = y + 2 * pi * of_int k)"
proof -
  obtain k l :: int where k: "positiveAngle x = x + 2 * pi * of_int k" "positiveAngle y = y + 2 * pi * of_int l"
    using positiveAngle_spec by metis
  note range = positiveAngle_spec [of x] positiveAngle_spec [of y]
  have s: "s = positiveAngle x" "e = (if s > positiveAngle y then positiveAngle y + 2 * pi else positiveAngle y)"
    using assms(3) by (auto simp: arcAngles_def Let_def split: if_splits)
  then obtain m :: int where e: "e = y + 2 * pi * of_int m" using k(2) by (metis add.assoc distrib_left mult.right_neutral of_int_1 of_int_add)
  have "2 * pi * of_int m - 2 * pi * of_int k = (e - s) - (y - x)" using e s(1) k(1) by simp
  moreover have "0 \<le> e - s" "e - s < 2 * pi" using s range by auto
  ultimately have "\<bar>2 * pi * of_int (m - k)\<bar> < 2 * pi" using assms(1,2) by (simp add: algebra_simps abs_if)
  then have "m = k" by (simp add: abs_mult)
  then show ?thesis using range s(1) k(1) e by auto
qed

lemma in_box_grow: "in_box p (lo, hi) \<Longrightarrow> in_box p (vec_min q lo, vec_max q hi)" "in_box q (vec_min q lo, vec_max q hi)"
  by (auto simp: in_box_def vec_min_def vec_max_def)

lemma in_box_least:
  "in_box lo b \<Longrightarrow> in_box hi b \<Longrightarrow> in_box q b \<Longrightarrow> in_box (vec_min q lo) b \<and> in_box (vec_max q hi) b"
  by (auto simp: in_box_def vec_min_def vec_max_def min_def max_def)

lemma arcLoop_keeps: "in_box p b \<Longrightarrow> in_box p (arcLoop c r1 r2 s e angle b)"
proof (induction c r1 r2 s e angle b rule: arcLoop.induct)
  case (1 c r1 r2 s e angle lo hi)
  then show ?case by (subst arcLoop.simps) (simp add: Let_def in_box_grow)
qed

lemma arcLoop_meets:
  "angle = real m * (pi / 2) \<Longrightarrow> m \<le> j \<Longrightarrow> s < real j * (pi / 2) \<Longrightarrow> real j * (pi / 2) < e \<Longrightarrow>
   in_box (arcPoint c r1 r2 (real j * (pi / 2))) (arcLoop c r1 r2 s e angle b)"
proof (induction c r1 r2 s e angle b arbitrary: m rule: arcLoop.induct)
  case (1 c r1 r2 s e angle lo hi)
  have "real m * (pi / 2) \<le> real j * (pi / 2)" using "1.prems"(2) by simp
  then have lt: "angle < e" using "1.prems"(1,4) by linarith
  have next_m: "angle + pi / 2 = real (Suc m) * (pi / 2)" using "1.prems"(1) by (simp add: algebra_simps)
  show ?case
  proof (cases "j = m")
    case True
    then have "angle > s" "real j * (pi / 2) = angle" using "1.prems" by simp_all
    then show ?thesis using lt by (subst arcLoop.simps) (simp add: Let_def arcLoop_keeps in_box_grow(2))
  next
    case False
    then have "Suc m \<le> j" using "1.prems"(2) by simp
    note ih = "1.IH" [OF lt next_m this "1.prems"(3,4)]
    have "arcLoop c r1 r2 s e angle (lo, hi) = arcLoop c r1 r2 s e (angle + pi / 2)
        (if angle > s then let q = arcPoint c r1 r2 angle in (vec_min q lo, vec_max q hi) else (lo, hi))"
      using lt by (subst arcLoop.simps) simp
    then show ?thesis using ih by (simp only:)
  qed
qed

lemma arcLoop_least:
  assumes "\<And>x. s \<le> x \<Longrightarrow> x \<le> e \<Longrightarrow> in_box (arcPoint c r1 r2 x) b'"
  shows "in_box (fst b) b' \<Longrightarrow> in_box (snd b) b' \<Longrightarrow>
    in_box (fst (arcLoop c r1 r2 s e angle b)) b' \<and> in_box (snd (arcLoop c r1 r2 s e angle b)) b'"
  using assms
proof (induction c r1 r2 s e angle b rule: arcLoop.induct)
  case (1 c r1 r2 s e angle lo hi)
  show ?case
  proof (cases "angle < e")
    case True
    let ?b = "if angle > s then let q = arcPoint c r1 r2 angle in (vec_min q lo, vec_max q hi) else (lo, hi)"
    have "in_box (fst ?b) b' \<and> in_box (snd ?b) b'"
      using "1.prems" True in_box_least [of lo b' hi "arcPoint c r1 r2 angle"] by (simp add: Let_def)
    then show ?thesis using "1.IH" [OF True] "1.prems"(3) True by (subst (1 2) arcLoop.simps) simp
  next
    case False
    then show ?thesis using "1.prems" by (subst (1 2) arcLoop.simps) simp
  qed
qed

text \<open>A coordinate of an arc is extreme at an end or at a multiple of a right angle.\<close>

lemma arc_extremes:
  fixes r m :: real
  assumes "s \<le> x" "x \<le> e" "0 \<le> s" "f = (\<lambda>x. cos x * r + m) \<or> f = (\<lambda>x. sin x * r + m)"
    and P: "P (f s)" "P (f e)" "\<And>j. s < real j * (pi / 2) \<Longrightarrow> real j * (pi / 2) < e \<Longrightarrow> P (f (real j * (pi / 2)))"
  shows "(\<exists>v. P v \<and> v \<le> f x) \<and> (\<exists>v. P v \<and> f x \<le> v)"
proof (cases "r = 0")
  case True
  then have "f x = f s" using assms(4) by auto
  then show ?thesis using P(1) by auto
next
  case False
  define f' where "f' = (if f = (\<lambda>x. cos x * r + m) then (\<lambda>x. - sin x * r) else (\<lambda>x. cos x * r))"
  have deriv: "(f has_field_derivative f' x) (at x)" for x
    using assms(4) unfolding f'_def by (auto intro!: derivative_eq_intros)
  have "P (f t)" if "s \<le> t" "t \<le> e" "t = s \<or> t = e \<or> f' t = 0" for t
  proof (cases "t = s \<or> t = e")
    case True
    then show ?thesis using P by auto
  next
    case inner: False
    then have "sin t = 0 \<or> cos t = 0" using that(3) False by (auto simp: f'_def split: if_splits)
    then obtain i :: int where i: "t = of_int i * (pi / 2)" by (auto simp only: sin_zero_iff_int cos_zero_iff_int)
    then have "0 \<le> i" using that(1) assms(3) by (smt (verit, ccfv_threshold) mult_neg_pos of_int_less_0_iff pi_half_gt_zero)
    then have t: "t = real (nat i) * (pi / 2)" using i by simp
    show ?thesis using P(3) [of "nat i", folded t] that inner by (simp add: less_le)
  qed
  then show ?thesis using largest_at [of f f', OF deriv assms(1,2)] smallest_at [of f f', OF deriv assms(1,2)] by blast
qed

text \<open>
  The bounding box of a clockwise arc of less than a full circle is the smallest box that contains the
  arc.
\<close>

theorem fromArc_smallest:
  assumes "x \<le> y" "y < x + 2 * pi"
  shows "smallest_box (arcPoint c r1 r2) x y (fromArc c r1 r2 x y False)"
proof -
  obtain s e where se: "arcAngles x y False = (s, e)" by fastforce
  then obtain k :: int where k: "0 \<le> s" "s = x + 2 * pi * of_int k" "e = y + 2 * pi * of_int k"
    using arcAngles_spec [OF assms] by blast
  have se_ends: "arcPoint c r1 r2 s = arcPoint c r1 r2 x" "arcPoint c r1 r2 e = arcPoint c r1 r2 y"
    unfolding k by (rule arcPoint_period)+
  let ?p = "arcPoint c r1 r2 s" and ?q = "arcPoint c r1 r2 e"
  define b where "b = arcLoop c r1 r2 s e 0 (vec_min ?p ?q, vec_max ?p ?q)"
  have "\<not> (rem2pi \<bar>x - y\<bar> < 1 / 10 ^ 4 \<and> \<bar>x - y\<bar> > 1 / 10 ^ 4)"
  proof -
    have "0 \<le> (y - x) / (2 * pi)" "(y - x) / (2 * pi) < 1" using assms by simp_all
    then have "\<lfloor>(y - x) / (2 * pi)\<rfloor> = 0" by linarith
    then have "rem2pi \<bar>x - y\<bar> = y - x" using assms(1) by (simp add: rem2pi_def)
    then show ?thesis using assms(1) by auto
  qed
  then have box: "fromArc c r1 r2 x y False = b"
    by (auto simp: fromArc_def Let_def se b_def se_ends)
  have ends: "in_box ?p b" "in_box ?q b"
    unfolding b_def by (rule arcLoop_keeps, simp add: in_box_def vec_min_def vec_max_def)+
  have quarters: "in_box (arcPoint c r1 r2 (real j * (pi / 2))) b" if "s < real j * (pi / 2)" "real j * (pi / 2) < e" for j
    unfolding b_def by (rule arcLoop_meets [of _ 0]) (use that in simp_all)
  have inside: "in_box (arcPoint c r1 r2 t) b" if "s \<le> t" "t \<le> e" for t
  proof -
    have "(\<exists>v. (fst (fst b) \<le> v \<and> v \<le> fst (snd b)) \<and> v \<le> cos t * r1 + fst c) \<and>
        (\<exists>v. (fst (fst b) \<le> v \<and> v \<le> fst (snd b)) \<and> cos t * r1 + fst c \<le> v)"
      by (rule arc_extremes [OF that k(1) disjI1 [OF refl]]) (use ends quarters in \<open>auto simp: in_box_def arcPoint_def\<close>)
    moreover have "(\<exists>v. (snd (fst b) \<le> v \<and> v \<le> snd (snd b)) \<and> v \<le> sin t * r2 + snd c) \<and>
        (\<exists>v. (snd (fst b) \<le> v \<and> v \<le> snd (snd b)) \<and> sin t * r2 + snd c \<le> v)"
      by (rule arc_extremes [OF that k(1) disjI2 [OF refl]]) (use ends quarters in \<open>auto simp: in_box_def arcPoint_def\<close>)
    ultimately show ?thesis by (auto simp: in_box_def arcPoint_def)
  qed
  have shift: "(\<forall>t. s \<le> t \<and> t \<le> e \<longrightarrow> in_box (arcPoint c r1 r2 t) b') \<longleftrightarrow> (\<forall>t. x \<le> t \<and> t \<le> y \<longrightarrow> in_box (arcPoint c r1 r2 t) b')" for b'
  proof -
    have "arcPoint c r1 r2 t = arcPoint c r1 r2 (t - 2 * pi * of_int k)" for t
      using arcPoint_period [of c r1 r2 "t - 2 * pi * of_int k" k] by simp
    then show ?thesis unfolding k
      by (metis (no_types, opaque_lifting) add_le_cancel_right arcPoint_period diff_add_cancel)
  qed
  have least: "in_box (fst b) b' \<and> in_box (snd b) b'" if "\<forall>t. s \<le> t \<and> t \<le> e \<longrightarrow> in_box (arcPoint c r1 r2 t) b'" for b'
  proof -
    have "in_box ?p b'" "in_box ?q b'" using that assms(1) k by simp_all
    then have "in_box (vec_min ?p ?q) b' \<and> in_box (vec_max ?p ?q) b'"
      by (auto simp: in_box_def vec_min_def vec_max_def min_def max_def)
    then show ?thesis unfolding b_def using that by (intro arcLoop_least) auto
  qed
  show ?thesis unfolding smallest_box_def box using inside least shift by blast
qed

theorem fromArc_smallest_witness: "smallest_box (arcPoint (0, 0) 2 1) 1 3 (fromArc (0, 0) 2 1 1 3 False)"
  by (rule fromArc_smallest) (use pi_ge_two in simp_all)

end
