(* ===== verification/Path_Contain.thy ===== *)
theory Path_Contain
  imports Curve_Bounds
begin

text \<open>
  Hit tests on paths (\<^verbatim>\<open>src/html/js/echarts.js\<close>, lines 10693-11107): whether a point lies on the stroke of
  a path or inside it, by the winding number.  A path is the array of numbers that \<^verbatim>\<open>PathProxy\<close> records.
  Sums of windings are real numbers, or \<^term>\<open>None\<close> for \<^verbatim>\<open>Infinity\<close> once the point lies on an edge.  The
  arrays \<^verbatim>\<open>roots\<close> and \<^verbatim>\<open>extrema\<close> of the module live on between calls and are passed along.  There is no
  result (\<^term>\<open>None\<close>) for a path that ends in the middle of a command, whose coordinates are undefined, and
  for an arc with a horizontal radius of 0, by which the source divides.
\<close>

section \<open>Definitions\<close>

subsection \<open>Strokes\<close>

definition containStroke :: "real \<Rightarrow> real \<Rightarrow> real \<Rightarrow> real \<Rightarrow> real \<Rightarrow> real \<Rightarrow> real \<Rightarrow> bool" where
  "containStroke x0 y0 x1 y1 lineWidth x y =
     (if lineWidth = 0 then False
      else let l = lineWidth
           in if (y > y0 + l \<and> y > y1 + l) \<or> (y < y0 - l \<and> y < y1 - l) \<or>
                 (x > x0 + l \<and> x > x1 + l) \<or> (x < x0 - l \<and> x < x1 - l) then False
              else if x0 \<noteq> x1
              then let a = (y0 - y1) / (x0 - x1);
                       b = (x0 * y1 - x1 * y0) / (x0 - x1);
                       tmp = a * x - y + b;
                       s = tmp * tmp / (a * a + 1)
                   in s \<le> l / 2 * l / 2
              else \<bar>x - x0\<bar> \<le> l / 2)"

text \<open>The check of the control points that comes first for curves.\<close>

definition farOff :: "real \<Rightarrow> vec list \<Rightarrow> vec \<Rightarrow> bool" where
  "farOff l ps p \<longleftrightarrow>
     list_all (\<lambda>q. snd p > snd q + l) ps \<or> list_all (\<lambda>q. snd p < snd q - l) ps \<or>
     list_all (\<lambda>q. fst p > fst q + l) ps \<or> list_all (\<lambda>q. fst p < fst q - l) ps"

definition closeTo :: "real option \<Rightarrow> real \<Rightarrow> bool" where
  "closeTo d l = (case d of None \<Rightarrow> False | Some d \<Rightarrow> d \<le> l)"

definition containStroke_cubic :: "vec \<Rightarrow> vec \<Rightarrow> vec \<Rightarrow> vec \<Rightarrow> real \<Rightarrow> vec \<Rightarrow> bool" where
  "containStroke_cubic p0 p1 p2 p3 lineWidth p =
     (if lineWidth = 0 then False
      else if farOff lineWidth [p0, p1, p2, p3] p then False
      else closeTo (fst (cubicProjectPoint p0 p1 p2 p3 p)) (lineWidth / 2))"

definition containStroke_quadratic :: "vec \<Rightarrow> vec \<Rightarrow> vec \<Rightarrow> real \<Rightarrow> vec \<Rightarrow> bool" where
  "containStroke_quadratic p0 p1 p2 lineWidth p =
     (if lineWidth = 0 then False
      else if farOff lineWidth [p0, p1, p2] p then False
      else closeTo (fst (quadraticProjectPoint p0 p1 p2 p)) (lineWidth / 2))"

definition normalizeRadian :: "real \<Rightarrow> real" where
  "normalizeRadian angle = (let a = rem2pi angle in if a < 0 then a + 2 * pi else a)"

definition atan2 :: "real \<Rightarrow> real \<Rightarrow> real" where "atan2 y x = Arg (Complex x y)"

definition angleWithin :: "real \<Rightarrow> real \<Rightarrow> real \<Rightarrow> bool" where
  "angleWithin angle s e \<longleftrightarrow> (angle \<ge> s \<and> angle \<le> e) \<or> (angle + 2 * pi \<ge> s \<and> angle + 2 * pi \<le> e)"

definition containStroke_arc :: "vec \<Rightarrow> real \<Rightarrow> real \<Rightarrow> real \<Rightarrow> bool \<Rightarrow> real \<Rightarrow> vec \<Rightarrow> bool" where
  "containStroke_arc c r startAngle endAngle anticlockwise lineWidth p =
     (if lineWidth = 0 then False
      else let l = lineWidth;
               x = fst p - fst c;
               y = snd p - snd c;
               d = sqrt (x * x + y * y)
           in if d - l > r \<or> d + l < r then False
              else if rem2pi \<bar>startAngle - endAngle\<bar> < 1 / 10 ^ 4 then True
              else let (s, e) = (if anticlockwise then (normalizeRadian endAngle, normalizeRadian startAngle)
                                 else (normalizeRadian startAngle, normalizeRadian endAngle));
                       e = (if s > e then e + 2 * pi else e);
                       angle = atan2 y x;
                       angle = (if angle < 0 then angle + 2 * pi else angle)
                   in angleWithin angle s e)"

subsection \<open>Windings\<close>

type_synonym winding = "real option"

definition plus_w :: "winding \<Rightarrow> winding \<Rightarrow> winding" where
  "plus_w v w = (case (v, w) of (Some a, Some b) \<Rightarrow> Some (a + b) | _ \<Rightarrow> None)"

definition windingLine :: "real \<Rightarrow> real \<Rightarrow> real \<Rightarrow> real \<Rightarrow> real \<Rightarrow> real \<Rightarrow> winding" where
  "windingLine x0 y0 x1 y1 x y =
     (if (y > y0 \<and> y > y1) \<or> (y < y0 \<and> y < y1) then Some 0
      else if y1 = y0 then Some 0
      else let t = (y - y0) / (y1 - y0);
               dir = (if t = 1 \<or> t = 0 then (if y1 < y0 then 0.5 else -0.5) else (if y1 < y0 then 1 else -1));
               x' = t * (x1 - x0) + x0
           in if x' = x then None else if x' > x then Some dir else Some 0)"

record arrays =
  roots :: "real list"
  extrema :: "real list"

definition unit_at :: "real \<Rightarrow> real" where "unit_at t = (if t = 0 \<or> t = 1 then 0.5 else 1)"

text \<open>The extrema of the second coordinate, in ascending order; the values there are \<^verbatim>\<open>y0_\<close> and \<^verbatim>\<open>y1_\<close>.\<close>

definition sortedExtrema :: "real \<Rightarrow> real \<Rightarrow> real \<Rightarrow> real \<Rightarrow> real list \<Rightarrow> nat \<times> real list" where
  "sortedExtrema y0 y1 y2 y3 ext =
     (let (n, ext) = cubicExtrema y0 y1 y2 y3 ext
      in (n, if ext ! 1 < ext ! 0 \<and> n > 1 then ext[0 := ext ! 1, 1 := ext ! 0] else ext))"

definition cubicDir :: "real \<Rightarrow> real \<Rightarrow> real \<Rightarrow> real \<Rightarrow> nat \<Rightarrow> real list \<Rightarrow> real \<Rightarrow> real" where
  "cubicDir y0 y1 y2 y3 n ext t =
     (let u = unit_at t;
          y0' = cubicAt y0 y1 y2 y3 (ext ! 0);
          y1' = cubicAt y0 y1 y2 y3 (ext ! 1)
      in if n = 2
         then if t < ext ! 0 then (if y0' < y0 then u else - u)
              else if t < ext ! 1 then (if y1' < y0' then u else - u)
              else (if y3 < y1' then u else - u)
         else if t < ext ! 0 then (if y0' < y0 then u else - u)
              else (if y3 < y0' then u else - u))"

text \<open>The loop over the roots; \<^verbatim>\<open>nExt\<close> is \<^term>\<open>None\<close> until the extrema have been computed.\<close>

fun windingCubicLoop :: "vec \<Rightarrow> vec \<Rightarrow> vec \<Rightarrow> vec \<Rightarrow> real \<Rightarrow> real list \<Rightarrow> real \<Rightarrow> nat option \<Rightarrow> real list \<Rightarrow> real \<times> real list" where
  "windingCubicLoop p0 p1 p2 p3 x [] w nExt ext = (w, ext)"
| "windingCubicLoop p0 p1 p2 p3 x (t # ts) w nExt ext =
     (if cubicAt (fst p0) (fst p1) (fst p2) (fst p3) t < x then windingCubicLoop p0 p1 p2 p3 x ts w nExt ext
      else let (n, ext) = (case nExt of
                 None \<Rightarrow> sortedExtrema (snd p0) (snd p1) (snd p2) (snd p3) ext | Some n \<Rightarrow> (n, ext))
           in windingCubicLoop p0 p1 p2 p3 x ts (w + cubicDir (snd p0) (snd p1) (snd p2) (snd p3) n ext t) (Some n) ext)"

definition windingCubic :: "vec \<Rightarrow> vec \<Rightarrow> vec \<Rightarrow> vec \<Rightarrow> real \<Rightarrow> real \<Rightarrow> arrays \<Rightarrow> real \<times> arrays" where
  "windingCubic p0 p1 p2 p3 x y st =
     (if list_all (\<lambda>q. y > snd q) [p0, p1, p2, p3] \<or> list_all (\<lambda>q. y < snd q) [p0, p1, p2, p3] then (0, st)
      else let (nRoots, rs) = cubicRootAt (snd p0) (snd p1) (snd p2) (snd p3) y (roots st);
               (w, ext) = windingCubicLoop p0 p1 p2 p3 x (take nRoots rs) 0 None (extrema st)
           in (w, \<lparr>roots = rs, extrema = ext\<rparr>))"

fun windingQuadraticLoop :: "vec \<Rightarrow> vec \<Rightarrow> vec \<Rightarrow> real \<Rightarrow> real \<Rightarrow> real list \<Rightarrow> real \<Rightarrow> real" where
  "windingQuadraticLoop p0 p1 p2 x t [] w = w"
| "windingQuadraticLoop p0 p1 p2 x t (s # ss) w =
     (let u = unit_at s;
          y' = quadraticAt (snd p0) (snd p1) (snd p2) t
      in if quadraticAt (fst p0) (fst p1) (fst p2) s < x then windingQuadraticLoop p0 p1 p2 x t ss w
         else windingQuadraticLoop p0 p1 p2 x t ss
                (w + (if s < t then (if y' < snd p0 then u else - u) else (if snd p2 < y' then u else - u))))"

definition windingQuadratic :: "vec \<Rightarrow> vec \<Rightarrow> vec \<Rightarrow> real \<Rightarrow> real \<Rightarrow> arrays \<Rightarrow> real \<times> arrays" where
  "windingQuadratic p0 p1 p2 x y st =
     (if list_all (\<lambda>q. y > snd q) [p0, p1, p2] \<or> list_all (\<lambda>q. y < snd q) [p0, p1, p2] then (0, st)
      else let (nRoots, rs) = quadraticRootAt (snd p0) (snd p1) (snd p2) y (roots st);
               st = st\<lparr>roots := rs\<rparr>
           in if nRoots = 0 then (0, st)
              else let t = quadraticExtremum (snd p0) (snd p1) (snd p2)
                   in if t \<ge> 0 \<and> t \<le> 1 then (windingQuadraticLoop p0 p1 p2 x t (take nRoots rs) 0, st)
                      else let u = unit_at (rs ! 0)
                           in (if quadraticAt (fst p0) (fst p1) (fst p2) (rs ! 0) < x then 0
                               else if snd p2 < snd p0 then u else - u, st))"

definition arcCrossing :: "real \<Rightarrow> real \<Rightarrow> bool \<Rightarrow> real \<Rightarrow> real \<Rightarrow> real \<Rightarrow> real \<Rightarrow> real" where
  "arcCrossing s e anticlockwise cx x y x' =
     (if x' + cx > x
      then let angle = atan2 y x';
               dir = (if anticlockwise then 1 else -1);
               angle = (if angle < 0 then 2 * pi + angle else angle)
           in if angleWithin angle s e
              then if angle > pi / 2 \<and> angle < pi * 1.5 then - dir else dir
              else 0
      else 0)"

definition windingArc :: "vec \<Rightarrow> real \<Rightarrow> real \<Rightarrow> real \<Rightarrow> bool \<Rightarrow> real \<Rightarrow> real \<Rightarrow> arrays \<Rightarrow> real \<times> arrays" where
  "windingArc c r startAngle endAngle anticlockwise x y0 st =
     (let y = y0 - snd c
      in if y > r \<or> y < - r then (0, st)
         else let tmp = sqrt (r * r - y * y);
                  st = st\<lparr>roots := store [- tmp, tmp] (roots st)\<rparr>;
                  dTheta = \<bar>startAngle - endAngle\<bar>
              in if dTheta < 1 / 10 ^ 4 then (0, st)
                 else if dTheta \<ge> 2 * pi - 1 / 10 ^ 4
                 then (if x \<ge> - tmp + fst c \<and> x \<le> tmp + fst c then (if anticlockwise then 1 else -1) else 0, st)
                 else let (s, e) = (if startAngle > endAngle then (endAngle, startAngle) else (startAngle, endAngle));
                          (s, e) = (if s < 0 then (s + 2 * pi, e + 2 * pi) else (s, e))
                      in (arcCrossing s e anticlockwise (fst c) x y (- tmp) + arcCrossing s e anticlockwise (fst c) x y tmp, st))"

subsection \<open>Paths\<close>

definition isAroundEqual :: "real \<Rightarrow> real \<Rightarrow> bool" where "isAroundEqual a b \<longleftrightarrow> \<bar>a - b\<bar> < 1 / 10 ^ 4"

definition line_w :: "vec \<Rightarrow> vec \<Rightarrow> vec \<Rightarrow> winding" where
  "line_w p q v = windingLine (fst p) (snd p) (fst q) (snd q) (fst v) (snd v)"

definition stroke :: "vec \<Rightarrow> vec \<Rightarrow> real \<Rightarrow> vec \<Rightarrow> bool" where
  "stroke p q lineWidth v = containStroke (fst p) (snd p) (fst q) (snd q) lineWidth (fst v) (snd v)"

text \<open>What a command adds: the stroke is hit, or the new sum of windings.\<close>

type_synonym hit = "(winding \<times> arrays) option"

definition lineTo :: "bool \<Rightarrow> real \<Rightarrow> vec \<Rightarrow> vec \<Rightarrow> vec \<Rightarrow> winding \<Rightarrow> arrays \<Rightarrow> hit" where
  "lineTo isStroke lineWidth v cur q w st =
     (if isStroke then if stroke cur q lineWidth v then None else Some (w, st)
      else Some (plus_w w (line_w cur q v), st))"

definition cubicTo :: "bool \<Rightarrow> real \<Rightarrow> vec \<Rightarrow> vec \<Rightarrow> vec \<Rightarrow> vec \<Rightarrow> vec \<Rightarrow> winding \<Rightarrow> arrays \<Rightarrow> hit" where
  "cubicTo isStroke lineWidth v cur p1 p2 p3 w st =
     (if isStroke then if containStroke_cubic cur p1 p2 p3 lineWidth v then None else Some (w, st)
      else let (k, st) = windingCubic cur p1 p2 p3 (fst v) (snd v) st in Some (plus_w w (Some k), st))"

definition quadraticTo :: "bool \<Rightarrow> real \<Rightarrow> vec \<Rightarrow> vec \<Rightarrow> vec \<Rightarrow> vec \<Rightarrow> winding \<Rightarrow> arrays \<Rightarrow> hit" where
  "quadraticTo isStroke lineWidth v cur p1 p2 w st =
     (if isStroke then if containStroke_quadratic cur p1 p2 lineWidth v then None else Some (w, st)
      else let (k, st) = windingQuadratic cur p1 p2 (fst v) (snd v) st in Some (plus_w w (Some k), st))"

text \<open>An arc; the line that leads to its start counts for the winding also when the stroke is tested.\<close>

definition arcTo ::
  "bool \<Rightarrow> real \<Rightarrow> vec \<Rightarrow> bool \<Rightarrow> vec \<Rightarrow> vec \<Rightarrow> real \<Rightarrow> real \<Rightarrow> real \<Rightarrow> real \<Rightarrow> bool \<Rightarrow> winding \<Rightarrow> arrays \<Rightarrow> hit" where
  "arcTo isStroke lineWidth v isFirst cur c r1 r2 theta dTheta anticlockwise w st =
     (let w = (if isFirst then w else plus_w w (line_w cur (arcPoint c r1 r2 theta) v));
          x = (fst v - fst c) * r2 / r1 + fst c
      in if isStroke
         then if containStroke_arc c r2 theta (theta + dTheta) anticlockwise lineWidth (x, snd v) then None else Some (w, st)
         else let (k, st) = windingArc c r2 theta (theta + dTheta) anticlockwise x (snd v) st
              in Some (plus_w w (Some k), st))"

definition rectAt :: "bool \<Rightarrow> real \<Rightarrow> vec \<Rightarrow> vec \<Rightarrow> real \<Rightarrow> real \<Rightarrow> winding \<Rightarrow> arrays \<Rightarrow> hit" where
  "rectAt isStroke lineWidth v p width height w st =
     (let x0 = fst p; y0 = snd p; x1 = x0 + width; y1 = y0 + height
      in if isStroke
         then if stroke (x0, y0) (x1, y0) lineWidth v \<or> stroke (x1, y0) (x1, y1) lineWidth v \<or>
                 stroke (x1, y1) (x0, y1) lineWidth v \<or> stroke (x0, y1) (x0, y0) lineWidth v
              then None else Some (w, st)
         else Some (plus_w (plus_w w (line_w (x1, y0) (x1, y1) v)) (line_w (x0, y1) (x0, y0) v), st))"

text \<open>The first command sets the current point and the start to its first two numbers.\<close>

definition positions :: "bool \<Rightarrow> real list \<Rightarrow> vec \<Rightarrow> vec \<Rightarrow> (vec \<times> vec) option" where
  "positions isFirst rest cur start =
     (if isFirst then case rest of a # b # _ \<Rightarrow> Some ((a, b), (a, b)) | _ \<Rightarrow> None else Some (cur, start))"

text \<open>
  The loop over the commands (1 \<^verbatim>\<open>M\<close>, 2 \<^verbatim>\<open>L\<close>, 3 \<^verbatim>\<open>C\<close>, 4 \<^verbatim>\<open>Q\<close>, 5 \<^verbatim>\<open>A\<close>, 6 \<^verbatim>\<open>Z\<close>, 7 \<^verbatim>\<open>R\<close>).
\<close>

function containLoop ::
  "bool \<Rightarrow> real \<Rightarrow> vec \<Rightarrow> bool \<Rightarrow> real list \<Rightarrow> winding \<Rightarrow> vec \<Rightarrow> vec \<Rightarrow> arrays \<Rightarrow> (bool \<times> arrays) option" where
  "containLoop isStroke lw v isFirst [] w cur start st =
     Some ((if \<not> isStroke \<and> \<not> isAroundEqual (snd cur) (snd start) then plus_w w (line_w cur start v) else w) \<noteq> Some 0, st)"
| "containLoop isStroke lw v isFirst (cmd # rest) w cur0 start0 st =
     (let w = (if cmd = 1 \<and> \<not> isFirst \<and> \<not> isStroke then plus_w w (line_w cur0 start0 v) else w)
      in case positions isFirst rest cur0 start0 of
           None \<Rightarrow> None
         | Some (cur, start) \<Rightarrow>
             if cmd = 1 then
               (case rest of
                  a # b # r \<Rightarrow> containLoop isStroke lw v False r w (a, b) (a, b) st
                | _ \<Rightarrow> None)
             else if cmd = 2 then
               (case rest of
                  a # b # r \<Rightarrow>
                    (case lineTo isStroke lw v cur (a, b) w st of
                       None \<Rightarrow> Some (True, st)
                     | Some (w, st) \<Rightarrow> containLoop isStroke lw v False r w (a, b) start st)
                | _ \<Rightarrow> None)
             else if cmd = 3 then
               (case rest of
                  a1 # b1 # a2 # b2 # a # b # r \<Rightarrow>
                    (case cubicTo isStroke lw v cur (a1, b1) (a2, b2) (a, b) w st of
                       None \<Rightarrow> Some (True, st)
                     | Some (w, st) \<Rightarrow> containLoop isStroke lw v False r w (a, b) start st)
                | _ \<Rightarrow> None)
             else if cmd = 4 then
               (case rest of
                  a1 # b1 # a # b # r \<Rightarrow>
                    (case quadraticTo isStroke lw v cur (a1, b1) (a, b) w st of
                       None \<Rightarrow> Some (True, st)
                     | Some (w, st) \<Rightarrow> containLoop isStroke lw v False r w (a, b) start st)
                | _ \<Rightarrow> None)
             else if cmd = 5 then
               (case rest of
                  cx # cy # r1 # r2 # theta # dTheta # _ # clock # r \<Rightarrow>
                    (if r1 = 0 then None
                     else case arcTo isStroke lw v isFirst cur (cx, cy) r1 r2 theta dTheta (1 - clock \<noteq> 0) w st of
                       None \<Rightarrow> Some (True, st)
                     | Some (w, st) \<Rightarrow>
                         containLoop isStroke lw v False r w (arcPoint (cx, cy) r1 r2 (theta + dTheta))
                           (if isFirst then arcPoint (cx, cy) r1 r2 theta else start) st)
                | _ \<Rightarrow> None)
             else if cmd = 7 then
               (case rest of
                  a # b # width # height # r \<Rightarrow>
                    (case rectAt isStroke lw v (a, b) width height w st of
                       None \<Rightarrow> Some (True, st)
                     | Some (w, st) \<Rightarrow> containLoop isStroke lw v False r w (a, b) (a, b) st)
                | _ \<Rightarrow> None)
             else if cmd = 6 then
               (case lineTo isStroke lw v cur start w st of
                  None \<Rightarrow> Some (True, st)
                | Some (w, st) \<Rightarrow> containLoop isStroke lw v False rest w start start st)
             else containLoop isStroke lw v False rest w cur start st)"
  by pat_completeness auto
termination
  by (relation "measure (\<lambda>(isStroke, lw, v, isFirst, data, w, cur, start, st). length data)") auto

definition containPath :: "real list \<Rightarrow> real \<Rightarrow> bool \<Rightarrow> vec \<Rightarrow> arrays \<Rightarrow> (bool \<times> arrays) option" where
  "containPath data lineWidth isStroke v st = containLoop isStroke lineWidth v True data (Some 0) (0, 0) (0, 0) st"

definition contain :: "real list \<Rightarrow> vec \<Rightarrow> arrays \<Rightarrow> (bool \<times> arrays) option" where
  "contain path v st = containPath path 0 False v st"

definition containStroke_path :: "real list \<Rightarrow> real \<Rightarrow> vec \<Rightarrow> arrays \<Rightarrow> (bool \<times> arrays) option" where
  "containStroke_path path lineWidth v st = containPath path lineWidth True v st"

section \<open>Polygons\<close>

text \<open>On which side of a horizontal line a point lies.\<close>

definition side :: "real \<Rightarrow> real \<Rightarrow> real" where
  "side b y = (if b > y then 1 / 2 else if b < y then - 1 / 2 else 0)"

lemma convex_le:
  fixes t m x0 x1 :: real
  assumes "0 \<le> t" "t \<le> 1" "m \<le> x0" "m \<le> x1"
  shows "m \<le> t * (x1 - x0) + x0"
proof -
  have "(1 - t) * m + t * m \<le> (1 - t) * x0 + t * x1" using assms by (intro add_mono mult_left_mono) auto
  then show ?thesis by (simp add: algebra_simps)
qed

lemma convex_ge:
  fixes t m x0 x1 :: real
  assumes "0 \<le> t" "t \<le> 1" "x0 \<le> m" "x1 \<le> m"
  shows "t * (x1 - x0) + x0 \<le> m"
  using convex_le [of t "- m" "- x0" "- x1"] assms by (simp add: algebra_simps)

text \<open>The parameter at which an edge meets the horizontal line through the point.\<close>

lemma crossing_param:
  fixes y y0 y1 :: real
  assumes "\<not> ((y > y0 \<and> y > y1) \<or> (y < y0 \<and> y < y1))" "y1 \<noteq> y0"
  shows "0 \<le> (y - y0) / (y1 - y0)" "(y - y0) / (y1 - y0) \<le> 1" "(y - y0) / (y1 - y0) = 0 \<longleftrightarrow> y = y0"
    "(y - y0) / (y1 - y0) = 1 \<longleftrightarrow> y = y1"
  using assms by (auto simp: divide_le_eq zero_le_divide_iff divide_eq_1_iff)

lemma windingLine_left:
  assumes "x < x0" "x < x1"
  shows "windingLine x0 y0 x1 y1 x y = Some (side y0 y - side y1 y)"
proof (cases "(y > y0 \<and> y > y1) \<or> (y < y0 \<and> y < y1) \<or> y1 = y0")
  case True
  then show ?thesis by (auto simp: windingLine_def side_def)
next
  case False
  define t where "t = (y - y0) / (y1 - y0)"
  have nb: "\<not> ((y > y0 \<and> y > y1) \<or> (y < y0 \<and> y < y1))" "y1 \<noteq> y0" using False by auto
  note t = crossing_param [OF nb, folded t_def]
  have "min x0 x1 \<le> t * (x1 - x0) + x0" using t by (intro convex_le) auto
  then have "x < t * (x1 - x0) + x0" using assms by linarith
  then show ?thesis using False t(3,4) unfolding windingLine_def t_def [symmetric] Let_def by (auto simp: side_def)
qed

lemma windingLine_outside:
  assumes "(x > x0 \<and> x > x1) \<or> (y > y0 \<and> y > y1) \<or> (y < y0 \<and> y < y1)"
  shows "windingLine x0 y0 x1 y1 x y = Some 0"
proof (cases "(y > y0 \<and> y > y1) \<or> (y < y0 \<and> y < y1) \<or> y1 = y0")
  case True
  then show ?thesis by (auto simp: windingLine_def)
next
  case False
  define t where "t = (y - y0) / (y1 - y0)"
  have nb: "\<not> ((y > y0 \<and> y > y1) \<or> (y < y0 \<and> y < y1))" "y1 \<noteq> y0" using False by auto
  have "t * (x1 - x0) + x0 \<le> max x0 x1" using crossing_param [OF nb, folded t_def] by (intro convex_ge) auto
  then have "t * (x1 - x0) + x0 < x" using assms False by linarith
  then show ?thesis using False unfolding windingLine_def t_def [symmetric] Let_def by auto
qed

text \<open>The edges of a closed polygon, and its commands.\<close>

fun edges_w :: "vec \<Rightarrow> vec list \<Rightarrow> winding" where
  "edges_w v (p # q # ps) = plus_w (line_w p q v) (edges_w v (q # ps))"
| "edges_w v _ = Some 0"

fun polygon :: "vec list \<Rightarrow> real list" where
  "polygon [] = []"
| "polygon (p # qs) = [1, fst p, snd p] @ concat (map (\<lambda>q. [2, fst q, snd q]) qs) @ [6]"

lemma plus_w_assoc: "plus_w (plus_w a b) c = plus_w a (plus_w b c)"
  by (simp add: plus_w_def split: option.splits)

lemma plus_w_0 [simp]: "plus_w (Some 0) w = w" "plus_w w (Some 0) = w"
  by (simp_all add: plus_w_def split: option.splits)

lemma containLoop_edges:
  "containLoop False lw v False (concat (map (\<lambda>q. [2, fst q, snd q]) qs) @ [6]) w cur start st =
     Some (plus_w w (edges_w v (cur # qs @ [start])) \<noteq> Some 0, st)"
proof (induction qs arbitrary: w cur)
  case Nil
  then show ?case by (simp add: positions_def lineTo_def isAroundEqual_def)
next
  case (Cons q qs)
  then show ?case by (simp add: positions_def lineTo_def plus_w_assoc)
qed

lemma contain_polygon: "contain (polygon (p # qs)) v st = Some (edges_w v (p # qs @ [p]) \<noteq> Some 0, st)"
  by (simp add: contain_def containPath_def positions_def containLoop_edges)

lemma edges_left:
  assumes "\<And>q. q \<in> set (p # ps) \<Longrightarrow> fst v < fst q"
  shows "edges_w v (p # ps) = Some (side (snd p) (snd v) - side (snd (last (p # ps))) (snd v))"
  using assms
proof (induction ps arbitrary: p)
  case (Cons q ps)
  then have "line_w p q v = Some (side (snd p) (snd v) - side (snd q) (snd v))"
    unfolding line_w_def by (intro windingLine_left) auto
  then show ?case using Cons by (simp add: plus_w_def)
qed simp

lemma edges_outside:
  assumes "(\<forall>q \<in> set ps. fst v > fst q) \<or> (\<forall>q \<in> set ps. snd v > snd q) \<or> (\<forall>q \<in> set ps. snd v < snd q)"
  shows "edges_w v ps = Some 0"
  using assms
proof (induction v ps rule: edges_w.induct)
  case (1 v p q ps)
  then have "line_w p q v = Some 0" unfolding line_w_def by (intro windingLine_outside) auto
  moreover have "edges_w v (q # ps) = Some 0" using 1 by auto
  ultimately show ?case by simp
qed simp_all

lemma fromPoints_grow:
  "in_box q (lo, hi) \<Longrightarrow> in_box q (vec_min lo p, vec_max hi p)" "in_box p (vec_min lo p, vec_max hi p)"
  by (auto simp: in_box_def vec_min_def vec_max_def)

lemma fromPoints_keeps: "in_box q c \<Longrightarrow> in_box q (fold (\<lambda>q (lo, hi). (vec_min lo q, vec_max hi q)) qs c)"
proof (induction qs arbitrary: c)
  case (Cons p qs)
  obtain lo hi where c: "c = (lo, hi)" by (rule prod.exhaust)
  show ?case using Cons.IH [OF fromPoints_grow(1) [OF Cons.prems [unfolded c]], of p] by (simp add: c)
qed simp

lemma fromPoints_meets: "q \<in> set qs \<Longrightarrow> in_box q (fold (\<lambda>q (lo, hi). (vec_min lo q, vec_max hi q)) qs c)"
proof (induction qs arbitrary: c)
  case (Cons p qs)
  obtain lo hi where c: "c = (lo, hi)" by (rule prod.exhaust)
  show ?case
  proof (cases "q = p")
    case True
    then show ?thesis using fromPoints_keeps [OF fromPoints_grow(2) [of p lo hi], of qs] by (simp add: c)
  qed (use Cons in simp)
qed simp

lemma fromPoints_encloses: "fromPoints ps = Some b \<Longrightarrow> q \<in> set ps \<Longrightarrow> in_box q b"
  using fromPoints_keeps [of "hd ps" "(hd ps, hd ps)" "tl ps"] fromPoints_meets [of q "tl ps" "(hd ps, hd ps)"]
  by (cases ps) (auto simp: in_box_def)

text \<open>
  C33: A point outside the bounding box of a polygon, on any side of it, is not contained in the polygon: to
  the left of it the windings of all edges that the line through the point meets cancel, also where the
  line runs through corners.
\<close>

theorem contain_outside_box:
  assumes "fromPoints ps = Some b" "\<not> in_box v b"
  shows "contain (polygon ps) v st = Some (False, st)"
proof -
  obtain p qs where ps: "ps = p # qs" using assms(1) by (cases ps) auto
  have box: "in_box q b" if "q \<in> set (p # qs @ [p])" for q using fromPoints_encloses [OF assms(1)] that ps by auto
  have "edges_w v (p # qs @ [p]) = Some 0"
  proof (cases "fst v < fst (fst b)")
    case True
    then have "edges_w v (p # qs @ [p]) = Some (side (snd p) (snd v) - side (snd (last (p # qs @ [p]))) (snd v))"
      using box by (intro edges_left) (fastforce simp only: in_box_def intro: less_le_trans)
    then show ?thesis by simp
  next
    case False
    then have "fst v > fst (snd b) \<or> snd v > snd (snd b) \<or> snd v < snd (fst b)" using assms(2) by (auto simp: in_box_def)
    then show ?thesis using box by (intro edges_outside) (fastforce simp: in_box_def)
  qed
  then show ?thesis unfolding ps contain_polygon by simp
qed

theorem contain_outside_box_witness:
  "contain (polygon [(0, 0), (4, 0), (2, 3)]) (-1, 0) \<lparr>roots = [], extrema = []\<rparr> = Some (False, \<lparr>roots = [], extrema = []\<rparr>)"
  by (rule contain_outside_box [of _ "((0, 0), (4, 3))"]) (simp_all add: in_box_def vec_min_def vec_max_def)

text \<open>
  A rectangle contains exactly the points between its sides, the sides included.\<close>

theorem contain_rect:
  assumes "0 < w" "0 < h"
  shows "contain [7, x, y, w, h] v st = Some (x \<le> fst v \<and> fst v \<le> x + w \<and> y \<le> snd v \<and> snd v \<le> y + h, st)"
proof -
  have e: "windingLine (x + w) y (x + w) (y + h) (fst v) (snd v) =
      (if y \<le> snd v \<and> snd v \<le> y + h
       then if fst v = x + w then None else if fst v < x + w then Some (if snd v = y \<or> snd v = y + h then - 0.5 else - 1) else Some 0
       else Some 0)"
    "windingLine x (y + h) x y (fst v) (snd v) =
      (if y \<le> snd v \<and> snd v \<le> y + h
       then if fst v = x then None else if fst v < x then Some (if snd v = y \<or> snd v = y + h then 0.5 else 1) else Some 0
       else Some 0)"
    using assms by (auto simp: windingLine_def Let_def divide_eq_1_iff divide_eq_minus_1_iff)
  show ?thesis using assms
    by (auto simp: contain_def containPath_def positions_def rectAt_def line_w_def e isAroundEqual_def plus_w_def Let_def)
qed

theorem contain_rect_witness:
  "contain [7, 0, 0, 2, 1] (1, 1) \<lparr>roots = [], extrema = []\<rparr> = Some (True, \<lparr>roots = [], extrema = []\<rparr>) \<and>
   contain [7, 0, 0, 2, 1] (3, 1) \<lparr>roots = [], extrema = []\<rparr> = Some (False, \<lparr>roots = [], extrema = []\<rparr>)"
  using contain_rect [of 2 1 0 0 "(1, 1)"] contain_rect [of 2 1 0 0 "(3, 1)"] by simp

section \<open>Strokes\<close>

text \<open>
  A point that is reported to lie on the stroke of a cubic curve is at most half the line width away
  from a point of the curve.
\<close>

theorem containStroke_cubic_near:
  assumes "containStroke_cubic p0 p1 p2 p3 lineWidth p"
  shows "\<exists>t. 0 \<le> t \<and> t \<le> 1 \<and> vec_distance (cubicPoint p0 p1 p2 p3 t) p \<le> lineWidth / 2"
proof -
  obtain t where "0 \<le> t" "t \<le> 1"
    "cubicProjectPoint p0 p1 p2 p3 p = (Some (vec_distance (cubicPoint p0 p1 p2 p3 t) p), cubicPoint p0 p1 p2 p3 t)"
    using projectPoint_on_curve [of "cubicPoint p0 p1 p2 p3" p] unfolding cubicProjectPoint_def by blast
  then show ?thesis using assms by (auto simp: containStroke_cubic_def closeTo_def split: if_splits)
qed

theorem containStroke_cubic_near_witness:
  "\<exists>t. 0 \<le> t \<and> t \<le> 1 \<and> vec_distance (cubicPoint (1, 2) (1, 2) (1, 2) (1, 2) t) (1, 2) \<le> 1 / 2"
proof (rule containStroke_cubic_near)
  have p: "cubicPoint (1, 2) (1, 2) (1, 2) (1, 2) t = (1, 2)" for t
    by (simp add: cubicPoint_def cubicAt_monomials)
  have "fst (cubicProjectPoint (1, 2) (1, 2) (1, 2) (1, 2) (1, 2)) = Some 0"
    using projectPoint_on_curve [of "cubicPoint (1, 2) (1, 2) (1, 2) (1, 2)" "(1, 2)"]
    by (auto simp: cubicProjectPoint_def p vec_distance_def)
  then show "containStroke_cubic (1, 2) (1, 2) (1, 2) (1, 2) 1 (1, 2)"
    by (simp add: containStroke_cubic_def farOff_def closeTo_def)
qed

text \<open>
  The stroke of a path with an arc is hit far away from it.  The line from the current point to the start
  of an arc counts for the winding even if only the stroke is asked for, and the sum decides in the end: a
  point a hundred units to the left of the path is reported to lie on its stroke.
\<close>

theorem containStroke_arc_far_away:
  "containStroke_path [1, 0, 0, 5, 10, 10, 1, 1, 0, pi, 0, 1] 1 (-100, 5) st = Some (True, st) \<and>
   (\<forall>t. vec_distance (arcPoint (10, 10) 1 1 t) (-100, 5) \<ge> 100)"
proof -
  have d: "vec_distance (u, v) (-100, 5) \<ge> 100" if "u \<ge> 0" for u v :: real
  proof -
    have "u + 100 \<le> sqrt ((u + 100) * (u + 100) + (v - 5) * (v - 5))" by (rule real_le_rsqrt) (simp add: power2_eq_square)
    then have "100 \<le> sqrt ((u + 100) * (u + 100) + (v - 5) * (v - 5))" using that by linarith
    then show ?thesis by (simp add: vec_distance_def)
  qed
  have "vec_distance (arcPoint (10, 10) 1 1 t) (-100, 5) \<ge> 100" for t
  proof -
    have "cos t + 10 \<ge> 0" using cos_ge_minus_one [of t] by linarith
    then show ?thesis unfolding arcPoint_def by (simp add: d)
  qed
  moreover have "\<not> containStroke_arc (10, 10) 1 0 pi False 1 (-100, 5)"
  proof -
    have "(2 :: real) < sqrt (12125)" by (simp add: real_less_rsqrt)
    then show ?thesis by (simp add: containStroke_arc_def Let_def)
  qed
  ultimately show ?thesis
    by (simp add: containStroke_path_def containPath_def positions_def arcTo_def line_w_def windingLine_def arcPoint_def plus_w_def)
qed

section \<open>Windings of cubic curves\<close>

text \<open>
  The curve below rises steadily, so its derivative has no zero between 0 and 1 and the array of the extrema
  keeps what an earlier call has left there.
\<close>

definition rising :: "real \<Rightarrow> real" where "rising = cubicAt 0 4 27 49"

lemma rising_poly: "rising t = - 20 * t ^ 3 + 57 * t\<^sup>2 + 12 * t"
  unfolding rising_def cubicAt_monomials by simp

lemma rising_extrema: "cubicExtrema 0 4 27 49 ext = (0, ext)"
proof -
  have s: "sqrt (114 * 114 - 4 * - 60 * 12) = 126" by (simp add: real_sqrt_unique)
  show ?thesis
    unfolding cubicExtrema_def Let_def by (simp add: isAroundZero_def EPSILON_def between01_def found_def store_def s)
qed

lemma rising_root: "set (values_of (cubicRootAt 0 4 27 49 (71 / 4) rs)) = {1 / 2}"
proof -
  have "clear_cubic 0 4 27 49 (71 / 4)" by (simp add: clear_cubic_def clear_def EPSILON_def Let_def)
  moreover have "rising t = 71 / 4 \<longleftrightarrow> t = 1 / 2" if "0 \<le> t" "t \<le> 1" for t
  proof -
    have "4 * (rising t - 71 / 4) = (2 * t - 1) * (- 40 * t\<^sup>2 + 94 * t + 71)"
      unfolding rising_poly by algebra
    moreover have "40 * t\<^sup>2 \<le> 40 * t" using that by (simp add: power2_eq_square mult_left_le)
    then have "- 40 * t\<^sup>2 + 94 * t + 71 > 0" using that by simp
    then have "- 40 * t\<^sup>2 + 94 * t + 71 \<noteq> 0" by simp
    ultimately have "rising t = 71 / 4 \<longleftrightarrow> 2 * t - 1 = 0"
      by (metis eq_iff_diff_eq_0 mult_eq_0_iff zero_neq_numeral)
    then show ?thesis by auto
  qed
  ultimately show ?thesis using cubicRootAt_roots [of 0 4 27 49 "71 / 4" rs] unfolding rising_def by auto
qed

text \<open>
  The winding of a curve depends on the calls before it.  If the derivative has no zero between the ends,
  \<^verbatim>\<open>windingCubic\<close> still compares with the first entry of the array \<^verbatim>\<open>extrema\<close>, which an earlier call has
  left: with the initial \<open>-1\<close> this rising curve counts as falling, after a call that left \<open>1 / 2\<close> it counts as
  rising, like the line between its ends does.
\<close>

theorem windingCubic_history:
  "fst (windingCubic (0, 0) (0, 4) (0, 27) (0, 49) (-1) (71 / 4) \<lparr>roots = [-1, -1, -1], extrema = [-1, -1]\<rparr>) > 0 \<and>
   fst (windingCubic (0, 0) (0, 4) (0, 27) (0, 49) (-1) (71 / 4) \<lparr>roots = [-1, -1, -1], extrema = [1 / 2, -1]\<rparr>) < 0 \<and>
   windingLine 0 0 0 49 (-1) (71 / 4) = Some (-1)"
proof -
  have zero: "cubicAt 0 0 0 0 t = 0" for t by (simp add: cubicAt_def)
  have ext: "sortedExtrema 0 4 27 49 [e, -1] = (0, [e, -1])" for e by (simp add: sortedExtrema_def rising_extrema)
  have at: "cubicAt 0 4 27 49 (-1) = 65" "cubicAt 0 4 27 49 (1 / 2) = 71 / 4" by (simp_all add: cubicAt_def)
  have loop: "fst (windingCubicLoop (0, 0) (0, 4) (0, 27) (0, 49) (-1) ts w n [e, -1]) =
      w + real (length ts) * cubicDir 0 4 27 49 0 [e, -1] c"
    if "set ts \<subseteq> {c}" "n = None \<or> n = Some 0" for ts w n e c
    using that by (induction ts arbitrary: w n) (auto simp: zero ext algebra_simps)
  obtain k rs where r: "cubicRootAt 0 4 27 49 (71 / 4) [-1, -1, -1] = (k, rs)" by fastforce
  then have ts: "set (take k rs) = {1 / 2}" using rising_root [of "[-1, -1, -1]"] by (simp add: values_of_def)
  then have "length (take k rs) > 0" by (metis length_greater_0_conv insert_not_empty list.set(1))
  then have pos: "0 < real (length (take k rs))" by (simp only: of_nat_0_less_iff)
  have "fst (windingCubic (0, 0) (0, 4) (0, 27) (0, 49) (-1) (71 / 4) \<lparr>roots = [-1, -1, -1], extrema = [e, -1]\<rparr>) =
      real (length (take k rs)) * cubicDir 0 4 27 49 0 [e, -1] (1 / 2)" for e
    using loop [of "take k rs" "1 / 2" None 0 e] ts by (simp add: windingCubic_def r split_beta)
  moreover have "cubicDir 0 4 27 49 0 [-1, -1] (1 / 2) = 1" "cubicDir 0 4 27 49 0 [1 / 2, -1] (1 / 2) = - 1"
    by (simp_all add: cubicDir_def Let_def unit_at_def at)
  moreover have "windingLine 0 0 0 49 (-1) (71 / 4) = Some (-1)" by (simp add: windingLine_def)
  ultimately show ?thesis using pos by simp
qed

end
