(* ===== verification/Path_Proxy.thy ===== *)
theory Path_Proxy
  imports Path_Contain
begin

text \<open>
  \<^verbatim>\<open>PathProxy\<close> (\<^verbatim>\<open>src/html/js/echarts.js\<close>, lines 10000-10691): a path that passes drawing calls on to a context and
  records them as an array of numbers, from which it computes its bounding box and its length and
  draws the path again, as a whole or in part.  The context is the list of the calls it has received.
  Numbers are real numbers, so \<^verbatim>\<open>Float32Array\<close> keeps its entries exactly; \<^term>\<open>None\<close> as a threshold or as an accumulated
  length stands for \<^verbatim>\<open>Infinity\<close> and \<^verbatim>\<open>NaN\<close>.  A function that returns an option has no result for data that end
  in the middle of a command.
\<close>

section \<open>Definitions\<close>

subsection \<open>Angles\<close>

definition mod2 :: "real \<Rightarrow> real" where
  "mod2 n = (if n \<ge> 0 then n - 2 * of_int \<lfloor>n / 2\<rfloor> else - (- n - 2 * of_int \<lfloor>- n / 2\<rfloor>))"

definition modPI2 :: "real \<Rightarrow> real" where
  "modPI2 radian = (let n = of_int \<lfloor>radian / pi * 10 ^ 8 + 1 / 2\<rfloor> / 10 ^ 8 in mod2 n * pi)"

definition normalizeArcAngles :: "real \<Rightarrow> real \<Rightarrow> bool \<Rightarrow> real \<times> real" where
  "normalizeArcAngles a0 a1 anticlockwise =
     (let s = modPI2 a0;
          s = (if s < 0 then s + 2 * pi else s);
          delta = s - a0;
          e = a1 + delta;
          e = (if \<not> anticlockwise \<and> e - s \<ge> 2 * pi then s + 2 * pi
               else if anticlockwise \<and> s - e \<ge> 2 * pi then s - 2 * pi
               else if \<not> anticlockwise \<and> s > e then s + (2 * pi - modPI2 (s - e))
               else if anticlockwise \<and> s < e then s - (2 * pi - modPI2 (e - s))
               else e)
      in (s, e))"

subsection \<open>Contexts and arrays\<close>

datatype call =
    BeginPath | MoveTo vec | LineTo vec | BezierCurveTo vec vec vec | QuadraticCurveTo vec vec
  | Arc vec real real real bool | Ellipse vec real real real real real bool | ArcTo vec vec real
  | Rect vec real real | ClosePath | Fill | Stroke

text \<open>A plain array grows when it is written at its end; a write beyond a \<^verbatim>\<open>Float32Array\<close> has no effect.\<close>

datatype array = Plain (elems: "real list") | Typed (elems: "real list")

fun put_at :: "nat \<Rightarrow> real \<Rightarrow> array \<Rightarrow> array" where
  "put_at i x (Plain xs) = Plain (if i < length xs then xs[i := x] else xs @ [x])"
| "put_at i x (Typed xs) = Typed (xs[i := x])"

fun puts :: "nat \<Rightarrow> real list \<Rightarrow> array \<Rightarrow> array" where
  "puts i [] a = a"
| "puts i (x # xs) a = puts (Suc i) xs (put_at i x a)"

record path_proxy =
  p_data :: "array option"
  p_len :: nat
  p_cur :: vec
  p_start :: vec
  p_ux :: "real option"
  p_uy :: "real option"
  p_pendingPt :: vec
  p_pendingPtDist :: real
  p_saveData :: bool
  p_version :: nat
  p_dpr :: real
  p_ctx :: "call list option"
  p_pathSegLen :: "real list option"
  p_pathLen :: real

definition PathProxy :: "bool \<Rightarrow> path_proxy" where
  "PathProxy notSaveData =
     \<lparr>p_data = (if notSaveData then None else Some (Plain [])), p_len = 0, p_cur = (0, 0), p_start = (0, 0),
      p_ux = Some 0, p_uy = Some 0, p_pendingPt = (0, 0), p_pendingPtDist = 0, p_saveData = (\<not> notSaveData),
      p_version = 0, p_dpr = 1, p_ctx = None, p_pathSegLen = None, p_pathLen = 0\<rparr>"

definition increaseVersion :: "path_proxy \<Rightarrow> path_proxy" where
  "increaseVersion p = p\<lparr>p_version := p_version p + 1\<rparr>"

definition threshold :: "real \<Rightarrow> real \<Rightarrow> real option" where
  "threshold u s = (if s = 0 then None else Some \<bar>u / s\<bar>)"

definition setScale :: "real \<Rightarrow> real \<Rightarrow> real \<Rightarrow> real \<Rightarrow> path_proxy \<Rightarrow> path_proxy" where
  "setScale devicePixelRatio sx sy segmentIgnoreThreshold p =
     (if segmentIgnoreThreshold > 0
      then p\<lparr>p_ux := threshold (segmentIgnoreThreshold / devicePixelRatio) sx,
             p_uy := threshold (segmentIgnoreThreshold / devicePixelRatio) sy\<rparr>
      else p)"

definition setDPR :: "real \<Rightarrow> path_proxy \<Rightarrow> path_proxy" where
  "setDPR d p = p\<lparr>p_dpr := d\<rparr>"

definition setContext :: "call list option \<Rightarrow> path_proxy \<Rightarrow> path_proxy" where
  "setContext ctx p = p\<lparr>p_ctx := ctx\<rparr>"

text \<open>A call on the context, if there is one.\<close>

definition emit :: "call \<Rightarrow> path_proxy \<Rightarrow> path_proxy" where
  "emit c p = p\<lparr>p_ctx := map_option (\<lambda>cs. cs @ [c]) (p_ctx p)\<rparr>"

definition reset :: "path_proxy \<Rightarrow> path_proxy" where
  "reset p =
     (let p = (if p_saveData p then p\<lparr>p_len := 0\<rparr> else p);
          p = (if p_pathSegLen p \<noteq> None then p\<lparr>p_pathSegLen := None, p_pathLen := 0\<rparr> else p)
      in increaseVersion p)"

definition beginPath :: "path_proxy \<Rightarrow> path_proxy" where
  "beginPath p = reset (emit BeginPath p)"

subsection \<open>Recording\<close>

definition drawPendingPt :: "path_proxy \<Rightarrow> path_proxy" where
  "drawPendingPt p =
     (if p_pendingPtDist p > 0 then (emit (LineTo (p_pendingPt p)) p)\<lparr>p_pendingPtDist := 0\<rparr> else p)"

definition expandData :: "nat \<Rightarrow> array \<Rightarrow> array" where
  "expandData n a = (case a of Plain xs \<Rightarrow> Plain xs | Typed xs \<Rightarrow> Plain (take n xs))"

text \<open>A proxy that saves its data has an array, see \<open>recording\<close> below.\<close>

definition addData :: "real list \<Rightarrow> path_proxy \<Rightarrow> path_proxy" where
  "addData args p =
     (if \<not> p_saveData p then p
      else case p_data p of
        None \<Rightarrow> p
      | Some a \<Rightarrow>
          let a = (if p_len p + length args > length (elems a) then expandData (p_len p) a else a)
          in p\<lparr>p_data := Some (puts (p_len p) args a), p_len := p_len p + length args\<rparr>)"

definition path_moveTo :: "vec \<Rightarrow> path_proxy \<Rightarrow> path_proxy" where
  "path_moveTo v p = (emit (MoveTo v) (addData [1, fst v, snd v] (drawPendingPt p)))\<lparr>p_start := v, p_cur := v\<rparr>"

definition exceeds :: "real option \<Rightarrow> real option \<Rightarrow> real \<Rightarrow> real \<Rightarrow> bool" where
  "exceeds ux uy dx dy \<longleftrightarrow> (case ux of None \<Rightarrow> False | Some u \<Rightarrow> dx > u) \<or> (case uy of None \<Rightarrow> False | Some u \<Rightarrow> dy > u)"

definition path_lineTo :: "vec \<Rightarrow> path_proxy \<Rightarrow> path_proxy" where
  "path_lineTo v p =
     (let dx = \<bar>fst v - fst (p_cur p)\<bar>;
          dy = \<bar>snd v - snd (p_cur p)\<bar>;
          exceedUnit = exceeds (p_ux p) (p_uy p) dx dy;
          p = addData [2, fst v, snd v] p
      in if exceedUnit then (emit (LineTo v) p)\<lparr>p_cur := v, p_pendingPtDist := 0\<rparr>
         else let d2 = dx * dx + dy * dy
              in if d2 > p_pendingPtDist p then p\<lparr>p_pendingPt := v, p_pendingPtDist := d2\<rparr> else p)"

definition path_bezierCurveTo :: "vec \<Rightarrow> vec \<Rightarrow> vec \<Rightarrow> path_proxy \<Rightarrow> path_proxy" where
  "path_bezierCurveTo p1 p2 p3 p =
     (emit (BezierCurveTo p1 p2 p3)
       (addData [3, fst p1, snd p1, fst p2, snd p2, fst p3, snd p3] (drawPendingPt p)))\<lparr>p_cur := p3\<rparr>"

definition path_quadraticCurveTo :: "vec \<Rightarrow> vec \<Rightarrow> path_proxy \<Rightarrow> path_proxy" where
  "path_quadraticCurveTo p1 p2 p =
     (emit (QuadraticCurveTo p1 p2) (addData [4, fst p1, snd p1, fst p2, snd p2] (drawPendingPt p)))\<lparr>p_cur := p2\<rparr>"

definition path_arc :: "vec \<Rightarrow> real \<Rightarrow> real \<Rightarrow> real \<Rightarrow> bool \<Rightarrow> path_proxy \<Rightarrow> path_proxy" where
  "path_arc c r startAngle endAngle anticlockwise p =
     (let p = drawPendingPt p;
          (s, e) = normalizeArcAngles startAngle endAngle anticlockwise;
          delta = e - s;
          p = addData [5, fst c, snd c, r, r, s, delta, 0, if anticlockwise then 0 else 1] p
      in (emit (Arc c r s e anticlockwise) p)\<lparr>p_cur := arcPoint c r r e\<rparr>)"

definition path_arcTo :: "vec \<Rightarrow> vec \<Rightarrow> real \<Rightarrow> path_proxy \<Rightarrow> path_proxy" where
  "path_arcTo p1 p2 radius p = emit (ArcTo p1 p2 radius) (drawPendingPt p)"

definition path_rect :: "vec \<Rightarrow> real \<Rightarrow> real \<Rightarrow> path_proxy \<Rightarrow> path_proxy" where
  "path_rect v w h p = addData [7, fst v, snd v, w, h] (emit (Rect v w h) (drawPendingPt p))"

definition path_closePath :: "path_proxy \<Rightarrow> path_proxy" where
  "path_closePath p = (let p = addData [6] (drawPendingPt p) in (emit ClosePath p)\<lparr>p_cur := p_start p\<rparr>)"

definition toStatic :: "bool \<Rightarrow> path_proxy \<Rightarrow> path_proxy" where
  "toStatic hasTypedArray p =
     (if \<not> p_saveData p then p
      else let p = drawPendingPt p
           in case p_data p of
                Some (Plain xs) \<Rightarrow>
                  let xs = take (p_len p) xs
                  in p\<lparr>p_data := Some (if hasTypedArray \<and> p_len p > 11 then Typed xs else Plain xs)\<rparr>
              | _ \<Rightarrow> p)"

text \<open>The calls go to the context that is given as an argument; here it is the one of the path.\<close>

definition path_fill :: "bool \<Rightarrow> path_proxy \<Rightarrow> path_proxy" where
  "path_fill hasTypedArray p = toStatic hasTypedArray (emit Fill p)"

definition path_stroke :: "bool \<Rightarrow> path_proxy \<Rightarrow> path_proxy" where
  "path_stroke hasTypedArray p = toStatic hasTypedArray (emit Stroke p)"

text \<open>
  \<^verbatim>\<open>setData\<close>, \<^verbatim>\<open>appendPath\<close> and \<^verbatim>\<open>clone\<close> raise an error on a proxy without an array.  \<^verbatim>\<open>appendPath\<close> has no result here if a path
  that is appended to a \<^verbatim>\<open>Float32Array\<close> holds more numbers than its length says: it leaves undefined entries.
\<close>

definition setData :: "bool \<Rightarrow> real list \<Rightarrow> path_proxy \<Rightarrow> path_proxy option" where
  "setData hasTypedArray d p =
     (let n = length d;
          same = (case p_data p of None \<Rightarrow> False | Some a \<Rightarrow> length (elems a) = n);
          a = (if \<not> same \<and> hasTypedArray then Some (Typed (replicate n 0)) else p_data p)
      in case a of None \<Rightarrow> None | Some a \<Rightarrow> Some (p\<lparr>p_data := Some (puts 0 d a), p_len := n\<rparr>))"

fun appendLoop :: "nat \<Rightarrow> real list list \<Rightarrow> array \<Rightarrow> nat \<times> array" where
  "appendLoop offset [] a = (offset, a)"
| "appendLoop offset (d # ds) a = appendLoop (offset + length d) ds (puts offset d a)"

definition appendPath :: "path_proxy list \<Rightarrow> path_proxy \<Rightarrow> path_proxy option" where
  "appendPath paths p =
     (if p_data p = None \<or> (\<exists>q \<in> set paths. p_data q = None) then None
      else let a = the (p_data p);
               ds = map (\<lambda>q. elems (the (p_data q))) paths;
               appendSize = sum_list (map p_len paths);
               a = (case a of Typed _ \<Rightarrow> Typed (replicate (p_len p + appendSize) 0) | Plain xs \<Rightarrow> Plain xs);
               (offset, b) = appendLoop (p_len p) ds a
           in case a of
                Typed xs \<Rightarrow> if offset > length xs then None else Some (p\<lparr>p_data := Some b, p_len := offset\<rparr>)
              | Plain xs \<Rightarrow> Some (p\<lparr>p_data := Some b, p_len := offset\<rparr>))"

definition path_clone :: "path_proxy \<Rightarrow> path_proxy option" where
  "path_clone p = (case p_data p of None \<Rightarrow> None | Some a \<Rightarrow> Some ((PathProxy False)\<lparr>p_data := Some a, p_len := p_len p\<rparr>))"

subsection \<open>Reading the recorded data\<close>

datatype cmd =
    M vec | L vec | C vec vec vec | Q vec vec | A vec real real real real real bool | Z | R vec real real | Other

text \<open>One command with its arguments, and the rest of the data; the flag of an arc tells whether it is anticlockwise.\<close>

definition readCmd :: "real list \<Rightarrow> (cmd \<times> real list) option" where
  "readCmd d = (case d of
     [] \<Rightarrow> None
   | cmd # rest \<Rightarrow>
       if cmd = 1 then case rest of x # y # r \<Rightarrow> Some (M (x, y), r) | _ \<Rightarrow> None
       else if cmd = 2 then case rest of x # y # r \<Rightarrow> Some (L (x, y), r) | _ \<Rightarrow> None
       else if cmd = 3 then
         case rest of x1 # y1 # x2 # y2 # x3 # y3 # r \<Rightarrow> Some (C (x1, y1) (x2, y2) (x3, y3), r) | _ \<Rightarrow> None
       else if cmd = 4 then case rest of x1 # y1 # x2 # y2 # r \<Rightarrow> Some (Q (x1, y1) (x2, y2), r) | _ \<Rightarrow> None
       else if cmd = 5 then
         case rest of cx # cy # r1 # r2 # startAngle # delta # psi # clock # r \<Rightarrow>
           Some (A (cx, cy) r1 r2 startAngle delta psi (clock = 0), r) | _ \<Rightarrow> None
       else if cmd = 6 then Some (Z, rest)
       else if cmd = 7 then case rest of x # y # w # h # r \<Rightarrow> Some (R (x, y) w h, r) | _ \<Rightarrow> None
       else Some (Other, rest))"

lemma readCmd_shorter: "readCmd d = Some (c, rest) \<Longrightarrow> length rest < length d"
  by (auto simp: readCmd_def split: list.splits if_splits)

definition recorded :: "path_proxy \<Rightarrow> real list" where
  "recorded p = (case p_data p of None \<Rightarrow> [] | Some a \<Rightarrow> take (p_len p) (elems a))"

subsection \<open>The bounding box\<close>

text \<open>The current point, the start and the box \<^verbatim>\<open>min2\<close>, \<^verbatim>\<open>max2\<close> after a command; \<^term>\<open>None\<close> is the initial, empty box.\<close>

definition boundsStep :: "bool \<Rightarrow> cmd \<Rightarrow> vec \<Rightarrow> vec \<Rightarrow> box option \<Rightarrow> vec \<times> vec \<times> box option" where
  "boundsStep isFirst c cur start b2 = (case c of
     M p \<Rightarrow> (p, p, Some (p, p))
   | L p \<Rightarrow> (p, start, Some (fromLine cur p))
   | C p1 p2 p3 \<Rightarrow> (p3, start, fromCubic cur p1 p2 p3 [] [])
   | Q p1 p2 \<Rightarrow> (p2, start, Some (fromQuadratic cur p1 p2))
   | A c r1 r2 startAngle delta psi anticlockwise \<Rightarrow>
       let endAngle = delta + startAngle
       in (arcPoint c r1 r2 endAngle, if isFirst then arcPoint c r1 r2 startAngle else start,
           Some (fromArc c r1 r2 startAngle endAngle anticlockwise))
   | R p w h \<Rightarrow> (p, p, Some (fromLine p (fst p + w, snd p + h)))
   | Z \<Rightarrow> (start, start, b2)
   | Other \<Rightarrow> (cur, start, b2))"

definition box_union :: "box option \<Rightarrow> box option \<Rightarrow> box option" where
  "box_union b1 b2 = (case (b1, b2) of
     (None, b) \<Rightarrow> b | (b, None) \<Rightarrow> b
   | (Some (lo, hi), Some (lo2, hi2)) \<Rightarrow> Some (vec_min lo lo2, vec_max hi hi2))"

function boundsLoop :: "bool \<Rightarrow> real list \<Rightarrow> vec \<Rightarrow> vec \<Rightarrow> box option \<Rightarrow> box option \<Rightarrow> box option option" where
  "boundsLoop isFirst d cur start b b2 =
     (if d = [] then Some b
      else case readCmd d of
        None \<Rightarrow> None
      | Some (c, rest) \<Rightarrow>
          (case positions isFirst (tl d) cur start of
             None \<Rightarrow> None
           | Some (cur, start) \<Rightarrow>
               let (cur, start, b2) = boundsStep isFirst c cur start b2
               in boundsLoop False rest cur start (box_union b b2) b2))"
  by pat_completeness auto
termination
  by (relation "measure (\<lambda>(isFirst, d, cur, start, b, b2). length d)") (auto dest: readCmd_shorter)

declare boundsLoop.simps [simp del]

text \<open>There is no result if no command has a box: then the rectangle has infinite extent.\<close>

definition path_getBoundingRect :: "path_proxy \<Rightarrow> rect option" where
  "path_getBoundingRect p =
     (if recorded p = [] then Some (BoundingRect 0 0 0 0)
      else case boundsLoop True (recorded p) (0, 0) (0, 0) None None of
        Some (Some (lo, hi)) \<Rightarrow> Some (BoundingRect (fst lo) (snd lo) (fst hi - fst lo) (snd hi - snd lo))
      | _ \<Rightarrow> None)"

subsection \<open>Lengths\<close>

text \<open>The length of a command (\<open>-1\<close> if it has none), the current point and the start.\<close>

definition segmentLength :: "real option \<Rightarrow> real option \<Rightarrow> bool \<Rightarrow> cmd \<Rightarrow> nat \<Rightarrow> vec \<Rightarrow> vec \<Rightarrow> real \<times> vec \<times> vec" where
  "segmentLength ux uy isFirst c rest cur start = (case c of
     M p \<Rightarrow> (-1, p, p)
   | L p \<Rightarrow>
       let dx = fst p - fst cur; dy = snd p - snd cur
       in if exceeds ux uy \<bar>dx\<bar> \<bar>dy\<bar> \<or> rest = 1 then (sqrt (dx * dx + dy * dy), p, start) else (-1, cur, start)
   | C p1 p2 p3 \<Rightarrow> (cubicLength cur p1 p2 p3 10, p3, start)
   | Q p1 p2 \<Rightarrow> (quadraticLength cur p1 p2 10, p2, start)
   | A c r1 r2 startAngle delta psi anticlockwise \<Rightarrow>
       (max r1 r2 * min (2 * pi) \<bar>delta\<bar>, arcPoint c r1 r2 (delta + startAngle),
        if isFirst then arcPoint c r1 r2 startAngle else start)
   | R p w h \<Rightarrow> (w * 2 + h * 2, p, p)
   | Z \<Rightarrow>
       let dx = fst start - fst cur; dy = snd start - snd cur
       in (sqrt (dx * dx + dy * dy), start, start)
   | Other \<Rightarrow> (-1, cur, start))"

function segmentsLoop ::
  "real option \<Rightarrow> real option \<Rightarrow> bool \<Rightarrow> real list \<Rightarrow> vec \<Rightarrow> vec \<Rightarrow> real list \<Rightarrow> real \<Rightarrow> (real list \<times> real) option" where
  "segmentsLoop ux uy isFirst d cur start segs sumLen =
     (if d = [] then Some (segs, sumLen)
      else case readCmd d of
        None \<Rightarrow> None
      | Some (c, rest) \<Rightarrow>
          (case positions isFirst (tl d) cur start of
             None \<Rightarrow> None
           | Some (cur, start) \<Rightarrow>
               let (l, cur, start) = segmentLength ux uy isFirst c (length rest) cur start
               in if l \<ge> 0 then segmentsLoop ux uy False rest cur start (segs @ [l]) (sumLen + l)
                  else segmentsLoop ux uy False rest cur start segs sumLen))"
  by pat_completeness auto
termination
  by (relation "measure (\<lambda>(ux, uy, isFirst, d, cur, start, segs, sumLen). length d)") (auto dest: readCmd_shorter)

declare segmentsLoop.simps [simp del]

definition calculateLength :: "path_proxy \<Rightarrow> path_proxy option" where
  "calculateLength p =
     (case segmentsLoop (p_ux p) (p_uy p) True (recorded p) (0, 0) (0, 0) [] 0 of
        None \<Rightarrow> None
      | Some (segs, sumLen) \<Rightarrow>
          Some (p\<lparr>p_pathSegLen := Some (store segs (case p_pathSegLen p of None \<Rightarrow> [] | Some old \<Rightarrow> old)), p_pathLen := sumLen\<rparr>))"

subsection \<open>Drawing again\<close>

record redraw =
  r_cur :: vec
  r_start :: vec
  r_pendingPt :: vec
  r_pendingPtDist :: real
  r_accum :: "real option"
  r_segs :: "real list"
  r_out :: "call list"

definition draw :: "call \<Rightarrow> redraw \<Rightarrow> redraw" where
  "draw c st = st\<lparr>r_out := r_out st @ [c]\<rparr>"

text \<open>
  The next segment, if only a part is drawn: the length that is left for it and its own length if the part ends
  in it.  An entry that is missing makes the accumulated length \<^verbatim>\<open>NaN\<close>, after which the part never ends.
\<close>

definition nextSegment :: "real option \<Rightarrow> redraw \<Rightarrow> (real \<times> real) option \<times> redraw" where
  "nextSegment displayed st = (case displayed of
     None \<Rightarrow> (None, st)
   | Some D \<Rightarrow>
       (case (r_accum st, r_segs st) of
          (Some a, l # ls) \<Rightarrow>
            if a + l > D then (Some (D - a, l), st\<lparr>r_segs := ls\<rparr>)
            else (None, st\<lparr>r_accum := Some (a + l), r_segs := ls\<rparr>)
        | (_, ls) \<Rightarrow> (None, st\<lparr>r_accum := None, r_segs := tl ls\<rparr>)))"

definition between :: "vec \<Rightarrow> vec \<Rightarrow> real \<Rightarrow> vec" where
  "between p q t = (fst p * (1 - t) + fst q * t, snd p * (1 - t) + snd q * t)"

definition zip2 :: "real list \<Rightarrow> real list \<Rightarrow> nat \<Rightarrow> vec" where
  "zip2 xs ys i = (xs ! i, ys ! i)"

text \<open>The part of the outline of a rectangle.\<close>

definition rectPart :: "vec \<Rightarrow> real \<Rightarrow> real \<Rightarrow> real \<Rightarrow> call list" where
  "rectPart p w h d0 =
     (let x = fst p; y = snd p; d1 = d0 - w; d2 = d1 - h; d3 = d2 - w
      in [MoveTo (x, y), LineTo (x + min d0 w, y)] @
         (if d1 > 0 then [LineTo (x + w, y + min d1 h)] else []) @
         (if d2 > 0 then [LineTo (x + max (w - d2) 0, y + h)] else []) @
         (if d3 > 0 then [LineTo (x, y + max (h - d3) 0)] else []))"

definition flush :: "cmd \<Rightarrow> redraw \<Rightarrow> redraw" where
  "flush c st = (case c of
     L _ \<Rightarrow> st
   | _ \<Rightarrow> if r_pendingPtDist st > 0 then (draw (LineTo (r_pendingPt st)) st)\<lparr>r_pendingPtDist := 0\<rparr> else st)"

text \<open>One command; the flag tells that the loop is left.\<close>

definition rebuildStep ::
  "bool \<Rightarrow> real option \<Rightarrow> real option \<Rightarrow> real option \<Rightarrow> bool \<Rightarrow> cmd \<Rightarrow> redraw \<Rightarrow> bool \<times> redraw" where
  "rebuildStep hasEllipse displayed ux uy isFirst c st0 =
     (let st = flush c st0; cur = r_cur st; start = r_start st
      in case c of
        M p \<Rightarrow> (False, (draw (MoveTo p) st)\<lparr>r_cur := p, r_start := p\<rparr>)
      | L p \<Rightarrow>
          let dx = \<bar>fst p - fst cur\<bar>; dy = \<bar>snd p - snd cur\<bar>
          in if exceeds ux uy dx dy
             then (case nextSegment displayed st of
                     (Some (d, l), st) \<Rightarrow> (True, draw (LineTo (between cur p (d / l))) st)
                   | (None, st) \<Rightarrow> (False, (draw (LineTo p) st)\<lparr>r_cur := p, r_pendingPtDist := 0\<rparr>))
             else let d2 = dx * dx + dy * dy
                  in (False, if d2 > r_pendingPtDist st then st\<lparr>r_pendingPt := p, r_pendingPtDist := d2\<rparr> else st)
      | C p1 p2 p3 \<Rightarrow>
          (case nextSegment displayed st of
             (Some (d, l), st) \<Rightarrow>
               let xs = cubicSubdivide (fst cur) (fst p1) (fst p2) (fst p3) (d / l);
                   ys = cubicSubdivide (snd cur) (snd p1) (snd p2) (snd p3) (d / l)
               in (True, draw (BezierCurveTo (zip2 xs ys 1) (zip2 xs ys 2) (zip2 xs ys 3)) st)
           | (None, st) \<Rightarrow> (False, (draw (BezierCurveTo p1 p2 p3) st)\<lparr>r_cur := p3\<rparr>))
      | Q p1 p2 \<Rightarrow>
          (case nextSegment displayed st of
             (Some (d, l), st) \<Rightarrow>
               let xs = quadraticSubdivide (fst cur) (fst p1) (fst p2) (d / l);
                   ys = quadraticSubdivide (snd cur) (snd p1) (snd p2) (d / l)
               in (True, draw (QuadraticCurveTo (zip2 xs ys 1) (zip2 xs ys 2)) st)
           | (None, st) \<Rightarrow> (False, (draw (QuadraticCurveTo p1 p2) st)\<lparr>r_cur := p2\<rparr>))
      | A c r1 r2 startAngle delta psi anticlockwise \<Rightarrow>
          let (part, st) = nextSegment displayed st;
              endAngle = (case part of Some (d, l) \<Rightarrow> startAngle + delta * d / l | None \<Rightarrow> startAngle + delta);
              st = draw (if \<bar>r1 - r2\<bar> > 1 / 10 ^ 3 \<and> hasEllipse
                         then Ellipse c r1 r2 psi startAngle endAngle anticlockwise
                         else Arc c (if r1 > r2 then r1 else r2) startAngle endAngle anticlockwise) st
          in if part \<noteq> None then (True, st)
             else (False, st\<lparr>r_cur := arcPoint c r1 r2 endAngle, r_start := if isFirst then arcPoint c r1 r2 startAngle else start\<rparr>)
      | R p w h \<Rightarrow>
          (case nextSegment displayed (st\<lparr>r_cur := p, r_start := p\<rparr>) of
             (Some (d, l), st) \<Rightarrow> (True, st\<lparr>r_out := r_out st @ rectPart p w h d\<rparr>)
           | (None, st) \<Rightarrow> (False, draw (Rect p w h) st))
      | Z \<Rightarrow>
          (case nextSegment displayed st of
             (Some (d, l), st) \<Rightarrow> (True, draw (LineTo (between cur start (d / l))) st)
           | (None, st) \<Rightarrow> (False, (draw ClosePath st)\<lparr>r_cur := start\<rparr>))
      | Other \<Rightarrow> (False, st))"

function rebuildLoop ::
  "bool \<Rightarrow> real option \<Rightarrow> real option \<Rightarrow> real option \<Rightarrow> bool \<Rightarrow> real list \<Rightarrow> redraw \<Rightarrow> redraw option" where
  "rebuildLoop hasEllipse displayed ux uy isFirst d st =
     (if d = [] then Some st
      else case readCmd d of
        None \<Rightarrow> None
      | Some (c, rest) \<Rightarrow>
          (case positions isFirst (tl d) (r_cur st) (r_start st) of
             None \<Rightarrow> None
           | Some (cur, start) \<Rightarrow>
               let (stop, st) = rebuildStep hasEllipse displayed ux uy isFirst c (st\<lparr>r_cur := cur, r_start := start\<rparr>)
               in if stop then Some st else rebuildLoop hasEllipse displayed ux uy False rest st))"
  by pat_completeness auto
termination
  by (relation "measure (\<lambda>(hasEllipse, displayed, ux, uy, isFirst, d, st). length d)") (auto dest: readCmd_shorter)

declare rebuildLoop.simps [simp del]

definition rebuild_from :: "real list \<Rightarrow> redraw" where
  "rebuild_from segs =
     \<lparr>r_cur = (0, 0), r_start = (0, 0), r_pendingPt = (0, 0), r_pendingPtDist = 0, r_accum = Some 0, r_segs = segs, r_out = []\<rparr>"

text \<open>The calls that \<^verbatim>\<open>rebuildPath\<close> makes, for a percentage that is not negative, and the path with its lengths.\<close>

definition rebuildPath :: "bool \<Rightarrow> real \<Rightarrow> path_proxy \<Rightarrow> (call list \<times> path_proxy) option" where
  "rebuildPath hasEllipse percent p =
     (if percent < 0 then None
      else if percent < 1
      then case (if p_pathSegLen p = None then calculateLength p else Some p) of
             None \<Rightarrow> None
           | Some p \<Rightarrow>
               let displayed = percent * p_pathLen p
               in if displayed = 0 then Some ([], p)
                  else map_option (\<lambda>st. (r_out st, p))
                         (rebuildLoop hasEllipse (Some displayed) (p_ux p) (p_uy p) True (recorded p) (rebuild_from (the (p_pathSegLen p))))
      else map_option (\<lambda>st. (r_out st, p))
             (rebuildLoop hasEllipse None (p_ux p) (p_uy p) True (recorded p) (rebuild_from [])))"

section \<open>What is recorded\<close>

text \<open>A proxy that saves its data has an array that reaches up to its length.\<close>

definition recording :: "path_proxy \<Rightarrow> bool" where
  "recording p \<longleftrightarrow> p_saveData p \<and> (\<exists>a. p_data p = Some a \<and> p_len p \<le> length (elems a))"

lemma elems_puts:
  assumes "i \<le> length (elems a)" "i + length ws \<le> length (elems a) \<or> (\<exists>xs. a = Plain xs)"
  shows "elems (puts i ws a) = take i (elems a) @ ws @ drop (i + length ws) (elems a)"
  using assms
proof (induction ws arbitrary: i a)
  case (Cons w ws)
  have len: "length (elems (put_at i w a)) = max (length (elems a)) (Suc i)" using Cons.prems by (cases a) auto
  have "Suc i + length ws \<le> length (elems (put_at i w a)) \<or> (\<exists>xs. put_at i w a = Plain xs)"
    using Cons.prems(2) len by (cases a) auto
  then have "elems (puts (Suc i) ws (put_at i w a)) =
      take (Suc i) (elems (put_at i w a)) @ ws @ drop (Suc i + length ws) (elems (put_at i w a))"
    using len by (intro Cons.IH) auto
  moreover have "take (Suc i) (elems (put_at i w a)) = take i (elems a) @ [w]"
    using Cons.prems by (cases a) (auto simp: take_Suc_conv_app_nth)
  moreover have "drop (Suc i + length ws) (elems (put_at i w a)) = drop (Suc i + length ws) (elems a)"
    using Cons.prems by (cases a) auto
  ultimately show ?case by simp
qed simp

lemma addData_fields [simp]:
  "p_cur (addData ws p) = p_cur p" "p_start (addData ws p) = p_start p" "p_ux (addData ws p) = p_ux p"
  "p_uy (addData ws p) = p_uy p" "p_pendingPt (addData ws p) = p_pendingPt p"
  "p_pendingPtDist (addData ws p) = p_pendingPtDist p" "p_ctx (addData ws p) = p_ctx p"
  "p_saveData (addData ws p) = p_saveData p" "p_pathSegLen (addData ws p) = p_pathSegLen p"
  by (simp_all add: addData_def Let_def split: option.splits)

lemma addData_records:
  assumes "recording p"
  shows "recording (addData ws p) \<and> recorded (addData ws p) = recorded p @ ws"
proof -
  obtain a where a: "p_saveData p" "p_data p = Some a" "p_len p \<le> length (elems a)" using assms by (auto simp: recording_def)
  let ?b = "if p_len p + length ws > length (elems a) then expandData (p_len p) a else a"
  have b: "take (p_len p) (elems ?b) = take (p_len p) (elems a)" "p_len p \<le> length (elems ?b)"
      "p_len p + length ws \<le> length (elems ?b) \<or> (\<exists>xs. ?b = Plain xs)"
    using a(3) by (cases a; simp add: expandData_def)+
  have "elems (puts (p_len p) ws ?b) = take (p_len p) (elems a) @ ws @ drop (p_len p + length ws) (elems ?b)"
    using elems_puts [OF b(2,3)] b(1) by simp
  moreover have "addData ws p = p\<lparr>p_data := Some (puts (p_len p) ws ?b), p_len := p_len p + length ws\<rparr>"
    using a by (simp add: addData_def Let_def)
  ultimately show ?thesis using a by (simp add: recording_def recorded_def)
qed

text \<open>The calls of a shape that builds its path.\<close>

datatype op =
    DMove vec | DLine vec | DBezier vec vec vec | DQuad vec vec | DArc vec real real real bool
  | DRect vec real real | DClose

fun perform_op :: "op \<Rightarrow> path_proxy \<Rightarrow> path_proxy" where
  "perform_op (DMove v) = path_moveTo v"
| "perform_op (DLine v) = path_lineTo v"
| "perform_op (DBezier p1 p2 p3) = path_bezierCurveTo p1 p2 p3"
| "perform_op (DQuad p1 p2) = path_quadraticCurveTo p1 p2"
| "perform_op (DArc c r s e anticlockwise) = path_arc c r s e anticlockwise"
| "perform_op (DRect v w h) = path_rect v w h"
| "perform_op DClose = path_closePath"

fun cmd_of :: "op \<Rightarrow> cmd" where
  "cmd_of (DMove v) = M v"
| "cmd_of (DLine v) = L v"
| "cmd_of (DBezier p1 p2 p3) = C p1 p2 p3"
| "cmd_of (DQuad p1 p2) = Q p1 p2"
| "cmd_of (DArc c r s e anticlockwise) =
     (let (s', e') = normalizeArcAngles s e anticlockwise in A c r r s' (e' - s') 0 anticlockwise)"
| "cmd_of (DRect v w h) = R v w h"
| "cmd_of DClose = Z"

fun encode :: "cmd \<Rightarrow> real list" where
  "encode (M v) = [1, fst v, snd v]"
| "encode (L v) = [2, fst v, snd v]"
| "encode (C p1 p2 p3) = [3, fst p1, snd p1, fst p2, snd p2, fst p3, snd p3]"
| "encode (Q p1 p2) = [4, fst p1, snd p1, fst p2, snd p2]"
| "encode (A c r1 r2 s d psi anticlockwise) = [5, fst c, snd c, r1, r2, s, d, psi, if anticlockwise then 0 else 1]"
| "encode (R v w h) = [7, fst v, snd v, w, h]"
| "encode Z = [6]"
| "encode Other = [0]"

lemma readCmd_encode: "readCmd (encode c @ rest) = Some (c, rest)"
  by (cases c) (simp_all add: readCmd_def)

lemma encode_not_Nil [simp]: "encode c \<noteq> []" "encode c @ rest \<noteq> []"
  by (cases c; simp)+

lemma emit_keeps [simp]:
  "recorded (emit c p) = recorded p" "recording (emit c p) = recording p" "p_cur (emit c p) = p_cur p"
  "p_start (emit c p) = p_start p" "p_ux (emit c p) = p_ux p" "p_uy (emit c p) = p_uy p"
  "p_pendingPt (emit c p) = p_pendingPt p" "p_pendingPtDist (emit c p) = p_pendingPtDist p"
  "p_ctx (emit c p) = map_option (\<lambda>cs. cs @ [c]) (p_ctx p)"
  by (simp_all add: emit_def recorded_def recording_def split: option.split)

lemma recorded_update [simp]:
  "recorded (p\<lparr>p_cur := v\<rparr>) = recorded p" "recorded (p\<lparr>p_start := v\<rparr>) = recorded p"
  "recorded (p\<lparr>p_pendingPt := v\<rparr>) = recorded p" "recorded (p\<lparr>p_pendingPtDist := d\<rparr>) = recorded p"
  "recording (p\<lparr>p_cur := v\<rparr>) = recording p" "recording (p\<lparr>p_start := v\<rparr>) = recording p"
  "recording (p\<lparr>p_pendingPt := v\<rparr>) = recording p" "recording (p\<lparr>p_pendingPtDist := d\<rparr>) = recording p"
  by (simp_all add: recorded_def recording_def split: option.split)

lemma drawPendingPt_keeps:
  "recorded (drawPendingPt p) = recorded p" "recording (drawPendingPt p) = recording p"
  "p_cur (drawPendingPt p) = p_cur p" "p_start (drawPendingPt p) = p_start p" "p_ux (drawPendingPt p) = p_ux p"
  "p_uy (drawPendingPt p) = p_uy p" "p_pendingPtDist (drawPendingPt p) \<le> 0"
  by (simp_all add: drawPendingPt_def)

lemma perform_records:
  assumes "recording p"
  shows "recording (perform_op d p) \<and> recorded (perform_op d p) = recorded p @ encode (cmd_of d)"
  using assms
  by (cases d)
    (simp_all add: path_moveTo_def path_lineTo_def path_bezierCurveTo_def path_quadraticCurveTo_def path_arc_def
      path_rect_def path_closePath_def Let_def addData_records drawPendingPt_keeps split_beta)

lemma fold_perform_records:
  assumes "recording p"
  shows "recording (fold perform_op ds p) \<and> recorded (fold perform_op ds p) = recorded p @ concat (map (encode \<circ> cmd_of) ds)"
  using assms by (induction ds arbitrary: p) (simp_all add: perform_records)

lemma beginPath_records:
  assumes "recording p"
  shows "recording (beginPath p) \<and> recorded (beginPath p) = []"
  using assms by (auto simp: beginPath_def reset_def increaseVersion_def emit_def recording_def recorded_def Let_def)

section \<open>Drawing a path again\<close>

text \<open>
  The path and the loop of \<^verbatim>\<open>rebuildPath\<close> agree on the calls, on the point that waits to be drawn and, unless a
  rectangle came last, on the current point and the start.
\<close>

definition in_step :: "call list \<Rightarrow> bool \<Rightarrow> path_proxy \<Rightarrow> redraw \<Rightarrow> bool" where
  "in_step cs sync p st \<longleftrightarrow>
     p_ctx p = Some (cs @ r_out st) \<and> p_pendingPtDist p = r_pendingPtDist st \<and>
     (r_pendingPtDist st > 0 \<longrightarrow> p_pendingPt p = r_pendingPt st) \<and>
     (sync \<longrightarrow> p_cur p = r_cur st \<and> p_start p = r_start st)"

fun is_rect :: "op \<Rightarrow> bool" where
  "is_rect (DRect v w h) = True" | "is_rect d = False"

fun restarts :: "op \<Rightarrow> bool" where
  "restarts (DMove v) = True" | "restarts (DRect v w h) = True" | "restarts d = False"

text \<open>A rectangle is followed by a move or by another rectangle.\<close>

fun rects_apart :: "bool \<Rightarrow> op list \<Rightarrow> bool" where
  "rects_apart sync [] = True"
| "rects_apart sync (d # ds) = ((sync \<or> restarts d) \<and> rects_apart (\<not> is_rect d) ds)"

lemma nextSegment_None [simp]: "nextSegment None st = (None, st)"
  by (simp add: nextSegment_def)

lemma draw_fields [simp]:
  "r_out (draw c st) = r_out st @ [c]" "r_cur (draw c st) = r_cur st" "r_start (draw c st) = r_start st"
  "r_pendingPt (draw c st) = r_pendingPt st" "r_pendingPtDist (draw c st) = r_pendingPtDist st"
  by (simp_all add: draw_def)

lemma in_step_pending:
  assumes "in_step cs sync p st" "\<And>v. c \<noteq> L v"
  shows "in_step cs sync (drawPendingPt p) (flush c st) \<and> \<not> r_pendingPtDist (flush c st) > 0"
  using assms by (cases c) (auto simp: in_step_def drawPendingPt_def flush_def)

lemma perform_units [simp]: "p_ux (perform_op d p) = p_ux p" "p_uy (perform_op d p) = p_uy p"
  by (cases d; simp add: path_moveTo_def path_lineTo_def path_bezierCurveTo_def path_quadraticCurveTo_def path_arc_def
      path_rect_def path_closePath_def Let_def drawPendingPt_keeps split_beta)+

lemma in_step_perform:
  assumes step: "in_step cs sync p st" and ok: "sync \<or> restarts d"
  shows "\<exists>st'. rebuildStep hasEllipse None (p_ux p) (p_uy p) False (cmd_of d) st = (False, st') \<and>
     in_step cs (\<not> is_rect d) (perform_op d p) st'"
proof (cases "\<exists>v. d = DLine v")
  case True
  then obtain v where d: "d = DLine v" by blast
  then have "p_cur p = r_cur st" using step ok by (simp add: in_step_def)
  then show ?thesis using step ok
    by (auto simp: d rebuildStep_def path_lineTo_def in_step_def flush_def Let_def)
next
  case False
  then have no: "cmd_of d \<noteq> L v" for v by (cases d) (simp_all add: split_beta Let_def)
  have f: "in_step cs sync (drawPendingPt p) (flush (cmd_of d) st)" "\<not> r_pendingPtDist (flush (cmd_of d) st) > 0"
    using in_step_pending [OF step no] by blast+
  show ?thesis
  proof (cases d)
    case (DArc c r s e anticlockwise)
    then show ?thesis using f ok
      by (auto simp: rebuildStep_def path_arc_def in_step_def Let_def split_beta)
  qed (use f ok False in \<open>auto simp: rebuildStep_def path_moveTo_def path_bezierCurveTo_def path_quadraticCurveTo_def
      path_rect_def path_closePath_def in_step_def Let_def\<close>)
qed

lemma rebuildLoop_encode:
  "rebuildLoop hasEllipse displayed ux uy False (encode c @ d) st =
     (case rebuildStep hasEllipse displayed ux uy False c st of
        (stop, st) \<Rightarrow> if stop then Some st else rebuildLoop hasEllipse displayed ux uy False d st)"
  by (subst rebuildLoop.simps) (simp add: readCmd_encode positions_def)

lemma rebuildLoop_first:
  assumes "\<not> r_pendingPtDist st > 0"
  shows "rebuildLoop hasEllipse displayed ux uy True (encode (M v) @ d) st =
     rebuildLoop hasEllipse displayed ux uy False d (st\<lparr>r_cur := v, r_start := v, r_out := r_out st @ [MoveTo v]\<rparr>)"
  using assms
  by (subst rebuildLoop.simps)
    (cases st, simp add: readCmd_def positions_def rebuildStep_def flush_def draw_def del: encode_not_Nil)

lemma rebuildLoop_replays:
  assumes "in_step cs sync p st" "rects_apart sync ds"
  shows "\<exists>st' sync'. rebuildLoop hasEllipse None (p_ux p) (p_uy p) False (concat (map (encode \<circ> cmd_of) ds)) st = Some st' \<and>
     in_step cs sync' (fold perform_op ds p) st'"
  using assms
proof (induction ds arbitrary: p st sync)
  case Nil
  then show ?case by (auto simp: rebuildLoop.simps)
next
  case (Cons d ds)
  obtain st' where st': "rebuildStep hasEllipse None (p_ux p) (p_uy p) False (cmd_of d) st = (False, st')"
      "in_step cs (\<not> is_rect d) (perform_op d p) st'"
    using in_step_perform [OF Cons.prems(1)] Cons.prems(2) by fastforce
  then show ?case using Cons.IH [OF st'(2)] Cons.prems(2) by (simp add: rebuildLoop_encode)
qed



text \<open>
  A line after a rectangle is different: the rectangle does not become the current point while the path is built,
  so the line back to the start of the path is left out, and it is drawn when the path is drawn again.
\<close>

theorem line_after_rect_differs:
  defines "q \<equiv> fold perform_op [DMove (0, 0), DRect (5, 5) 2 2, DLine (0, 0)] (setContext (Some []) (PathProxy False))"
  shows "p_ctx q = Some [MoveTo (0, 0), Rect (5, 5) 2 2]"
    and "rebuildPath True 1 q = Some ([MoveTo (0, 0), Rect (5, 5) 2 2, LineTo (0, 0)], q)"
proof -
  have p0: "recording (setContext (Some []) (PathProxy False))" "recorded (setContext (Some []) (PathProxy False)) = []"
    by (simp_all add: recording_def recorded_def setContext_def PathProxy_def)
  show "p_ctx q = Some [MoveTo (0, 0), Rect (5, 5) 2 2]"
    by (simp add: q_def setContext_def PathProxy_def path_moveTo_def path_rect_def path_lineTo_def Let_def
        drawPendingPt_def exceeds_def emit_def)
  have r: "recorded q = encode (M (0, 0)) @ encode (R (5, 5) 2 2) @ encode (L (0, 0)) @ []"
    using fold_perform_records [OF p0(1), of "[DMove (0, 0), DRect (5, 5) 2 2, DLine (0, 0)]"] p0(2) unfolding q_def by simp
  have u: "p_ux q = Some 0 \<and> p_uy q = Some 0" by (simp add: q_def setContext_def PathProxy_def del: perform_op.simps)
  show "rebuildPath True 1 q = Some ([MoveTo (0, 0), Rect (5, 5) 2 2, LineTo (0, 0)], q)"
    unfolding rebuildPath_def r
    by (simp add: u rebuildLoop_first rebuildLoop_encode rebuild_from_def rebuildStep_def flush_def draw_def exceeds_def Let_def
        rebuildLoop.simps [of _ _ _ _ _ "[]"] del: encode.simps append_Nil2)
qed
section \<open>The bounding box of a path\<close>

text \<open>The smallest box that contains a set of points.\<close>

definition hull_box :: "vec set \<Rightarrow> box \<Rightarrow> bool" where
  "hull_box S b \<longleftrightarrow> (\<forall>v \<in> S. in_box v b) \<and> (\<forall>b'. (\<forall>v \<in> S. in_box v b') \<longrightarrow> in_box (fst b) b' \<and> in_box (snd b) b')"

definition segment :: "vec \<Rightarrow> vec \<Rightarrow> vec set" where
  "segment p q = between p q ` {0..1}"

definition arc_points :: "vec \<Rightarrow> real \<Rightarrow> real \<Rightarrow> real \<Rightarrow> real \<Rightarrow> vec set" where
  "arc_points c r1 r2 s e = arcPoint c r1 r2 ` {min s e..max s e}"

lemma hull_box_smallest: "smallest_box crv l r b \<Longrightarrow> hull_box (crv ` {l..r}) b"
  by (auto simp: hull_box_def smallest_box_def)

lemma in_box_between: "in_box p b \<Longrightarrow> in_box q b \<Longrightarrow> 0 \<le> t \<Longrightarrow> t \<le> 1 \<Longrightarrow> in_box (between p q t) b"
  using convex_le [of t "fst (fst b)" "fst p" "fst q"] convex_ge [of t "fst p" "fst (snd b)" "fst q"]
    convex_le [of t "snd (fst b)" "snd p" "snd q"] convex_ge [of t "snd p" "snd (snd b)" "snd q"]
  by (auto simp: in_box_def between_def algebra_simps)

lemma segment_ends: "p \<in> segment p q" "q \<in> segment p q"
proof -
  have "between p q 0 = p" "between p q 1 = q" by (simp_all add: between_def)
  then show "p \<in> segment p q" "q \<in> segment p q"
    unfolding segment_def by (metis atLeastAtMost_iff imageI order_refl zero_le_one)+
qed

lemma hull_box_line: "hull_box (segment p q) (fromLine p q)"
proof -
  have "in_box p (fromLine p q)" "in_box q (fromLine p q)" by (auto simp: in_box_def fromLine_def vec_min_def vec_max_def)
  then have "\<forall>v \<in> segment p q. in_box v (fromLine p q)" by (auto simp: segment_def intro: in_box_between)
  moreover have "in_box (fst (fromLine p q)) b' \<and> in_box (snd (fromLine p q)) b'" if "in_box p b'" "in_box q b'" for b'
    using that by (auto simp: in_box_def fromLine_def vec_min_def vec_max_def min_def max_def)
  ultimately show ?thesis using segment_ends [where p = p and q = q] by (auto simp: hull_box_def)
qed

lemma hull_box_union:
  assumes "hull_box S b1" "hull_box T b2"
  shows "hull_box (S \<union> T) (vec_min (fst b1) (fst b2), vec_max (snd b1) (snd b2))"
proof -
  have "in_box v (vec_min (fst b1) (fst b2), vec_max (snd b1) (snd b2))" if "in_box v b1 \<or> in_box v b2" for v
    using that by (auto simp: in_box_def vec_min_def vec_max_def)
  moreover have "in_box (vec_min (fst b1) (fst b2)) b' \<and> in_box (vec_max (snd b1) (snd b2)) b'"
    if "in_box (fst b1) b'" "in_box (snd b1) b'" "in_box (fst b2) b'" "in_box (snd b2) b'" for b'
    using that by (auto simp: in_box_def vec_min_def vec_max_def min_def max_def)
  ultimately show ?thesis using assms by (auto simp: hull_box_def)
qed

lemma hull_box_convex:
  assumes "hull_box S b" "p \<in> S" "q \<in> S"
  shows "hull_box (S \<union> segment p q) b"
proof -
  have "in_box v b" if "v \<in> segment p q" for v
    using that assms by (auto simp: hull_box_def segment_def simp del: split_paired_All intro: in_box_between)
  then show ?thesis using assms(1) by (auto simp: hull_box_def)
qed

lemma angle_in_turn: "\<exists>t (k :: int). s \<le> t \<and> t \<le> s + 2 * pi \<and> t = a + 2 * pi * of_int k"
proof -
  let ?k = "\<lceil>(s - a) / (2 * pi)\<rceil>"
  have "s \<le> a + 2 * pi * of_int ?k" "a + 2 * pi * of_int ?k \<le> s + 2 * pi"
    using ceiling_divide_upper [of "2 * pi" "s - a"] ceiling_divide_lower [of "2 * pi" "s - a"]
    by (simp_all add: algebra_simps)
  then show ?thesis by blast
qed

lemma fromArc_full:
  assumes "0 \<le> r1" "0 \<le> r2"
  shows "hull_box (arcPoint c r1 r2 ` {s..s + 2 * pi}) ((fst c - r1, snd c - r2), (fst c + r1, snd c + r2))"
proof -
  have inside: "in_box (arcPoint c r1 r2 t) ((fst c - r1, snd c - r2), (fst c + r1, snd c + r2))" for t
  proof -
    have "\<bar>cos t * r1\<bar> \<le> r1" "\<bar>sin t * r2\<bar> \<le> r2"
      using assms mult_right_mono [OF abs_cos_le_one, of r1 t] mult_right_mono [OF abs_sin_le_one, of r2 t] by (simp_all add: abs_mult)
    then show ?thesis by (auto simp: in_box_def arcPoint_def)
  qed
  have on: "arcPoint c r1 r2 a \<in> arcPoint c r1 r2 ` {s..s + 2 * pi}" for a
  proof -
    obtain t and k :: int where t: "s \<le> t" "t \<le> s + 2 * pi" "t = a + 2 * pi * of_int k" using angle_in_turn by blast
    then have "arcPoint c r1 r2 a = arcPoint c r1 r2 t" using arcPoint_period [of c r1 r2 a k] by simp
    then show ?thesis using t by simp
  qed
  have "in_box (fst c - r1, snd c - r2) b' \<and> in_box (fst c + r1, snd c + r2) b'"
    if b': "\<forall>v \<in> arcPoint c r1 r2 ` {s..s + 2 * pi}. in_box v b'" for b'
  proof -
    have at: "in_box (arcPoint c r1 r2 a) b'" for a using b' on by blast
    have "sin (3 * pi / 2) = -1" "cos (3 * pi / 2) = 0"
      using sin_periodic_pi2 [of "pi / 2"] cos_periodic_pi2 [of "pi / 2"] by (simp_all add: algebra_simps)
    then show ?thesis using at [of 0] at [of "pi / 2"] at [of pi] at [of "3 * pi / 2"]
      by (auto simp: in_box_def arcPoint_def)
  qed
  then show ?thesis using inside by (auto simp: hull_box_def)
qed

text \<open>A box of an arc does not depend on the direction in which the arc is drawn.\<close>

lemma fromArc_reverse: "fromArc c r1 r2 x y True = fromArc c r1 r2 y x False"
proof -
  let ?p = "arcPoint c r1 r2 x" and ?q = "arcPoint c r1 r2 y"
  have "vec_min ?p ?q = vec_min ?q ?p" "vec_max ?p ?q = vec_max ?q ?p"
    by (simp_all add: vec_min_def vec_max_def min.commute max.commute)
  moreover have "arcAngles x y True = arcAngles y x False" by (auto simp: arcAngles_def Let_def)
  ultimately show ?thesis unfolding fromArc_def Let_def by (simp only: abs_minus_commute)
qed

definition arc_ok :: "real \<Rightarrow> real \<Rightarrow> real \<Rightarrow> bool \<Rightarrow> bool" where
  "arc_ok r1 r2 delta anticlockwise \<longleftrightarrow>
     0 \<le> r1 \<and> 0 \<le> r2 \<and> (if anticlockwise then - 2 * pi \<le> delta \<and> delta \<le> 0 else 0 \<le> delta \<and> delta \<le> 2 * pi)"

lemma hull_box_arc:
  assumes "arc_ok r1 r2 delta anticlockwise"
  shows "hull_box (arc_points c r1 r2 s (delta + s)) (fromArc c r1 r2 s (delta + s) anticlockwise)"
proof -
  have turn: "hull_box (arcPoint c r1 r2 ` {x..y}) (fromArc c r1 r2 x y False)"
    if "x \<le> y" "y \<le> x + 2 * pi" for x y
  proof (cases "y = x + 2 * pi")
    case True
    have "rem2pi (2 * pi) = 0" by (simp add: rem2pi_def)
    then have "fromArc c r1 r2 x y False = ((fst c - r1, snd c - r2), (fst c + r1, snd c + r2))"
      using True pi_ge_two by (simp add: fromArc_def Let_def)
    then show ?thesis using fromArc_full assms True by (simp add: arc_ok_def)
  next
    case False
    then show ?thesis using that by (intro hull_box_smallest fromArc_smallest) auto
  qed
  show ?thesis
  proof (cases anticlockwise)
    case True
    then show ?thesis using turn [of "delta + s" s] assms by (simp add: arc_ok_def arc_points_def fromArc_reverse)
  next
    case False
    then show ?thesis using turn [of s "delta + s"] assms by (simp add: arc_ok_def arc_points_def)
  qed
qed

text \<open>The points of a path: what a command adds to the path, and where the path goes on.\<close>

fun moved :: "cmd \<Rightarrow> vec \<times> vec \<Rightarrow> vec \<times> vec" where
  "moved (M p) (cur, start) = (p, p)"
| "moved (L p) (cur, start) = (p, start)"
| "moved (C p1 p2 p3) (cur, start) = (p3, start)"
| "moved (Q p1 p2) (cur, start) = (p2, start)"
| "moved (A c r1 r2 s delta psi anticlockwise) (cur, start) = (arcPoint c r1 r2 (delta + s), start)"
| "moved (R p w h) (cur, start) = (p, p)"
| "moved Z (cur, start) = (start, start)"
| "moved Other (cur, start) = (cur, start)"

fun points :: "cmd \<Rightarrow> vec \<times> vec \<Rightarrow> vec set" where
  "points (M p) (cur, start) = {p}"
| "points (L p) (cur, start) = segment cur p"
| "points (C p1 p2 p3) (cur, start) = cubicPoint cur p1 p2 p3 ` {0..1}"
| "points (Q p1 p2) (cur, start) = quadraticPoint cur p1 p2 ` {0..1}"
| "points (A c r1 r2 s delta psi anticlockwise) (cur, start) =
     segment cur (arcPoint c r1 r2 s) \<union> arc_points c r1 r2 s (delta + s)"
| "points (R p w h) (cur, start) = (\<lambda>(s, t). (fst p + s * w, snd p + t * h)) ` ({0..1} \<times> {0..1})"
| "points Z (cur, start) = segment cur start"
| "points Other (cur, start) = {}"

fun path_points :: "cmd list \<Rightarrow> vec \<times> vec \<Rightarrow> vec set" where
  "path_points [] pos = {}"
| "path_points (c # cs) pos = points c pos \<union> path_points cs (moved c pos)"

text \<open>Cubic curves away from the tolerances, and arcs of pos most one turn in their direction.\<close>

fun path_ok :: "cmd list \<Rightarrow> vec \<times> vec \<Rightarrow> bool" where
  "path_ok [] pos = True"
| "path_ok (c # cs) pos =
     ((case c of
         C p1 p2 p3 \<Rightarrow> clear_extrema (fst (fst pos)) (fst p1) (fst p2) (fst p3) \<and> clear_extrema (snd (fst pos)) (snd p1) (snd p2) (snd p3)
       | A c r1 r2 s delta psi anticlockwise \<Rightarrow> arc_ok r1 r2 delta anticlockwise
       | _ \<Rightarrow> True) \<and>
      path_ok cs (moved c pos))"

lemma clear_extrema_box:
  assumes "clear_extrema (fst p0) (fst p1) (fst p2) (fst p3)" "clear_extrema (snd p0) (snd p1) (snd p2) (snd p3)"
  shows "\<exists>b. fromCubic p0 p1 p2 p3 [] [] = Some b \<and> hull_box (cubicPoint p0 p1 p2 p3 ` {0..1}) b"
  using fromCubic_smallest [OF assms] hull_box_smallest by blast

lemma hull_box_rect:
  "hull_box ((\<lambda>(s, t). (fst p + s * w, snd p + t * h)) ` ({0..1} \<times> {0..1})) (fromLine p (fst p + w, snd p + h))"
  (is "hull_box ?R ?b")
proof -
  have inside: "min x (x + w) \<le> x + s * w \<and> x + s * w \<le> max x (x + w)" if "0 \<le> s" "s \<le> 1" for x s w :: real
    using convex_le [of s "min x (x + w)" x "x + w"] convex_ge [of s x "max x (x + w)" "x + w"] that by (simp add: add.commute)
  then have "in_box v ?b" if "v \<in> ?R" for v
    using that by (auto simp: in_box_def fromLine_def vec_min_def vec_max_def simp del: min_le_iff_disj)
  moreover have "p \<in> ?R" by (rule image_eqI [of _ _ "(0, 0)"]) simp_all
  moreover have "(fst p + w, snd p + h) \<in> ?R" by (rule image_eqI [of _ _ "(1, 1)"]) simp_all
  moreover have "in_box (fst ?b) b' \<and> in_box (snd ?b) b'" if "in_box p b'" "in_box (fst p + w, snd p + h) b'" for b'
    using that by (auto simp: in_box_def fromLine_def vec_min_def vec_max_def min_def max_def)
  ultimately show ?thesis unfolding hull_box_def by blast
qed

lemma box_union_Some: "box_union (Some b1) (Some b2) = Some (vec_min (fst b1) (fst b2), vec_max (snd b1) (snd b2))"
  by (simp add: box_union_def split_beta)

text \<open>One command: the box grows by the points of the command.\<close>

definition grown :: "vec set \<Rightarrow> box option \<Rightarrow> box \<Rightarrow> bool" where
  "grown S b2 b \<longleftrightarrow> hull_box S b \<and> box_union (Some b) b2 = Some b"

lemma grown_by:
  assumes "hull_box S b" "hull_box T b2"
  shows "\<exists>b'. box_union (Some b) (Some b2) = Some b' \<and> grown (S \<union> T) (Some b2) b'"
  using hull_box_union [OF assms] by (simp add: grown_def box_union_Some vec_min_def vec_max_def)

lemma grown_convex: "grown S b2 b \<Longrightarrow> p \<in> S \<Longrightarrow> q \<in> S \<Longrightarrow> grown (S \<union> segment p q) b2 b"
  by (simp add: grown_def hull_box_convex)

lemma curve_end: "f 1 = p \<Longrightarrow> p \<in> f ` {0..1 :: real}"
  by force

lemma boundsStep_grows:
  assumes S: "grown S b2 b" "cur \<in> S" "start \<in> S" and ok: "path_ok [c] (cur, start)"
  shows "\<exists>b2' b'. boundsStep False c cur start b2 = (fst (moved c (cur, start)), snd (moved c (cur, start)), b2') \<and>
    box_union (Some b) b2' = Some b' \<and> grown (S \<union> points c (cur, start)) b2' b' \<and>
    fst (moved c (cur, start)) \<in> S \<union> points c (cur, start) \<and> snd (moved c (cur, start)) \<in> S \<union> points c (cur, start)"
proof -
  have hull: "hull_box S b" using S(1) by (simp add: grown_def)
  show ?thesis
  proof (cases c)
    case (M p)
    have "hull_box {p} (p, p)" by (simp add: hull_box_def in_box_def)
    then show ?thesis using grown_by [OF hull, of "{p}" "(p, p)"] M by (simp add: boundsStep_def del: split_paired_Ex)
  next
    case (L p)
    then show ?thesis using grown_by [OF hull hull_box_line] S(3) segment_ends(2) by (simp add: boundsStep_def)
  next
    case (C p1 p2 p3)
    obtain bx where bx: "fromCubic cur p1 p2 p3 [] [] = Some bx" "hull_box (cubicPoint cur p1 p2 p3 ` {0..1}) bx"
      using clear_extrema_box ok C by fastforce
    have "p3 \<in> cubicPoint cur p1 p2 p3 ` {0..1}" by (rule curve_end) (simp add: cubicPoint_def cubicAt_def)
    then show ?thesis using grown_by [OF hull bx(2)] C S(3) bx(1) by (simp add: boundsStep_def)
  next
    case (Q p1 p2)
    have "p2 \<in> quadraticPoint cur p1 p2 ` {0..1}" by (rule curve_end) (simp add: quadraticPoint_def quadraticAt_def)
    then show ?thesis using grown_by [OF hull hull_box_smallest [OF fromQuadratic_smallest]] Q S(3) by (simp add: boundsStep_def)
  next
    case (A v r1 r2 s delta psi anticlockwise)
    let ?T = "arc_points v r1 r2 s (delta + s)" and ?b2 = "fromArc v r1 r2 s (delta + s) anticlockwise"
    have ends: "arcPoint v r1 r2 s \<in> ?T" "arcPoint v r1 r2 (delta + s) \<in> ?T" by (auto simp: arc_points_def)
    obtain b' where b': "box_union (Some b) (Some ?b2) = Some b'" "grown (S \<union> ?T) (Some ?b2) b'"
      using grown_by [OF hull hull_box_arc] ok [unfolded A] by (simp del: split_paired_Ex) blast
    then have "grown (S \<union> ?T \<union> segment cur (arcPoint v r1 r2 s)) (Some ?b2) b'"
      using S(2) ends(1) by (intro grown_convex) simp_all
    then show ?thesis using A S(3) b'(1) ends(2) by (simp add: boundsStep_def Un_ac Let_def del: split_paired_Ex)
  next
    case (R p w h)
    have "p \<in> points (R p w h) (cur, start)" unfolding points.simps by (rule image_eqI [of _ _ "(0, 0)"]) simp_all
    then show ?thesis using grown_by [OF hull hull_box_rect] R by (simp add: boundsStep_def)
  next
    case Z
    then show ?thesis using grown_convex [OF S] S by (simp add: boundsStep_def grown_def del: split_paired_Ex)
  next
    case Other
    then show ?thesis using S by (simp add: boundsStep_def grown_def del: split_paired_Ex)
  qed
qed

lemma boundsLoop_hull:
  assumes "grown S b2 b" "fst pos \<in> S" "snd pos \<in> S" "path_ok cs pos"
  shows "\<exists>b'. boundsLoop False (concat (map encode cs)) (fst pos) (snd pos) (Some b) b2 = Some (Some b') \<and>
    hull_box (S \<union> path_points cs pos) b'"
  using assms
proof (induction cs arbitrary: S b b2 pos)
  case Nil
  then show ?case by (simp add: boundsLoop.simps grown_def)
next
  case (Cons c cs)
  obtain cur start where pos: "pos = (cur, start)" by (cases pos)
  obtain b2' b' where step: "boundsStep False c cur start b2 = (fst (moved c pos), snd (moved c pos), b2')"
      "box_union (Some b) b2' = Some b'" "grown (S \<union> points c pos) b2' b'"
      "fst (moved c pos) \<in> S \<union> points c pos" "snd (moved c pos) \<in> S \<union> points c pos"
    using boundsStep_grows [of S b2 b cur start c] Cons.prems pos by auto
  then show ?case using Cons.IH [OF step(3-5)] Cons.prems(4) pos
    by (subst boundsLoop.simps) (simp add: readCmd_encode positions_def Un_assoc)
qed


section \<open>Arcs as they are recorded\<close>

lemma mod2_bounds: "\<bar>mod2 n\<bar> < 2" "0 \<le> n \<Longrightarrow> 0 \<le> mod2 n"
proof -
  have r: "0 \<le> y - 2 * of_int \<lfloor>y / 2\<rfloor>" "y - 2 * of_int \<lfloor>y / 2\<rfloor> < 2" for y :: real
    using floor_divide_lower [of 2 y] floor_divide_upper [of 2 y] by (simp_all add: algebra_simps)
  show "\<bar>mod2 n\<bar> < 2" using r [of n] r [of "- n"] by (simp add: mod2_def)
  show "0 \<le> n \<Longrightarrow> 0 \<le> mod2 n" using r [of n] by (simp add: mod2_def)
qed

lemma modPI2_bounds: "- 2 * pi < modPI2 a" "modPI2 a < 2 * pi" "0 \<le> a \<Longrightarrow> 0 \<le> modPI2 a"
proof -
  let ?n = "of_int \<lfloor>a / pi * 10 ^ 8 + 1 / 2\<rfloor> / 10 ^ 8 :: real"
  have "mod2 ?n < 2" "- 2 < mod2 ?n" using mod2_bounds(1) [of ?n] by linarith+
  then have "mod2 ?n * pi < 2 * pi" "- 2 * pi < mod2 ?n * pi" by (simp_all only: mult_less_cancel_right_pos pi_gt_zero)
  then show "modPI2 a < 2 * pi" "- 2 * pi < modPI2 a" by (simp_all only: modPI2_def Let_def)
  assume "0 \<le> a"
  then have "0 \<le> a / pi * 10 ^ 8 + 1 / 2" by simp
  then have "0 \<le> ?n" by (intro divide_nonneg_nonneg) simp_all
  then show "0 \<le> modPI2 a" using mod2_bounds(2) unfolding modPI2_def Let_def by (intro mult_nonneg_nonneg) simp_all
qed

text \<open>An arc starts within one turn and goes at most one turn in its direction; an arc of less than a turn keeps its angle.\<close>

lemma normalizeArcAngles_turn:
  assumes "normalizeArcAngles a b anticlockwise = (s, e)"
  shows "0 \<le> s" "s < 2 * pi"
    and "if anticlockwise then - 2 * pi \<le> e - s \<and> e - s \<le> 0 else 0 \<le> e - s \<and> e - s \<le> 2 * pi"
    and "(if anticlockwise then b \<le> a \<and> a < b + 2 * pi else a \<le> b \<and> b < a + 2 * pi) \<Longrightarrow> e - s = b - a"
proof -
  let ?s = "if modPI2 a < 0 then modPI2 a + 2 * pi else modPI2 a"
  have s: "s = ?s" using assms by (auto simp: normalizeArcAngles_def Let_def)
  show "0 \<le> s" "s < 2 * pi" using modPI2_bounds(1,2) [of a] unfolding s by (auto split: if_splits)
  show "if anticlockwise then - 2 * pi \<le> e - s \<and> e - s \<le> 0 else 0 \<le> e - s \<and> e - s \<le> 2 * pi"
    using assms modPI2_bounds(2,3) [of "s - (b + (s - a))"] modPI2_bounds(2,3) [of "b + (s - a) - s"]
    unfolding normalizeArcAngles_def Let_def s [symmetric] by (auto split: if_splits)
  show "(if anticlockwise then b \<le> a \<and> a < b + 2 * pi else a \<le> b \<and> b < a + 2 * pi) \<Longrightarrow> e - s = b - a"
    using assms unfolding normalizeArcAngles_def Let_def s [symmetric] by (auto split: if_splits)
qed

lemma recorded_arc_ok:
  assumes "cmd_of (DArc c r a b anticlockwise) = A c r1 r2 s delta psi anticlockwise'" "0 \<le> r"
  shows "arc_ok r1 r2 delta anticlockwise'"
proof -
  obtain s' e' where n: "normalizeArcAngles a b anticlockwise = (s', e')" by fastforce
  then show ?thesis using assms normalizeArcAngles_turn(3) [OF n] by (auto simp: arc_ok_def)
qed
section \<open>Drawing a part of a path\<close>

text \<open>The length of what a list of calls draws, for moves and lines.\<close>

fun drawn_length :: "vec \<Rightarrow> call list \<Rightarrow> real" where
  "drawn_length cur [] = 0"
| "drawn_length cur (MoveTo p # cs) = drawn_length p cs"
| "drawn_length cur (LineTo p # cs) = vec_distance cur p + drawn_length p cs"
| "drawn_length cur (_ # cs) = drawn_length cur cs"

text \<open>The points of a polyline that are far enough from the one before, and the lengths between them.\<close>

fun kept :: "real option \<Rightarrow> real option \<Rightarrow> vec \<Rightarrow> vec list \<Rightarrow> vec list" where
  "kept ux uy cur [] = []"
| "kept ux uy cur (p # ps) =
     (if exceeds ux uy \<bar>fst p - fst cur\<bar> \<bar>snd p - snd cur\<bar> then p # kept ux uy p ps else kept ux uy cur ps)"

fun lengths :: "vec \<Rightarrow> vec list \<Rightarrow> real list" where
  "lengths cur [] = []"
| "lengths cur (p # ps) = vec_distance cur p # lengths p ps"

lemma vec_distance_nonneg [simp]: "0 \<le> vec_distance p q"
  by (simp add: vec_distance_def)

lemma vec_distance_diff:
  "vec_distance p q = sqrt ((fst q - fst p) * (fst q - fst p) + (snd q - snd p) * (snd q - snd p))"
  by (simp add: vec_distance_def algebra_simps)

lemma vec_distance_between:
  assumes "0 \<le> t"
  shows "vec_distance p (between p q t) = t * vec_distance p q"
proof -
  have "vec_distance p (between p q t) = sqrt (t * t * ((fst q - fst p) * (fst q - fst p) + (snd q - snd p) * (snd q - snd p)))"
    unfolding vec_distance_diff between_def by (simp add: algebra_simps)
  then show ?thesis using assms by (simp add: vec_distance_diff real_sqrt_mult)
qed

lemma length_polyline: "length (concat (map encode (map L ps))) = 3 * length ps"
  by (induction ps) simp_all

lemma polyline_segments:
  "segmentsLoop ux uy False (concat (map encode (map L ps))) cur start segs sumLen =
     Some (segs @ lengths cur (kept ux uy cur ps), sumLen + sum_list (lengths cur (kept ux uy cur ps)))"
proof (induction ps arbitrary: cur segs sumLen)
  case (Cons p ps)
  have "length (concat (map encode (map L ps))) \<noteq> 1" unfolding length_polyline by presburger
  then show ?case
    by (subst segmentsLoop.simps)
      (simp add: readCmd_def positions_def segmentLength_def Let_def vec_distance_diff Cons.IH del: map_map)
qed (simp add: segmentsLoop.simps)

lemma polyline_whole:
  "\<exists>st'. rebuildLoop hasEllipse None ux uy False (concat (map encode (map L ps))) st = Some st' \<and>
     r_out st' = r_out st @ map LineTo (kept ux uy (r_cur st) ps)"
proof (induction ps arbitrary: st)
  case (Cons p ps)
  let ?st = "snd (rebuildStep hasEllipse None ux uy False (L p) st)"
  obtain st' where "rebuildLoop hasEllipse None ux uy False (concat (map encode (map L ps))) ?st = Some st'"
      "r_out st' = r_out ?st @ map LineTo (kept ux uy (r_cur ?st) ps)"
    using Cons.IH by blast
  then show ?case by (auto simp: rebuildLoop_encode rebuildStep_def flush_def Let_def simp del: encode.simps)
qed (simp add: rebuildLoop.simps)

lemma drawn_polyline: "drawn_length cur (map LineTo ps) = sum_list (lengths cur ps)"
  by (induction ps arbitrary: cur) simp_all

lemma polyline_part:
  assumes "r_accum st = Some a" "r_segs st = lengths (r_cur st) (kept ux uy (r_cur st) ps)" "a \<le> D"
  shows "\<exists>st' cs. rebuildLoop hasEllipse (Some D) ux uy False (concat (map encode (map L ps))) st = Some st' \<and>
     r_out st' = r_out st @ cs \<and> drawn_length (r_cur st) cs = min (D - a) (sum_list (r_segs st))"
  using assms
proof (induction ps arbitrary: st a)
  case Nil
  then show ?case by (simp add: rebuildLoop.simps)
next
  case (Cons p ps)
  let ?cur = "r_cur st"
  let ?l = "vec_distance ?cur p" and ?far = "exceeds ux uy \<bar>fst p - fst ?cur\<bar> \<bar>snd p - snd ?cur\<bar>"
  obtain stop st1 where step: "rebuildStep hasEllipse (Some D) ux uy False (L p) st = (stop, st1)" by fastforce
  have loop: "rebuildLoop hasEllipse (Some D) ux uy False (concat (map encode (map L (p # ps)))) st =
      (if stop then Some st1 else rebuildLoop hasEllipse (Some D) ux uy False (concat (map encode (map L ps))) st1)"
    by (simp add: rebuildLoop_encode step del: encode.simps)
  have nonneg: "0 \<le> sum_list (lengths q qs)" for q qs by (induction qs arbitrary: q) simp_all
  consider (near) "\<not> ?far" | (inside) "?far" "a + ?l > D" | (beyond) "?far" "a + ?l \<le> D" by linarith
  then show ?case
  proof cases
    case near
    then have st1: "\<not> stop" "r_out st1 = r_out st" "r_cur st1 = ?cur" "r_accum st1 = Some a" "r_segs st1 = r_segs st"
      using step Cons.prems by (auto simp: rebuildStep_def flush_def Let_def split: if_splits)
    then show ?thesis using Cons.IH [of st1 a] Cons.prems near unfolding loop by simp
  next
    case inside
    then have st1: "stop" "st1 = draw (LineTo (between ?cur p ((D - a) / ?l))) (st\<lparr>r_segs := lengths p (kept ux uy p ps)\<rparr>)"
      using step Cons.prems by (auto simp: rebuildStep_def flush_def Let_def nextSegment_def)
    have "vec_distance ?cur (between ?cur p ((D - a) / ?l)) = D - a"
      using Cons.prems(3) inside(2) by (subst vec_distance_between) auto
    then show ?thesis using st1 Cons.prems inside nonneg [of p "kept ux uy p ps"] unfolding loop by simp
  next
    case beyond
    then have st1: "\<not> stop" "r_out st1 = r_out st @ [LineTo p]" "r_cur st1 = p" "r_accum st1 = Some (a + ?l)"
        "r_segs st1 = lengths p (kept ux uy p ps)"
      using step Cons.prems by (auto simp: rebuildStep_def flush_def Let_def nextSegment_def draw_def)
    then show ?thesis using Cons.IH [of st1 "a + ?l"] Cons.prems beyond unfolding loop by auto
  qed
qed

lemma polyline_first:
  assumes "recorded p = concat (map encode (M v # map L ps))"
  shows "rebuildLoop hasEllipse displayed ux uy True (recorded p) (rebuild_from segs) =
    rebuildLoop hasEllipse displayed ux uy False (concat (map encode (map L ps)))
      ((rebuild_from segs)\<lparr>r_cur := v, r_start := v, r_out := [MoveTo v]\<rparr>)"
proof -
  have "recorded p = encode (M v) @ concat (map encode (map L ps))" using assms by simp
  then show ?thesis by (simp add: rebuildLoop_first rebuild_from_def del: encode.simps)
qed

lemma polyline_calculateLength:
  assumes "recorded p = concat (map encode (M v # map L ps))" "p_pathSegLen p = None"
    and ls: "ls = lengths v (kept (p_ux p) (p_uy p) v ps)"
  shows "calculateLength p = Some (p\<lparr>p_pathSegLen := Some ls, p_pathLen := sum_list ls\<rparr>)"
proof -
  have "recorded p = encode (M v) @ concat (map encode (map L ps))" using assms(1) by simp
  then have "segmentsLoop (p_ux p) (p_uy p) True (recorded p) (0, 0) (0, 0) [] 0 = Some (ls, sum_list ls)"
    by (subst segmentsLoop.simps)
      (simp add: readCmd_def positions_def segmentLength_def polyline_segments ls del: map_map)
  then show ?thesis by (simp add: calculateLength_def assms(2) store_def)
qed

lemma lengths_nonneg: "0 \<le> sum_list (lengths q qs)"
  by (induction qs arbitrary: q) simp_all

text \<open>
  C3: The part of a polyline that is drawn for a percentage has this percentage of the length of the whole
  polyline, also when points that are too close to each other are left out.
\<close>

theorem rebuildPath_part_length:
  assumes "recorded p = concat (map encode (M v # map L ps))" "p_pathSegLen p = None" "0 \<le> percent" "percent < 1"
  shows "\<exists>part whole p'. rebuildPath hasEllipse percent p = Some (part, p') \<and> rebuildPath hasEllipse 1 p = Some (whole, p) \<and>
    drawn_length (0, 0) part = percent * drawn_length (0, 0) whole"
proof -
  define ls where "ls = lengths v (kept (p_ux p) (p_uy p) v ps)"
  let ?st = "\<lambda>segs. (rebuild_from segs)\<lparr>r_cur := v, r_start := v, r_out := [MoveTo v]\<rparr>" and ?D = "percent * sum_list ls"
  let ?p = "p\<lparr>p_pathSegLen := Some ls, p_pathLen := sum_list ls\<rparr>"
  note first = polyline_first [OF assms(1)]
  have calc: "calculateLength p = Some ?p" using polyline_calculateLength [OF assms(1,2) ls_def] .
  have "recorded ?p = recorded p" by (simp add: recorded_def split: option.split)
  note first' = first [folded this]
  have ls: "0 \<le> sum_list ls" unfolding ls_def by (rule lengths_nonneg)
  obtain st where "rebuildLoop hasEllipse None (p_ux p) (p_uy p) False (concat (map encode (map L ps))) (?st []) = Some st"
      "r_out st = r_out (?st []) @ map LineTo (kept (p_ux p) (p_uy p) v ps)"
    using polyline_whole [of hasEllipse "p_ux p" "p_uy p" ps "?st []"] by auto
  then have whole: "rebuildPath hasEllipse 1 p = Some (r_out st, p)" "drawn_length (0, 0) (r_out st) = sum_list ls"
    by (simp_all add: rebuildPath_def first drawn_polyline ls_def)
  obtain st' cs where part: "rebuildLoop hasEllipse (Some ?D) (p_ux p) (p_uy p) False (concat (map encode (map L ps))) (?st ls) = Some st'"
      "r_out st' = MoveTo v # cs" "drawn_length v cs = min ?D (sum_list ls)"
    using polyline_part [of "?st ls" 0 "p_ux p" "p_uy p" ps ?D hasEllipse] ls assms(3) by (auto simp: rebuild_from_def ls_def)
  have "rebuildPath hasEllipse percent p = Some (if ?D = 0 then [] else MoveTo v # cs, ?p)"
    using part assms(2-4) by (simp add: rebuildPath_def calc first')
  moreover have "drawn_length (0, 0) (if ?D = 0 then [] else MoveTo v # cs) = ?D"
    using part(3) ls assms(3,4) by (simp add: mult_left_le_one_le min_absorb1)
  ultimately show ?thesis using whole by metis
qed

theorem rebuildPath_part_length_witness:
  "\<exists>part whole p'. rebuildPath True (1 / 3) (fold perform_op [DMove (1, 0), DLine (4, 0), DLine (4, 5)] (PathProxy False)) = Some (part, p') \<and>
    rebuildPath True 1 (fold perform_op [DMove (1, 0), DLine (4, 0), DLine (4, 5)] (PathProxy False)) =
      Some (whole, fold perform_op [DMove (1, 0), DLine (4, 0), DLine (4, 5)] (PathProxy False)) \<and>
    drawn_length (0, 0) part = 1 / 3 * drawn_length (0, 0) whole"
proof (rule rebuildPath_part_length)
  show "recorded (fold perform_op [DMove (1, 0), DLine (4, 0), DLine (4, 5)] (PathProxy False)) =
      concat (map encode (M (1, 0) # map L [(4, 0), (4, 5)]))"
    using fold_perform_records [of "PathProxy False" "[DMove (1, 0), DLine (4, 0), DLine (4, 5)]"]
    by (simp add: recording_def recorded_def PathProxy_def)
  show "p_pathSegLen (fold perform_op [DMove (1, 0), DLine (4, 0), DLine (4, 5)] (PathProxy False)) = None"
    by (simp add: PathProxy_def path_moveTo_def path_lineTo_def drawPendingPt_def emit_def Let_def exceeds_def)
qed simp_all


section \<open>Appending paths\<close>

lemma appendLoop_spec:
  assumes "i \<le> length (elems a)" "i + length (concat ds) \<le> length (elems a) \<or> (\<exists>xs. a = Plain xs)"
  shows "\<exists>b. appendLoop i ds a = (i + length (concat ds), b) \<and>
    elems b = take i (elems a) @ concat ds @ drop (i + length (concat ds)) (elems a)"
  using assms
proof (induction ds arbitrary: i a)
  case (Cons d ds)
  let ?b = "puts i d a"
  have e: "elems ?b = take i (elems a) @ d @ drop (i + length d) (elems a)" using Cons.prems by (intro elems_puts) auto
  have plain: "\<exists>xs. puts j ws (Plain ys) = Plain xs" for j ws ys by (induction ws arbitrary: j ys) auto
  have "i + length d \<le> length (elems ?b)" using e Cons.prems(1) by simp
  moreover have "i + length d + length (concat ds) \<le> length (elems ?b) \<or> (\<exists>xs. ?b = Plain xs)"
    using Cons.prems e plain by auto
  ultimately show ?case using Cons.IH [of "i + length d" ?b] e Cons.prems(1) by (auto simp: ac_simps)
qed simp

text \<open>
  C5: To a plain array a path is appended; a \<^verbatim>\<open>Float32Array\<close> is replaced by a new one of the right size, into which
  the numbers of the path so far are not copied: they become zeros.
\<close>

theorem appendPath_forgets:
  assumes "p_data q = Some b" "p_len q = length (elems b)" "p_data p = Some a" "p_len p \<le> length (elems a)"
  shows "\<exists>p'. appendPath [q] p = Some p' \<and>
    recorded p' = (case a of Plain xs \<Rightarrow> recorded p | Typed xs \<Rightarrow> replicate (p_len p) 0) @ recorded q"
proof (cases a)
  case (Plain xs)
  then show ?thesis using appendLoop_spec [of "p_len p" "Plain xs" "[elems b]"] assms
    by (auto simp: appendPath_def recorded_def Let_def)
next
  case (Typed xs)
  then show ?thesis using appendLoop_spec [of "p_len p" "Typed (replicate (p_len p + p_len q) 0)" "[elems b]"] assms
    by (auto simp: appendPath_def recorded_def Let_def)
qed

end
