(* ===== verification/Slider.thy ===== *)
theory Slider
  imports Complex_Main
begin

text \<open>
  Moving the handles of a range slider (\<^verbatim>\<open>src/html/js/echarts.js\<close>, lines 64003-64062), used by the data zoom, by
  parallel axes and by the visual map.  The handles are the pair \<^verbatim>\<open>handleEnds\<close>; a span that is not given is
  \<^term>\<open>None\<close>, and \<^term>\<open>None\<close> as the handle means that both are moved (\<^verbatim>\<open>'all'\<close>).
\<close>

section \<open>Definitions\<close>

type_synonym ends = "real \<times> real"

definition restrict_to :: "real \<Rightarrow> real option \<Rightarrow> real option \<Rightarrow> real" where
  "restrict_to v lo hi =
     (let v = (case lo of None \<Rightarrow> v | Some l \<Rightarrow> max l v) in case hi of None \<Rightarrow> v | Some h \<Rightarrow> min h v)"

text \<open>The flag of a handle is true for the second one.\<close>

definition this_end :: "bool \<Rightarrow> ends \<Rightarrow> real" where "this_end i h = (if i then snd h else fst h)"

definition other_end :: "bool \<Rightarrow> ends \<Rightarrow> real" where "other_end i h = (if i then fst h else snd h)"

definition ends_of :: "bool \<Rightarrow> real \<Rightarrow> real \<Rightarrow> ends" where "ends_of i a b = (if i then (b, a) else (a, b))"

definition getSpanSign :: "ends \<Rightarrow> bool \<Rightarrow> real \<times> real" where
  "getSpanSign h i =
     (let dist = this_end i h - other_end i h
      in (\<bar>dist\<bar>, if dist > 0 then -1 else if dist < 0 then 1 else if i then -1 else 1))"

definition moveHandle :: "real \<Rightarrow> ends \<Rightarrow> real \<times> real \<Rightarrow> bool \<Rightarrow> real option \<Rightarrow> real option \<Rightarrow> ends" where
  "moveHandle delta h0 extent i minSpan maxSpan =
     (let lo = fst extent; hi = snd extent;
          h = (restrict_to (fst h0) (Some lo) (Some hi), restrict_to (snd h0) (Some lo) (Some hi));
          (_, sign0) = getSpanSign h i;
          extentMinSpan = (case minSpan of None \<Rightarrow> 0 | Some m \<Rightarrow> m);
          (lo', hi') = (if sign0 < 0 then (lo + extentMinSpan, hi) else (lo, hi - extentMinSpan));
          a = restrict_to (this_end i h + delta) (Some lo') (Some hi');
          b = other_end i h;
          (spn, sign) = getSpanSign (ends_of i a b) i;
          b = (case minSpan of Some m \<Rightarrow> if sign \<noteq> sign0 \<or> spn < m then a + sign0 * m else b | None \<Rightarrow> b);
          (spn, sign) = getSpanSign (ends_of i a b) i;
          b = (case maxSpan of Some m \<Rightarrow> if spn > m then a + sign * m else b | None \<Rightarrow> b)
      in ends_of i a b)"

definition sliderMove :: "real \<Rightarrow> ends \<Rightarrow> real \<times> real \<Rightarrow> bool option \<Rightarrow> real option \<Rightarrow> real option \<Rightarrow> ends" where
  "sliderMove delta h extent handleIndex minSpan maxSpan =
     (let extentSpan = snd extent - fst extent;
          minSpan = map_option (\<lambda>m. restrict_to m (Some 0) (Some extentSpan)) minSpan;
          maxSpan = map_option (\<lambda>m. max m (case minSpan of None \<Rightarrow> 0 | Some n \<Rightarrow> n)) maxSpan
      in case handleIndex of
           Some i \<Rightarrow> moveHandle delta h extent i minSpan maxSpan
         | None \<Rightarrow>
             let handleSpan = restrict_to \<bar>snd h - fst h\<bar> (Some 0) (Some extentSpan);
                 s = restrict_to handleSpan minSpan maxSpan
             in moveHandle delta h extent False (Some s) (Some s))"

section \<open>The window stays in its bounds\<close>

definition window_ok :: "real \<times> real \<Rightarrow> real option \<Rightarrow> real option \<Rightarrow> ends \<Rightarrow> bool" where
  "window_ok extent minSpan maxSpan h \<longleftrightarrow>
     fst extent \<le> fst h \<and> fst h \<le> snd extent \<and> fst extent \<le> snd h \<and> snd h \<le> snd extent \<and>
     (case minSpan of None \<Rightarrow> True | Some m \<Rightarrow> m \<le> \<bar>snd h - fst h\<bar>) \<and>
     (case maxSpan of None \<Rightarrow> True | Some m \<Rightarrow> \<bar>snd h - fst h\<bar> \<le> m)"

text \<open>The span and the sign as a relation: the other end lies the span away in the direction of the sign.\<close>

lemma getSpanSign_ends:
  assumes "getSpanSign (ends_of i a b) i = (spn, sign)"
  shows "spn = \<bar>a - b\<bar>" "sign = 1 \<and> a \<le> b \<or> sign = -1 \<and> b \<le> a"
  using assms by (auto simp: getSpanSign_def this_end_def other_end_def ends_of_def Let_def split: if_splits)

lemma ends_of_window: "window_ok (lo, hi) minSpan maxSpan (ends_of i a b) \<longleftrightarrow>
    lo \<le> a \<and> a \<le> hi \<and> lo \<le> b \<and> b \<le> hi \<and> (case minSpan of None \<Rightarrow> True | Some m \<Rightarrow> m \<le> \<bar>a - b\<bar>) \<and>
    (case maxSpan of None \<Rightarrow> True | Some m \<Rightarrow> \<bar>a - b\<bar> \<le> m)"
  by (auto simp: window_ok_def ends_of_def abs_minus_commute split: option.splits)

text \<open>The two corrections of the other end: to the smallest span, then to the largest.\<close>

definition expanded :: "real option \<Rightarrow> real \<Rightarrow> bool \<Rightarrow> real \<Rightarrow> real \<Rightarrow> real" where
  "expanded minSpan sign0 i a b = (case minSpan of
     None \<Rightarrow> b
   | Some m \<Rightarrow> let (spn, sign) = getSpanSign (ends_of i a b) i in if sign \<noteq> sign0 \<or> spn < m then a + sign0 * m else b)"

definition shrunk :: "real option \<Rightarrow> bool \<Rightarrow> real \<Rightarrow> real \<Rightarrow> real" where
  "shrunk maxSpan i a b = (case maxSpan of
     None \<Rightarrow> b
   | Some m \<Rightarrow> let (spn, sign) = getSpanSign (ends_of i a b) i in if spn > m then a + sign * m else b)"

lemma expanded_ok:
  assumes "lo \<le> b" "b \<le> hi" "sign0 = 1 \<or> sign0 = -1"
    and "\<And>m. minSpan = Some m \<Longrightarrow> 0 \<le> m \<and> lo \<le> a + sign0 * m \<and> a + sign0 * m \<le> hi"
  shows "lo \<le> expanded minSpan sign0 i a b \<and> expanded minSpan sign0 i a b \<le> hi \<and>
    (\<forall>m. minSpan = Some m \<longrightarrow> m \<le> \<bar>a - expanded minSpan sign0 i a b\<bar>)"
proof (cases minSpan)
  case (Some m)
  obtain spn sign where g: "getSpanSign (ends_of i a b) i = (spn, sign)" by fastforce
  show ?thesis using assms Some getSpanSign_ends(1) [OF g] by (auto simp: expanded_def g)
qed (use assms in \<open>simp add: expanded_def\<close>)

lemma shrunk_ok:
  assumes "lo \<le> a" "a \<le> hi" "lo \<le> b" "b \<le> hi" "\<And>m. maxSpan = Some m \<Longrightarrow> 0 \<le> m"
  shows "lo \<le> shrunk maxSpan i a b \<and> shrunk maxSpan i a b \<le> hi \<and>
    (\<forall>m. maxSpan = Some m \<longrightarrow> \<bar>a - shrunk maxSpan i a b\<bar> = min m \<bar>a - b\<bar>) \<and> (maxSpan = None \<longrightarrow> shrunk maxSpan i a b = b)"
proof (cases maxSpan)
  case (Some m)
  obtain spn sign where g: "getSpanSign (ends_of i a b) i = (spn, sign)" by fastforce
  have "0 \<le> m" using assms(5) Some .
  then show ?thesis using assms(1-4) Some getSpanSign_ends [OF g] by (auto simp: shrunk_def g)
qed (use assms in \<open>simp add: shrunk_def\<close>)

lemma moveHandle_ends:
  assumes "lo \<le> hi" "\<And>m. minSpan = Some m \<Longrightarrow> 0 \<le> m \<and> m \<le> hi - lo"
  shows "\<exists>a b sign0. moveHandle delta h (lo, hi) i minSpan maxSpan = ends_of i a (shrunk maxSpan i a (expanded minSpan sign0 i a b)) \<and>
    lo \<le> a \<and> a \<le> hi \<and> lo \<le> b \<and> b \<le> hi \<and> (sign0 = 1 \<or> sign0 = -1) \<and>
    (\<forall>m. minSpan = Some m \<longrightarrow> lo \<le> a + sign0 * m \<and> a + sign0 * m \<le> hi)"
proof -
  let ?r = "\<lambda>v. restrict_to v (Some lo) (Some hi)"
  let ?h = "(?r (fst h), ?r (snd h))" and ?m = "case minSpan of None \<Rightarrow> 0 | Some m \<Rightarrow> m"
  define b where "b = other_end i ?h"
  obtain span0 sign0 where g: "getSpanSign ?h i = (span0, sign0)" by fastforce
  have sign0: "sign0 = 1 \<or> sign0 = -1" using g by (auto simp: getSpanSign_def Let_def split: if_splits)
  define a where "a = restrict_to (this_end i ?h + delta) (Some (if sign0 < 0 then lo + ?m else lo)) (Some (if sign0 < 0 then hi else hi - ?m))"
  have eq: "moveHandle delta h (lo, hi) i minSpan maxSpan = ends_of i a (shrunk maxSpan i a (expanded minSpan sign0 i a b))"
    by (cases minSpan; cases maxSpan; cases "sign0 < 0")
      (simp_all add: moveHandle_def Let_def g expanded_def shrunk_def a_def b_def split_beta)
  have b: "lo \<le> b" "b \<le> hi" using assms(1) by (auto simp: b_def other_end_def restrict_to_def)
  have m: "0 \<le> ?m" "?m \<le> hi - lo" using assms by (auto split: option.split)
  have between: "l \<le> restrict_to v (Some l) (Some u) \<and> restrict_to v (Some l) (Some u) \<le> u" if "l \<le> u" for v l u
    using that by (simp add: restrict_to_def)
  have a: "lo \<le> a" "a \<le> hi" "lo \<le> a + sign0 * ?m" "a + sign0 * ?m \<le> hi"
    using sign0 m between [of "lo + ?m" hi "this_end i ?h + delta"] between [of lo "hi - ?m" "this_end i ?h + delta"]
    unfolding a_def by auto
  then show ?thesis using eq b sign0 by (intro exI [of _ a] exI [of _ b] exI [of _ sign0]) auto
qed

lemma moveHandle_ok:
  assumes "lo \<le> hi" "\<And>m. minSpan = Some m \<Longrightarrow> 0 \<le> m \<and> m \<le> hi - lo"
    and maxSpan: "\<And>m. maxSpan = Some m \<Longrightarrow> 0 \<le> m \<and> (\<forall>n. minSpan = Some n \<longrightarrow> n \<le> m)"
  shows "window_ok (lo, hi) minSpan maxSpan (moveHandle delta h (lo, hi) i minSpan maxSpan)"
proof -
  obtain a b sign0 where m: "moveHandle delta h (lo, hi) i minSpan maxSpan = ends_of i a (shrunk maxSpan i a (expanded minSpan sign0 i a b))"
      "lo \<le> a" "a \<le> hi" "lo \<le> b" "b \<le> hi" "sign0 = 1 \<or> sign0 = -1"
      "\<forall>m. minSpan = Some m \<longrightarrow> lo \<le> a + sign0 * m \<and> a + sign0 * m \<le> hi"
    using moveHandle_ends [OF assms(1,2)] by blast
  define e where "e = expanded minSpan sign0 i a b"
  have e: "lo \<le> e" "e \<le> hi" "\<And>m. minSpan = Some m \<Longrightarrow> m \<le> \<bar>a - e\<bar>"
    using expanded_ok [OF m(4-6), of minSpan a i] m(7) assms(2) unfolding e_def by blast+
  show ?thesis
    using shrunk_ok [OF m(2,3) e(1,2), of maxSpan i] maxSpan e(3) m(2,3) unfolding m(1) ends_of_window e_def [symmetric]
    by (auto split: option.splits)
qed

lemma restrict_spans:
  assumes "0 \<le> w" "w \<le> e" "\<And>m. low = Some m \<Longrightarrow> 0 \<le> m \<and> m \<le> e"
    and "\<And>m. up = Some m \<Longrightarrow> 0 \<le> m \<and> (\<forall>n. low = Some n \<longrightarrow> n \<le> m)"
  shows "0 \<le> restrict_to w low up" "restrict_to w low up \<le> e" "\<And>m. low = Some m \<Longrightarrow> m \<le> restrict_to w low up"
    "\<And>m. up = Some m \<Longrightarrow> restrict_to w low up \<le> m"
proof -
  have "0 \<le> restrict_to w low up \<and> restrict_to w low up \<le> e \<and> (\<forall>m. low = Some m \<longrightarrow> m \<le> restrict_to w low up) \<and>
      (\<forall>m. up = Some m \<longrightarrow> restrict_to w low up \<le> m)"
    using assms by (cases low; cases up) (auto simp: restrict_to_def)
  then show "0 \<le> restrict_to w low up" "restrict_to w low up \<le> e" "\<And>m. low = Some m \<Longrightarrow> m \<le> restrict_to w low up"
      "\<And>m. up = Some m \<Longrightarrow> restrict_to w low up \<le> m"
    by blast+
qed

text \<open>
  C35: Whatever handle is moved how far, from whatever positions, the handles end within the extent, at least the
  smallest span apart (or the whole extent, if that is less) and not further apart than the largest span allows.
\<close>

theorem sliderMove_window:
  assumes "fst extent \<le> snd extent" "\<And>m. minSpan = Some m \<Longrightarrow> 0 \<le> m" "\<And>m. maxSpan = Some m \<Longrightarrow> 0 \<le> m"
  defines "low \<equiv> map_option (\<lambda>m. min m (snd extent - fst extent)) minSpan"
  shows "window_ok extent low (map_option (\<lambda>m. max m (case low of None \<Rightarrow> 0 | Some n \<Rightarrow> n)) maxSpan)
    (sliderMove delta h extent handleIndex minSpan maxSpan)"
proof -
  obtain lo hi where x: "extent = (lo, hi)" by fastforce
  have r: "map_option (\<lambda>m. restrict_to m (Some 0) (Some (hi - lo))) minSpan = low"
    using assms(1,2) by (cases minSpan) (auto simp: low_def restrict_to_def x)
  let ?max = "map_option (\<lambda>m. max m (case low of None \<Rightarrow> 0 | Some n \<Rightarrow> n)) maxSpan"
  have low: "\<And>m. low = Some m \<Longrightarrow> 0 \<le> m \<and> m \<le> hi - lo" using assms(1,2) by (auto simp: low_def x)
  have hi: "\<And>m. ?max = Some m \<Longrightarrow> 0 \<le> m \<and> (\<forall>n. low = Some n \<longrightarrow> n \<le> m)" using assms(3) by auto
  show ?thesis
  proof (cases handleIndex)
    case (Some i)
    then have "sliderMove delta h extent handleIndex minSpan maxSpan = moveHandle delta h (lo, hi) i low ?max"
      unfolding sliderMove_def Let_def x fst_conv snd_conv r by simp
    moreover have "window_ok (lo, hi) low ?max (moveHandle delta h (lo, hi) i low ?max)"
      using assms(1) x by (intro moveHandle_ok low hi) simp_all
    ultimately show ?thesis by (simp only: x)
  next
    case None
    define s where "s = restrict_to (restrict_to \<bar>snd h - fst h\<bar> (Some 0) (Some (hi - lo))) low ?max"
    define w where "w = restrict_to \<bar>snd h - fst h\<bar> (Some 0) (Some (hi - lo))"
    have w: "0 \<le> w" "w \<le> hi - lo" using assms(1) x by (simp_all add: w_def restrict_to_def)
    have s: "0 \<le> s" "s \<le> hi - lo" "\<And>m. low = Some m \<Longrightarrow> m \<le> s" "\<And>m. ?max = Some m \<Longrightarrow> s \<le> m"
      unfolding s_def w_def [symmetric] using restrict_spans [where low = low and up = ?max, OF w low hi] by blast+
    have "window_ok (lo, hi) (Some s) (Some s) (moveHandle delta h (lo, hi) False (Some s) (Some s))"
      using s assms(1) x by (intro moveHandle_ok) auto
    then have "window_ok (lo, hi) low ?max (moveHandle delta h (lo, hi) False (Some s) (Some s))"
      using s by (force simp: window_ok_def split: option.splits)
    moreover have "sliderMove delta h extent handleIndex minSpan maxSpan = moveHandle delta h (lo, hi) False (Some s) (Some s)"
      unfolding sliderMove_def Let_def x fst_conv snd_conv r s_def using None by simp
    ultimately show ?thesis by (simp only: x)
  qed
qed

theorem sliderMove_window_witness:
  "window_ok (0, 100) (Some 10) (Some 50) (sliderMove (-30) (20, 90) (0, 100) (Some True) (Some 10) (Some 50))"
  using sliderMove_window [of "(0, 100)" "Some 10" "Some 50" "-30" "(20, 90)" "Some True"] by simp

text \<open>Moving both handles keeps their distance, as long as it is within the extent and no spans are given.\<close>

lemma sliderMove_all:
  assumes "fst extent \<le> snd extent" "r = sliderMove delta h extent None None None"
  shows "\<bar>snd r - fst r\<bar> = min (snd extent - fst extent) \<bar>snd h - fst h\<bar>"
proof -
  obtain lo hi where x: "extent = (lo, hi)" by fastforce
  define s where "s = min (hi - lo) \<bar>snd h - fst h\<bar>"
  have "0 \<le> s" "s \<le> hi - lo" using assms(1) x by (simp_all add: s_def)
  then have "window_ok (lo, hi) (Some s) (Some s) (moveHandle delta h (lo, hi) False (Some s) (Some s))"
    by (intro moveHandle_ok) simp_all
  moreover have "r = moveHandle delta h (lo, hi) False (Some s) (Some s)"
    using assms by (simp add: sliderMove_def x restrict_to_def Let_def s_def)
  ultimately have "\<bar>snd r - fst r\<bar> = s" by (simp add: window_ok_def)
  then show ?thesis by (simp add: s_def x)
qed

end
