(* ===== verification/Treemap.thy ===== *)
theory Treemap
  imports Complex_Main
begin

text \<open>
  The squarified layout of a treemap (\<^verbatim>\<open>src/html/js/echarts.js\<close>, lines 58699-58980): the children of a node are
  sorted and filtered, share its area in proportion to their values and are placed in rows, and their own
  children are laid out in the same way.  What a node reads from its model is part of the node; values and
  sizes are real numbers, and \<^term>\<open>None\<close> as the score of a row is \<^verbatim>\<open>Infinity\<close>.  The data extents that
  \<^verbatim>\<open>statistic\<close> collects for the colours are not modelled.
\<close>

section \<open>Definitions\<close>

record cell =
  tx :: real
  ty :: real
  tw :: real
  th :: real

subsection \<open>Rows\<close>

text \<open>The areas of a row, and the score of the row: its worst aspect ratio.\<close>

definition areaMax :: "real list \<Rightarrow> real" where
  "areaMax row = fold (\<lambda>a m. if a \<noteq> 0 \<and> a > m then a else m) row 0"

definition areaMin :: "real list \<Rightarrow> real option" where
  "areaMin row = fold (\<lambda>a m. if a \<noteq> 0 \<and> (case m of None \<Rightarrow> True | Some x \<Rightarrow> a < x) then Some a else m) row None"

definition worst :: "real list \<Rightarrow> real \<Rightarrow> real \<Rightarrow> real \<Rightarrow> real option" where
  "worst row rowArea rowFixedLength ratio =
     (let squareArea = rowArea * rowArea;
          f = rowFixedLength * rowFixedLength * ratio
      in if squareArea \<noteq> 0
         then case areaMin row of
                None \<Rightarrow> Some (f * areaMax row / squareArea)
              | Some m \<Rightarrow> if f * m = 0 then None else Some (max (f * areaMax row / squareArea) (squareArea / (f * m)))
         else None)"

text \<open>The nodes of a row one after the other along the first direction of the rectangle.\<close>

primrec placeLoop :: "real \<Rightarrow> cell \<Rightarrow> real \<Rightarrow> real \<Rightarrow> real list \<Rightarrow> cell list" where
  "placeLoop halfGapWidth rect rowOtherLength pos [] = []"
| "placeLoop halfGapWidth rect rowOtherLength pos (area # row) =
     (let step = (if rowOtherLength \<noteq> 0 then area / rowOtherLength else 0);
          wh1 = max (rowOtherLength - 2 * halfGapWidth) 0;
          remain = tx rect + tw rect - pos;
          modWH = (if row = [] \<or> remain < step then remain else step);
          wh0 = max (modWH - 2 * halfGapWidth) 0
      in \<lparr>tx = pos + min halfGapWidth (wh0 / 2), ty = ty rect + min halfGapWidth (wh1 / 2), tw = wh0, th = wh1\<rparr> #
         placeLoop halfGapWidth rect rowOtherLength (pos + modWH) row)"

text \<open>The two directions change places when the fixed length is the height.\<close>

definition turned :: "cell \<Rightarrow> cell" where
  "turned c = \<lparr>tx = ty c, ty = tx c, tw = th c, th = tw c\<rparr>"

definition placeRow :: "real list \<Rightarrow> real \<Rightarrow> real \<Rightarrow> cell \<Rightarrow> real \<Rightarrow> bool \<Rightarrow> cell list \<times> cell" where
  "placeRow row rowArea rowFixedLength rect halfGapWidth flush =
     (let other = (if rowFixedLength \<noteq> 0 then rowArea / rowFixedLength else 0);
          other = (if flush \<or> other > th rect then th rect else other)
      in (placeLoop halfGapWidth rect other (tx rect) row, rect\<lparr>ty := ty rect + other, th := th rect - other\<rparr>))"

definition position :: "real list \<Rightarrow> real \<Rightarrow> real \<Rightarrow> cell \<Rightarrow> real \<Rightarrow> bool \<Rightarrow> cell list \<times> cell" where
  "position row rowArea rowFixedLength rect halfGapWidth flush =
     (if rowFixedLength = tw rect then placeRow row rowArea rowFixedLength rect halfGapWidth flush
      else let (cells, rect) = placeRow row rowArea rowFixedLength (turned rect) halfGapWidth flush
           in (map turned cells, turned rect))"

definition le_score :: "real option \<Rightarrow> real option \<Rightarrow> bool" where
  "le_score s t = (case (s, t) of (_, None) \<Rightarrow> True | (None, Some _) \<Rightarrow> False | (Some x, Some y) \<Rightarrow> x \<le> y)"

lemma le_score_None [simp]: "le_score s None"
  by (simp add: le_score_def split: option.split)

text \<open>The loop over the children: a row takes children as long as its score does not get worse.\<close>

function rowsLoop ::
  "real \<Rightarrow> real \<Rightarrow> cell \<Rightarrow> real \<Rightarrow> real option \<Rightarrow> real list \<Rightarrow> real \<Rightarrow> real list \<Rightarrow> cell list" where
  "rowsLoop halfGapWidth ratio rect fixed best row rowArea [] =
     (if row = [] then [] else fst (position row rowArea fixed rect halfGapWidth True))"
| "rowsLoop halfGapWidth ratio rect fixed best row rowArea (a # as) =
     (let score = worst (row @ [a]) (rowArea + a) fixed ratio
      in if le_score score best then rowsLoop halfGapWidth ratio rect fixed score (row @ [a]) (rowArea + a) as
         else let (cells, rect) = position row rowArea fixed rect halfGapWidth False
              in cells @ rowsLoop halfGapWidth ratio rect (min (tw rect) (th rect)) None [] 0 (a # as))"
  by pat_completeness auto
termination
proof (relation "measures [\<lambda>(g, r, rect, fixed, best, row, rowArea, as). length as,
    \<lambda>(g, r, rect, fixed, best, row, rowArea, as). if best = None then 0 else 1]", goal_cases)
  case (3 g ratio rect fixed best row rowArea a as score)
  then have "best \<noteq> None" by (metis le_score_None)
  then show ?case by simp
qed simp_all

declare rowsLoop.simps(2) [simp del]

definition layoutRows :: "real \<Rightarrow> real \<Rightarrow> cell \<Rightarrow> real list \<Rightarrow> cell list" where
  "layoutRows halfGapWidth ratio rect areas = rowsLoop halfGapWidth ratio rect (min (tw rect) (th rect)) None [] 0 areas"

subsection \<open>The tree\<close>

datatype order = Asc | Desc

record tm_options =
  o_sort :: "order option"
  squareRatio :: real
  leafDepth :: "nat option"

record tm_model =
  borderWidth :: real
  gapWidth :: real
  upperLabelHeight :: real
  visibleMin :: real
  childrenVisibleMin :: "real option"

datatype tm_node = TNode (getValue: real) (dataIndex: nat) (isRemoved: bool) (getModel: tm_model) (children: "tm_node list")

definition sort_children :: "order option \<Rightarrow> tm_node list \<Rightarrow> tm_node list" where
  "sort_children orderBy ns = (case orderBy of
     None \<Rightarrow> ns
   | Some Asc \<Rightarrow> sort_key getValue (sort_key dataIndex ns)
   | Some Desc \<Rightarrow> sort_key (\<lambda>n. - getValue n) (sort_key (\<lambda>n. - int (dataIndex n)) ns))"

definition statistic :: "tm_node list \<Rightarrow> real" where
  "statistic ns = fold (\<lambda>n total_value. total_value + getValue n) ns 0"

text \<open>From little to big values: the number of nodes to remove and the sum that is left.\<close>

fun thresholdLoop :: "real \<Rightarrow> real \<Rightarrow> real list \<Rightarrow> nat \<Rightarrow> nat \<Rightarrow> real \<Rightarrow> nat \<times> real" where
  "thresholdLoop totalArea vmin [] k cnt total_value = (cnt, total_value)"
| "thresholdLoop totalArea vmin (v # vs) k cnt total_value =
     (if total_value \<noteq> 0 \<and> v / total_value * totalArea < vmin then thresholdLoop totalArea vmin vs (Suc k) (Suc k) (total_value - v)
      else thresholdLoop totalArea vmin vs (Suc k) cnt total_value)"

definition filterByThreshold :: "tm_model \<Rightarrow> real \<Rightarrow> real \<Rightarrow> order option \<Rightarrow> tm_node list \<Rightarrow> tm_node list \<times> real" where
  "filterByThreshold m totalArea total_value orderBy ns = (case orderBy of
     None \<Rightarrow> (ns, total_value)
   | Some Asc \<Rightarrow>
       let (cnt, total_value) = thresholdLoop totalArea (visibleMin m) (map getValue ns) 0 0 total_value in (drop cnt ns, total_value)
   | Some Desc \<Rightarrow>
       let (cnt, total_value) = thresholdLoop totalArea (visibleMin m) (map getValue (rev ns)) 0 0 total_value in (take (length ns - cnt) ns, total_value))"

text \<open>The children that are shown, each with its area.\<close>

definition initChildren :: "tm_options \<Rightarrow> bool \<Rightarrow> nat \<Rightarrow> real \<Rightarrow> tm_node \<Rightarrow> (tm_node \<times> real) list" where
  "initChildren opts hideChildren depth totalArea node =
     (let overLeafDepth = (case leafDepth opts of None \<Rightarrow> False | Some d \<Rightarrow> d \<le> depth)
      in if hideChildren \<and> \<not> overLeafDepth then []
         else let ns = sort_children (o_sort opts) (filter (\<lambda>n. \<not> isRemoved n) (children node));
                  total_value = statistic ns
              in if total_value = 0 then []
                 else let (ns, total_value) = filterByThreshold (getModel node) totalArea total_value (o_sort opts) ns
                      in if total_value = 0 \<or> overLeafDepth then []
                         else map (\<lambda>n. (n, getValue n / total_value * totalArea)) ns)"

text \<open>The rectangle in which the children of a node are placed, within the node.\<close>

definition content :: "tm_model \<Rightarrow> real \<Rightarrow> real \<Rightarrow> cell" where
  "content m width height =
     (let halfGapWidth = gapWidth m / 2;
          upperHeight = max (borderWidth m) (upperLabelHeight m);
          layoutOffset = borderWidth m - halfGapWidth;
          layoutOffsetUpper = upperHeight - halfGapWidth
      in \<lparr>tx = layoutOffset, ty = layoutOffsetUpper, tw = max (width - 2 * layoutOffset) 0,
          th = max (height - layoutOffset - layoutOffsetUpper) 0\<rparr>)"

datatype tm_layout = TLayout (l_node: tm_node) (l_cell: cell) (l_children: "tm_layout list")

function squarify :: "tm_options \<Rightarrow> bool \<Rightarrow> nat \<Rightarrow> real \<Rightarrow> real \<Rightarrow> tm_node \<Rightarrow> tm_layout list" where
  "squarify opts hideChildren depth width height node =
     (if isRemoved node then []
      else let m = getModel node;
               rect = content m width height;
               totalArea = tw rect * th rect;
               view = initChildren opts hideChildren depth totalArea node;
               cells = layoutRows (gapWidth m / 2) (squareRatio opts) rect (map snd view);
               hide = (hideChildren \<or> (case childrenVisibleMin m of None \<Rightarrow> False | Some c \<Rightarrow> totalArea < c))
           in map (\<lambda>((n, area), c). TLayout n c (squarify opts hide (Suc depth) (tw c) (th c) n)) (zip view cells))"
  by pat_completeness auto

lemma set_sort_children: "set (sort_children orderBy ns) = set ns"
  by (simp add: sort_children_def split: option.split order.split)

lemma set_filterByThreshold: "set (fst (filterByThreshold m totalArea total_value orderBy ns)) \<subseteq> set ns"
  by (auto simp: filterByThreshold_def split_beta split: option.split order.split dest: in_set_takeD in_set_dropD)

lemma initChildren_children:
  assumes "p \<in> set (initChildren opts hideChildren depth totalArea node)"
  shows "fst p \<in> set (children node)"
proof -
  let ?ns = "sort_children (o_sort opts) (filter (\<lambda>n. \<not> isRemoved n) (children node))"
  have "fst p \<in> set (fst (filterByThreshold (getModel node) totalArea (statistic ?ns) (o_sort opts) ?ns))"
    using assms unfolding initChildren_def Let_def split_beta by (auto split: if_splits)
  then have "fst p \<in> set ?ns" using set_filterByThreshold by blast
  then show ?thesis unfolding set_sort_children by simp
qed

lemma size_children: "n \<in> set (children node) \<Longrightarrow> size n < size node"
  using size_list_estimation' [of n "children node" "size n" size] by (cases node) simp

termination squarify
proof (relation "measure (\<lambda>(opts, hide, depth, w, h, node). size node)", goal_cases)
  case (2 opts hide depth width height node m rect totalArea view cells hide' z p c n a)
  then have "(n, a) \<in> set (initChildren opts hide depth totalArea node)" by (auto dest: set_zip_leftD)
  then have "size n < size node" using initChildren_children size_children by fastforce
  then show ?case by simp
qed simp

declare squarify.simps [simp del]

section \<open>Rows tile the rectangle\<close>

definition inside :: "cell \<Rightarrow> cell \<Rightarrow> bool" where
  "inside c r \<longleftrightarrow> 0 \<le> tw c \<and> 0 \<le> th c \<and> tx r \<le> tx c \<and> tx c + tw c \<le> tx r + tw r \<and> ty r \<le> ty c \<and> ty c + th c \<le> ty r + th r"

definition apart :: "cell \<Rightarrow> cell \<Rightarrow> bool" where
  "apart c d \<longleftrightarrow> tx c + tw c \<le> tx d \<or> tx d + tw d \<le> tx c \<or> ty c + th c \<le> ty d \<or> ty d + th d \<le> ty c"

text \<open>Cells of the given areas within a rectangle, no two of which overlap.\<close>

definition tiles :: "real list \<Rightarrow> cell list \<Rightarrow> cell \<Rightarrow> bool" where
  "tiles areas cells r \<longleftrightarrow> list_all2 (\<lambda>a c. tw c * th c = a \<and> inside c r) areas cells \<and> sorted_wrt apart cells"

lemma inside_trans: "inside c d \<Longrightarrow> inside d r \<Longrightarrow> inside c r"
  by (auto simp: inside_def)

lemma apart_inside: "apart u v \<Longrightarrow> inside c u \<Longrightarrow> inside d v \<Longrightarrow> apart c d"
  by (auto simp: inside_def apart_def)

lemma tiles_inside: "tiles areas cells r \<Longrightarrow> c \<in> set cells \<Longrightarrow> inside c r"
  by (auto simp: tiles_def list_all2_conv_all_nth in_set_conv_nth)

lemma tiles_append:
  assumes "tiles as cs u" "tiles bs ds v" "inside u r" "inside v r" "apart u v"
  shows "tiles (as @ bs) (cs @ ds) r"
proof -
  have "list_all2 (\<lambda>a c. tw c * th c = a \<and> inside c r) as cs" "list_all2 (\<lambda>a c. tw c * th c = a \<and> inside c r) bs ds"
    using assms unfolding tiles_def by (auto elim!: list_all2_mono intro: inside_trans)
  moreover have "apart c d" if "c \<in> set cs" "d \<in> set ds" for c d
    using tiles_inside [OF assms(1) that(1)] tiles_inside [OF assms(2) that(2)] apart_inside assms(5) by blast
  ultimately show ?thesis using assms unfolding tiles_def by (simp add: sorted_wrt_append list_all2_appendI)
qed

lemma turned_simps [simp]:
  "tx (turned c) = ty c" "ty (turned c) = tx c" "tw (turned c) = th c" "th (turned c) = tw c"
  by (simp_all add: turned_def)

lemma inside_turned [simp]: "inside (turned c) (turned r) = inside c r"
  by (auto simp: inside_def)

lemma apart_turned [simp]: "apart (turned c) (turned d) = apart c d"
  by (auto simp: apart_def)

lemma tiles_turned: "tiles areas cells r \<Longrightarrow> tiles areas (map turned cells) (turned r)"
  by (simp add: tiles_def list_all2_map2 sorted_wrt_map mult.commute)

lemma placeLoop_tiles:
  assumes "\<forall>a \<in> set as. 0 \<le> a" "0 \<le> other" "sum_list as = (tx r + tw r - pos) * other" "pos \<le> tx r + tw r"
  shows "tiles as (placeLoop 0 r other pos as) \<lparr>tx = pos, ty = ty r, tw = tx r + tw r - pos, th = other\<rparr>"
  using assms
proof (induction as arbitrary: pos)
  case Nil
  then show ?case by (simp add: tiles_def)
next
  case (Cons a as)
  let ?R = "tx r + tw r - pos" and ?step = "if other \<noteq> 0 then a / other else 0"
  define m where "m = (if as = [] \<or> ?R < ?step then ?R else ?step)"
  have rest: "0 \<le> sum_list as" using Cons.prems(1) by (intro sum_list_nonneg) simp
  have le: "?step \<le> ?R" using Cons.prems rest by (auto simp: pos_divide_le_eq)
  have zero: "other = 0 \<Longrightarrow> a = 0" using Cons.prems(1,3) rest by simp
  have m: "0 \<le> m" "m \<le> ?R" "m * other = a"
    using Cons.prems le zero rest by (auto simp: m_def)
  let ?c = "\<lparr>tx = pos, ty = ty r, tw = m, th = other\<rparr>" and ?rest = "\<lparr>tx = pos + m, ty = ty r, tw = tx r + tw r - (pos + m), th = other\<rparr>"
  have "tiles as (placeLoop 0 r other (pos + m) as) ?rest"
    using Cons.prems m by (intro Cons.IH) (auto simp: algebra_simps)
  moreover have "tiles [a] [?c] ?c" using m Cons.prems(2) by (simp add: tiles_def inside_def)
  ultimately have "tiles ([a] @ as) ([?c] @ placeLoop 0 r other (pos + m) as) \<lparr>tx = pos, ty = ty r, tw = ?R, th = other\<rparr>"
    using m Cons.prems(2) by (intro tiles_append) (auto simp: inside_def apart_def)
  moreover have "placeLoop 0 r other pos (a # as) = ?c # placeLoop 0 r other (pos + m) as"
    using m(1) Cons.prems(2) by (simp add: Let_def m_def)
  ultimately show ?case by simp
qed

text \<open>A row uses one part of the rectangle and leaves the other.\<close>

definition splits :: "cell \<Rightarrow> cell \<Rightarrow> cell \<Rightarrow> bool" where
  "splits r u v \<longleftrightarrow> inside u r \<and> inside v r \<and> apart u v \<and> tw u * th u + tw v * th v = tw r * th r"

lemma splits_turned [simp]: "splits (turned r) (turned u) (turned v) = splits r u v"
  by (simp add: splits_def mult.commute)

lemma placeRow_tiles:
  assumes "\<forall>a \<in> set row. 0 \<le> a" "0 \<le> tw r" "0 \<le> th r" "sum_list row \<le> tw r * th r" "flush \<Longrightarrow> sum_list row = tw r * th r"
  shows "\<exists>cells u v. placeRow row (sum_list row) (tw r) r 0 flush = (cells, v) \<and> tiles row cells u \<and> splits r u v \<and> tw u * th u = sum_list row"
proof -
  define other where "other = (let x = (if tw r \<noteq> 0 then sum_list row / tw r else 0) in if flush \<or> x > th r then th r else x)"
  have nonneg: "0 \<le> sum_list row" using assms(1) by (intro sum_list_nonneg) simp
  have o: "0 \<le> other \<and> other \<le> th r \<and> tw r * other = sum_list row"
  proof (cases "tw r = 0")
    case True
    then show ?thesis using assms(3,4) nonneg by (auto simp: other_def Let_def)
  next
    case False
    then have "sum_list row / tw r \<le> th r" using assms(2,4) by (simp add: pos_divide_le_eq mult.commute)
    then show ?thesis using False assms nonneg by (auto simp: other_def Let_def)
  qed
  let ?u = "\<lparr>tx = tx r, ty = ty r, tw = tw r, th = other\<rparr>" and ?v = "r\<lparr>ty := ty r + other, th := th r - other\<rparr>"
  have "tiles row (placeLoop 0 r other (tx r) row) ?u"
    using placeLoop_tiles [OF assms(1), of other r "tx r"] o assms(2) by simp
  moreover have "splits r ?u ?v" using o assms(2) by (simp add: splits_def inside_def apart_def algebra_simps)
  moreover have "placeRow row (sum_list row) (tw r) r 0 flush = (placeLoop 0 r other (tx r) row, ?v)"
    by (simp add: placeRow_def other_def Let_def)
  ultimately show ?thesis using o by fastforce
qed

lemma position_tiles:
  assumes "\<forall>a \<in> set row. 0 \<le> a" "0 \<le> tw r" "0 \<le> th r" "sum_list row \<le> tw r * th r" "flush \<Longrightarrow> sum_list row = tw r * th r"
  shows "\<exists>cells u v. position row (sum_list row) (min (tw r) (th r)) r 0 flush = (cells, v) \<and> tiles row cells u \<and> splits r u v \<and>
    tw u * th u = sum_list row"
proof (cases "min (tw r) (th r) = tw r")
  case True
  then show ?thesis using placeRow_tiles [OF assms] by (simp add: position_def)
next
  case False
  then have fixed: "min (tw r) (th r) = th r" by (simp add: min_def split: if_splits)
  obtain cells u v where p: "placeRow row (sum_list row) (th r) (turned r) 0 flush = (cells, v)" "tiles row cells u"
      "splits (turned r) u v" "tw u * th u = sum_list row"
    using placeRow_tiles [of row "turned r" flush] assms by (auto simp: mult.commute)
  have tt: "turned (turned c) = c" for c :: cell by (simp add: turned_def)
  have "position row (sum_list row) (min (tw r) (th r)) r 0 flush = (map turned cells, turned v)"
    using False fixed p(1) by (simp add: position_def)
  moreover have "splits r (turned u) (turned v)" using p(3) splits_turned [of r "turned u" "turned v"] by (simp add: tt)
  ultimately show ?thesis using tiles_turned [OF p(2)] p(4) by (metis mult.commute turned_simps(3,4))
qed

lemma rowsLoop_tiles:
  assumes "\<forall>a \<in> set (row @ as). 0 \<le> a" "rowArea = sum_list row" "fixed = min (tw r) (th r)" "0 \<le> tw r" "0 \<le> th r"
    and "sum_list row + sum_list as = tw r * th r"
  shows "tiles (row @ as) (rowsLoop 0 ratio r fixed best row rowArea as) r"
  using assms
proof (induction "0 :: real" ratio r fixed best row rowArea as rule: rowsLoop.induct)
  case (1 ratio r fixed best row rowArea)
  show ?case
  proof (cases "row = []")
    case False
    obtain cells u v where "position row (sum_list row) (min (tw r) (th r)) r 0 True = (cells, v)" "tiles row cells u" "splits r u v"
      using position_tiles [of row r True] 1 by auto
    then have "tiles row cells r" unfolding splits_def tiles_def by (auto elim!: list_all2_mono intro: inside_trans)
    then show ?thesis using False 1 \<open>position row _ _ _ _ _ = _\<close> by simp
  qed (simp add: tiles_def)
next
  case (2 ratio r fixed best row rowArea a as)
  let ?score = "worst (row @ [a]) (rowArea + a) fixed ratio"
  show ?case
  proof (cases "le_score ?score best")
    case True
    then show ?thesis using 2(1) [OF refl True] 2(3-8) by (subst rowsLoop.simps(2)) simp
  next
    case False
    have "0 \<le> sum_list (a # as)" using 2(3) by (intro sum_list_nonneg) auto
    then have le: "sum_list row \<le> tw r * th r" using 2(8) by simp
    obtain cells u v where p: "position row (sum_list row) (min (tw r) (th r)) r 0 False = (cells, v)" "tiles row cells u"
        "splits r u v" "tw u * th u = sum_list row"
      using position_tiles [of row r False] le 2(3-8) by auto
    then have "tiles ([] @ a # as) (rowsLoop 0 ratio v (min (tw v) (th v)) None [] 0 (a # as)) v"
      using 2(3-8) by (intro 2(2) [OF refl False _ refl]) (auto simp: splits_def inside_def)
    then have "tiles (row @ a # as) (cells @ rowsLoop 0 ratio v (min (tw v) (th v)) None [] 0 (a # as)) r"
      using p(2,3) by (intro tiles_append) (auto simp: splits_def)
    then show ?thesis using False p(1) 2(4,5) by (subst rowsLoop.simps(2)) simp
  qed
qed

text \<open>With gaps every cell lies within the cell it has without gaps.\<close>

lemma placeLoop_gap:
  assumes "0 \<le> g"
  shows "list_all2 inside (placeLoop g r other pos as) (placeLoop 0 r other pos as)"
proof (induction as arbitrary: pos)
  case (Cons a as)
  have inset: "0 \<le> max (x - 2 * g) 0 \<and> 0 \<le> min g (max (x - 2 * g) 0 / 2) \<and>
      min g (max (x - 2 * g) 0 / 2) + max (x - 2 * g) 0 \<le> max x 0" for x :: real
    using assms by (auto simp: min_def max_def)
  show ?case using Cons.IH inset by (simp add: Let_def inside_def)
qed simp

lemma position_gap:
  assumes "0 \<le> g"
  shows "list_all2 inside (fst (position row rowArea fixed r g flush)) (fst (position row rowArea fixed r 0 flush)) \<and>
    snd (position row rowArea fixed r g flush) = snd (position row rowArea fixed r 0 flush)"
  using placeLoop_gap [OF assms]
  by (simp add: position_def placeRow_def Let_def split_beta list_all2_map1 list_all2_map2)

lemma rowsLoop_gap:
  assumes "0 \<le> g"
  shows "list_all2 inside (rowsLoop g ratio r fixed best row rowArea as) (rowsLoop 0 ratio r fixed best row rowArea as)"
  using assms
proof (induction g ratio r fixed best row rowArea as rule: rowsLoop.induct)
  case (1 g ratio r fixed best row rowArea)
  then show ?case using position_gap by simp
next
  case (2 g ratio r fixed best row rowArea a as)
  let ?score = "worst (row @ [a]) (rowArea + a) fixed ratio"
  show ?case
  proof (cases "le_score ?score best")
    case True
    then show ?thesis using 2(1) [OF refl True 2(3)] by (simp add: rowsLoop.simps(2))
  next
    case False
    obtain cells v cells0 where p: "position row rowArea fixed r g False = (cells, v)" "position row rowArea fixed r 0 False = (cells0, v)"
        "list_all2 inside cells cells0"
      using position_gap [OF 2(3), of row rowArea fixed r False] by (metis prod.collapse)
    then show ?thesis using False 2(2) [OF refl False p(1) [symmetric] refl 2(3)]
      by (simp add: rowsLoop.simps(2) list_all2_appendI)
  qed
qed

section \<open>The areas of the children\<close>

lemma statistic_sum: "statistic ns = sum_list (map getValue ns)"
proof -
  have "fold (\<lambda>n s. s + getValue n) ns x = x + sum_list (map getValue ns)" for x
    by (induction ns arbitrary: x) (simp_all add: algebra_simps)
  then show ?thesis by (simp add: statistic_def)
qed

lemma thresholdLoop_stops:
  assumes "s = 0 \<or> (\<forall>v \<in> set vs. \<not> v / s * A < vmin)"
  shows "thresholdLoop A vmin vs k cnt s = (cnt, s)"
  using assms by (induction vs arbitrary: k) auto

text \<open>The values that are removed are the smallest ones, and the rest is the sum of the others.\<close>

lemma thresholdLoop_spec:
  assumes "sorted vs" "\<forall>v \<in> set vs. 0 \<le> v" "0 \<le> A"
  shows "\<exists>j. thresholdLoop A vmin vs k k (sum_list vs) = (k + j, sum_list (drop j vs)) \<and> j \<le> length vs"
  using assms
proof (induction vs arbitrary: k)
  case (Cons v vs)
  let ?s = "sum_list (v # vs)"
  show ?case
  proof (cases "?s \<noteq> 0 \<and> v / ?s * A < vmin")
    case True
    obtain j where "thresholdLoop A vmin vs (Suc k) (Suc k) (sum_list vs) = (Suc k + j, sum_list (drop j vs))" "j \<le> length vs"
      using Cons.IH [of "Suc k"] Cons.prems by auto
    then show ?thesis using True by (intro exI [of _ "Suc j"]) simp
  next
    case False
    have "0 \<le> ?s" using Cons.prems(2) by (intro sum_list_nonneg) auto
    then have "v / ?s * A \<le> w / ?s * A" if "w \<in> set vs" for w
      using Cons.prems that by (intro mult_right_mono divide_right_mono) auto
    then have "?s = 0 \<or> (\<forall>w \<in> set vs. \<not> w / ?s * A < vmin)" using False by fastforce
    then have "thresholdLoop A vmin vs (Suc k) k ?s = (k, ?s)" by (rule thresholdLoop_stops)
    moreover have "thresholdLoop A vmin (v # vs) k k ?s = thresholdLoop A vmin vs (Suc k) k ?s"
      using False by (simp only: thresholdLoop.simps if_False)
    ultimately show ?thesis by (intro exI [of _ 0]) simp
  qed
qed simp

lemma filterByThreshold_sum:
  assumes "ns = sort_children orderBy ns'" "\<forall>n \<in> set ns. 0 \<le> getValue n" "0 \<le> A"
    and "filterByThreshold m A (sum_list (map getValue ns)) orderBy ns = (ms, s)"
  shows "s = sum_list (map getValue ms)"
proof (cases orderBy)
  case (Some ord)
  show ?thesis
  proof (cases ord)
    case Asc
    have "sorted (map getValue ns)" using assms(1) Some Asc by (simp add: sort_children_def)
    then obtain j where "thresholdLoop A (visibleMin m) (map getValue ns) 0 0 (sum_list (map getValue ns)) = (0 + j, sum_list (drop j (map getValue ns)))"
      using thresholdLoop_spec [of "map getValue ns" A "visibleMin m" 0] assms(2,3) by auto
    then show ?thesis using assms(4) Some Asc by (auto simp: filterByThreshold_def drop_map)
  next
    case Desc
    have "sorted (map (\<lambda>n. - getValue n) ns)" using assms(1) Some Desc by (simp add: sort_children_def)
    then have "sorted_wrt (\<lambda>x y. getValue y \<le> getValue x) ns" by (simp add: sorted_map)
    then have "sorted (map getValue (rev ns))" by (simp add: sorted_map sorted_wrt_rev)
    then obtain j where j: "thresholdLoop A (visibleMin m) (map getValue (rev ns)) 0 0 (sum_list (map getValue (rev ns))) =
        (0 + j, sum_list (drop j (map getValue (rev ns))))" "j \<le> length (map getValue (rev ns))"
      using thresholdLoop_spec [of "map getValue (rev ns)" A "visibleMin m" 0] assms(2,3) by auto
    have "sum_list (map getValue (rev ns)) = sum_list (map getValue ns)"
      unfolding rev_map [symmetric] by (rule sum_list_rev)
    moreover have "drop j (map getValue (rev ns)) = rev (map getValue (take (length ns - j) ns))"
      by (simp add: rev_map [symmetric] drop_map [symmetric] drop_rev take_map)
    ultimately show ?thesis using assms(4) Some Desc j(1) by (auto simp: filterByThreshold_def sum_list_rev)
  qed
qed (use assms in \<open>auto simp: filterByThreshold_def\<close>)

lemma initChildren_areas:
  assumes "\<forall>n \<in> set (children node). 0 \<le> getValue n" "0 \<le> A"
  shows "\<exists>s. s = (\<Sum>p \<leftarrow> initChildren opts hide depth A node. getValue (fst p)) \<and>
    (\<forall>p \<in> set (initChildren opts hide depth A node). snd p = getValue (fst p) / s * A \<and> 0 \<le> snd p) \<and>
    (initChildren opts hide depth A node \<noteq> [] \<longrightarrow> sum_list (map snd (initChildren opts hide depth A node)) = A)"
proof (cases "initChildren opts hide depth A node = []")
  case False
  define ns where "ns = sort_children (o_sort opts) (filter (\<lambda>n. \<not> isRemoved n) (children node))"
  obtain ms s where f: "filterByThreshold (getModel node) A (statistic ns) (o_sort opts) ns = (ms, s)" by fastforce
  have i: "initChildren opts hide depth A node = map (\<lambda>n. (n, getValue n / s * A)) ms" "s \<noteq> 0"
    using False f unfolding initChildren_def Let_def ns_def [symmetric] by (auto split: if_splits)
  have ns: "\<forall>n \<in> set ns. 0 \<le> getValue n" using assms(1) by (simp add: ns_def set_sort_children)
  then have s: "s = sum_list (map getValue ms)"
    using filterByThreshold_sum [OF ns_def _ assms(2)] f by (simp add: statistic_sum)
  have "\<forall>n \<in> set ms. 0 \<le> getValue n" using ns f set_filterByThreshold by (metis fst_conv subsetD)
  moreover from this have "0 \<le> s" unfolding s by (intro sum_list_nonneg) auto
  moreover have "sum_list (map (\<lambda>n. getValue n / s * A) ms) = A"
  proof -
    have "sum_list (map (\<lambda>n. getValue n / s * A) ms) = sum_list (map getValue ms) * (A / s)"
      by (induction ms) (simp_all add: algebra_simps)
    then show ?thesis using s i(2) by simp
  qed
  ultimately show ?thesis using assms(2) s by (auto simp: i(1) comp_def)
qed simp

text \<open>
  C29: The children of a node that are shown have places of their own in its rectangle: places that do not overlap
  and whose areas are to each other as the values of the children and fill the rectangle, and every
  child lies within its place, with whatever gap; at every depth and for every order and threshold.
\<close>

theorem squarify_tiles:
  assumes "\<forall>n \<in> set (children node). 0 \<le> getValue n" "0 \<le> gapWidth (getModel node)"
    and "ls = squarify opts hideChildren depth width height node" "r = content (getModel node) width height"
  shows "\<exists>places. sorted_wrt apart places \<and>
    list_all2 (\<lambda>l place. inside (l_cell l) place \<and> inside place r \<and>
      tw place * th place = getValue (l_node l) / (\<Sum>l \<leftarrow> ls. getValue (l_node l)) * (tw r * th r)) ls places"
proof (cases "ls = []")
  case True
  then show ?thesis by (intro exI [of _ "[]"]) simp
next
  case False
  let ?A = "tw r * th r" and ?m = "getModel node"
  define view where "view = initChildren opts hideChildren depth ?A node"
  define cells where "cells = layoutRows (gapWidth ?m / 2) (squareRatio opts) r (map snd view)"
  define places where "places = layoutRows 0 (squareRatio opts) r (map snd view)"
  have r: "0 \<le> tw r" "0 \<le> th r" by (simp_all add: assms(4) content_def Let_def)
  obtain hide where ls: "ls = map (\<lambda>((n, area), c). TLayout n c (squarify opts hide (Suc depth) (tw c) (th c) n)) (zip view cells)"
    using False unfolding assms(3) cells_def view_def assms(4)
    by (subst (asm) (1 2) squarify.simps) (auto simp: Let_def split: if_splits)
  then have "view \<noteq> []" using False by auto
  define s where "s = (\<Sum>p \<leftarrow> view. getValue (fst p))"
  have areas: "\<forall>p \<in> set view. snd p = getValue (fst p) / s * ?A \<and> 0 \<le> snd p" "sum_list (map snd view) = ?A"
    using initChildren_areas [OF assms(1), of ?A opts hideChildren depth] r \<open>view \<noteq> []\<close>
    unfolding view_def [symmetric] s_def by fastforce+
  have tiled: "tiles (map snd view) places r"
  proof -
    have "\<forall>a \<in> set (map snd view). 0 \<le> a" using areas(1) by auto
    then show ?thesis
      using rowsLoop_tiles [of "[]" "map snd view" 0 "min (tw r) (th r)" r "squareRatio opts" None] areas(2) r
      unfolding places_def layoutRows_def by simp
  qed
  have gap: "list_all2 inside cells places"
    unfolding cells_def places_def layoutRows_def using assms(2) by (intro rowsLoop_gap) simp
  have len: "length view = length places" "length cells = length places"
    using tiled gap by (auto simp: tiles_def dest: list_all2_lengthD)
  have "(\<Sum>l \<leftarrow> ls. getValue (l_node l)) = (\<Sum>p \<leftarrow> map fst (zip view cells). getValue (fst p))"
    unfolding ls by (simp add: comp_def split_beta)
  then have s: "(\<Sum>l \<leftarrow> ls. getValue (l_node l)) = s" using len by (simp add: s_def)
  have area: "snd (view ! i) = getValue (fst (view ! i)) / s * ?A" if "i < length view" for i
    using areas(1) nth_mem [OF that] by blast
  have "list_all2 (\<lambda>l place. inside (l_cell l) place \<and> inside place r \<and>
      tw place * th place = getValue (l_node l) / s * ?A) ls places"
    using tiled gap area len by (simp add: ls list_all2_conv_all_nth tiles_def split_beta)
  then show ?thesis using tiled s by (auto simp: tiles_def)
qed

definition sample_model :: tm_model where
  "sample_model = \<lparr>borderWidth = 1, gapWidth = 2, upperLabelHeight = 0, visibleMin = 0, childrenVisibleMin = None\<rparr>"

definition sample :: tm_node where
  "sample = TNode 6 0 False sample_model [TNode 2 1 False sample_model [], TNode 4 2 False sample_model []]"

definition sample_options :: tm_options where
  "sample_options = \<lparr>o_sort = Some Desc, squareRatio = 1, leafDepth = None\<rparr>"

theorem squarify_tiles_witness:
  "\<exists>places. sorted_wrt apart places \<and>
    list_all2 (\<lambda>l place. inside (l_cell l) place \<and> inside place (content sample_model 10 6) \<and>
      tw place * th place = getValue (l_node l) / (\<Sum>l \<leftarrow> squarify sample_options False 0 10 6 sample. getValue (l_node l)) *
        (tw (content sample_model 10 6) * th (content sample_model 10 6))) (squarify sample_options False 0 10 6 sample) places"
  by (rule squarify_tiles [OF _ _ refl]) (simp_all add: sample_def sample_model_def)

end
