(* ===== verification/Ordinal.thy ===== *)
theory Ordinal
  imports Complex_Main Transitions
begin

text \<open>
  Categories of an axis and the scale on them (\<^verbatim>\<open>src/html/js/echarts.js\<close>, lines 33365-33448 and 33540-33744, with the
  extents of the class \<^verbatim>\<open>Scale\<close>): the ordinal numbers of categories, and the order in which they are
  displayed when the axis is sorted.  A category is a string or a number; \<^verbatim>\<open>NaN\<close> and \<^verbatim>\<open>undefined\<close> are \<^term>\<open>None\<close>.
  The map of the categories is created when it is needed first, and the extents are integers.
\<close>

section \<open>Definitions\<close>

subsection \<open>Categories\<close>

datatype category = CStr string | CNum real

record ordinal_meta =
  categories :: "category list"
  needCollect :: bool
  deduplication :: bool
  cat_map :: "(category \<rightharpoonup> nat) option"

definition OrdinalMeta :: "category list \<Rightarrow> bool \<Rightarrow> bool \<Rightarrow> ordinal_meta" where
  "OrdinalMeta cs collect dedup = \<lparr>categories = cs, needCollect = collect, deduplication = dedup, cat_map = None\<rparr>"

text \<open>A map from an array has the elements as keys and the indices as values; the last one counts.\<close>

definition createHashMap :: "category list \<Rightarrow> category \<rightharpoonup> nat" where
  "createHashMap cs = fold (\<lambda>(i, c) m. m(c \<mapsto> i)) (enumerate 0 cs) Map.empty"

definition getOrCreateMap :: "ordinal_meta \<Rightarrow> (category \<rightharpoonup> nat) \<times> ordinal_meta" where
  "getOrCreateMap m = (case cat_map m of
     Some f \<Rightarrow> (f, m)
   | None \<Rightarrow> let f = createHashMap (categories m) in (f, m\<lparr>cat_map := Some f\<rparr>))"

definition getOrdinal :: "category \<Rightarrow> ordinal_meta \<Rightarrow> nat option \<times> ordinal_meta" where
  "getOrdinal c m = (let (f, m) = getOrCreateMap m in (f c, m))"

definition parseAndCollect :: "category \<Rightarrow> ordinal_meta \<Rightarrow> real option \<times> ordinal_meta" where
  "parseAndCollect c m =
     (case (c, needCollect m) of
        (CNum x, False) \<Rightarrow> (Some x, m)
      | _ \<Rightarrow>
          if needCollect m \<and> \<not> deduplication m
          then (Some (real (length (categories m))), m\<lparr>categories := categories m @ [c]\<rparr>)
          else let (f, m) = getOrCreateMap m
               in case f c of
                    Some i \<Rightarrow> (Some (real i), m)
                  | None \<Rightarrow>
                      if needCollect m
                      then let i = length (categories m)
                           in (Some (real i), m\<lparr>categories := categories m @ [c], cat_map := Some (f(c \<mapsto> i))\<rparr>)
                      else (None, m))"

subsection \<open>The scale\<close>

text \<open>The array of the ticks has holes until all categories have a tick.\<close>

record ordinal_scale =
  meta :: ordinal_meta
  extent :: "int \<times> int"
  byTick :: "nat list option"
  byOrdinal :: "nat option list option"
  blank :: bool

definition OrdinalScale :: "ordinal_meta \<Rightarrow> (int \<times> int) option \<Rightarrow> ordinal_scale" where
  "OrdinalScale m ext =
     \<lparr>meta = m, extent = (case ext of Some e \<Rightarrow> e | None \<Rightarrow> (0, int (length (categories m)) - 1)),
      byTick = None, byOrdinal = None, blank = False\<rparr>"

definition unionExtent :: "int \<times> int \<Rightarrow> ordinal_scale \<Rightarrow> ordinal_scale" where
  "unionExtent other s =
     (let e = extent s; e = (if fst other < fst e then (fst other, snd e) else e);
          e = (if snd other > snd e then (fst e, snd other) else e)
      in s\<lparr>extent := e\<rparr>)"

definition setExtent :: "int option \<Rightarrow> int option \<Rightarrow> ordinal_scale \<Rightarrow> ordinal_scale" where
  "setExtent a b s =
     (let e = extent s; e = (case a of Some x \<Rightarrow> (x, snd e) | None \<Rightarrow> e);
          e = (case b of Some y \<Rightarrow> (fst e, y) | None \<Rightarrow> e)
      in s\<lparr>extent := e\<rparr>)"

datatype raw = RNull | RStr string | RNum real

definition round_js :: "real \<Rightarrow> int" where "round_js x = \<lfloor>x + 1 / 2\<rfloor>"

definition parse_rank :: "raw \<Rightarrow> ordinal_scale \<Rightarrow> int option \<times> ordinal_scale" where
  "parse_rank v s = (case v of
     RNull \<Rightarrow> (None, s)
   | RStr c \<Rightarrow> let (i, m) = getOrdinal (CStr c) (meta s) in (map_option int i, s\<lparr>meta := m\<rparr>)
   | RNum x \<Rightarrow> (Some (round_js x), s))"

definition contain_rank :: "raw \<Rightarrow> ordinal_scale \<Rightarrow> bool \<times> ordinal_scale" where
  "contain_rank v s =
     (let (r, s) = parse_rank v s
      in (case r of
            None \<Rightarrow> False
          | Some r \<Rightarrow> r \<ge> fst (extent s) \<and> r \<le> snd (extent s) \<and> 0 \<le> r \<and> nat r < length (categories (meta s)), s))"

text \<open>An entry that is missing in the array of the ticks is \<^term>\<open>None\<close>.\<close>

definition getTickNumber :: "int \<Rightarrow> ordinal_scale \<Rightarrow> int option" where
  "getTickNumber ord s = (case byOrdinal s of
     None \<Rightarrow> Some ord
   | Some ts \<Rightarrow> if ord \<ge> 0 \<and> nat ord < length ts then map_option int (ts ! nat ord) else Some ord)"

definition getRawOrdinalNumber :: "int \<Rightarrow> ordinal_scale \<Rightarrow> int" where
  "getRawOrdinalNumber t s = (case byTick s of
     None \<Rightarrow> t
   | Some os \<Rightarrow> if t \<ge> 0 \<and> nat t < length os then int (os ! nat t) else t)"

definition normalize_rank :: "raw \<Rightarrow> ordinal_scale \<Rightarrow> real option \<times> ordinal_scale" where
  "normalize_rank v s =
     (let (r, s) = parse_rank v s; (lo, hi) = extent s
      in (case Option.bind r (\<lambda>r. getTickNumber r s) of
            None \<Rightarrow> if hi = lo then Some 0.5 else None
          | Some t \<Rightarrow> Some (if hi = lo then 0.5 else (of_int t - of_int lo) / (of_int hi - of_int lo)), s))"

definition scale_rank :: "real \<Rightarrow> ordinal_scale \<Rightarrow> int" where
  "scale_rank v s =
     (let (lo, hi) = extent s in getRawOrdinalNumber (round_js (v * (of_int hi - of_int lo) + of_int lo)) s)"

definition getTicks :: "ordinal_scale \<Rightarrow> int list" where
  "getTicks s = [fst (extent s)..snd (extent s)]"

definition count_ticks :: "ordinal_scale \<Rightarrow> int" where
  "count_ticks s = snd (extent s) - fst (extent s) + 1"

definition getLabel :: "int \<Rightarrow> ordinal_scale \<Rightarrow> category option option" where
  "getLabel t s =
     (if blank s then None
      else let r = getRawOrdinalNumber t s
           in Some (if 0 \<le> r \<and> nat r < length (categories (meta s)) then Some (categories (meta s) ! nat r) else None))"

definition isInExtentRange :: "int \<Rightarrow> ordinal_scale \<Rightarrow> bool" where
  "isInExtentRange v s = (case getTickNumber v s of
     None \<Rightarrow> False | Some t \<Rightarrow> fst (extent s) \<le> t \<and> snd (extent s) \<ge> t)"

text \<open>Writing to an array beyond its end leaves holes.\<close>

definition write_tick :: "nat \<Rightarrow> nat \<Rightarrow> nat option list \<Rightarrow> nat option list" where
  "write_tick i t ts = (if i < length ts then ts[i := Some t] else ts @ replicate (i - length ts) None @ [Some t])"

fun givenLoop :: "nat list \<Rightarrow> nat \<Rightarrow> nat list \<Rightarrow> nat option list \<Rightarrow> nat list \<times> nat option list" where
  "givenLoop [] k os ts = (os, ts)"
| "givenLoop (n # ns) k os ts = givenLoop ns (Suc k) (os @ [n]) (write_tick n k ts)"

function unusedFrom :: "nat \<Rightarrow> nat option list \<Rightarrow> nat" where
  "unusedFrom u ts = (if u < length ts \<and> ts ! u \<noteq> None then unusedFrom (Suc u) ts else u)"
  by pat_completeness auto
termination
  by (relation "measure (\<lambda>(u, ts). length ts - u)") auto

declare unusedFrom.simps [simp del]

text \<open>The categories that are not given a tick get the rest, in their order.\<close>

fun restLoop :: "nat \<Rightarrow> nat \<Rightarrow> nat \<Rightarrow> nat list \<Rightarrow> nat option list \<Rightarrow> nat list \<times> nat option list" where
  "restLoop 0 k u os ts = (os, ts)"
| "restLoop (Suc n) k u os ts =
     (let u = unusedFrom u ts in restLoop n (Suc k) u (os @ [u]) (write_tick u k ts))"

definition setSortInfo :: "nat list option \<Rightarrow> ordinal_scale \<Rightarrow> ordinal_scale" where
  "setSortInfo info s = (case info of
     None \<Rightarrow> s\<lparr>byTick := None, byOrdinal := None\<rparr>
   | Some numbers \<Rightarrow>
       let allCategoryLen = length (categories (meta s));
           len = min allCategoryLen (length numbers);
           (os, ts) = givenLoop (take len numbers) 0 [] [];
           (os, ts) = restLoop (allCategoryLen - len) len 0 os ts
       in s\<lparr>byTick := Some os, byOrdinal := Some ts\<rparr>)"

section \<open>Sorting\<close>

definition tick_of :: "nat option list \<Rightarrow> nat \<Rightarrow> nat option" where
  "tick_of ts i = (if i < length ts then ts ! i else None)"

lemma tick_of_write: "tick_of (write_tick i t ts) = (tick_of ts)(i \<mapsto> t)"
  by (auto simp: tick_of_def write_tick_def nth_append fun_eq_iff nth_Cons' less_Suc_eq)

lemma length_write: "length (write_tick i t ts) = max (length ts) (Suc i)"
  by (simp add: write_tick_def)

text \<open>The two arrays are inverse to each other on the ticks given so far.\<close>

definition inverse_upto :: "nat \<Rightarrow> nat list \<Rightarrow> nat option list \<Rightarrow> bool" where
  "inverse_upto n os ts \<longleftrightarrow> distinct os \<and> set os \<subseteq> {..<n} \<and> length ts \<le> n \<and>
     (\<forall>i t. tick_of ts i = Some t \<longleftrightarrow> t < length os \<and> os ! t = i)"

lemma inverse_step:
  assumes "inverse_upto n os ts" "i < n" "i \<notin> set os"
  shows "inverse_upto n (os @ [i]) (write_tick i (length os) ts)"
  using assms unfolding inverse_upto_def
  by (auto simp: tick_of_write length_write nth_append less_Suc_eq)

lemma givenLoop_inverse:
  assumes "inverse_upto n os ts" "distinct (os @ ns)" "set ns \<subseteq> {..<n}" "k = length os"
  shows "\<exists>ts'. givenLoop ns k os ts = (os @ ns, ts') \<and> inverse_upto n (os @ ns) ts'"
  using assms
proof (induction ns arbitrary: k os ts)
  case (Cons i ns)
  have "inverse_upto n (os @ [i]) (write_tick i k ts)" using inverse_step [OF Cons.prems(1)] Cons.prems by auto
  then show ?case using Cons.IH [of "os @ [i]" "write_tick i k ts" "Suc k"] Cons.prems by auto
qed simp

lemma unusedFrom_spec:
  assumes "\<forall>i < u. tick_of ts i \<noteq> None"
  shows "tick_of ts (unusedFrom u ts) = None \<and> (\<forall>i < unusedFrom u ts. tick_of ts i \<noteq> None)"
  using assms
proof (induction u ts rule: unusedFrom.induct)
  case (1 u ts)
  show ?case
  proof (cases "tick_of ts u = None")
    case True
    then have "unusedFrom u ts = u" by (subst unusedFrom.simps) (auto simp: tick_of_def split: if_splits)
    then show ?thesis using True 1(2) by simp
  next
    case False
    then have u: "u < length ts \<and> ts ! u \<noteq> None" by (auto simp: tick_of_def split: if_splits)
    then have "unusedFrom u ts = unusedFrom (Suc u) ts" by (subst unusedFrom.simps) simp
    moreover have "\<forall>i < Suc u. tick_of ts i \<noteq> None" using False 1(2) by (auto simp: less_Suc_eq)
    ultimately show ?thesis using 1(1) [OF u] by simp
  qed
qed

lemma inverse_used: "inverse_upto n os ts \<Longrightarrow> tick_of ts i \<noteq> None \<longleftrightarrow> i \<in> set os"
  by (auto simp: inverse_upto_def in_set_conv_nth)

lemma restLoop_inverse:
  assumes "inverse_upto n os ts" "length os + m = n" "k = length os" "\<forall>i < u. tick_of ts i \<noteq> None"
  shows "\<exists>us ts'. restLoop m k u os ts = (os @ us, ts') \<and> length us = m \<and> inverse_upto n (os @ us) ts'"
  using assms
proof (induction m arbitrary: k u os ts)
  case (Suc m)
  let ?u = "unusedFrom u ts"
  have u: "?u \<notin> set os" "{..<?u} \<subseteq> set os"
    using unusedFrom_spec [OF Suc.prems(4)] inverse_used [OF Suc.prems(1)] by blast+
  have "?u < n"
  proof (rule ccontr)
    assume "\<not> ?u < n"
    then have "card {..<n} \<le> card (set os)" using u(2) by (intro card_mono) auto
    then show False using Suc.prems(1,2) by (simp add: inverse_upto_def distinct_card)
  qed
  then have step: "inverse_upto n (os @ [?u]) (write_tick ?u k ts)"
    using inverse_step [OF Suc.prems(1) _ u(1)] Suc.prems(3) by simp
  have "\<forall>i < ?u. tick_of (write_tick ?u k ts) i \<noteq> None"
    using unusedFrom_spec [OF Suc.prems(4)] by (simp add: tick_of_write)
  then obtain us ts' where "restLoop m (Suc k) ?u (os @ [?u]) (write_tick ?u k ts) = ((os @ [?u]) @ us, ts')" "length us = m"
      "inverse_upto n ((os @ [?u]) @ us) ts'"
    using Suc.IH [OF step, of "Suc k" ?u] Suc.prems(2,3) by auto
  then show ?case by (intro exI [of _ "?u # us"] exI [of _ ts']) (simp add: Let_def)
qed simp

lemma inverse_full:
  assumes "inverse_upto n os ts" "length os = n"
  shows "set os = {..<n}" "length ts = n" "i < n \<Longrightarrow> \<exists>t < n. ts ! i = Some t \<and> os ! t = i" "t < n \<Longrightarrow> ts ! (os ! t) = Some t"
proof -
  have inv: "distinct os" "set os \<subseteq> {..<n}" "length ts \<le> n" "\<And>i t. tick_of ts i = Some t \<longleftrightarrow> t < length os \<and> os ! t = i"
    using assms(1) by (auto simp: inverse_upto_def)
  have "card (set os) = n" using inv(1) assms(2) by (simp add: distinct_card)
  then show all: "set os = {..<n}" using inv(2) by (intro card_subset_eq) auto
  have used: "tick_of ts i \<noteq> None" if "i < n" for i using inverse_used [OF assms(1), of i] all that by auto
  show len: "length ts = n"
  proof (rule ccontr)
    assume "length ts \<noteq> n"
    then have "length ts < n" using inv(3) by simp
    then show False using used [of "length ts"] by (simp add: tick_of_def)
  qed
  show "\<exists>t < n. ts ! i = Some t \<and> os ! t = i" if "i < n"
    using used [OF that] inv(4) [of i] that len assms(2) by (auto simp: tick_of_def)
  show "ts ! (os ! t) = Some t" if "t < n"
  proof -
    have "os ! t < n" using that all assms(2) nth_mem by blast
    then show ?thesis using inv(4) [of "os ! t" t] that assms(2) len by (simp add: tick_of_def)
  qed
qed

lemma setSortInfo_translations:
  assumes "distinct numbers" "set numbers \<subseteq> {..<length (categories (meta s))}"
  defines "s' \<equiv> setSortInfo (Some numbers) s"
  shows "(\<forall>i. map_option (\<lambda>t. getRawOrdinalNumber t s') (getTickNumber i s') = Some i) \<and>
    (\<forall>t. getTickNumber (getRawOrdinalNumber t s') s' = Some t) \<and>
    (\<forall>t < length numbers. getRawOrdinalNumber (int t) s' = int (numbers ! t))"
proof -
  define n where "n = length (categories (meta s))"
  have "card (set numbers) \<le> n" using assms(2) card_mono [of "{..<n}" "set numbers"] by (simp add: n_def)
  then have len: "length numbers \<le> n" using assms(1) by (simp add: distinct_card)
  have "inverse_upto n [] []" by (simp add: inverse_upto_def tick_of_def)
  then obtain ts where g: "givenLoop numbers 0 [] [] = (numbers, ts)" "inverse_upto n numbers ts"
    using givenLoop_inverse [of n "[]" "[]" numbers 0] assms(1,2) by (auto simp: n_def)
  then obtain us ts' where r: "restLoop (n - length numbers) (length numbers) 0 numbers ts = (numbers @ us, ts')"
      "length us = n - length numbers" "inverse_upto n (numbers @ us) ts'"
    using restLoop_inverse [OF g(2), of "n - length numbers" "length numbers" 0] len by auto
  define os where "os = numbers @ us"
  have s': "byTick s' = Some os" "byOrdinal s' = Some ts'"
    using g(1) r(1) len by (simp_all add: s'_def setSortInfo_def n_def [symmetric] os_def min_absorb2)
  have full: "inverse_upto n os ts'" "length os = n" using r len by (simp_all add: os_def)
  note inv = inverse_full [OF full]
  have "map_option (\<lambda>t. getRawOrdinalNumber t s') (getTickNumber i s') = Some i" for i
  proof (cases "0 \<le> i \<and> nat i < n")
    case True
    then obtain t where "t < n" "ts' ! nat i = Some t" "os ! t = nat i" using inv(3) by blast
    then show ?thesis using True inv(2) full(2) by (simp add: getTickNumber_def getRawOrdinalNumber_def s')
  next
    case False
    then show ?thesis using inv(2) full(2) by (auto simp: getTickNumber_def getRawOrdinalNumber_def s')
  qed
  moreover have "getTickNumber (getRawOrdinalNumber t s') s' = Some t" for t
  proof (cases "0 \<le> t \<and> nat t < n")
    case True
    then have "os ! nat t < n" using inv(1) full(2) nth_mem by blast
    then show ?thesis using True inv(2) inv(4) [of "nat t"] full(2) by (simp add: getTickNumber_def getRawOrdinalNumber_def s')
  next
    case False
    then show ?thesis using inv(2) full(2) by (auto simp: getTickNumber_def getRawOrdinalNumber_def s')
  qed
  moreover have "getRawOrdinalNumber (int t) s' = int (numbers ! t)" if "t < length numbers" for t
    using that full(2) len by (simp add: getRawOrdinalNumber_def s' os_def nth_append)
  ultimately show ?thesis by blast
qed

text \<open>
  C30: After the axis is sorted by any list of different ordinal numbers, the display order begins with this list,
  every category has exactly one tick, and the two translations between ordinal numbers and ticks are inverse to
  each other, for numbers out of range too.
\<close>

theorem setSortInfo_inverse:
  assumes "distinct numbers" "set numbers \<subseteq> {..<length (categories (meta s))}"
  defines "s' \<equiv> setSortInfo (Some numbers) s"
  shows "(\<forall>i. map_option (\<lambda>t. getRawOrdinalNumber t s') (getTickNumber i s') = Some i) \<and>
    (\<forall>t. getTickNumber (getRawOrdinalNumber t s') s' = Some t) \<and>
    (\<forall>t < length numbers. getRawOrdinalNumber (int t) s' = int (numbers ! t))"
  using assms(1,2) unfolding s'_def by (rule setSortInfo_translations)

theorem setSortInfo_inverse_witness:
  "getRawOrdinalNumber 0 (setSortInfo (Some [2, 0]) (OrdinalScale (OrdinalMeta [CStr ''a'', CStr ''b'', CStr ''c''] False True) None)) = 2"
proof -
  let ?s = "OrdinalScale (OrdinalMeta [CStr ''a'', CStr ''b'', CStr ''c''] False True) None"
  have "distinct [2, 0 :: nat]" "set [2, 0] \<subseteq> {..<length (categories (meta ?s))}"
    by (simp_all add: OrdinalScale_def OrdinalMeta_def)
  from setSortInfo_inverse [OF this] show ?thesis by (auto dest: spec [of _ 0])
qed

section \<open>Positions on the axis\<close>

text \<open>A tick within the extent is found again from its position.\<close>

theorem scale_normalize:
  assumes "setSortInfo (Some numbers) s0 = s" "distinct numbers" "set numbers \<subseteq> {..<length (categories (meta s0))}"
    and "isInExtentRange i s" "normalize_rank (RNum (of_int i)) s = (Some v, s')"
  shows "scale_rank v s = i"
proof -
  obtain lo hi where e: "extent s = (lo, hi)" by fastforce
  have inv: "map_option (\<lambda>t. getRawOrdinalNumber t s) (getTickNumber i s) = Some i"
    using setSortInfo_translations [OF assms(2,3)] assms(1) by blast
  then obtain t where t: "getTickNumber i s = Some t" "getRawOrdinalNumber t s = i" by auto
  have range: "lo \<le> t" "t \<le> hi" using assms(4) t e by (simp_all add: isInExtentRange_def)
  have "round_js (of_int i) = i" by (simp add: round_js_def floor_eq_iff)
  then have v: "v = (if hi = lo then 0.5 else (of_int t - of_int lo) / (of_int hi - of_int lo))"
    using assms(5) t e by (simp add: normalize_rank_def parse_rank_def split: if_splits)
  have "round_js (v * (of_int hi - of_int lo) + of_int lo) = t"
  proof (cases "hi = lo")
    case True
    then show ?thesis using range by (simp add: v round_js_def floor_eq_iff)
  next
    case False
    then have "v * (of_int hi - of_int lo) + of_int lo = of_int t" by (simp add: v)
    then show ?thesis by (simp add: round_js_def floor_eq_iff)
  qed
  then show ?thesis using t(2) e by (simp add: scale_rank_def)
qed

section \<open>Collecting categories\<close>

datatype meta_op = Parse category | Ordinal_of category

fun meta_step :: "meta_op \<Rightarrow> ordinal_meta \<Rightarrow> real option \<times> ordinal_meta" where
  "meta_step (Parse c) m = parseAndCollect c m"
| "meta_step (Ordinal_of c) m = (let (i, m) = getOrdinal c m in (map_option real i, m))"

text \<open>The specification has the list of the categories only, and no map that is kept beside it.\<close>

fun list_step :: "bool \<Rightarrow> meta_op \<Rightarrow> category list \<Rightarrow> real option \<times> category list" where
  "list_step collect (Parse c) cs =
     (case (c, collect) of
        (CNum x, False) \<Rightarrow> (Some x, cs)
      | _ \<Rightarrow> (case createHashMap cs c of
                Some i \<Rightarrow> (Some (real i), cs)
              | None \<Rightarrow> if collect then (Some (real (length cs)), cs @ [c]) else (None, cs)))"
| "list_step collect (Ordinal_of c) cs = (map_option real (createHashMap cs c), cs)"

lemma createHashMap_snoc: "createHashMap (cs @ [c]) = (createHashMap cs)(c \<mapsto> length cs)"
  by (simp add: createHashMap_def enumerate_append_eq)

text \<open>The map has the last index of every category.\<close>

lemma createHashMap_last:
  "createHashMap cs c = Some i \<longleftrightarrow> i < length cs \<and> cs ! i = c \<and> (\<forall>j. i < j \<and> j < length cs \<longrightarrow> cs ! j \<noteq> c)"
proof (induction cs rule: rev_induct)
  case Nil
  then show ?case by (simp add: createHashMap_def)
next
  case (snoc d cs)
  then show ?case by (auto simp: createHashMap_snoc nth_append less_Suc_eq)
qed

definition meta_rep :: "bool \<Rightarrow> ordinal_meta \<Rightarrow> category list \<Rightarrow> bool" where
  "meta_rep collect m cs \<longleftrightarrow> categories m = cs \<and> needCollect m = collect \<and> (collect \<longrightarrow> deduplication m) \<and>
     (cat_map m = None \<or> cat_map m = Some (createHashMap cs))"

lemma getOrCreateMap_rep:
  assumes "meta_rep collect m cs"
  shows "\<exists>m'. getOrCreateMap m = (createHashMap cs, m') \<and> meta_rep collect m' cs"
  using assms by (cases "cat_map m") (auto simp: getOrCreateMap_def meta_rep_def Let_def)

lemma meta_step_rep:
  assumes "meta_rep collect m cs"
  shows "fst (meta_step x m) = fst (list_step collect x cs) \<and> meta_rep collect (snd (meta_step x m)) (snd (list_step collect x cs))"
proof -
  obtain m' where m': "getOrCreateMap m = (createHashMap cs, m')" "meta_rep collect m' cs"
    using getOrCreateMap_rep [OF assms] by blast
  show ?thesis
  proof (cases x)
    case (Parse c)
    show ?thesis
      using assms m'(2)
      by (cases c; cases collect; cases "createHashMap cs c")
        (simp_all add: Parse parseAndCollect_def m'(1) meta_rep_def createHashMap_snoc Let_def)
  next
    case (Ordinal_of c)
    then show ?thesis using m' by (simp add: getOrdinal_def)
  qed
qed

interpretation cats: simulation meta_step "list_step collect" "meta_rep collect" for collect
  by unfold_locales (simp_all add: meta_step_rep)

text \<open>
  The map that is created late and kept beside the categories is not observable: any sequence of calls returns what
  the list of the categories alone determines, for categories that are given and for collected ones.
\<close>

theorem categories_refine:
  assumes "collect \<Longrightarrow> dedup"
  shows "fst (run meta_step ops (OrdinalMeta cs collect dedup)) = fst (run (list_step collect) ops cs)"
  by (rule cats.run_out) (use assms in \<open>auto simp: meta_rep_def OrdinalMeta_def\<close>)

theorem categories_refine_witness:
  "fst (run meta_step [Parse (CStr ''x''), Ordinal_of (CStr ''x'')] (OrdinalMeta [] True True)) =
   fst (run (list_step True) [Parse (CStr ''x''), Ordinal_of (CStr ''x'')] [])"
  by (rule categories_refine) simp

text \<open>
  Without the removal of duplicates it is observable: a category that is collected after the map was created has an
  index and a place in the list, but no ordinal number.
\<close>

theorem ordinal_of_collected_missing:
  "fst (run meta_step [Parse (CStr ''x''), Ordinal_of (CStr ''x''), Parse (CStr ''y''), Ordinal_of (CStr ''y'')] (OrdinalMeta [] True False)) =
   [Some 0, Some 0, Some 1, None]"
  by (simp add: OrdinalMeta_def parseAndCollect_def getOrdinal_def getOrCreateMap_def createHashMap_def Let_def)

end
