(* ===== verification/Serializer.thy ===== *)
theory Serializer
  imports Raft "HOL-Library.Word" "HOL-Library.Sublist"
begin

unbundle bit_operations_syntax

text \<open>
  The byte format of log entries and commands (\<^verbatim>\<open>src/source/byte_array.cpp\<close>,
  \<^verbatim>\<open>src/star/rpc/serializer.h\<close>): unsigned integers as groups of seven bits, signed ones through the
  zigzag code, strings with their length.  A \<^verbatim>\<open>ByteArray\<close> is the list of the bytes that follow its
  position; the chain of blocks that holds them is not modelled.  Reading returns the value and the
  bytes that are left; \<^term>\<open>None\<close> is the exception \<^verbatim>\<open>std::out_of_range\<close>.
\<close>

type_synonym bytes = "8 word list"

section \<open>Definitions\<close>

subsection \<open>Integers\<close>

function writeVarint :: "'a::len word \<Rightarrow> bytes" where
  "writeVarint value =
     (if unat value \<ge> 128
      then (ucast (value AND 127) OR 128) # writeVarint (drop_bit 7 value) else [ucast value])"
  by pat_completeness auto
termination
  by (relation "measure unat") (simp, simp add: unat_drop_bit_eq drop_bit_nat_def)

declare writeVarint.simps [simp del]

fun readLoop :: "nat \<Rightarrow> 'a::len word \<Rightarrow> bytes \<Rightarrow> ('a word \<times> bytes) option" where
  "readLoop i result [] = (if i < LENGTH('a) then None else Some (result, []))"
| "readLoop i result (b # bs) =
     (if i < LENGTH('a)
      then if unat b < 128 then Some (result OR push_bit i (ucast b), bs)
           else readLoop (i + 7) (result OR push_bit i (ucast (b AND 127))) bs
      else Some (result, b # bs))"

definition writeUint32 :: "32 word \<Rightarrow> bytes" where "writeUint32 value = writeVarint value"

definition writeUint64 :: "64 word \<Rightarrow> bytes" where "writeUint64 value = writeVarint value"

definition readUint32 :: "bytes \<Rightarrow> (32 word \<times> bytes) option" where "readUint32 bs = readLoop 0 0 bs"

definition readUint64 :: "bytes \<Rightarrow> (64 word \<times> bytes) option" where "readUint64 bs = readLoop 0 0 bs"

text \<open>The zigzag code, with the wrap-around of two's complement for the smallest integer.\<close>

definition EncodeZigzag :: "'a::len word \<Rightarrow> 'a word" where
  "EncodeZigzag v = (if v <s 0 then - v * 2 - 1 else v * 2)"

definition DecodeZigzag :: "'a::len word \<Rightarrow> 'a word" where
  "DecodeZigzag v = drop_bit 1 v XOR - (v AND 1)"

definition writeInt32 :: "32 word \<Rightarrow> bytes" where "writeInt32 value = writeUint32 (EncodeZigzag value)"

definition readInt32 :: "bytes \<Rightarrow> (32 word \<times> bytes) option" where
  "readInt32 bs = map_option (\<lambda>(v, bs). (DecodeZigzag v, bs)) (readUint32 bs)"

subsection \<open>Strings and records\<close>

definition writeStringVint :: "bytes \<Rightarrow> bytes" where
  "writeStringVint value = writeUint64 (of_nat (length value)) @ value"

definition readStringVint :: "bytes \<Rightarrow> (bytes \<times> bytes) option" where
  "readStringVint bs =
     (case readUint64 bs of
        None \<Rightarrow> None
      | Some (len, bs) \<Rightarrow> if unat len > length bs then None else Some (take (unat len) bs, drop (unat len) bs))"

record DB_log =
  db_id :: "64 word"
  db_key :: bytes
  db_value :: bytes

definition write_DB_log :: "DB_log \<Rightarrow> bytes" where
  "write_DB_log i = writeUint64 (db_id i) @ writeStringVint (db_key i) @ writeStringVint (db_value i)"

definition read_DB_log :: "bytes \<Rightarrow> (DB_log \<times> bytes) option" where
  "read_DB_log bs = do {
     (i, bs) \<leftarrow> readUint64 bs;
     (k, bs) \<leftarrow> readStringVint bs;
     (v, bs) \<leftarrow> readStringVint bs;
     Some (\<lparr>db_id = i, db_key = k, db_value = v\<rparr>, bs) }"

text \<open>The characters of a \<^typ>\<open>string\<close> as bytes.\<close>

definition to_bytes :: "string \<Rightarrow> bytes" where "to_bytes s = map (\<lambda>c. word_of_nat (of_char c)) s"

definition of_bytes :: "bytes \<Rightarrow> string" where "of_bytes bs = map (\<lambda>b. char_of (unat b)) bs"

definition write_LogEntry :: "LogEntry \<Rightarrow> bytes" where
  "write_LogEntry e =
     writeInt32 (word_of_int (le_index e)) @ writeInt32 (word_of_int (le_term e)) @ writeStringVint (to_bytes (le_value e))"

definition read_LogEntry :: "bytes \<Rightarrow> (LogEntry \<times> bytes) option" where
  "read_LogEntry bs = do {
     (i, bs) \<leftarrow> readInt32 bs;
     (t, bs) \<leftarrow> readInt32 bs;
     (v, bs) \<leftarrow> readStringVint bs;
     Some (\<lparr>le_index = sint i, le_term = sint t, le_value = of_bytes v\<rparr>, bs) }"

section \<open>Round trips\<close>

lemma unat_drop7: "unat (drop_bit 7 (v :: 'a::len word)) = unat v div 128"
  by (simp add: unat_drop_bit_eq drop_bit_nat_def)

lemma bit_127: "bit (127 :: int) n \<longleftrightarrow> n < 7"
proof -
  have "(127 :: int) = mask 7" by (simp add: mask_eq_exp_minus_1)
  then show ?thesis by (simp only: bit_mask_iff) (auto simp: bit_simps)
qed

lemma bit_128: "bit (128 :: int) n \<longleftrightarrow> n = 7"
proof -
  have "(128 :: int) = push_bit 7 1" by simp
  then show ?thesis by (simp only: bit_push_bit_iff) (auto simp: bit_simps)
qed

lemma split7:
  fixes v :: "'a::len word"
  shows "push_bit i v AND push_bit i 127 OR push_bit (i + 7) (drop_bit 7 v) = push_bit i v"
proof (rule bit_eqI)
  fix n
  have "7 + (n - (i + 7)) = n - i" if "i + 7 \<le> n" using that by simp
  then show "bit (push_bit i v AND push_bit i 127 OR push_bit (i + 7) (drop_bit 7 v)) n = bit (push_bit i v) n"
    by (cases "i + 7 \<le> n") (auto simp: bit_simps bit_127)
qed

lemma first_byte:
  fixes v :: "'a::len word"
  defines "b \<equiv> (ucast (v AND 127) OR 128) :: 8 word"
  assumes "8 \<le> LENGTH('a)"
  shows "\<not> unat b < 128" "(ucast (b AND 127) :: 'a word) = v AND 127"
proof -
  have "bit b 7" unfolding b_def by (simp add: bit_simps bit_128)
  then have "bit (unat b) 7" by (simp add: bit_unsigned_iff)
  then show "\<not> unat b < 128" by (auto simp: bit_iff_odd)
  show "(ucast (b AND 127) :: 'a word) = v AND 127"
    unfolding b_def by (rule bit_eqI) (auto simp: bit_simps bit_127 bit_128)
qed

lemma drop7_small:
  fixes v :: "'a::len word"
  assumes "unat v \<ge> 128" "unat v < 2 ^ (LENGTH('a) - i)"
  shows "i + 7 < LENGTH('a)" "unat (drop_bit 7 v) < 2 ^ (LENGTH('a) - (i + 7))"
proof -
  have "7 < LENGTH('a) - i"
  proof (rule ccontr)
    assume "\<not> 7 < LENGTH('a) - i"
    then have "(2 :: nat) ^ (LENGTH('a) - i) \<le> 2 ^ 7" by (intro power_increasing) auto
    then show False using assms by simp
  qed
  then show i: "i + 7 < LENGTH('a)" by simp
  then have "LENGTH('a) - i = 7 + (LENGTH('a) - (i + 7))" by simp
  then have "unat v < 128 * 2 ^ (LENGTH('a) - (i + 7))" using assms(2) by (simp only: power_add) simp
  then show "unat (drop_bit 7 v) < 2 ^ (LENGTH('a) - (i + 7))"
    unfolding unat_drop7 by (simp add: less_mult_imp_div_less mult.commute)
qed

lemma readLoop_writeVarint:
  fixes v :: "'a::len word"
  assumes "8 \<le> LENGTH('a)" "i < LENGTH('a)" "unat v < 2 ^ (LENGTH('a) - i)"
  shows "readLoop i r (writeVarint v @ rest) = Some (r OR push_bit i v, rest)"
  using assms(2,3)
proof (induction v arbitrary: i r rule: writeVarint.induct)
  case (1 v)
  show ?case
  proof (cases "unat v \<ge> 128")
    case True
    note small = drop7_small [OF True 1(3)]
    have w: "writeVarint v = (ucast (v AND 127) OR 128) # writeVarint (drop_bit 7 v)"
      using True by (subst writeVarint.simps) simp
    show ?thesis unfolding w using 1(1) [OF True small] 1(2) first_byte [OF assms(1), of v]
      by (simp add: or.assoc split7)
  next
    case False
    then have u: "unat (ucast v :: 8 word) = unat v"
      by (simp add: unsigned_ucast_eq take_bit_nat_eq_self)
    then have "(ucast (ucast v :: 8 word) :: 'a word) = v"
      by (intro unsigned_word_eqI [where ?'a = nat]) (simp add: unsigned_ucast_eq unsigned_take_bit_eq take_bit_nat_eq_self [OF unsigned_less])
    then show ?thesis using False 1(2) u by (subst writeVarint.simps) simp
  qed
qed

lemma readUint64_write [simp]: "readUint64 (writeUint64 v @ rest) = Some (v, rest)"
  using readLoop_writeVarint [of 0 v 0 rest] unsigned_less [of v] by (simp add: readUint64_def writeUint64_def)

lemma readUint32_write [simp]: "readUint32 (writeUint32 v @ rest) = Some (v, rest)"
  using readLoop_writeVarint [of 0 v 0 rest] unsigned_less [of v] by (simp add: readUint32_def writeUint32_def)

lemma bit_twice: "bit (v * 2) n \<longleftrightarrow> n < LENGTH('a) \<and> 0 < n \<and> bit v (n - 1)" for v :: "'a::len word"
proof -
  have "v * 2 = push_bit 1 v" by (simp add: push_bit_eq_mult)
  then show ?thesis by (simp only: bit_push_bit_iff) (auto simp: bit_simps Suc_le_eq)
qed

lemma zigzag_roundtrip: "DecodeZigzag (EncodeZigzag v) = (v :: 'a::len word)"
proof -
  have last: "n = LENGTH('a) - Suc 0" if "n < LENGTH('a)" "\<not> Suc n < LENGTH('a)" for n using that by linarith
  show ?thesis
  proof (cases "bit v (LENGTH('a) - Suc 0)")
    case True
    then have "EncodeZigzag v = NOT (v * 2)"
      by (simp add: EncodeZigzag_def word_sless_alt bit_last_iff not_eq_complement)
    moreover have "NOT (v * 2) AND 1 = 1"
      by (rule bit_eqI) (auto simp: bit_simps bit_twice)
    ultimately show ?thesis unfolding DecodeZigzag_def
      using True by (intro bit_eqI) (auto simp: bit_simps bit_twice dest: last)
  next
    case False
    then have "EncodeZigzag v = v * 2"
      by (simp add: EncodeZigzag_def word_sless_alt bit_last_iff)
    moreover have "v * 2 AND 1 = 0"
      by (rule bit_eqI) (auto simp: bit_simps bit_twice)
    ultimately show ?thesis unfolding DecodeZigzag_def
      using False by (intro bit_eqI) (auto simp: bit_simps bit_twice dest: last)
  qed
qed

lemma readInt32_write [simp]: "readInt32 (writeInt32 v @ rest) = Some (v, rest)"
  by (simp add: readInt32_def writeInt32_def zigzag_roundtrip)

lemma readStringVint_write [simp]:
  "length s < 2 ^ 64 \<Longrightarrow> readStringVint (writeStringVint s @ rest) = Some (s, rest)"
  by (simp add: readStringVint_def writeStringVint_def unsigned_of_nat take_bit_nat_eq_self)

lemma length_to_bytes [simp]: "length (to_bytes s) = length s"
  by (simp add: to_bytes_def)

lemma of_to_bytes [simp]: "of_bytes (to_bytes s) = s"
proof -
  have "unat (word_of_nat (of_char c) :: 8 word) = of_char c" for c
    by (simp add: unsigned_of_nat take_bit_nat_eq_self)
  then show ?thesis by (simp add: of_bytes_def to_bytes_def comp_def)
qed

text \<open>An entry that the program can hold: 32-bit index and term, and a value that fits in memory.\<close>

definition fits :: "LogEntry \<Rightarrow> bool" where
  "fits e \<longleftrightarrow> -(2 ^ 31) \<le> le_index e \<and> le_index e < 2 ^ 31 \<and> -(2 ^ 31) \<le> le_term e \<and> le_term e < 2 ^ 31 \<and>
     length (le_value e) < 2 ^ 64"

lemma sint_word_of_int: "-(2 ^ 31) \<le> i \<Longrightarrow> i < 2 ^ 31 \<Longrightarrow> sint (word_of_int i :: 32 word) = i"
  by (simp add: signed_of_int signed_take_bit_int_eq_self)

lemma LogEntry_roundtrip: "fits e \<Longrightarrow> read_LogEntry (write_LogEntry e @ rest) = Some (e, rest)"
  by (cases e) (simp add: read_LogEntry_def write_LogEntry_def fits_def sint_word_of_int)

lemma read_DB_log_write:
  "length (db_key l) < 2 ^ 64 \<Longrightarrow> length (db_value l) < 2 ^ 64 \<Longrightarrow> read_DB_log (write_DB_log l @ rest) = Some (l, rest)"
  by (simp add: read_DB_log_def write_DB_log_def)

text \<open>
  Commands survive serialisation: what \<^verbatim>\<open>Serializer\<close> writes for a command it reads back, whatever
  bytes follow.
\<close>

theorem DB_log_roundtrip:
  assumes "length (db_key l) < 2 ^ 64" "length (db_value l) < 2 ^ 64"
  shows "read_DB_log (write_DB_log l @ rest) = Some (l, rest)"
  using assms by (simp add: read_DB_log_def write_DB_log_def)

theorem DB_log_roundtrip_witness:
  "read_DB_log (write_DB_log \<lparr>db_id = 300, db_key = [107], db_value = [1, 2, 255]\<rparr> @ [9]) =
     Some (\<lparr>db_id = 300, db_key = [107], db_value = [1, 2, 255]\<rparr>, [9])"
  by (rule DB_log_roundtrip) simp_all

section \<open>The log file\<close>

text \<open>What is read is shorter than what was there.\<close>

lemma readLoop_shorter:
  fixes r :: "'a::len word"
  shows "readLoop i r bs = Some (v, bs') \<Longrightarrow> length bs' \<le> length bs \<and> (i < LENGTH('a) \<longrightarrow> length bs' < length bs)"
  by (induction i r bs rule: readLoop.induct) (fastforce split: if_splits)+

lemma read_LogEntry_shorter: "read_LogEntry bs = Some (e, bs') \<Longrightarrow> length bs' < length bs"
  by (fastforce simp: read_LogEntry_def readInt32_def readUint32_def readStringVint_def readUint64_def
      split: Option.bind_splits option.splits if_splits prod.splits dest: readLoop_shorter)

text \<open>
  \<^verbatim>\<open>recover\<close> reads entries until the read throws.  The condition of its loop is the size of the whole
  file, which does not change.
\<close>

function readLog :: "bytes \<Rightarrow> LogEntry list" where
  "readLog bs = (case read_LogEntry bs of None \<Rightarrow> [] | Some (e, bs') \<Rightarrow> e # readLog bs')"
  by pat_completeness auto
termination
  by (relation "measure length") (auto dest: read_LogEntry_shorter)

declare readLog.simps [simp del]

text \<open>A read fails on a proper prefix of what was written.\<close>

lemma strict_prefix_appendE:
  assumes "strict_prefix p (a @ b)"
  obtains "strict_prefix p a" | p' where "p = a @ p'" "strict_prefix p' b"
proof -
  from assms have "prefix p (a @ b)" "p \<noteq> a @ b" by (auto simp: strict_prefix_def)
  then consider "prefix p a" | p' where "p = a @ p'" "prefix p' b" by (auto simp: prefix_append)
  then show thesis
  proof cases
    case 1
    show thesis
    proof (cases "p = a")
      case True
      then show thesis using that(2) [of "[]"] \<open>p \<noteq> a @ b\<close> by (cases b) auto
    next
      case False
      then show thesis using that(1) 1 by (simp add: strict_prefix_def)
    qed
  next
    case 2
    then show thesis using that(2) \<open>p \<noteq> a @ b\<close> by (auto simp: strict_prefix_def)
  qed
qed

lemma readLoop_cut:
  fixes v r :: "'a::len word"
  assumes "8 \<le> LENGTH('a)" "i < LENGTH('a)" "unat v < 2 ^ (LENGTH('a) - i)" "strict_prefix p (writeVarint v)"
  shows "readLoop i r p = None"
  using assms(2-4)
proof (induction v arbitrary: i r p rule: writeVarint.induct)
  case (1 v)
  show ?case
  proof (cases p)
    case Nil
    then show ?thesis using 1(2) by simp
  next
    case (Cons b p')
    have big: "unat v \<ge> 128"
    proof (rule ccontr)
      assume "\<not> unat v \<ge> 128"
      then have "writeVarint v = [ucast v]" by (subst writeVarint.simps) simp
      then show False using 1(4) Cons by (auto simp: strict_prefix_def)
    qed
    then have w: "writeVarint v = (ucast (v AND 127) OR 128) # writeVarint (drop_bit 7 v)"
      by (subst writeVarint.simps) simp
    then have b: "b = ucast (v AND 127) OR 128" "strict_prefix p' (writeVarint (drop_bit 7 v))" using 1(4) Cons by auto
    note small = drop7_small [OF big 1(3)]
    show ?thesis using 1(1) [OF big small b(2)] 1(2) first_byte(1) [OF assms(1), of v] Cons b(1) by simp
  qed
qed

lemma writeVarint_Nil [simp]: "writeVarint v \<noteq> []"
  by (subst writeVarint.simps) simp

lemma readInt32_cut: "strict_prefix p (writeInt32 v) \<Longrightarrow> readInt32 p = None"
  using readLoop_cut [of 0 "EncodeZigzag v" p 0] unsigned_less [of "EncodeZigzag v"]
  by (simp add: readInt32_def readUint32_def writeInt32_def writeUint32_def)

lemma readStringVint_cut:
  assumes "strict_prefix p (writeStringVint s)" "length s < 2 ^ 64"
  shows "readStringVint p = None"
  using assms(1) unfolding writeStringVint_def
proof (cases rule: strict_prefix_appendE)
  case 1
  have "unat (of_nat (length s) :: 64 word) < 2 ^ LENGTH(64)" by (rule unsigned_less)
  then show ?thesis
    using 1 readLoop_cut [of 0 "of_nat (length s) :: 64 word" p 0]
    by (simp add: readStringVint_def readUint64_def writeUint64_def)
next
  case (2 p')
  then have "length p' < length s" by (auto simp: strict_prefix_def prefix_def)
  then show ?thesis using assms(2) 2 by (simp add: readStringVint_def unsigned_of_nat take_bit_nat_eq_self)
qed

lemma read_LogEntry_cut:
  assumes "fits e" "strict_prefix p (write_LogEntry e)"
  shows "read_LogEntry p = None"
  using assms(2) unfolding write_LogEntry_def
proof (cases rule: strict_prefix_appendE)
  case 1
  then show ?thesis by (simp add: read_LogEntry_def readInt32_cut)
next
  case (2 p')
  from 2(2) show ?thesis
  proof (cases rule: strict_prefix_appendE)
    case 1
    then show ?thesis using 2(1) by (simp add: read_LogEntry_def readInt32_cut)
  next
    case (2 q)
    then show ?thesis using \<open>p = _ @ p'\<close> assms(1) by (simp add: read_LogEntry_def readStringVint_cut fits_def)
  qed
qed

text \<open>
  C5: The log file survives a crash.  If the file that \<^verbatim>\<open>persisentlog\<close> has written is cut at any
  point, \<^verbatim>\<open>recover\<close> reads back a prefix of the entries, and the whole file gives all of them.
\<close>

theorem readLog_prefix:
  assumes "list_all fits es" "prefix data (concat (map write_LogEntry es))"
  shows "prefix (readLog data) es \<and> (data = concat (map write_LogEntry es) \<longrightarrow> readLog data = es)"
  using assms
proof (induction es arbitrary: data)
  case Nil
  then show ?case by (subst (1 2) readLog.simps) (simp add: read_LogEntry_def readInt32_def readUint32_def)
next
  case (Cons e es)
  show ?case
  proof (cases "strict_prefix data (write_LogEntry e)")
    case True
    then have "readLog data = []" using Cons.prems by (subst readLog.simps) (simp add: read_LogEntry_cut [of e])
    moreover have "data \<noteq> concat (map write_LogEntry (e # es))" using True by (auto simp: strict_prefix_def)
    ultimately show ?thesis by simp
  next
    case False
    then obtain f where f: "data = write_LogEntry e @ f" "prefix f (concat (map write_LogEntry es))"
      using Cons.prems(2) by (auto simp: prefix_append strict_prefix_def)
    then have "readLog data = e # readLog f"
      using Cons.prems(1) by (subst readLog.simps) (simp add: LogEntry_roundtrip)
    then show ?thesis using Cons.IH [OF _ f(2)] Cons.prems(1) f(1) by auto
  qed
qed

theorem readLog_prefix_witness:
  "let e = \<lparr>le_index = 1, le_term = -1, le_value = ''x''\<rparr>
   in readLog (write_LogEntry e @ write_LogEntry e) = [e, e] \<and> prefix (readLog (write_LogEntry e @ [2])) [e, e]"
proof -
  let ?e = "\<lparr>le_index = 1, le_term = -1, le_value = ''x''\<rparr>"
  have f: "list_all fits [?e, ?e]" by (simp add: fits_def)
  have w: "write_LogEntry ?e = [2, 1, 1, 120]" by code_simp
  have "readLog (write_LogEntry ?e @ write_LogEntry ?e) = [?e, ?e]"
    using readLog_prefix [OF f, of "write_LogEntry ?e @ write_LogEntry ?e"] by simp
  moreover have "prefix (readLog (write_LogEntry ?e @ [2])) [?e, ?e]"
    using readLog_prefix [OF f, of "write_LogEntry ?e @ [2]"] w by simp
  ultimately show ?thesis by simp
qed

end
