(* ===== verification/KV_Server.thy ===== *)
theory KV_Server
  imports Serializer Transitions
begin

text \<open>
  The key-value server (\<^verbatim>\<open>src/source/db/kv_server.cpp\<close>, \<^verbatim>\<open>src/star/sync/channel.h\<close>) on top of
  its Raft server: a request takes an identifier and a channel, appends its command to the log of
  the Raft server and waits on the channel; the loop of \<^verbatim>\<open>kv_server::start\<close> takes the applied
  entries, writes them to the data base and sends them to the channel of their identifier; a timer
  closes the channel after five seconds.  A request is three steps here (\<^verbatim>\<open>openRequest\<close>,
  \<^verbatim>\<open>startRequest\<close>, \<^verbatim>\<open>returnRequest\<close>), between which other fibres run.

  LevelDB is a parameter: \<^verbatim>\<open>Put\<close> returns its status and the new data base, \<^verbatim>\<open>Get\<close> the value of a
  key.  What is used of it is stated where it is used (\<^verbatim>\<open>leveldb_ok\<close>).  The counter of requests does
  not return to an identifier that is still waiting.
\<close>

section \<open>Definitions\<close>

subsection \<open>The data base and the channels\<close>

record 'db leveldb =
  Put :: "bytes \<Rightarrow> bytes \<Rightarrow> 'db \<Rightarrow> bool \<times> 'db"
  Get :: "bytes \<Rightarrow> 'db \<Rightarrow> bytes option"

text \<open>\<^verbatim>\<open>Put\<close> is repeated until its status is good; \<^term>\<open>None\<close> if that never happens.\<close>

partial_function (option) putLoop ::
  "'db leveldb \<Rightarrow> bytes \<Rightarrow> bytes \<Rightarrow> 'db \<Rightarrow> 'db option" where
  "putLoop L k v d = (let (ok, d') = Put L k v d in if ok then Some d' else putLoop L k v d')"

record channel =
  ch_closed :: bool
  ch_capacity :: nat
  ch_queue :: "LogEntry list"

text \<open>\<^term>\<open>None\<close> stands for waiting.\<close>

definition push :: "LogEntry \<Rightarrow> channel \<Rightarrow> (bool \<times> channel) option" where
  "push t c =
     (if ch_closed c then Some (False, c)
      else if length (ch_queue c) \<ge> ch_capacity c then None
      else Some (True, c\<lparr>ch_queue := ch_queue c @ [t]\<rparr>))"

definition pop :: "channel \<Rightarrow> (LogEntry option \<times> channel) option" where
  "pop c =
     (if ch_closed c then Some (None, c)
      else case ch_queue c of [] \<Rightarrow> None | t # q \<Rightarrow> Some (Some t, c\<lparr>ch_queue := q\<rparr>))"

definition close :: "channel \<Rightarrow> channel" where
  "close c = (if ch_closed c then c else c\<lparr>ch_closed := True, ch_queue := []\<rparr>)"

subsection \<open>The state of a server\<close>

datatype kv_error = Not_Leader | Not_Find | Undefined

datatype Key_State = UNLOCK | LOCK

datatype operation =
    Set bytes bytes "64 word"
  | TCC_Try "bytes list" "bytes list" "64 word"
  | TCC_Commit "bytes list" "64 word"
  | TCC_Cancel "bytes list" "bytes list" "64 word"

datatype reply = Truth bool | Values "bytes list"

text \<open>The local variables of a request; \<^verbatim>\<open>rq_entry\<close> is set once \<^verbatim>\<open>r_server->start\<close> has returned.\<close>

record request =
  rq_op :: operation
  rq_log :: DB_log
  rq_entry :: "LogEntry option"

text \<open>A \<^verbatim>\<open>Value\<close> is a string, whether it has a mutex, and a version.\<close>

record 'db node =
  raft :: server
  db :: 'db
  channels :: "64 word \<rightharpoonup> channel"
  m_seqid :: "64 word"
  reads :: "64 word"
  writes :: "64 word"
  m_values :: "bytes \<rightharpoonup> bytes \<times> bool \<times> 64 word"
  m_states :: "bytes \<rightharpoonup> Key_State"
  is_create_snapshot_run :: bool
  pending :: "64 word \<rightharpoonup> request"
  answers :: "64 word \<rightharpoonup> reply"

definition kv_server :: "server \<Rightarrow> 'db \<Rightarrow> 'db node" where
  "kv_server s d =
     \<lparr>raft = s, db = d, channels = Map.empty, m_seqid = 0, reads = 0, writes = 0, m_values = Map.empty,
      m_states = Map.empty, is_create_snapshot_run = False, pending = Map.empty, answers = Map.empty\<rparr>"

subsection \<open>Requests\<close>

fun joinStrings :: "bytes list \<Rightarrow> bytes list \<Rightarrow> bytes option" where
  "joinStrings [] vals = Some []"
| "joinStrings (k # keys) [] = None"
| "joinStrings (k # keys) (v # vals) = map_option (\<lambda>r. v @ [44] @ r) (joinStrings keys vals)"

definition joinKeys :: "bytes list \<Rightarrow> bytes" where "joinKeys keys = concat (map (\<lambda>k. k @ [44]) keys)"

text \<open>
  The key and the value that are logged; \<^term>\<open>None\<close> if \<^verbatim>\<open>vals[i]\<close> is outside the vector.  The mode
  and the version of \<^verbatim>\<open>appendlog\<close> are not logged.
\<close>

fun logged :: "operation \<Rightarrow> (bytes \<times> bytes) option" where
  "logged (Set key value version) = Some (key, value)"
| "logged (TCC_Try keys vals version) = map_option (Pair (joinKeys keys)) (joinStrings keys vals)"
| "logged (TCC_Commit keys version) = Some (joinKeys keys, [])"
| "logged (TCC_Cancel keys vals version) = map_option (Pair (joinKeys keys)) (joinStrings keys vals)"

definition openRequest :: "operation \<Rightarrow> 'db node \<Rightarrow> kv_error + 'db node" where
  "openRequest op n =
     (if state (raft n) \<noteq> Leader_State then Inl Not_Leader
      else case logged op of
             None \<Rightarrow> Inl Undefined
           | Some (k, v) \<Rightarrow>
               let i = m_seqid n
               in Inr (n\<lparr>writes := writes n + 1, m_seqid := i + 1,
                         channels := (channels n)(i \<mapsto> \<lparr>ch_closed = False, ch_capacity = 1, ch_queue = []\<rparr>),
                         pending := (pending n)(i \<mapsto>
                           \<lparr>rq_op = op, rq_log = \<lparr>db_id = i, db_key = k, db_value = v\<rparr>, rq_entry = None\<rparr>)\<rparr>))"

definition startRequest :: "64 word \<Rightarrow> 'db node \<Rightarrow> 'db node option" where
  "startRequest i n =
     (case pending n i of
        None \<Rightarrow> None
      | Some rq \<Rightarrow>
          if rq_entry rq \<noteq> None then None
          else let (e, s) = start (of_bytes (write_DB_log (rq_log rq))) (raft n)
               in Some (n\<lparr>raft := s, pending := (pending n)(i \<mapsto> rq\<lparr>rq_entry := Some e\<rparr>)\<rparr>))"

text \<open>What the handlers do after \<^verbatim>\<open>appendlog\<close>.  \<^verbatim>\<open>m_values[key]\<close> inserts the key if it is missing.\<close>

definition value_of :: "'db node \<Rightarrow> bytes \<Rightarrow> bytes \<times> bool \<times> 64 word" where
  "value_of n key = (case m_values n key of None \<Rightarrow> ([], False, 0) | Some v \<Rightarrow> v)"

fun touch :: "bytes list \<Rightarrow> 'db node \<Rightarrow> bytes list \<times> 'db node" where
  "touch [] n = ([], n)"
| "touch (key # keys) n =
     (let v = value_of n key; (vs, n') = touch keys (n\<lparr>m_values := (m_values n)(key \<mapsto> v)\<rparr>)
      in (fst v # vs, n'))"

definition unlock :: "bytes list \<Rightarrow> 'db node \<Rightarrow> 'db node" where
  "unlock keys n = n\<lparr>m_states := fold (\<lambda>key m. m(key \<mapsto> UNLOCK)) keys (m_states n)\<rparr>"

fun finish :: "operation \<Rightarrow> bool \<Rightarrow> 'db node \<Rightarrow> reply \<times> 'db node" where
  "finish (Set key value version) ok n = (Truth ok, n)"
| "finish (TCC_Try keys vals version) ok n =
     (if ok then let (vs, n') = touch keys n in (Values vs, n') else (Values [], n))"
| "finish (TCC_Commit keys version) ok n = (if ok then (Truth True, unlock keys n) else (Truth False, n))"
| "finish (TCC_Cancel keys vals version) ok n = (Truth True, if ok then unlock keys n else n)"

text \<open>The default \<^verbatim>\<open>LogEntry{}\<close>, which \<^verbatim>\<open>tmp\<close> keeps when the channel is closed.\<close>

definition default_entry :: LogEntry where
  "default_entry = \<lparr>le_index = -1, le_term = -1, le_value = []\<rparr>"

definition returnRequest :: "64 word \<Rightarrow> 'db node \<Rightarrow> 'db node option" where
  "returnRequest i n =
     (case (pending n i, channels n i) of
        (Some rq, Some c) \<Rightarrow>
          (case (rq_entry rq, pop c) of
             (Some e, Some (t, c')) \<Rightarrow>
               let tmp = (case t of None \<Rightarrow> default_entry | Some t \<Rightarrow> t);
                   n' = n\<lparr>channels := (channels n)(i := None), pending := (pending n)(i := None)\<rparr>;
                   (r, n'') = finish (rq_op rq) (tmp = e) n'
               in Some (n''\<lparr>answers := (answers n)(i \<mapsto> r)\<rparr>)
           | _ \<Rightarrow> None)
      | _ \<Rightarrow> None)"

definition timeout :: "64 word \<Rightarrow> 'db node \<Rightarrow> 'db node option" where
  "timeout i n =
     (case (pending n i, channels n i) of
        (Some rq, Some c) \<Rightarrow>
          if rq_entry rq = None then None else Some (n\<lparr>channels := (channels n)(i \<mapsto> close c)\<rparr>)
      | _ \<Rightarrow> None)"

subsection \<open>The apply loop\<close>

text \<open>The command of an entry; \<^term>\<open>None\<close> if the loop skips the entry.\<close>

definition command_of :: "LogEntry \<Rightarrow> DB_log option" where
  "command_of e = (if le_value e = [] then None else map_option fst (read_DB_log (to_bytes (le_value e))))"

text \<open>
  One turn of the loop.  It waits (\<^term>\<open>None\<close>) while the channel of its identifier is full, or for
  ever if the data base refuses every \<^verbatim>\<open>Put\<close>.
\<close>

definition deliver :: "'db leveldb \<Rightarrow> LogEntry \<Rightarrow> 'db node \<Rightarrow> 'db node option" where
  "deliver L e n =
     (case command_of e of
        None \<Rightarrow> Some n
      | Some l \<Rightarrow>
          (case putLoop L (db_key l) (db_value l) (db n) of
             None \<Rightarrow> None
           | Some d \<Rightarrow>
               (case channels n (db_id l) of
                  None \<Rightarrow> Some (n\<lparr>db := d\<rparr>)
                | Some c \<Rightarrow>
                    (case push e c of
                       None \<Rightarrow> None
                     | Some (_, c') \<Rightarrow> Some (n\<lparr>db := d, channels := (channels n)(db_id l \<mapsto> c')\<rparr>)))))"

subsection \<open>Reads, snapshots and states\<close>

definition get :: "'db leveldb \<Rightarrow> bool \<Rightarrow> bytes \<Rightarrow> 'db node \<Rightarrow> (kv_error + bytes) \<times> 'db node" where
  "get L line_read key n =
     (if state (raft n) \<noteq> Leader_State \<and> line_read then (Inl Not_Leader, n)
      else let n' = n\<lparr>reads := reads n + 1\<rparr>;
               v = (case Get L key (db n') of None \<Rightarrow> [] | Some v \<Rightarrow> v)
           in (if v = [] then Inl Not_Find else Inr v, n'))"

fun putAll :: "'db leveldb \<Rightarrow> (bytes \<times> bytes) list \<Rightarrow> 'db \<Rightarrow> 'db option" where
  "putAll L [] d = Some d"
| "putAll L ((k, v) # shot) d = Option.bind (putLoop L k v d) (putAll L shot)"

definition ApplySnapshot :: "'db leveldb \<Rightarrow> (bytes \<times> bytes) list \<Rightarrow> 'db node \<Rightarrow> 'db node option" where
  "ApplySnapshot L shot n = map_option (\<lambda>d. n\<lparr>db := d\<rparr>) (putAll L shot (db n))"

definition createSnapshot :: "'db node \<Rightarrow> bool \<times> 'db node" where
  "createSnapshot n =
     (if is_create_snapshot_run n then (False, n) else (True, n\<lparr>is_create_snapshot_run := True\<rparr>))"

text \<open>
  The exit status of the process that writes the snapshot: \<^verbatim>\<open>eio\<close> tells that \<^verbatim>\<open>fsync\<close> failed with
  \<^verbatim>\<open>EIO\<close>, \<^verbatim>\<open>sys\<close> is the result of \<^verbatim>\<open>system("ln -f ...")\<close>.
\<close>

definition snapshotChild :: "bool \<Rightarrow> int \<Rightarrow> 8 word" where
  "snapshotChild eio sys = (if eio then -1 else if sys \<noteq> -1 then 1 else -1)"

text \<open>The parent; \<^term>\<open>None\<close> is a child that did not exit by itself.\<close>

definition snapshotPersisent :: "8 word option \<Rightarrow> 'db node \<Rightarrow> bool \<times> 'db node" where
  "snapshotPersisent status n =
     (case status of
        Some s \<Rightarrow> if s \<noteq> 0 then (True, n\<lparr>is_create_snapshot_run := False\<rparr>) else (False, n)
      | None \<Rightarrow> (False, n))"

definition GetOps :: "'db node \<Rightarrow> 64 word \<times> 64 word" where "GetOps n = (reads n, writes n)"

definition GetState :: "'db node \<Rightarrow> int" where
  "GetState n = (case state (raft n) of Leader_State \<Rightarrow> 1 | Candidate_State \<Rightarrow> 2 | Follower_State \<Rightarrow> 3)"

text \<open>
  \<^verbatim>\<open>clean\<close> locks the mutex of every key that has a state and writes to a copy of the state;
  \<^term>\<open>None\<close> is a null pointer that is followed.  The keys are given in the order of the hash map.
\<close>

fun cleanLoop :: "bytes list \<Rightarrow> 'db node \<Rightarrow> 'db node option" where
  "cleanLoop [] n = Some n"
| "cleanLoop (key # keys) n =
     (let (s, mutex, ver) = value_of n key
      in if mutex then cleanLoop keys (n\<lparr>m_values := (m_values n)(key \<mapsto> (s, mutex, ver))\<rparr>) else None)"

subsection \<open>Splitting the joined keys\<close>

text \<open>
  \<^verbatim>\<open>std::string::find\<close> of one character from a position; \<^verbatim>\<open>npos\<close> is the largest 64-bit number, so
  that \<^verbatim>\<open>next + 1\<close> wraps to 0.
\<close>

definition find_from :: "8 word \<Rightarrow> bytes \<Rightarrow> nat \<Rightarrow> nat option" where
  "find_from c s pos =
     (let r = takeWhile (\<lambda>b. b \<noteq> c) (drop pos s)
      in if pos + length r < length s then Some (pos + length r) else None)"

partial_function (option) splitLoop :: "8 word \<Rightarrow> bytes \<Rightarrow> nat \<Rightarrow> bytes list \<Rightarrow> bytes list option" where
  "splitLoop flag s pos ret =
     (let nxt = find_from flag s pos;
          tmp = (case nxt of None \<Rightarrow> drop pos s | Some j \<Rightarrow> take (j - pos) (drop pos s));
          pos' = (case nxt of None \<Rightarrow> 0 | Some j \<Rightarrow> j + 1)
      in if pos' < length s then splitLoop flag s pos' (ret @ [tmp]) else Some (ret @ [tmp]))"

definition split :: "bytes \<Rightarrow> 8 word \<Rightarrow> bytes list option" where "split s flag = splitLoop flag s 0 []"

subsection \<open>Runs\<close>

text \<open>
  What can happen at a server.  \<^verbatim>\<open>Raft s\<close> is any change of the state of the Raft server by its own
  fibres; an event that is not enabled is \<^term>\<open>None\<close>.
\<close>

datatype kv_event =
    Open operation
  | Start "64 word"
  | Deliver LogEntry
  | Timeout "64 word"
  | Return "64 word"
  | Raft server
  | Read bytes
  | Install "(bytes \<times> bytes) list"

fun kv_step :: "'db leveldb \<Rightarrow> kv_event \<Rightarrow> 'db node \<Rightarrow> 'db node option" where
  "kv_step L (Open op) n = (case openRequest op n of Inl _ \<Rightarrow> Some n | Inr n' \<Rightarrow> Some n')"
| "kv_step L (Start i) n = startRequest i n"
| "kv_step L (Deliver e) n = deliver L e n"
| "kv_step L (Timeout i) n = timeout i n"
| "kv_step L (Return i) n = returnRequest i n"
| "kv_step L (Raft s) n = Some (n\<lparr>raft := s\<rparr>)"
| "kv_step L (Read key) n = Some (snd (get L True key n))"
| "kv_step L (Install shot) n = ApplySnapshot L shot n"

abbreviation kv_run :: "'db leveldb \<Rightarrow> kv_event list \<Rightarrow> 'db node \<Rightarrow> 'db node option" where
  "kv_run L \<equiv> runs (kv_step L)"

section \<open>The contents of the data base\<close>

text \<open>
  What the server relies on of LevelDB: a \<^verbatim>\<open>Put\<close> with a good status writes its key and no other, one
  with a bad status leaves the other keys alone, and a \<^verbatim>\<open>Put\<close> that is repeated succeeds in the end (the
  measure bounds how often it fails).
\<close>

definition leveldb_ok :: "'db leveldb \<Rightarrow> ('db \<Rightarrow> nat) \<Rightarrow> bool" where
  "leveldb_ok L m \<longleftrightarrow>
     (\<forall>k v d. let (ok, d') = Put L k v d
              in (\<forall>k'. k' \<noteq> k \<longrightarrow> Get L k' d' = Get L k' d) \<and>
                 (if ok then Get L k d' = Some v else m d' < m d))"

definition contents :: "'db leveldb \<Rightarrow> 'db \<Rightarrow> bytes \<rightharpoonup> bytes" where "contents L d = (\<lambda>k. Get L k d)"

lemma putLoop_ok:
  assumes "leveldb_ok L m"
  shows "\<exists>d'. putLoop L k v d = Some d' \<and> contents L d' = (contents L d)(k \<mapsto> v)"
proof (induction "m d" arbitrary: d rule: less_induct)
  case less
  obtain ok d1 where p: "Put L k v d = (ok, d1)" by fastforce
  have L: "\<And>k'. k' \<noteq> k \<Longrightarrow> Get L k' d1 = Get L k' d" "if ok then Get L k d1 = Some v else m d1 < m d"
    using assms [unfolded leveldb_ok_def, rule_format, of k v d] p by auto
  show ?case
  proof (cases ok)
    case True
    then show ?thesis using L p by (subst putLoop.simps) (auto simp: contents_def)
  next
    case False
    then obtain d' where "putLoop L k v d1 = Some d'" "contents L d' = (contents L d1)(k \<mapsto> v)"
      using less [of d1] L(2) by auto
    then show ?thesis using False L(1) p by (subst putLoop.simps) (auto simp: contents_def fun_eq_iff)
  qed
qed

lemma putAll_ok:
  assumes "leveldb_ok L m"
  shows "\<exists>d'. putAll L shot d = Some d' \<and> contents L d' = contents L d ++ map_of (rev shot)"
proof (induction shot arbitrary: d)
  case Nil
  then show ?case by simp
next
  case (Cons kv shot)
  obtain d1 where d1: "putLoop L (fst kv) (snd kv) d = Some d1" "contents L d1 = (contents L d)(fst kv \<mapsto> snd kv)"
    using putLoop_ok [OF assms] by metis
  obtain d' where "putAll L shot d1 = Some d'" "contents L d' = contents L d1 ++ map_of (rev shot)"
    using Cons by blast
  then show ?case using d1 by (cases kv) simp
qed

text \<open>What an event does to the map from keys to values.\<close>

fun kv_effect :: "kv_event \<Rightarrow> (bytes \<rightharpoonup> bytes) \<Rightarrow> (bytes \<rightharpoonup> bytes)" where
  "kv_effect (Deliver e) m = (case command_of e of None \<Rightarrow> m | Some l \<Rightarrow> m(db_key l \<mapsto> db_value l))"
| "kv_effect (Install shot) m = m ++ map_of (rev shot)"
| "kv_effect _ m = m"

lemma touch_db [simp]: "db (snd (touch keys n)) = db n"
  by (induction keys n rule: touch.induct) (auto simp: Let_def split: prod.splits)

lemma finish_db [simp]: "db (snd (finish op ok n)) = db n"
proof (cases op)
  case (TCC_Try keys vals ver)
  then show ?thesis using touch_db [of keys n] by (cases "touch keys n") simp
qed (simp_all add: unlock_def)

lemma finish_dbD: "finish op ok n = (r, n') \<Longrightarrow> db n' = db n"
  using finish_db [of op ok n] by simp

lemma returnRequestE:
  assumes "returnRequest i n = Some n'"
  obtains rq c e t c' where
    "pending n i = Some rq" "channels n i = Some c" "rq_entry rq = Some e" "pop c = Some (t, c')"
    "n' = (case finish (rq_op rq) ((case t of None \<Rightarrow> default_entry | Some t \<Rightarrow> t) = e)
             (n\<lparr>channels := (channels n)(i := None), pending := (pending n)(i := None)\<rparr>) of
             (r, n'') \<Rightarrow> n''\<lparr>answers := (answers n)(i \<mapsto> r)\<rparr>)"
  using assms unfolding returnRequest_def Let_def by (auto split: option.splits prod.splits)

lemma returnRequest_db: "returnRequest i n = Some n' \<Longrightarrow> db n' = db n"
  by (erule returnRequestE) (auto dest: finish_dbD split: prod.splits)

lemma deliver_ok:
  assumes "leveldb_ok L m" "deliver L e n = Some n'"
  shows "contents L (db n') = kv_effect (Deliver e) (contents L (db n))"
proof (cases "command_of e")
  case (Some l)
  obtain d where "putLoop L (db_key l) (db_value l) (db n) = Some d"
    "contents L d = (contents L (db n))(db_key l \<mapsto> db_value l)"
    using putLoop_ok [OF assms(1)] by metis
  then show ?thesis using assms(2) Some by (auto simp: deliver_def split: option.splits)
qed (use assms in \<open>simp add: deliver_def\<close>)

lemma kv_step_ok:
  assumes "leveldb_ok L m" "kv_step L ev n = Some n'"
  shows "contents L (db n') = kv_effect ev (contents L (db n))"
proof (cases ev)
  case (Open op)
  then show ?thesis using assms(2) by (auto simp: openRequest_def Let_def split: if_splits option.splits)
next
  case (Start i)
  then show ?thesis using assms(2) by (auto simp: startRequest_def split: if_splits option.splits prod.splits)
next
  case (Deliver e)
  then show ?thesis using assms deliver_ok by simp
next
  case (Timeout i)
  then show ?thesis using assms(2) by (auto simp: timeout_def split: if_splits option.splits)
next
  case (Return i)
  then show ?thesis using assms(2) by (simp add: returnRequest_db)
next
  case (Read key)
  then show ?thesis using assms(2) by (auto simp: get_def Let_def)
next
  case (Install shot)
  then show ?thesis using assms(2) putAll_ok [OF assms(1), of shot "db n"] by (auto simp: ApplySnapshot_def)
qed (use assms in auto)


text \<open>A data base whose every second \<^verbatim>\<open>Put\<close> fails.\<close>

definition flaky :: "(bool \<times> (bytes \<rightharpoonup> bytes)) leveldb" where
  "flaky = \<lparr>Put = \<lambda>k v (ready, m). if ready then (True, False, m(k \<mapsto> v)) else (False, True, m),
            Get = \<lambda>k (ready, m). m k\<rparr>"

lemma flaky_ok: "leveldb_ok flaky (\<lambda>(ready, m). if ready then 0 else 1)"
  by (simp add: leveldb_ok_def flaky_def split: prod.splits)

lemma flaky_put: "putLoop flaky k v (ready, m) = Some (False, m(k \<mapsto> v))"
proof -
  have p: "Put flaky k v (True, m) = (True, False, m(k \<mapsto> v))" "Put flaky k v (False, m) = (False, True, m)"
    by (simp_all add: flaky_def)
  have "putLoop flaky k v (True, m) = Some (False, m(k \<mapsto> v))" by (subst putLoop.simps) (simp add: p)
  then show ?thesis by (cases ready) (simp, subst putLoop.simps, simp add: p)
qed

text \<open>A server of three that has just won the election of its first term.\<close>

definition leader :: server where
  "leader = becomeLeader (snd (boardcastRequestVote (Raft_Server 0 3 False 3 100 False False (\<lambda>_. []))))"


section \<open>Acknowledged requests\<close>

text \<open>
  What waits in a channel has been delivered, and a request holds either the default entry or the
  entry of its own command.
\<close>

definition queue_ok :: "kv_event set \<Rightarrow> channel \<Rightarrow> bool" where
  "queue_ok S c \<longleftrightarrow> Deliver ` set (ch_queue c) \<subseteq> S"

definition request_ok :: "64 word \<Rightarrow> request \<Rightarrow> bool" where
  "request_ok i rq \<longleftrightarrow>
     logged (rq_op rq) = Some (db_key (rq_log rq), db_value (rq_log rq)) \<and> db_id (rq_log rq) = i \<and>
     (\<forall>e. rq_entry rq = Some e \<longrightarrow> e = default_entry \<or> le_value e = of_bytes (write_DB_log (rq_log rq)))"

definition kv_inv :: "kv_event set \<Rightarrow> (64 word \<rightharpoonup> channel) \<Rightarrow> (64 word \<rightharpoonup> request) \<Rightarrow> bool" where
  "kv_inv S chans reqs \<longleftrightarrow>
     (\<forall>i c. chans i = Some c \<longrightarrow> queue_ok S c) \<and> (\<forall>i rq. reqs i = Some rq \<longrightarrow> request_ok i rq)"

lemma kv_inv_update:
  assumes "kv_inv S chans reqs"
  shows "queue_ok S c \<Longrightarrow> kv_inv S (chans(i \<mapsto> c)) reqs"
    and "request_ok i rq \<Longrightarrow> kv_inv S chans (reqs(i \<mapsto> rq))"
    and "kv_inv S (chans(i := None)) (reqs(i := None))"
  using assms by (simp_all add: kv_inv_def)

lemma kv_inv_lookup:
  assumes "kv_inv S chans reqs"
  shows "chans i = Some c \<Longrightarrow> queue_ok S c" "reqs i = Some rq \<Longrightarrow> request_ok i rq"
  using assms by (simp_all add: kv_inv_def)

lemma touch_frame [simp]: "channels (snd (touch keys n)) = channels n" "pending (snd (touch keys n)) = pending n"
  by (induction keys n rule: touch.induct) (auto simp: Let_def split: prod.splits)

lemma finish_frame:
  assumes "finish op ok n = (r, n')"
  shows "channels n' = channels n \<and> pending n' = pending n"
proof -
  have "channels (snd (finish op ok n)) = channels n \<and> pending (snd (finish op ok n)) = pending n"
    by (cases op) (simp_all add: unlock_def split_beta)
  then show ?thesis using assms by simp
qed

lemma open_inv:
  assumes "openRequest op n = Inr n'" "kv_inv S (channels n) (pending n)"
  shows "kv_inv S (channels n') (pending n')"
  using assms by (auto simp: openRequest_def Let_def queue_ok_def request_ok_def
      intro!: kv_inv_update(1,2) split: if_splits option.splits)

lemma start_inv:
  assumes "startRequest i n = Some n'" "kv_inv S (channels n) (pending n)"
  shows "kv_inv S (channels n') (pending n')"
proof -
  obtain rq e s where rq: "pending n i = Some rq" "start (of_bytes (write_DB_log (rq_log rq))) (raft n) = (e, s)"
    and n': "n' = n\<lparr>raft := s, pending := (pending n)(i \<mapsto> rq\<lparr>rq_entry := Some e\<rparr>)\<rparr>"
    using assms(1) by (auto simp: startRequest_def split: option.splits if_splits prod.splits)
  then have "e = default_entry \<or> le_value e = of_bytes (write_DB_log (rq_log rq))"
    by (auto simp: start_def default_entry_def Let_def split: if_splits)
  then have "request_ok i (rq\<lparr>rq_entry := Some e\<rparr>)"
    using kv_inv_lookup(2) [OF assms(2) rq(1)] by (simp add: request_ok_def)
  then show ?thesis using n' kv_inv_update(2) [OF assms(2)] by simp
qed

lemma deliver_inv:
  assumes "deliver L e n = Some n'" "kv_inv S (channels n) (pending n)" "Deliver e \<in> S"
  shows "kv_inv S (channels n') (pending n')"
proof -
  have "queue_ok S c'" if "push e c = Some (b, c')" "channels n i = Some c" for i b c c'
    using that assms(3) kv_inv_lookup(1) [OF assms(2) that(2)] by (auto simp: push_def queue_ok_def image_subset_iff split: if_splits)
  then show ?thesis using assms(1,2)
    by (auto simp: deliver_def intro!: kv_inv_update(1) split: option.splits)
qed

lemma kv_step_inv:
  assumes "kv_step L ev n = Some n'" "kv_inv S (channels n) (pending n)" "ev \<in> S"
  shows "kv_inv S (channels n') (pending n')"
proof (cases ev)
  case (Open op)
  then show ?thesis using assms open_inv by (auto split: sum.splits)
next
  case (Start i)
  then show ?thesis using assms start_inv by simp
next
  case (Deliver e)
  then show ?thesis using assms deliver_inv by simp
next
  case (Timeout i)
  then show ?thesis using assms(1,2)
    by (auto simp: timeout_def close_def queue_ok_def dest: kv_inv_lookup(1) intro!: kv_inv_update(1)
        split: if_splits option.splits)
next
  case (Return i)
  then have "returnRequest i n = Some n'" using assms(1) by simp
  then show ?thesis using assms(2) kv_inv_update(3) [OF assms(2), of i]
    by (elim returnRequestE) (auto dest!: finish_frame split: prod.splits)
next
  case (Install shot)
  then show ?thesis using assms by (auto simp: ApplySnapshot_def)
qed (use assms in \<open>auto simp: get_def Let_def\<close>)

interpretation queues: step_invariant "kv_step L" "\<lambda>ev. ev \<in> S" "\<lambda>n. kv_inv S (channels n) (pending n)" for L S
  by unfold_locales (rule kv_step_inv)

lemma to_of_bytes [simp]: "to_bytes (of_bytes bs) = bs"
proof -
  have "word_of_nat (unat b mod 256) = b" for b :: "8 word" using unsigned_less [of b, where ?'a = nat] by simp
  then show ?thesis by (simp add: to_bytes_def of_bytes_def comp_def)
qed

lemma command_of_logged:
  assumes "le_value e = of_bytes (write_DB_log l)" "length (db_key l) < 2 ^ 64" "length (db_value l) < 2 ^ 64"
  shows "command_of e = Some l"
proof -
  have "of_bytes (write_DB_log l) \<noteq> []" by (simp add: of_bytes_def write_DB_log_def writeUint64_def)
  then show ?thesis using assms read_DB_log_write [of l "[]"] by (simp add: command_of_def)
qed

text \<open>
  C3: A \<^verbatim>\<open>set\<close> that the server started as leader and that returns true has been applied: in every
  interleaving the entry of the request has been delivered to the data base, and what was
  written is its key and its value.
\<close>

theorem acknowledged_applied:
  assumes "kv_run L evs (kv_server s d) = Some n" "pending n i = Some rq" "rq_op rq = Set k v ver"
    "rq_entry rq = Some e" "e \<noteq> default_entry" "length k < 2 ^ 64" "length v < 2 ^ 64"
    "returnRequest i n = Some n'" "answers n' i = Some (Truth True)"
  shows "Deliver e \<in> set evs \<and> command_of e = Some \<lparr>db_id = i, db_key = k, db_value = v\<rparr>"
proof -
  have inv: "kv_inv (set evs) (channels n) (pending n)"
    using assms(1) by (rule queues.runs_inv) (simp_all add: kv_server_def kv_inv_def list_all_iff)
  then have r: "request_ok i rq" using assms(2) by (rule kv_inv_lookup)
  obtain c c' where c: "channels n i = Some c" "pop c = Some (Some e, c')"
    using assms(8) by (rule returnRequestE) (use assms(2-5,9) in \<open>auto split: option.splits\<close>)
  then have "e \<in> set (ch_queue c)" by (auto simp: pop_def split: if_splits list.splits)
  then have "Deliver e \<in> set evs" using kv_inv_lookup(1) [OF inv c(1)] by (auto simp: queue_ok_def)
  moreover have "rq_log rq = \<lparr>db_id = i, db_key = k, db_value = v\<rparr>"
    using r assms(3) by (cases "rq_log rq") (simp add: request_ok_def)
  ultimately show ?thesis using r assms(4-7) command_of_logged [of e "rq_log rq"] by (auto simp: request_ok_def)
qed

theorem acknowledged_applied_witness:
  "let e = fst (start (of_bytes [0, 1, 107, 1, 1]) leader) in command_of e = Some \<lparr>db_id = 0, db_key = [107], db_value = [1]\<rparr>"
proof -
  obtain e s where es: "start (of_bytes [0, 1, 107, 1, 1]) leader = (e, s)" by fastforce
  let ?evs = "[Open (Set [107] [1] 5), Start 0, Deliver e]"
  have st: "state leader = Leader_State" by code_simp
  have w: "write_DB_log \<lparr>db_id = 0, db_key = [107], db_value = [1]\<rparr> = [0, 1, 107, 1, 1]" by code_simp
  have "command_of (fst (start (of_bytes [0, 1, 107, 1, 1]) leader)) = Some \<lparr>db_id = 0, db_key = [107], db_value = [1]\<rparr>"
    by code_simp
  then have c: "command_of e = Some \<lparr>db_id = 0, db_key = [107], db_value = [1]\<rparr>" using es by simp
  then have d: "e \<noteq> default_entry" by (auto simp: command_of_def default_entry_def)
  note run = es kv_server_def openRequest_def st startRequest_def w deliver_def c flaky_put push_def returnRequest_def pop_def
  obtain n where n: "kv_run flaky ?evs (kv_server leader (True, Map.empty)) = Some n"
    "pending n 0 = Some \<lparr>rq_op = Set [107] [1] 5, rq_log = \<lparr>db_id = 0, db_key = [107], db_value = [1]\<rparr>, rq_entry = Some e\<rparr>"
    "\<exists>n'. returnRequest 0 n = Some n' \<and> answers n' 0 = Some (Truth True)"
    by (simp add: run)
  then obtain n' where "returnRequest 0 n = Some n'" "answers n' 0 = Some (Truth True)" by blast
  then have "command_of e = Some \<lparr>db_id = 0, db_key = [107], db_value = [1]\<rparr>"
    using acknowledged_applied [OF n(1,2), of "[107]" "[1]" 5 e n'] d by simp
  then show ?thesis using es by simp
qed

text \<open>
  C8: A \<^verbatim>\<open>set\<close> can return true although its command is nowhere.  If the server loses the leadership
  between the check in \<^verbatim>\<open>appendlog\<close> and \<^verbatim>\<open>r_server->start\<close>, the latter returns the default entry; no
  one ever sends to the channel, the timer closes it, and the default entry that \<^verbatim>\<open>tmp\<close> still holds
  is equal to it.  Neither the log nor the data base has changed.
\<close>

theorem acknowledged_but_lost:
  assumes "state (raft n) = Leader_State" "state s \<noteq> Leader_State" "i = m_seqid n"
  shows "\<exists>n'. kv_run L [Open (Set k v ver), Raft s, Start i, Timeout i, Return i] n = Some n' \<and>
              answers n' i = Some (Truth True) \<and> raft n' = s \<and> db n' = db n"
  using assms by (simp add: openRequest_def startRequest_def start_def timeout_def close_def returnRequest_def pop_def
      default_entry_def Let_def)

theorem acknowledged_but_lost_witness:
  "\<exists>n'. kv_run flaky [Open (Set [107] [1] 5), Raft (leader\<lparr>state := Follower_State\<rparr>), Start 0, Timeout 0, Return 0]
          (kv_server leader (True, Map.empty)) = Some n' \<and> answers n' 0 = Some (Truth True) \<and> snd (db n') = Map.empty"
proof -
  have "state (raft (kv_server leader (True, Map.empty))) = Leader_State" by code_simp
  from acknowledged_but_lost [OF this, of "leader\<lparr>state := Follower_State\<rparr>" 0 flaky "[107]" "[1]" 5]
  obtain n' where n': "kv_run flaky [Open (Set [107] [1] 5), Raft (leader\<lparr>state := Follower_State\<rparr>), Start 0, Timeout 0, Return 0]
          (kv_server leader (True, Map.empty)) = Some n'" "answers n' 0 = Some (Truth True)"
    "db n' = db (kv_server leader (True, Map.empty :: bytes \<rightharpoonup> bytes))"
    by (auto simp: kv_server_def)
  then have "snd (db n') = Map.empty" by (simp add: kv_server_def)
  then show ?thesis using n'(1,2) by blast
qed

section \<open>Transactions\<close>

lemma joinKeys_longer: "k \<in> set keys \<Longrightarrow> length k < length (joinKeys keys)"
  by (induction keys) (auto simp: joinKeys_def)

lemma joinKeys_other: "k \<in> set keys \<Longrightarrow> joinKeys keys \<noteq> k"
  using joinKeys_longer by fastforce

text \<open>The keys an operation names, where it is one of the three steps of a transaction.\<close>

fun tcc_keys :: "operation \<Rightarrow> bytes list" where
  "tcc_keys (Set key value version) = []"
| "tcc_keys (TCC_Try keys vals version) = keys"
| "tcc_keys (TCC_Commit keys version) = keys"
| "tcc_keys (TCC_Cancel keys vals version) = keys"

text \<open>
  Transactions write nothing.  What a step of a transaction logs is one command for the joined
  keys, and applying it leaves the value of each of its keys as it was: a transaction that was tried
  and committed on every server has not changed any of its keys.
\<close>

theorem transaction_writes_none:
  assumes "key \<in> set (tcc_keys op)" "logged op = Some (k, v)" "length k < 2 ^ 64" "length v < 2 ^ 64"
    "le_value e = of_bytes (write_DB_log \<lparr>db_id = i, db_key = k, db_value = v\<rparr>)"
  shows "kv_effect (Deliver e) m key = m key"
proof -
  have "k \<noteq> key" using assms(1,2) joinKeys_other by (cases op) auto
  then show ?thesis using command_of_logged [OF assms(5)] assms(3,4) by simp
qed

theorem transaction_writes_none_witness:
  "kv_effect (Deliver \<lparr>le_index = 1, le_term = 1, le_value = of_bytes (write_DB_log \<lparr>db_id = 7, db_key = [97, 44], db_value = [49, 44]\<rparr>)\<rparr>)
     Map.empty [97] = None"
  by (subst transaction_writes_none [of _ "TCC_Try [[97]] [[49]] 3" "[97, 44]" "[49, 44]" _ 7]) (simp_all add: joinKeys_def)

section \<open>Redelivery, snapshots and states\<close>

text \<open>
  Entries that are delivered again, as after a restart or when two runs of \<^verbatim>\<open>applyLog\<close> overlap, do no
  harm if they are delivered again up to the last one.
\<close>

lemma fold_effect: "fold kv_effect (map Deliver es) m = m ++ fold kv_effect (map Deliver es) Map.empty"
proof (induction es rule: rev_induct)
  case (snoc e es)
  then show ?case by (cases "command_of e") (simp_all add: map_add_def fun_eq_iff)
qed simp

theorem redelivery_harmless:
  "fold kv_effect (map Deliver (es @ fs @ fs)) m = fold kv_effect (map Deliver (es @ fs)) m"
proof -
  have "(m ++ w) ++ w = m ++ w" for m w :: "bytes \<rightharpoonup> bytes" by (auto simp: map_add_def split: option.splits)
  then show ?thesis using fold_effect [of fs] by (metis fold_append map_append o_apply)
qed

text \<open>
  A snapshot counts as written whatever the process that writes it meets: also when \<^verbatim>\<open>fsync\<close> fails
  with \<^verbatim>\<open>EIO\<close>, since \<^verbatim>\<open>exit(-1)\<close> is not the status 0 either.
\<close>

theorem snapshotPersisent_ignores_failure:
  "fst (snapshotPersisent (Some (snapshotChild eio sys)) n)"
  by (simp add: snapshotPersisent_def snapshotChild_def)

text \<open>And if the process is killed, no snapshot is created any more.\<close>

theorem snapshot_stuck:
  assumes "fst (createSnapshot n)"
  shows "\<not> fst (createSnapshot (snd (snapshotPersisent None (snd (createSnapshot n)))))"
  using assms by (simp add: snapshotPersisent_def createSnapshot_def split: if_splits)

text \<open>
  \<^verbatim>\<open>clean\<close> follows a null pointer as soon as a transaction has been committed: the mutexes are set
  only by \<^verbatim>\<open>Commit\<close>, which has no caller, so that no value has one.
\<close>

definition no_mutex :: "(bytes \<rightharpoonup> bytes \<times> bool \<times> 64 word) \<Rightarrow> bool" where
  "no_mutex vals \<longleftrightarrow> (\<forall>key v. vals key = Some v \<longrightarrow> \<not> fst (snd v))"

lemma value_of_no_mutex: "no_mutex (m_values n) \<Longrightarrow> \<not> fst (snd (value_of n key))"
  by (auto simp: no_mutex_def value_of_def split: option.splits)

lemma no_mutex_touch: "no_mutex (m_values n) \<Longrightarrow> no_mutex (m_values (snd (touch keys n)))"
proof (induction keys n rule: touch.induct)
  case (2 key keys n)
  have "no_mutex (m_values (n\<lparr>m_values := (m_values n)(key \<mapsto> value_of n key)\<rparr>))"
    using 2(2) value_of_no_mutex [OF 2(2), of key] by (auto simp: no_mutex_def)
  then show ?case using 2(1) by (simp add: split_beta Let_def del: fun_upd_apply)
qed simp

lemma no_mutex_finish: "no_mutex (m_values n) \<Longrightarrow> no_mutex (m_values (snd (finish op ok n)))"
  by (cases op) (simp_all add: split_beta unlock_def no_mutex_touch)

lemma no_mutex_step:
  assumes "kv_step L ev n = Some n'" "no_mutex (m_values n)"
  shows "no_mutex (m_values n')"
proof (cases ev)
  case (Open op)
  then show ?thesis using assms by (auto simp: openRequest_def Let_def split: if_splits option.splits)
next
  case (Start i)
  then show ?thesis using assms by (auto simp: startRequest_def split: if_splits option.splits prod.splits)
next
  case (Deliver e)
  then show ?thesis using assms by (auto simp: deliver_def split: option.splits)
next
  case (Timeout i)
  then show ?thesis using assms by (auto simp: timeout_def split: if_splits option.splits)
next
  case (Return i)
  then have "returnRequest i n = Some n'" using assms(1) by simp
  then show ?thesis using assms(2) by (elim returnRequestE) (auto simp: split_beta intro!: no_mutex_finish)
next
  case (Install shot)
  then show ?thesis using assms by (auto simp: ApplySnapshot_def)
qed (use assms in \<open>auto simp: get_def Let_def\<close>)

interpretation mutexes: step_invariant "kv_step L" "\<lambda>_. True" "\<lambda>n. no_mutex (m_values n)" for L
  by unfold_locales (rule no_mutex_step)

theorem clean_null_pointer:
  assumes "kv_run L evs (kv_server s d) = Some n" "keys \<noteq> []"
  shows "cleanLoop keys n = None"
proof -
  have "no_mutex (m_values n)"
    using assms(1) by (rule mutexes.runs_inv) (simp_all add: no_mutex_def kv_server_def list_all_iff)
  then show ?thesis using assms(2) value_of_no_mutex [of n "hd keys"] by (cases keys) (auto split: prod.splits)
qed

section \<open>Splitting\<close>

text \<open>
  \<^verbatim>\<open>split\<close> gives back keys that were joined, unless there is none of them or one contains a comma;
  on a string that does not end with the separator it never returns.
\<close>

lemma find_from_joined:
  assumes "c \<notin> set k"
  shows "find_from c (p @ k @ c # r) (length p) = Some (length p + length k)"
proof -
  have "takeWhile (\<lambda>b. b \<noteq> c) (k @ c # r) = k" using assms by (induction k) auto
  then show ?thesis by (simp add: find_from_def)
qed

lemma splitLoop_joined:
  assumes "list_all (\<lambda>k. 44 \<notin> set k) keys" "keys \<noteq> []"
  shows "splitLoop 44 (p @ joinKeys keys) (length p) ret = Some (ret @ keys)"
  using assms
proof (induction keys arbitrary: p ret)
  case (Cons k keys)
  have j: "joinKeys (k # keys) = k @ 44 # joinKeys keys" by (simp add: joinKeys_def)
  have f: "find_from 44 (p @ k @ 44 # joinKeys keys) (length p) = Some (length p + length k)"
    using Cons.prems by (intro find_from_joined) simp
  show ?case
  proof (cases "keys = []")
    case True
    then show ?thesis using f unfolding j by (subst splitLoop.simps) (simp add: joinKeys_def)
  next
    case False
    have "joinKeys keys \<noteq> []" using False by (cases keys) (simp_all add: joinKeys_def)
    moreover have "splitLoop 44 ((p @ k @ [44]) @ joinKeys keys) (length (p @ k @ [44])) (ret @ [k]) = Some ((ret @ [k]) @ keys)"
      using Cons False by (intro Cons.IH) auto
    ultimately show ?thesis unfolding j by (subst splitLoop.simps) (simp add: f)
  qed
qed simp

theorem split_joinKeys:
  assumes "list_all (\<lambda>k. 44 \<notin> set k) keys" "keys \<noteq> []"
  shows "split (joinKeys keys) 44 = Some keys"
  using splitLoop_joined [OF assms, of "[]" "[]"] by (simp add: split_def)

lemma find_from_SomeD: "find_from c s pos = Some j \<Longrightarrow> pos \<le> length s \<Longrightarrow> j < length s \<and> s ! j = c"
proof -
  assume f: "find_from c s pos = Some j" and "pos \<le> length s"
  let ?n = "length (takeWhile (\<lambda>b. b \<noteq> c) (drop pos s))"
  have j: "j = pos + ?n" "j < length s" using f by (auto simp: find_from_def Let_def split: if_splits)
  then have "\<not> (drop pos s ! ?n \<noteq> c)" by (intro nth_length_takeWhile) simp
  then show ?thesis using j by simp
qed

lemma splitLoop_no_result:
  assumes "splitLoop c s pos ret = Some r"
  shows "\<not> (last s \<noteq> c \<and> pos < length s)"
proof (rule splitLoop.raw_induct [where P = "\<lambda>c s pos ret r. \<not> (last s \<noteq> c \<and> pos < length s)", OF _ assms], rule notI)
  fix f c s pos ret r
  assume ih: "\<And>c s pos ret r. f c s pos ret = Some r \<Longrightarrow> \<not> (last s \<noteq> c \<and> pos < length s)"
    and eq: "(let nxt = find_from c s pos;
          tmp = (case nxt of None \<Rightarrow> drop pos s | Some j \<Rightarrow> take (j - pos) (drop pos s));
          pos' = (case nxt of None \<Rightarrow> 0 | Some j \<Rightarrow> j + 1)
      in if pos' < length s then f c s pos' (ret @ [tmp]) else Some (ret @ [tmp])) = Some r"
    and s: "last s \<noteq> c \<and> pos < length s"
  have "j + 1 < length s" if "find_from c s pos = Some j" for j
  proof -
    have j: "j < length s" "s ! j = c" using find_from_SomeD [OF that] s by simp_all
    then have "j \<noteq> length s - 1" using s last_conv_nth [of s] by (cases "s = []") auto
    then show ?thesis using j(1) by linarith
  qed
  then show False using eq s by (auto simp: Let_def split: option.splits if_splits dest: ih)
qed

theorem split_never_returns:
  assumes "s \<noteq> []" "last s \<noteq> c"
  shows "split s c = None"
  using splitLoop_no_result [of c s 0 "[]"] assms by (cases "split s c") (auto simp: split_def)

end
