(* ===== verification/Spec2Isabelle.thy ===== *)
theory Spec2Isabelle
  imports TimSort_Stack LRU_Cache Geometry Display_List Eventful Animation Component_Mapping Data_Differ Tasks Cluster_Page Class_Registry Raft_Replication Number_Utils Intervals Easing Path_Proxy Slider Treemap Ordinal KV_Server
begin

text \<open>
  \<^bold>\<open>The program.\<close>  The repository is a replicated key-value store written in C++ with a web page to
  administrate it.  A cluster of Raft servers (\<^verbatim>\<open>src/source/raft\<close>) agrees on a log of commands; a
  key-value server (\<^verbatim>\<open>src/source/db/kv_server.cpp\<close>) puts client requests into the log, applies the
  committed entries to LevelDB and answers the clients; commands and entries are stored and sent in
  the byte format of \<^verbatim>\<open>src/source/byte_array.cpp\<close> and \<^verbatim>\<open>src/star/rpc/serializer.h\<close>; both run on a
  library of fibres, sockets and remote calls (\<^verbatim>\<open>src/source\<close>, \<^verbatim>\<open>src/star\<close>).  The page consists of
  \<^verbatim>\<open>src/html/js/cluster.js\<close> and the chart library \<^verbatim>\<open>src/html/js/echarts.js\<close>, which the repository
  carries as one file: the drawing library zrender at the beginning of the file, the charts after it.

  \<^bold>\<open>Conventions.\<close>  A definition has the name of the function it models.  Objects that the code
  shares are addresses in an explicit heap; where no sharing matters they are records.  Code that may
  throw returns a sum or carries an error value, loops whose end depends on an invariant are
  \<^theory_text>\<open>partial_function (option)\<close> or take a measure, and theorems about them state that they return.
  Words of C++ that wrap are words (\<^verbatim>\<open>Serializer\<close>, \<^verbatim>\<open>KV_Server\<close>); JavaScript numbers are exact
  (integers, rationals or reals, with \<^term>\<open>None\<close> for \<^verbatim>\<open>NaN\<close> where the code meets it), so rounding
  is outside the model.  Functions a component is given (comparison functions, callbacks,
  dependency getters, the functions of a task, LevelDB) are arguments of its definitions, and what is
  assumed of them is a hypothesis of the theorems, met by a witness.

  \<^bold>\<open>Shared theories.\<close>  \<^verbatim>\<open>Prelude\<close> has the result types and the lemmas on arrays as concatenated
  segments; \<^verbatim>\<open>Transitions\<close> has sequences of steps and three contracts as locales (steps that keep an
  invariant, steps that simulate a specification, and the same with results), which the LRU cache, the event
  emitter, the categories of an axis, the Raft cluster and the key-value server interpret; \<^verbatim>\<open>Linked_Nodes\<close> has doubly linked chains of heap objects,
  shared by the LRU cache and the animation driver.  \<^verbatim>\<open>TimSort_Search\<close> states the contract of a
  comparison function as the locale that the display list interprets on \<^verbatim>\<open>shapeCompareFunc\<close>.

  \<^bold>\<open>The replicated store.\<close>
  \<^item> \<^verbatim>\<open>Raft\<close>: every handler of \<^verbatim>\<open>raft_server.cpp\<close> (\<^verbatim>\<open>requestVote\<close>, \<^verbatim>\<open>PrepareVote\<close>, \<^verbatim>\<open>appendlog\<close>,
    \<^verbatim>\<open>installsnapshot\<close>, the replies, the timers, \<^verbatim>\<open>start\<close>, \<^verbatim>\<open>applyLog\<close>, \<^verbatim>\<open>persisent\<close>) on a record with the
    fields of the class.  \<^verbatim>\<open>Raft_System\<close>: a cluster of any size as an executable step on servers, files
    and messages under way; a handler is one step, calls are lost, delayed and reordered, and
    servers restart with what their files hold.
  \<^item> \<^verbatim>\<open>Raft_Election\<close>: at most one leader per term as long as no server restarts; a majority of
    up-to-date servers elects a candidate; a restart forgets the vote, and a run with two leaders of one
    term.  \<^verbatim>\<open>Raft_Log\<close>: log matching, and that nothing is ever persisted without asynchronous logging.
    \<^verbatim>\<open>Raft_Replication\<close>: what the commit loop commits and \<^verbatim>\<open>applyLog\<close> sends, and the runs in which a
    late append removes a committed entry or an installed snapshot blocks replication.
  \<^item> \<^verbatim>\<open>Serializer\<close>: variable-length and zigzag integers, strings, log entries and commands; a log file
    that is cut anywhere is read back as a prefix of its entries.
  \<^item> \<^verbatim>\<open>KV_Server\<close>: requests, channels, the apply loop and snapshots over a parameter for LevelDB; the
    contents are the delivered commands, an acknowledged \<^verbatim>\<open>set\<close> was applied if its server was still the
    leader, and the defects found: a \<^verbatim>\<open>set\<close> acknowledged though lost, transactions without effect, a
    null pointer in \<^verbatim>\<open>clean\<close>, snapshot failures that count as success, and a loop in \<^verbatim>\<open>split\<close>.

  \<^bold>\<open>The page.\<close>  \<^verbatim>\<open>Cluster_Page\<close>: the handlers of \<^verbatim>\<open>cluster.js\<close> on the state of the page; select-all is
  consistent in every history, and the responses of the server are never reported.

  \<^bold>\<open>The drawing library in echarts.js.\<close>
  \<^item> \<^verbatim>\<open>TimSort\<close> (definitions), \<^verbatim>\<open>TimSort_Search\<close>, \<^verbatim>\<open>TimSort_Merge\<close>, \<^verbatim>\<open>TimSort_Low\<close>, \<^verbatim>\<open>TimSort_High\<close>,
    \<^verbatim>\<open>TimSort_Correct\<close>, \<^verbatim>\<open>TimSort_Stack\<close>: \<^verbatim>\<open>sort\<close> always returns a stable sort of the range.
  \<^item> \<^verbatim>\<open>Scene\<close> with \<^verbatim>\<open>Scene_Tree\<close> and \<^verbatim>\<open>Scene_Attach\<close>: groups and elements; parent and child links stay
    consistent, and attaching reaches all descendants.  \<^verbatim>\<open>Storage\<close> and \<^verbatim>\<open>Display_List\<close>: the display list
    holds the visible elements in painting order; this uses the correctness of the sort.
  \<^item> \<^verbatim>\<open>LRU_Cache\<close>: the cache refines a list of bindings.  \<^verbatim>\<open>Color\<close> with \<^verbatim>\<open>Color_Hsl\<close>, \<^verbatim>\<open>Color_Strings\<close>,
    \<^verbatim>\<open>Color_Cache\<close> and \<^verbatim>\<open>Color_Props\<close>: parsing, converting and printing colours; the cache of parsed
    colours, which uses the LRU cache, is transparent.
  \<^item> \<^verbatim>\<open>Eventful\<close>, \<^verbatim>\<open>Animation\<close>, \<^verbatim>\<open>Easing\<close>, \<^verbatim>\<open>Geometry\<close>: event handlers, animation clips, easing functions,
    vectors, matrices and rectangles.
  \<^item> \<^verbatim>\<open>Curves\<close>: Bezier curves, their roots, extrema, subdivision, projection and length; the roots are exact
    away from the tolerances, and evenly traversed lines have none.  \<^verbatim>\<open>Curve_Bounds\<close>: the smallest boxes of curves and
    arcs.  \<^verbatim>\<open>Path_Contain\<close>: hit tests; a polygon contains nothing outside its box, a rectangle exactly its points, and
    the winding of a cubic curve can depend on earlier calls.  \<^verbatim>\<open>Path_Proxy\<close>: recording a path, its bounding box, its
    length and drawing it again, which repeats the calls of the first drawing; a part of a polyline has its share of
    the length, and the lengths shift when the point before the closing is repeated.

  \<^bold>\<open>The charts in echarts.js.\<close>
  \<^item> \<^verbatim>\<open>Component_Mapping\<close>: \<^verbatim>\<open>mappingToExists\<close> uses every option once and gives unique ids.
    \<^verbatim>\<open>Class_Registry\<close> and \<^verbatim>\<open>Component_Deps\<close>: registered classes and the order in which components are
    visited.  \<^verbatim>\<open>Data_Differ\<close>: every item is added, updated or removed exactly once.  \<^verbatim>\<open>Tasks\<close>: the frames
    of a streaming task tile the data.
  \<^item> \<^verbatim>\<open>Number_Utils\<close> and \<^verbatim>\<open>Intervals\<close>: percentages, nice numbers, quantiles and interval lists.
  \<^item> \<^verbatim>\<open>Treemap\<close>: the squarified layout; the children of a node get places that do not overlap and have areas in
    proportion to their values.  \<^verbatim>\<open>Slider\<close>: \<^verbatim>\<open>sliderMove\<close> keeps a window in its extent and its spans.
  \<^item> \<^verbatim>\<open>Ordinal\<close>: categories and the scale on them; the map of the categories is not observable, except when
    duplicates are kept, and ordinal numbers and ticks are translated into each other after an axis is sorted.

  \<^bold>\<open>Bounds and fuel.\<close>  No theorem fixes the size of a cluster, an array or a scene.  The sort assumes
  fewer than \<open>2 ^ 30\<close> elements, where the shifts of the source are exact; the serializer assumes that
  strings are shorter than \<open>2 ^ 64\<close> bytes and that indices and terms fit in 32 bits.  Where a loop
  has a measure it is stated with the loop; concrete runs in witnesses evaluate the definitions.

  \<^bold>\<open>Not modelled.\<close>  The transport (sockets, fibres, timers, hooked system calls, HTTP, remote calls and
  their clients), configuration and logging are effects of the operating system; the models of the
  servers take an arbitrary order of their events instead.  Of the chart library the painters and DOM
  handling are effects of the browser, and the chart types, coordinate systems and option models are
  configuration and floating-point layout on top of the modelled parts.  \<^verbatim>\<open>src/star/json.h\<close> is
  third-party.  Functions of modelled files that are left out are named in the header of their theory.
\<close>

end
